(* ===== verification/Prelude.thy ===== *)
theory Prelude
  imports Main "HOL-Library.AList" "HOL-Library.Product_Lexorder" "HOL-Library.Char_ord"
    "HOL-Library.List_Lexorder" "HOL-Library.Sublist" "HOL-Library.Multiset"
begin

text \<open>
  What every component of the development shares: the lemma collections, the association lists
  that stand for Go maps (an order of entries is the order in which one \<open>range\<close> loop visits
  the map), the few functions of Go's \<open>strings\<close> package the code calls, and the laws of a
  bounded queue that evicts its oldest element, stated once as a locale.

  Strings are byte strings (\<^typ>\<open>char list\<close>). \<open>strings.ToLower\<close> and \<open>strings.TrimSpace\<close> are
  modelled on their ASCII behaviour; a non-ASCII byte is left alone by both.
\<close>

named_theorems kv_simps \<open>lookups and updates of association lists\<close>
named_theorems str_simps \<open>unfolding rules of the string functions, for evaluation\<close>
named_theorems inv_intros \<open>introduction rules for invariants\<close>

section \<open>Fallible results\<close>

text \<open>A Go function returning \<open>(T, error)\<close> is a function into \<open>'e + 'a\<close>; \<open>rbind\<close> is the
  \<open>if err != nil { return err }\<close> between two calls.\<close>

definition rbind :: "'e + 'a \<Rightarrow> ('a \<Rightarrow> 'e + 'b) \<Rightarrow> 'e + 'b" where
  "rbind r f = (case r of Inl e \<Rightarrow> Inl e | Inr x \<Rightarrow> f x)"

lemma rbind_simps [simp]: "rbind (Inl e) f = Inl e" "rbind (Inr x) f = f x"
  by (simp_all add: rbind_def)

lemma rbind_Inr_iff: "rbind r f = Inr y \<longleftrightarrow> (\<exists>x. r = Inr x \<and> f x = Inr y)"
  by (cases r) simp_all

lemma rbind_Inl_iff: "rbind r f = Inl e \<longleftrightarrow> r = Inl e \<or> (\<exists>x. r = Inr x \<and> f x = Inl e)"
  by (cases r) simp_all

lemma rbind_cong [fundef_cong]:
  "r = r' \<Longrightarrow> (\<And>x. r' = Inr x \<Longrightarrow> f x = f' x) \<Longrightarrow> rbind r f = rbind r' f'"
  by (cases r') simp_all

definition is_ok :: "'e + 'a \<Rightarrow> bool" where
  "is_ok r \<longleftrightarrow> (\<exists>x. r = Inr x)"

lemma is_ok_simps [simp, code]: "is_ok (Inl e) \<longleftrightarrow> False" "is_ok (Inr x) \<longleftrightarrow> True"
  by (simp_all add: is_ok_def)

section \<open>Go maps as association lists\<close>

abbreviation kv_get :: "('k \<times> 'v) list \<Rightarrow> 'k \<Rightarrow> 'v option" where
  "kv_get m k \<equiv> map_of m k"

abbreviation kv_set :: "'k \<Rightarrow> 'v \<Rightarrow> ('k \<times> 'v) list \<Rightarrow> ('k \<times> 'v) list" where
  "kv_set k v m \<equiv> AList.update k v m"

abbreviation kv_del :: "'k \<Rightarrow> ('k \<times> 'v) list \<Rightarrow> ('k \<times> 'v) list" where
  "kv_del k m \<equiv> AList.delete k m"

abbreviation keys :: "('k \<times> 'v) list \<Rightarrow> 'k list" where
  "keys m \<equiv> map fst m"

lemma kv_get_set [kv_simps, simp]: "kv_get (kv_set k v m) j = (if j = k then Some v else kv_get m j)"
  by (simp add: update_conv')

lemma kv_get_del [kv_simps, simp]: "kv_get (kv_del k m) j = (if j = k then None else kv_get m j)"
  by (simp add: delete_conv')

lemma distinct_kv_set [inv_intros, simp]: "distinct (keys m) \<Longrightarrow> distinct (keys (kv_set k v m))"
  by (rule distinct_update)

lemma distinct_kv_del [inv_intros, simp]: "distinct (keys m) \<Longrightarrow> distinct (keys (kv_del k m))"
  by (rule distinct_delete)

lemma set_keys_kv_set [kv_simps]: "set (keys (kv_set k v m)) = insert k (set (keys m))"
  by (simp add: dom_update)

lemma set_kv_set_subset: "set (kv_set k v m) \<subseteq> insert (k, v) (set m)"
  by (induction m) auto

lemma set_kv_set_cases:
  assumes "p \<in> set (kv_set k v m)"
  shows "p = (k, v) \<or> p \<in> set m"
  using assms set_kv_set_subset by fastforce

lemma kv_set_in [simp]: "(k, v) \<in> set (kv_set k v m)"
  by (induction m) auto

lemma kv_get_in_set: "kv_get m k = Some v \<Longrightarrow> (k, v) \<in> set m"
  by (rule map_of_SomeD)

lemma kv_get_None_iff: "kv_get m k = None \<longleftrightarrow> k \<notin> set (keys m)"
  by (simp add: map_of_eq_None_iff)

lemma distinct_keys_get: "distinct (keys m) \<Longrightarrow> (k, v) \<in> set m \<Longrightarrow> kv_get m k = Some v"
  by (rule map_of_is_SomeI)

lemma kv_get_map_snd: "map_of (map (\<lambda>(k, v). (k, f v)) m) k = map_option f (map_of m k)"
  by (induction m) auto

section \<open>Strings\<close>

definition has_prefix :: "string \<Rightarrow> string \<Rightarrow> bool" where
  "has_prefix s p \<longleftrightarrow> take (length p) s = p"

definition trim_prefix :: "string \<Rightarrow> string \<Rightarrow> string" where
  "trim_prefix s p = (if has_prefix s p then drop (length p) s else s)"

definition has_suffix :: "string \<Rightarrow> string \<Rightarrow> bool" where
  "has_suffix s p \<longleftrightarrow> length p \<le> length s \<and> drop (length s - length p) s = p"

definition trim_suffix :: "string \<Rightarrow> string \<Rightarrow> string" where
  "trim_suffix s p = (if has_suffix s p then take (length s - length p) s else s)"

lemma has_prefix_iff: "has_prefix s p \<longleftrightarrow> (\<exists>r. s = p @ r)"
  by (auto simp: has_prefix_def) (metis append_take_drop_id)

lemma has_prefix_append [simp]: "has_prefix (p @ r) p"
  by (simp add: has_prefix_def)

lemma trim_prefix_append [simp]: "trim_prefix (p @ r) p = r"
  by (simp add: trim_prefix_def)

text \<open>\<open>strings.Split(s, sep)\<close> for a one-byte separator.\<close>

fun split_char :: "char \<Rightarrow> string \<Rightarrow> string list" where
  "split_char c [] = [[]]"
| "split_char c (x # xs) =
     (if x = c then [] # split_char c xs
      else (case split_char c xs of [] \<Rightarrow> [[x]] | w # ws \<Rightarrow> (x # w) # ws))"

text \<open>\<open>strings.Join(parts, sep)\<close>.\<close>

fun join_with :: "string \<Rightarrow> string list \<Rightarrow> string" where
  "join_with sep [] = []"
| "join_with sep [w] = w"
| "join_with sep (w # v # ws) = w @ sep @ join_with sep (v # ws)"

lemma split_char_neq_Nil [simp]: "split_char c s \<noteq> []"
  by (induction s) (auto split: list.splits)

lemma join_split_char [simp]: "join_with [c] (split_char c s) = s"
proof (induction s)
  case (Cons x xs)
  obtain w ws where ws: "split_char c xs = w # ws"
    by (cases "split_char c xs") auto
  with Cons show ?case
    by (cases ws) auto
qed simp

lemma split_char_no_sep: "c \<notin> set s \<Longrightarrow> split_char c s = [s]"
  by (induction s) auto

lemma split_char_append: "c \<notin> set w \<Longrightarrow> split_char c (w @ c # s) = w # split_char c s"
  by (induction w) auto

lemma split_join_char:
  assumes "ws \<noteq> []" and "\<forall>w \<in> set ws. c \<notin> set w"
  shows "split_char c (join_with [c] ws) = ws"
  using assms by (induction "[c]" ws rule: join_with.induct) (auto simp: split_char_no_sep split_char_append)

lemma split_char_parts: "w \<in> set (split_char c s) \<Longrightarrow> c \<notin> set w"
  by (induction s arbitrary: w) (auto split: if_splits list.splits)

text \<open>ASCII classes and case folding.\<close>

definition is_digit :: "char \<Rightarrow> bool" where
  "is_digit c \<longleftrightarrow> (48::nat) \<le> of_char c \<and> (of_char c :: nat) \<le> 57"

definition is_upper :: "char \<Rightarrow> bool" where
  "is_upper c \<longleftrightarrow> (65::nat) \<le> of_char c \<and> (of_char c :: nat) \<le> 90"

definition is_lower :: "char \<Rightarrow> bool" where
  "is_lower c \<longleftrightarrow> (97::nat) \<le> of_char c \<and> (of_char c :: nat) \<le> 122"

definition is_space :: "char \<Rightarrow> bool" where
  "is_space c \<longleftrightarrow> of_char c \<in> {9, 10, 11, 12, 13, 32 :: nat}"

definition lower_char :: "char \<Rightarrow> char" where
  "lower_char c = (if is_upper c then char_of (of_char c + 32 :: nat) else c)"

definition to_lower :: "string \<Rightarrow> string" where
  "to_lower s = map lower_char s"

definition trim_space :: "string \<Rightarrow> string" where
  "trim_space s = rev (dropWhile is_space (rev (dropWhile is_space s)))"

definition is_all_digits :: "string \<Rightarrow> bool" where
  "is_all_digits s \<longleftrightarrow> s \<noteq> [] \<and> list_all is_digit s"

lemmas ascii_defs = is_digit_def is_upper_def is_lower_def is_space_def lower_char_def

lemma lower_char_idem [simp]: "lower_char (lower_char c) = lower_char c"
proof (cases "is_upper c")
  case True
  then have "of_char c + 32 < (256::nat)" "(of_char c + 32 :: nat) > 90"
    by (auto simp: is_upper_def)
  then show ?thesis
    using True by (auto simp: lower_char_def is_upper_def)
qed (simp add: lower_char_def)

lemma to_lower_idem [simp]: "to_lower (to_lower s) = to_lower s"
  by (simp add: to_lower_def)

lemma to_lower_append: "to_lower (s @ t) = to_lower s @ to_lower t"
  by (simp add: to_lower_def)

section \<open>Integers in decimal\<close>

definition digit_val :: "char \<Rightarrow> int" where
  "digit_val c = of_char c - 48"

definition digits_val :: "string \<Rightarrow> int" where
  "digits_val s = foldl (\<lambda>n c. 10 * n + digit_val c) 0 s"

text \<open>\<open>strconv.ParseInt(s, 10, 64)\<close>, which \<open>strconv.Atoi\<close> agrees with on a 64-bit platform: an
  optional sign, at least one decimal digit, and a value that fits.\<close>

definition max_int64 :: int where "max_int64 = 2 ^ 63 - 1"
definition min_int64 :: int where "min_int64 = - (2 ^ 63)"

definition parse_int64 :: "string \<Rightarrow> int option" where
  "parse_int64 s =
     (let neg = (case s of c # _ \<Rightarrow> c = CHR ''-'' | [] \<Rightarrow> False);
          ds = (case s of c # r \<Rightarrow> if c = CHR ''-'' \<or> c = CHR ''+'' then r else s | [] \<Rightarrow> []);
          n = (if neg then - digits_val ds else digits_val ds)
      in if is_all_digits ds \<and> min_int64 \<le> n \<and> n \<le> max_int64 then Some n else None)"

function nat_digits :: "nat \<Rightarrow> string" where
  "nat_digits n = (if n < 10 then [char_of (48 + n)]
                   else nat_digits (n div 10) @ [char_of (48 + n mod 10)])"
  by pat_completeness auto
termination by (relation "measure id") auto

declare nat_digits.simps [simp del]

text \<open>\<open>strconv.Itoa\<close>.\<close>

definition itoa :: "int \<Rightarrow> string" where
  "itoa n = (if n < 0 then ''-'' @ nat_digits (nat (- n)) else nat_digits (nat n))"

section \<open>Bounded queues that evict their oldest element\<close>

text \<open>The reload error channel, the history ring and the decoded-layer cache all hold the last
  \<open>cap\<close> elements pushed. The locale states what one push does to the abstract contents.\<close>

definition last_n :: "nat \<Rightarrow> 'a list \<Rightarrow> 'a list" where
  "last_n n xs = drop (length xs - n) xs"

lemma length_last_n [simp]: "length (last_n n xs) = min n (length xs)"
  by (simp add: last_n_def)

lemma last_n_all: "length xs \<le> n \<Longrightarrow> last_n n xs = xs"
  by (simp add: last_n_def)

lemma last_n_append_last_n: "last_n n (last_n n xs @ ys) = last_n n (xs @ ys)"
  by (cases "length xs \<le> n") (auto simp: last_n_def add.commute)

lemma last_n_suffix: "suffix (last_n n xs) xs"
  by (simp add: last_n_def suffix_drop)

locale evict_oldest =
  fixes push :: "'a \<Rightarrow> 'q \<Rightarrow> 'q"
    and contents :: "'q \<Rightarrow> 'a list"
    and capacity :: "'q \<Rightarrow> nat"
    and invar :: "'q \<Rightarrow> bool"
  assumes contents_push: "invar q \<Longrightarrow> contents (push x q) = last_n (capacity q) (contents q @ [x])"
    and capacity_push: "invar q \<Longrightarrow> capacity (push x q) = capacity q"
    and invar_push: "invar q \<Longrightarrow> invar (push x q)"
    and within_capacity: "invar q \<Longrightarrow> length (contents q) \<le> capacity q"
begin

definition push_all :: "'a list \<Rightarrow> 'q \<Rightarrow> 'q" where
  "push_all xs q = foldl (\<lambda>q x. push x q) q xs"

lemma push_all_Nil [simp]: "push_all [] q = q"
  by (simp add: push_all_def)

lemma push_all_Cons [simp]: "push_all (x # xs) q = push_all xs (push x q)"
  by (simp add: push_all_def)

lemma invar_push_all: "invar q \<Longrightarrow> invar (push_all xs q)"
  by (induction xs arbitrary: q) (auto intro: invar_push)

lemma contents_push_all:
  "invar q \<Longrightarrow> contents (push_all xs q) = last_n (capacity q) (contents q @ xs)"
proof (induction xs arbitrary: q)
  case Nil
  then show ?case by (simp add: last_n_all within_capacity)
next
  case (Cons x xs)
  then show ?case
    by (simp add: invar_push contents_push capacity_push last_n_append_last_n)
qed

lemma newest_kept: "invar q \<Longrightarrow> 0 < capacity q \<Longrightarrow> last (contents (push x q)) = x"
  by (simp add: contents_push last_n_def)

lemma nothing_lost_below_capacity:
  "invar q \<Longrightarrow> length (contents q) < capacity q \<Longrightarrow> contents (push x q) = contents q @ [x]"
  by (simp add: contents_push last_n_all)

end

end
