(* ===== verification/Value.thy ===== *)
theory Value
  imports Prelude Complex_Main
begin

text \<open>
  The dynamic values of a configuration tree: what a Go \<open>any\<close> holds in the JSON-shaped
  \<open>map[string]any\<close> documents that every package of the repository passes on. A Go type switch
  on a value is a case distinction on \<open>gval\<close>. Typed nil maps and slices are values of their own,
  because the code tells them from empty ones (\<open>confmap/deep.go\<close>, \<open>confmap/patch.go\<close>).

  A map is a list of entries with distinct keys (\<open>wf_val\<close>); the order of the list is the order in
  which one \<open>range\<close> loop visits it, which Go leaves open. \<open>gsem\<close> forgets that order, so
  \<open>gsem v = gsem w\<close> says that two trees are the same Go value.
\<close>

section \<open>Scalars\<close>

datatype gfloat = FFin rat | FPosInf | FNegInf | FNaN

datatype ikind = KInt | KInt8 | KInt16 | KInt32 | KInt64
  | KUint | KUint8 | KUint16 | KUint32 | KUint64

datatype leaf =
    LNil                    \<comment> \<open>\<open>nil\<close>\<close>
  | LBool bool
  | LStr string
  | LInt ikind int          \<comment> \<open>\<open>int\<close>, \<open>int8\<close>, ..., \<open>uint64\<close>\<close>
  | LFloat32 gfloat
  | LFloat64 gfloat
  | LNumber string          \<comment> \<open>\<open>json.Number\<close>\<close>
  | LOther string           \<comment> \<open>any other dynamic type, e.g. \<open>time.Time\<close>; opaque to the code\<close>

datatype gval =
    GLeaf leaf
  | GNilMap                          \<comment> \<open>a nil \<open>map[string]any\<close>\<close>
  | GMap "(string \<times> gval) list"
  | GNilSlice                        \<comment> \<open>a nil \<open>[]any\<close>\<close>
  | GSlice "gval list"

type_synonym gmap = "(string \<times> gval) list"

abbreviation GNil :: gval where "GNil \<equiv> GLeaf LNil"
abbreviation GBool :: "bool \<Rightarrow> gval" where "GBool b \<equiv> GLeaf (LBool b)"
abbreviation GStr :: "string \<Rightarrow> gval" where "GStr s \<equiv> GLeaf (LStr s)"
abbreviation GInt :: "ikind \<Rightarrow> int \<Rightarrow> gval" where "GInt k n \<equiv> GLeaf (LInt k n)"
abbreviation GNumber :: "string \<Rightarrow> gval" where "GNumber s \<equiv> GLeaf (LNumber s)"

text \<open>\<open>v.(map[string]any)\<close> and \<open>v.([]any)\<close>: the entries, when the assertion succeeds; a nil
  container has none.\<close>

fun as_map :: "gval \<Rightarrow> gmap option" where
  "as_map (GMap m) = Some m"
| "as_map GNilMap = Some []"
| "as_map _ = None"

fun as_slice :: "gval \<Rightarrow> gval list option" where
  "as_slice (GSlice xs) = Some xs"
| "as_slice GNilSlice = Some []"
| "as_slice _ = None"

fun is_map :: "gval \<Rightarrow> bool" where
  "is_map (GMap m) = True"
| "is_map GNilMap = True"
| "is_map _ = False"

lemma is_map_iff: "is_map v \<longleftrightarrow> as_map v \<noteq> None"
  by (cases v) auto

lemma as_map_cases:
  obtains "as_map v = None" | "v = GNilMap" | m where "v = GMap m"
  by (cases v) auto

section \<open>Well-formed trees\<close>

fun wf_val :: "gval \<Rightarrow> bool" where
  "wf_val (GMap m) \<longleftrightarrow> distinct (keys m) \<and> (\<forall>p \<in> set m. wf_val (snd p))"
| "wf_val (GSlice xs) \<longleftrightarrow> (\<forall>x \<in> set xs. wf_val x)"
| "wf_val _ \<longleftrightarrow> True"

definition wf_map :: "gmap \<Rightarrow> bool" where
  "wf_map m \<longleftrightarrow> distinct (keys m) \<and> (\<forall>p \<in> set m. wf_val (snd p))"

lemma wf_val_GMap [simp]: "wf_val (GMap m) \<longleftrightarrow> wf_map m"
  by (simp add: wf_map_def)

declare wf_val.simps(1) [simp del]

lemma wf_map_Nil [simp]: "wf_map []"
  by (simp add: wf_map_def)

lemma wf_map_Cons: "wf_map ((k, v) # m) \<longleftrightarrow> k \<notin> set (keys m) \<and> wf_val v \<and> wf_map m"
  by (auto simp: wf_map_def)

lemma wf_map_distinct: "wf_map m \<Longrightarrow> distinct (keys m)"
  by (simp add: wf_map_def)

lemma wf_map_get: "wf_map m \<Longrightarrow> kv_get m k = Some v \<Longrightarrow> wf_val v"
  by (fastforce simp: wf_map_def dest: map_of_SomeD)

lemma wf_map_set [inv_intros]: "wf_map m \<Longrightarrow> wf_val v \<Longrightarrow> wf_map (kv_set k v m)"
  by (auto simp: wf_map_def dest!: set_kv_set_cases)

lemma set_kv_del_subset: "set (kv_del k m) \<subseteq> set m"
  by (auto simp: AList.delete_eq)

lemma wf_map_del [inv_intros]: "wf_map m \<Longrightarrow> wf_map (kv_del k m)"
  using set_kv_del_subset [of k m] by (auto simp: wf_map_def)

lemma wf_as_map: "wf_val v \<Longrightarrow> as_map v = Some m \<Longrightarrow> wf_map m"
  by (cases v) auto

section \<open>Trees up to the order of their maps\<close>

datatype sem =
    SLeaf leaf
  | SNilMap
  | SMap "string \<Rightarrow> sem option"
  | SNilSlice
  | SSlice "sem list"

fun gsem :: "gval \<Rightarrow> sem" where
  "gsem (GLeaf l) = SLeaf l"
| "gsem GNilMap = SNilMap"
| "gsem (GMap m) = SMap (map_of (map (\<lambda>p. (fst p, gsem (snd p))) m))"
| "gsem GNilSlice = SNilSlice"
| "gsem (GSlice xs) = SSlice (map gsem xs)"

definition msem :: "gmap \<Rightarrow> string \<Rightarrow> sem option" where
  "msem m k = map_option gsem (kv_get m k)"

lemma gsem_GMap: "gsem (GMap m) = SMap (msem m)"
proof -
  have "map_of (map (\<lambda>p. (fst p, gsem (snd p))) m) k = msem m k" for k
    using kv_get_map_snd [of gsem m k] by (simp add: msem_def case_prod_unfold)
  then show ?thesis by (simp add: fun_eq_iff)
qed

declare gsem.simps(3) [simp del]
declare gsem_GMap [simp]

lemma msem_Nil [simp]: "msem [] = (\<lambda>_. None)"
  by (simp add: msem_def fun_eq_iff)

lemma msem_set [simp]: "msem (kv_set k v m) = (msem m)(k \<mapsto> gsem v)"
  by (simp add: msem_def fun_eq_iff)

lemma msem_del [simp]: "msem (kv_del k m) = (msem m)(k := None)"
  by (simp add: msem_def fun_eq_iff)

lemma msem_Cons: "msem ((k, v) # m) = (msem m)(k \<mapsto> gsem v)"
  by (simp add: msem_def fun_eq_iff)

lemma msem_None_iff: "msem m k = None \<longleftrightarrow> kv_get m k = None"
  by (simp add: msem_def)

text \<open>Visiting a map in another order gives the same value.\<close>

lemma msem_permute:
  assumes "distinct (keys m)" and "mset m = mset m'"
  shows "msem m = msem m'"
proof
  fix k
  from assms have "distinct (keys m')"
    by (metis mset_eq_imp_distinct_iff mset_map)
  with assms have "map_of m = map_of m'"
    by (metis map_of_inject_set set_mset_mset)
  then show "msem m k = msem m' k" by (simp add: msem_def)
qed

end
