(* ===== verification/Merge.thy ===== *)
theory Merge
  imports Value
begin

text \<open>
  \<open>confmap/deep.go\<close>: the deep merge of one layer into the document. \<open>deep_at\<close> is the loop of
  \<open>deepAt\<close> over the entries of \<open>src\<close> in the order they are visited, \<open>merge_value\<close> is
  \<open>mergeValue\<close> and \<open>strat_loop\<close> the second loop of \<open>strategicMergeList\<close>. The Go code writes
  into \<open>dst\<close>; the model returns the new \<open>dst\<close>, and an error drops it, as every caller of
  \<open>Deep\<close> in the repository does.
\<close>

section \<open>Definitions\<close>

record merge_opts =
  append_slices :: bool
  strict :: bool
  merge_keys :: "string \<rightharpoonup> string"

datatype merge_error =
    NilDestination
  | HaveMap string gval         \<comment> \<open>type mismatch: have map, got the value\<close>
  | HaveSlice string gval       \<comment> \<open>type mismatch: have slice, got the value\<close>
  | ScalarMismatch string gval gval
  | EntryMismatch string string gval
  | NilMapWrite                 \<comment> \<open>the run-time panic of a write to a nil map\<close>

fun is_number :: "gval \<Rightarrow> bool" where
  "is_number (GLeaf (LInt _ _)) = True"
| "is_number (GLeaf (LFloat32 _)) = True"
| "is_number (GLeaf (LFloat64 _)) = True"
| "is_number (GLeaf (LNumber _)) = True"
| "is_number _ = False"

fun same_kind :: "gval \<Rightarrow> gval \<Rightarrow> bool" where
  "same_kind (GLeaf LNil) b = (b = GNil)"
| "same_kind (GLeaf (LBool _)) b = (case b of GLeaf (LBool _) \<Rightarrow> True | _ \<Rightarrow> False)"
| "same_kind (GLeaf (LStr _)) b = (case b of GLeaf (LStr _) \<Rightarrow> True | _ \<Rightarrow> False)"
| "same_kind a b = (is_number a \<and> is_number b)"

fun string_key :: "gval option \<Rightarrow> string option" where
  "string_key (Some (GLeaf (LStr s))) = (if s = '''' then None else Some s)"
| "string_key _ = None"

text \<open>\<open>m[key]\<close> for an entry that is a map, nil or not.\<close>

definition entry_key :: "string \<Rightarrow> gval \<Rightarrow> string option" where
  "entry_key key e = (case as_map e of None \<Rightarrow> None | Some m \<Rightarrow> string_key (kv_get m key))"

fun entries :: "gval \<Rightarrow> gmap" where
  "entries (GMap m) = m"
| "entries _ = []"

lemma size_entries: "size_list (size_prod (\<lambda>_. 0) size) (entries e) \<le> size e"
  by (cases e) auto

lemma as_map_SomeE:
  assumes "as_map v = Some m"
  obtains "v = GNilMap" "m = []" | "v = GMap m"
  using assms by (cases v) auto

lemma as_slice_SomeE:
  assumes "as_slice v = Some m"
  obtains "v = GNilSlice" "m = []" | "v = GSlice m"
  using assms by (cases v) auto

text \<open>The key field under which the lists at a path are aligned: \<open>opt.MergeKeys[path]\<close>, when
  registered and not empty.\<close>

definition list_key :: "merge_opts \<Rightarrow> string \<Rightarrow> string option" where
  "list_key opt path =
     (case merge_keys opt path of Some key \<Rightarrow> if key \<noteq> '''' then Some key else None | None \<Rightarrow> None)"

text \<open>The first loop of \<open>strategicMergeList\<close>: the position of the last entry of each key.\<close>

fun key_index :: "string \<Rightarrow> nat \<Rightarrow> gval list \<Rightarrow> (string \<rightharpoonup> nat) \<Rightarrow> (string \<rightharpoonup> nat)" where
  "key_index key i [] idx = idx"
| "key_index key i (e # a) idx =
     key_index key (Suc i) a (case entry_key key e of None \<Rightarrow> idx | Some k \<Rightarrow> idx(k \<mapsto> i))"

definition path_child :: "string \<Rightarrow> string \<Rightarrow> string" where
  "path_child pre k = (if pre = '''' then k else pre @ ''.'' @ k)"

text \<open>\<open>append\<close> and \<open>strategicMergeList\<close> return a nil slice when \<open>dst\<close> was nil and nothing was
  appended.\<close>

definition grown_slice :: "gval \<Rightarrow> gval list \<Rightarrow> gval" where
  "grown_slice ds xs = (if ds = GNilSlice \<and> xs = [] then GNilSlice else GSlice xs)"

function (sequential) deep_at :: "merge_opts \<Rightarrow> string \<Rightarrow> gmap \<Rightarrow> gmap \<Rightarrow> merge_error + gmap"
  and merge_value :: "merge_opts \<Rightarrow> string \<Rightarrow> gval \<Rightarrow> gval \<Rightarrow> merge_error + gval"
  and strat_loop :: "merge_opts \<Rightarrow> string \<Rightarrow> string \<Rightarrow> (string \<rightharpoonup> nat) \<Rightarrow> gval list \<Rightarrow> gval list
        \<Rightarrow> merge_error + gval list"
where
  "deep_at opt pre dst [] = Inr dst"
| "deep_at opt pre dst ((k, sv) # src) =
     (case kv_get dst k of
        None \<Rightarrow> deep_at opt pre (kv_set k sv dst) src
      | Some dv \<Rightarrow>
          rbind (merge_value opt (path_child pre k) dv sv)
            (\<lambda>merged. deep_at opt pre (kv_set k merged dst) src))"

| "merge_value opt path dv sv =
     (case as_map dv of
        Some ds \<Rightarrow>
          (case as_map sv of
             None \<Rightarrow> if strict opt then Inl (HaveMap path sv) else Inr sv
           | Some ss \<Rightarrow>
               if dv = GNilMap then Inr sv
               else rbind (deep_at opt path ds ss) (\<lambda>m. Inr (GMap m)))
      | None \<Rightarrow>
          (case as_slice dv of
             Some ds \<Rightarrow>
               (case as_slice sv of
                  None \<Rightarrow> if strict opt then Inl (HaveSlice path sv) else Inr sv
                | Some ss \<Rightarrow>
                    (case list_key opt path of
                       Some key \<Rightarrow>
                         rbind (strat_loop opt path key (key_index key 0 ds Map.empty) ds ss)
                           (\<lambda>xs. Inr (grown_slice dv xs))
                     | None \<Rightarrow>
                         if append_slices opt then Inr (grown_slice dv (ds @ ss)) else Inr sv))
           | None \<Rightarrow>
               if strict opt \<and> \<not> same_kind dv sv then Inl (ScalarMismatch path dv sv)
               else Inr sv))"

| "strat_loop opt path key idx a [] = Inr a"
| "strat_loop opt path key idx a (e # b) =
     (case entry_key key e of
        None \<Rightarrow> strat_loop opt path key idx (a @ [e]) b
      | Some k \<Rightarrow>
          (case idx k of
             Some i \<Rightarrow>
               (case as_map (a ! i) of
                  Some existing \<Rightarrow>
                    if a ! i = GNilMap then Inl NilMapWrite
                    else rbind (deep_at opt (path @ ''[]'') existing (entries e))
                           (\<lambda>ex. strat_loop opt path key idx (a[i := GMap ex]) b)
                | None \<Rightarrow>
                    if strict opt then Inl (EntryMismatch path k (a ! i))
                    else strat_loop opt path key idx (a[i := e]) b)
           | None \<Rightarrow> strat_loop opt path key (idx(k \<mapsto> length a)) (a @ [e]) b))"
  by pat_completeness auto

termination
  by (relation "measure (case_sum (\<lambda>(_, _, _, src). size_list (size_prod (\<lambda>_. 0) size) src)
        (case_sum (\<lambda>(_, _, _, sv). Suc (size sv))
                  (\<lambda>(_, _, _, _, _, b). size_list size b)))")
    (auto simp: size_entries less_Suc_eq_le elim!: as_map_SomeE as_slice_SomeE intro: le_trans [OF size_entries])

declare merge_value.simps [simp del]

definition deep :: "gmap option \<Rightarrow> gmap \<Rightarrow> merge_opts \<Rightarrow> merge_error + gmap option" where
  "deep dst src opt =
     (case dst of
        None \<Rightarrow> if src \<noteq> [] then Inl NilDestination else Inr None
      | Some d \<Rightarrow> rbind (deep_at opt '''' d src) (\<lambda>m. Inr (Some m)))"

section \<open>Facts about the loops\<close>

lemma wf_slice_simps [simp]:
  "wf_val (GSlice [])" "wf_val (GSlice (x # xs)) \<longleftrightarrow> wf_val x \<and> wf_val (GSlice xs)"
  "wf_val (GSlice (xs @ ys)) \<longleftrightarrow> wf_val (GSlice xs) \<and> wf_val (GSlice ys)"
  by auto

lemma wf_slice_update: "wf_val (GSlice xs) \<Longrightarrow> wf_val v \<Longrightarrow> wf_val (GSlice (xs[i := v]))"
  by (auto dest!: set_update_subset_insert [THEN subsetD])

lemma wf_slice_nth: "wf_val (GSlice xs) \<Longrightarrow> i < length xs \<Longrightarrow> wf_val (xs ! i)"
  by auto

lemma wf_as_slice: "wf_val v \<Longrightarrow> as_slice v = Some xs \<Longrightarrow> wf_val (GSlice xs)"
  by (cases v) auto

lemma wf_grown_slice [simp]: "wf_val (grown_slice v xs) \<longleftrightarrow> wf_val (GSlice xs)"
  by (auto simp: grown_slice_def)

lemma string_key_Some: "string_key v = Some k \<longleftrightarrow> v = Some (GStr k) \<and> k \<noteq> ''''"
  by (cases v rule: string_key.cases) auto

lemma entry_key_Some: "entry_key key e = Some k \<longleftrightarrow> (\<exists>m. e = GMap m \<and> kv_get m key = Some (GStr k) \<and> k \<noteq> '''')"
  by (cases e) (auto simp: entry_key_def string_key_Some)

text \<open>The index points at maps that carry its keys.\<close>

definition idx_ok :: "string \<Rightarrow> (string \<rightharpoonup> nat) \<Rightarrow> gval list \<Rightarrow> bool" where
  "idx_ok key idx a \<longleftrightarrow> (\<forall>k i. idx k = Some i \<longrightarrow> i < length a \<and>
     entry_key key (a ! i) = Some k)"

lemma idx_okD:
  assumes "idx_ok key idx a" and "idx k = Some i"
  obtains m where "i < length a" "a ! i = GMap m" "kv_get m key = Some (GStr k)" "k \<noteq> ''''"
  using assms by (fastforce simp: idx_ok_def entry_key_Some)

lemma idx_ok_append: "idx_ok key idx a \<Longrightarrow> idx_ok key idx (a @ b)"
  by (fastforce simp: idx_ok_def nth_append)

lemma idx_ok_append_new:
  "idx_ok key idx a \<Longrightarrow> entry_key key e = Some k \<Longrightarrow> idx_ok key (idx(k \<mapsto> length a)) (a @ [e])"
  by (fastforce simp: idx_ok_def nth_append)

lemma idx_ok_update:
  assumes "idx_ok key idx a" and "idx k = Some i" and "entry_key key e = Some k"
  shows "idx_ok key idx (a[i := e])"
  unfolding idx_ok_def
proof (intro allI impI)
  fix k' j assume j: "idx k' = Some j"
  with assms(1) have "j < length a" "entry_key key (a ! j) = Some k'" by (auto simp: idx_ok_def)
  moreover from assms(1,2) have "entry_key key (a ! i) = Some k" by (auto simp: idx_ok_def)
  ultimately show "j < length (a[i := e]) \<and> entry_key key (a[i := e] ! j) = Some k'"
    using assms(3) by (cases "j = i") auto
qed

lemma key_index_ok:
  "idx_ok key idx p \<Longrightarrow> idx_ok key (key_index key (length p) a idx) (p @ a)"
proof (induction a arbitrary: idx p)
  case (Cons e a)
  have "idx_ok key (case entry_key key e of None \<Rightarrow> idx | Some k \<Rightarrow> idx(k \<mapsto> length p)) (p @ [e])"
    using Cons.prems by (cases "entry_key key e") (auto simp: idx_ok_append idx_ok_append_new)
  from Cons.IH [OF this] show ?case by simp
qed simp

lemma key_index_ok0: "idx_ok key (key_index key 0 a Map.empty) a"
  using key_index_ok [of key Map.empty "[]" a] by (simp add: idx_ok_def)

lemma strat_loop_known:
  assumes "idx_ok key idx a" and "entry_key key e = Some k" and "idx k = Some i"
  shows "strat_loop opt path key idx a (e # b) =
     rbind (deep_at opt (path @ ''[]'') (entries (a ! i)) (entries e))
       (\<lambda>ex. strat_loop opt path key idx (a[i := GMap ex]) b)"
proof -
  from assms obtain m where "a ! i = GMap m" by (blast elim: idx_okD)
  with assms show ?thesis by simp
qed

lemma wf_merge:
  "deep_at opt pre dst src = Inr m \<Longrightarrow> wf_map dst \<Longrightarrow> wf_map src \<Longrightarrow> wf_map m"
  "merge_value opt path dv sv = Inr v \<Longrightarrow> wf_val dv \<Longrightarrow> wf_val sv \<Longrightarrow> wf_val v"
  "strat_loop opt path key idx a b = Inr xs \<Longrightarrow> wf_val (GSlice a) \<Longrightarrow> wf_val (GSlice b) \<Longrightarrow>
     (\<forall>k i. idx k = Some i \<longrightarrow> i < length a) \<Longrightarrow> wf_val (GSlice xs)"
proof (induction opt pre dst src and opt path dv sv and opt path key idx a b
    arbitrary: m and v and xs rule: deep_at_merge_value_strat_loop.induct)
  case (2 opt pre dst k sv src)
  show ?case
  proof (cases "kv_get dst k")
    case None
    with 2 show ?thesis by (simp add: wf_map_Cons wf_map_set)
  next
    case (Some dv)
    with "2.prems" obtain v where v: "merge_value opt (path_child pre k) dv sv = Inr v"
      "deep_at opt pre (kv_set k v dst) src = Inr m" by (auto simp: rbind_Inr_iff)
    have "wf_val v"
      using "2.IH"(2) [OF Some v(1)] Some "2.prems"(2,3) by (auto simp: wf_map_Cons dest: wf_map_get)
    with "2.IH"(3) [OF Some v] "2.prems"(2,3) show ?thesis
      by (simp add: wf_map_Cons wf_map_set)
  qed
next
  case (3 opt path dv sv)
  have idx: "\<forall>k i. key_index key 0 ds Map.empty k = Some i \<longrightarrow> i < length ds" for key ds
    using key_index_ok0 [of key ds] by (auto simp: idx_ok_def)
  show ?case
    using 3 idx by (auto simp: merge_value.simps [of opt path dv sv] rbind_Inr_iff
        simp del: wf_val.simps(2) split: option.splits if_splits elim!: as_map_SomeE as_slice_SomeE)
next
  case (5 opt path key idx a e b)
  show ?case
  proof (cases "entry_key key e")
    case None
    with 5 show ?thesis by (auto simp: less_SucI simp del: wf_val.simps(2))
  next
    case (Some k)
    then have e: "wf_map (entries e)"
      using "5.prems" by (auto simp: entry_key_Some simp del: wf_val.simps(2))
    show ?thesis
    proof (cases "idx k")
      case None
      with Some "5.prems"(1) have r: "strat_loop opt path key (idx(k \<mapsto> length a)) (a @ [e]) b = Inr xs"
        by simp
      show ?thesis
        by (rule "5.IH"(2) [OF Some None r])
          (use "5.prems" in \<open>auto simp: less_SucI simp del: wf_val.simps(2)\<close>)
    next
      fix i assume i: "idx k = Some i"
      with "5.prems" have a: "wf_val (a ! i)" by simp
      show ?thesis
      proof (cases "as_map (a ! i)")
        case None
        with Some i "5.prems" "5.IH"(3) [OF Some i None] show ?thesis
          by (auto simp del: wf_val.simps(2) intro: wf_slice_update split: if_splits)
      next
        fix ex assume ex: "as_map (a ! i) = Some ex"
        with Some i "5.prems"(1) obtain m where m: "a ! i \<noteq> GNilMap"
          "deep_at opt (path @ ''[]'') ex (entries e) = Inr m"
          "strat_loop opt path key idx (a[i := GMap m]) b = Inr xs"
          by (auto simp: rbind_Inr_iff split: if_splits)
        have "wf_map m"
          using "5.IH"(4) [OF Some i ex m(1,2)] wf_as_map [OF a ex] e by simp
        then show ?thesis
          using "5.IH"(5) [OF Some i ex m] "5.prems"(2,3,4) wf_slice_update [of a "GMap m" i]
          by (auto simp del: wf_val.simps(2))
      qed
    qed
  qed
qed simp_all

text \<open>One round of the loop over distinct keys, key by key.\<close>

lemma deep_at_get:
  assumes "distinct (keys src)" and "deep_at opt pre dst src = Inr m"
  shows "kv_get m k =
     (case kv_get src k of
        None \<Rightarrow> kv_get dst k
      | Some sv \<Rightarrow>
          (case kv_get dst k of
             None \<Rightarrow> Some sv
           | Some dv \<Rightarrow>
               (case merge_value opt (path_child pre k) dv sv of Inr v \<Rightarrow> Some v | Inl _ \<Rightarrow> None)))"
  using assms
proof (induction src arbitrary: dst)
  case (Cons p src)
  obtain j sv where p: "p = (j, sv)" by (cases p)
  have j: "kv_get src j = None"
    using Cons.prems(1) p by (simp add: kv_get_None_iff)
  show ?case
  proof (cases "kv_get dst j")
    case None
    with Cons p have "kv_get m k = (case kv_get src k of
        None \<Rightarrow> kv_get (kv_set j sv dst) k
      | Some sv' \<Rightarrow>
          (case kv_get (kv_set j sv dst) k of
             None \<Rightarrow> Some sv'
           | Some dv \<Rightarrow>
               (case merge_value opt (path_child pre k) dv sv' of Inr v \<Rightarrow> Some v | Inl _ \<Rightarrow> None)))"
      by simp
    with None j show ?thesis by (auto simp: p split: option.splits)
  next
    case (Some dv)
    with Cons.prems(2) p obtain v where v: "merge_value opt (path_child pre j) dv sv = Inr v"
      "deep_at opt pre (kv_set j v dst) src = Inr m" by (auto simp: rbind_Inr_iff)
    from Cons.IH [OF _ this(2)] Cons.prems(1) p have "kv_get m k = (case kv_get src k of
        None \<Rightarrow> kv_get (kv_set j v dst) k
      | Some sv' \<Rightarrow>
          (case kv_get (kv_set j v dst) k of
             None \<Rightarrow> Some sv'
           | Some dv \<Rightarrow>
               (case merge_value opt (path_child pre k) dv sv' of Inr v \<Rightarrow> Some v | Inl _ \<Rightarrow> None)))"
      by simp
    with Some v j show ?thesis by (auto simp: p split: option.splits)
  qed
qed simp

lemma deep_at_ok_iff:
  assumes "distinct (keys src)"
  shows "is_ok (deep_at opt pre dst src) \<longleftrightarrow>
     (\<forall>k sv dv. kv_get src k = Some sv \<longrightarrow> kv_get dst k = Some dv \<longrightarrow>
        is_ok (merge_value opt (path_child pre k) dv sv))"
  using assms
proof (induction src arbitrary: dst)
  case (Cons p src)
  obtain j sv where p: "p = (j, sv)" by (cases p)
  have j: "kv_get src j = None"
    using Cons.prems(1) p by (simp add: kv_get_None_iff)
  have IH: "is_ok (deep_at opt pre (kv_set j v dst) src) \<longleftrightarrow>
     (\<forall>k sv dv. kv_get src k = Some sv \<longrightarrow> kv_get (kv_set j v dst) k = Some dv \<longrightarrow>
        is_ok (merge_value opt (path_child pre k) dv sv))" for v
    using Cons p by simp
  have *: "(\<forall>k sv dv. kv_get src k = Some sv \<longrightarrow> kv_get (kv_set j v dst) k = Some dv \<longrightarrow>
        is_ok (merge_value opt (path_child pre k) dv sv)) \<longleftrightarrow>
      (\<forall>k sv dv. kv_get src k = Some sv \<longrightarrow> kv_get dst k = Some dv \<longrightarrow>
        is_ok (merge_value opt (path_child pre k) dv sv))" for v
    using j by (auto, metis option.distinct(1))
  have src: "(\<forall>k sv' dv. kv_get (p # src) k = Some sv' \<longrightarrow> kv_get dst k = Some dv \<longrightarrow>
        is_ok (merge_value opt (path_child pre k) dv sv')) \<longleftrightarrow>
     (\<forall>dv. kv_get dst j = Some dv \<longrightarrow> is_ok (merge_value opt (path_child pre j) dv sv)) \<and>
     (\<forall>k sv dv. kv_get src k = Some sv \<longrightarrow> kv_get dst k = Some dv \<longrightarrow>
        is_ok (merge_value opt (path_child pre k) dv sv))"
    using j by (auto simp: p) (metis option.distinct(1))
  show ?case
  proof (cases "kv_get dst j")
    case None
    then show ?thesis unfolding src using IH * by (simp add: p)
  next
    case (Some dv)
    then show ?thesis unfolding src using IH *
      by (cases "merge_value opt (path_child pre j) dv sv") (simp_all add: p)
  qed
qed simp

section \<open>A non-strict merge never fails\<close>

lemma entry_key_merged:
  assumes "wf_map m" and "kv_get ex key = Some (GStr k)" and "kv_get m key = Some (GStr k)"
    and "deep_at opt path ex m = Inr r" and "k \<noteq> ''''"
  shows "entry_key key (GMap r) = Some k"
proof -
  have "merge_value opt p (GStr k) (GStr k) = Inr (GStr k)" for p
    by (simp add: merge_value.simps)
  with deep_at_get [OF wf_map_distinct [OF assms(1)] assms(4), of key] assms(2,3,5)
  show ?thesis by (simp add: entry_key_Some)
qed

lemma lax_ok:
  "\<not> strict opt \<Longrightarrow> wf_map src \<Longrightarrow> is_ok (deep_at opt pre dst src)"
  "\<not> strict opt \<Longrightarrow> wf_val sv \<Longrightarrow> is_ok (merge_value opt path dv sv)"
  "\<not> strict opt \<Longrightarrow> wf_val (GSlice b) \<Longrightarrow> idx_ok key idx a \<Longrightarrow>
     is_ok (strat_loop opt path key idx a b)"
proof (induction opt pre dst src and opt path dv sv and opt path key idx a b
    rule: deep_at_merge_value_strat_loop.induct)
  case (2 opt pre dst k sv src)
  then show ?case
    by (cases "kv_get dst k"; cases "merge_value opt (path_child pre k) (the (kv_get dst k)) sv")
      (auto simp: wf_map_Cons)
next
  case (3 opt path dv sv)
  have map_case: "is_ok (merge_value opt path (GMap ds) sv)" if dv: "dv = GMap ds" for ds
  proof (cases "as_map sv")
    case None
    with "3.prems" show ?thesis by (simp add: merge_value.simps)
  next
    case (Some ss)
    with "3.IH"(2) [of ds ss] "3.prems" dv have "is_ok (deep_at opt path ds ss)"
      by (auto dest: wf_as_map)
    with Some show ?thesis by (auto simp: merge_value.simps is_ok_def)
  qed
  have slice_case: "is_ok (merge_value opt path dv sv)"
    if ds: "as_map dv = None" "as_slice dv = Some ds" for ds
  proof (cases "as_slice sv")
    case None
    with ds "3.prems" show ?thesis by (simp add: merge_value.simps)
  next
    case (Some ss)
    have "is_ok (strat_loop opt path key (key_index key 0 ds Map.empty) ds ss)"
      if "list_key opt path = Some key" for key
      using "3.IH"(1) [OF ds Some that] "3.prems"(1) wf_as_slice [OF "3.prems"(2) Some] key_index_ok0
      by blast
    with Some ds show ?thesis
      by (cases "list_key opt path") (auto simp: merge_value.simps [of opt path dv sv] is_ok_def)
  qed
  show ?case
  proof (cases "as_map dv")
    case (Some ds)
    then show ?thesis
      using map_case "3.prems"(1) by (elim as_map_SomeE) (auto simp: merge_value.simps split: option.splits)
  next
    case None
    then show ?thesis
      using slice_case "3.prems"(1) by (cases "as_slice dv") (auto simp: merge_value.simps [of opt path dv sv])
  qed
next
  case (5 opt path key idx a e b)
  show ?case
  proof (cases "entry_key key e")
    case None
    with 5 show ?thesis by (simp add: idx_ok_append del: wf_val.simps(2))
  next
    case (Some k)
    note k = this
    show ?thesis
    proof (cases "idx k")
      case None
      have "wf_val (GSlice b)" using "5.prems"(2) by simp
      then have "is_ok (strat_loop opt path key (idx(k \<mapsto> length a)) (a @ [e]) b)"
        by (rule "5.IH"(2) [OF k None "5.prems"(1) _ idx_ok_append_new [OF "5.prems"(3) k]])
      with k None show ?thesis by simp
    next
      fix i assume i: "idx k = Some i"
      from idx_okD [OF "5.prems"(3) i] obtain ex where ex: "i < length a" "a ! i = GMap ex"
        "kv_get ex key = Some (GStr k)" "k \<noteq> ''''" .
      have wf: "wf_map (entries e)"
        using k "5.prems"(2) by (auto simp: entry_key_Some simp del: wf_val.simps(2))
      with "5.IH"(4) [OF k i, of ex] ex "5.prems"(1) obtain r where r: "deep_at opt (path @ ''[]'') ex (entries e) = Inr r"
        by (auto simp: is_ok_def)
      have "entry_key key (GMap r) = Some k"
        by (rule entry_key_merged [OF wf ex(3) _ r ex(4)]) (use k in \<open>auto simp: entry_key_Some\<close>)
      from idx_ok_update [OF "5.prems"(3) i this] "5.IH"(5) [OF k i, of ex r] ex r "5.prems"
      have "is_ok (strat_loop opt path key idx (a[i := GMap r]) b)"
        by (simp del: wf_val.simps(2))
      with strat_loop_known [OF "5.prems"(3) k i] ex r show ?thesis by simp
    qed
  qed
qed (simp_all)

section \<open>The order in which a map is visited does not matter\<close>

fun agree :: "('x \<Rightarrow> 'y) \<Rightarrow> 'e + 'x \<Rightarrow> 'e + 'x \<Rightarrow> bool" where
  "agree f (Inr x) (Inr y) \<longleftrightarrow> f x = f y"
| "agree f (Inl d) (Inl e) \<longleftrightarrow> True"
| "agree f _ _ \<longleftrightarrow> False"

lemma agree_iff: "agree f r s \<longleftrightarrow>
    is_ok r = is_ok s \<and> (\<forall>x y. r = Inr x \<longrightarrow> s = Inr y \<longrightarrow> f x = f y)"
  by (cases r; cases s) auto

lemma gsem_eq_cases:
  assumes "gsem v = gsem w"
  obtains l where "v = GLeaf l" "w = GLeaf l" | "v = GNilMap" "w = GNilMap"
  | m n where "v = GMap m" "w = GMap n" "msem m = msem n" | "v = GNilSlice" "w = GNilSlice"
  | xs ys where "v = GSlice xs" "w = GSlice ys" "map gsem xs = map gsem ys"
  using assms by (cases v; cases w) auto

lemma msem_eq_get:
  assumes "msem m = msem n" and "kv_get m k = Some v"
  obtains w where "kv_get n k = Some w" "gsem v = gsem w"
proof -
  from assms have "map_option gsem (kv_get n k) = Some (gsem v)"
    by (metis msem_def option.simps(9))
  then show ?thesis using that by auto
qed

lemma gsem_GStr_iff: "gsem v = SLeaf l \<longleftrightarrow> v = GLeaf l"
  by (cases v) auto

lemma string_key_cong: "map_option gsem v = map_option gsem w \<Longrightarrow> string_key v = string_key w"
  by (cases v; cases w) (auto elim!: gsem_eq_cases)

lemma entry_key_cong: "gsem e = gsem e' \<Longrightarrow> entry_key key e = entry_key key e'"
  by (elim gsem_eq_cases) (auto simp: entry_key_def msem_def fun_eq_iff intro!: string_key_cong)

lemma key_index_cong: "map gsem a = map gsem a' \<Longrightarrow> key_index key i a idx = key_index key i a' idx"
proof (induction a arbitrary: a' i idx)
  case (Cons e a)
  then obtain e' b where "a' = e' # b" "gsem e = gsem e'" "map gsem a = map gsem b"
    by (cases a') auto
  with Cons.IH entry_key_cong [of e e' key] show ?case by simp
qed simp

lemma same_kind_cong: "gsem sv = gsem sv' \<Longrightarrow> same_kind (GLeaf l) sv = same_kind (GLeaf l) sv'"
  by (elim gsem_eq_cases; cases l) auto

definition cong_at :: "merge_opts \<Rightarrow> gval \<Rightarrow> bool" where
  "cong_at opt sv \<longleftrightarrow> (\<forall>path dv dv' sv'. wf_val dv \<longrightarrow> wf_val dv' \<longrightarrow> wf_val sv' \<longrightarrow>
     gsem dv = gsem dv' \<longrightarrow> gsem sv = gsem sv' \<longrightarrow>
     agree gsem (merge_value opt path dv sv) (merge_value opt path dv' sv'))"

lemma cong_atD:
  "cong_at opt sv \<Longrightarrow> wf_val dv \<Longrightarrow> wf_val dv' \<Longrightarrow> wf_val sv' \<Longrightarrow> gsem dv = gsem dv' \<Longrightarrow>
   gsem sv = gsem sv' \<Longrightarrow> agree gsem (merge_value opt path dv sv) (merge_value opt path dv' sv')"
  by (simp add: cong_at_def)

lemma deep_at_ok_cong:
  assumes "msem dst = msem dst'" and "msem src = msem src'"
    and "wf_map dst" and "wf_map dst'" and "wf_map src" and "wf_map src'"
    and cong: "\<forall>k sv. kv_get src k = Some sv \<longrightarrow> cong_at opt sv"
  shows "is_ok (deep_at opt pre dst src) \<longleftrightarrow> is_ok (deep_at opt pre dst' src')"
proof -
  have eq: "is_ok (merge_value opt (path_child pre k) dv sv) = is_ok (merge_value opt (path_child pre k) dv' sv')"
    if "kv_get src k = Some sv" "kv_get dst k = Some dv" "kv_get src' k = Some sv'" "kv_get dst' k = Some dv'"
      "gsem sv = gsem sv'" "gsem dv = gsem dv'" for k sv dv sv' dv'
  proof -
    have "agree gsem (merge_value opt (path_child pre k) dv sv) (merge_value opt (path_child pre k) dv' sv')"
      using assms(3-6) cong that by (intro cong_atD) (auto dest: wf_map_get)
    then show ?thesis by (simp add: agree_iff)
  qed
  show ?thesis
    unfolding deep_at_ok_iff [OF wf_map_distinct [OF assms(5)]] deep_at_ok_iff [OF wf_map_distinct [OF assms(6)]]
  proof (intro iffI allI impI)
    fix k sv' dv'
    assume all: "\<forall>k sv dv. kv_get src k = Some sv \<longrightarrow> kv_get dst k = Some dv \<longrightarrow>
        is_ok (merge_value opt (path_child pre k) dv sv)"
      and get: "kv_get src' k = Some sv'" "kv_get dst' k = Some dv'"
    obtain sv where sv: "kv_get src k = Some sv" "gsem sv' = gsem sv"
      using msem_eq_get [OF assms(2) [symmetric] get(1)] .
    obtain dv where dv: "kv_get dst k = Some dv" "gsem dv' = gsem dv"
      using msem_eq_get [OF assms(1) [symmetric] get(2)] .
    show "is_ok (merge_value opt (path_child pre k) dv' sv')"
      using eq [OF sv(1) dv(1) get] all sv dv by simp
  next
    fix k sv dv
    assume all: "\<forall>k sv dv. kv_get src' k = Some sv \<longrightarrow> kv_get dst' k = Some dv \<longrightarrow>
        is_ok (merge_value opt (path_child pre k) dv sv)"
      and get: "kv_get src k = Some sv" "kv_get dst k = Some dv"
    obtain sv' where sv': "kv_get src' k = Some sv'" "gsem sv = gsem sv'"
      using msem_eq_get [OF assms(2) get(1)] .
    obtain dv' where dv': "kv_get dst' k = Some dv'" "gsem dv = gsem dv'"
      using msem_eq_get [OF assms(1) get(2)] .
    show "is_ok (merge_value opt (path_child pre k) dv sv)"
      using eq [OF get sv'(1) dv'(1)] all sv' dv' by simp
  qed
qed

lemma deep_at_cong:
  assumes "msem dst = msem dst'" and "msem src = msem src'"
    and "wf_map dst" and "wf_map dst'" and "wf_map src" and "wf_map src'"
    and "\<forall>k sv. kv_get src k = Some sv \<longrightarrow> cong_at opt sv"
  shows "agree msem (deep_at opt pre dst src) (deep_at opt pre dst' src')"
  unfolding agree_iff
proof (intro conjI allI impI)
  show "is_ok (deep_at opt pre dst src) = is_ok (deep_at opt pre dst' src')"
    by (rule deep_at_ok_cong [OF assms])
next
  fix m m' assume m: "deep_at opt pre dst src = Inr m" and m': "deep_at opt pre dst' src' = Inr m'"
  show "msem m = msem m'"
  proof
    fix k
    note get = deep_at_get [OF wf_map_distinct [OF assms(5)] m, of k]
      deep_at_get [OF wf_map_distinct [OF assms(6)] m', of k]
    show "msem m k = msem m' k"
    proof (cases "kv_get src k")
      case None
      moreover from None assms(2) have "kv_get src' k = None" by (metis msem_None_iff)
      ultimately show ?thesis using get assms(1) by (simp add: msem_def fun_eq_iff)
    next
      case (Some sv)
      from msem_eq_get [OF assms(2) Some] obtain sv' where sv': "kv_get src' k = Some sv'" "gsem sv = gsem sv'" .
      show ?thesis
      proof (cases "kv_get dst k")
        case None
        moreover from None assms(1) have "kv_get dst' k = None" by (metis msem_None_iff)
        ultimately show ?thesis using get Some sv' by (simp add: msem_def)
      next
        fix dv assume dv: "kv_get dst k = Some dv"
        from msem_eq_get [OF assms(1) dv] obtain dv' where dv': "kv_get dst' k = Some dv'" "gsem dv = gsem dv'" .
        have ok: "is_ok (merge_value opt (path_child pre k) dv sv)"
          using m Some dv deep_at_ok_iff [OF wf_map_distinct [OF assms(5)], of opt pre dst] by auto
        have "agree gsem (merge_value opt (path_child pre k) dv sv) (merge_value opt (path_child pre k) dv' sv')"
          using assms(3-7) sv' dv' dv Some by (intro cong_atD) (auto dest: wf_map_get)
        with ok get Some sv' dv dv' show ?thesis
          by (auto simp: msem_def is_ok_def agree_iff split: sum.splits)
      qed
    qed
  qed
qed

lemma map_gsem_update: "map gsem a = map gsem a' \<Longrightarrow> gsem x = gsem y \<Longrightarrow> map gsem (a[i := x]) = map gsem (a'[i := y])"
  by (simp add: map_update)

lemma map_gsem_nth: "map gsem a = map gsem a' \<Longrightarrow> i < length a \<Longrightarrow> gsem (a ! i) = gsem (a' ! i)"
  by (metis length_map nth_map)

lemma wf_entries: "wf_val e \<Longrightarrow> wf_map (entries e)"
  by (cases e) auto

lemma msem_entries: "gsem e = gsem e' \<Longrightarrow> msem (entries e) = msem (entries e')"
  by (elim gsem_eq_cases) auto

definition cong_below :: "merge_opts \<Rightarrow> nat \<Rightarrow> bool" where
  "cong_below opt n \<longleftrightarrow> (\<forall>sv. size sv < n \<longrightarrow> wf_val sv \<longrightarrow> cong_at opt sv)"

lemma size_kv_get: "kv_get m k = Some v \<Longrightarrow> size v < size (GMap m)"
proof (induction m)
  case (Cons p m)
  then show ?case by (cases p) (auto split: if_splits)
qed simp

lemma cong_below_entries:
  assumes "cong_below opt n" and "size e \<le> n" and "wf_val e"
  shows "\<forall>k sv. kv_get (entries e) k = Some sv \<longrightarrow> cong_at opt sv"
proof (intro allI impI)
  fix k sv assume get: "kv_get (entries e) k = Some sv"
  then obtain m where m: "e = GMap m" by (cases e) auto
  with get assms(2,3) have "size sv < n" "wf_val sv"
    using size_kv_get [of m k sv] by (auto dest: wf_map_get)
  with assms(1) show "cong_at opt sv" by (simp add: cong_below_def)
qed

lemma strat_loop_cong:
  assumes "map gsem a = map gsem a'" and "map gsem b = map gsem b'"
    and "wf_val (GSlice a)" and "wf_val (GSlice a')" and "wf_val (GSlice b)" and "wf_val (GSlice b')"
    and "idx_ok key idx a" and "idx_ok key idx a'"
    and "\<forall>e \<in> set b. size e \<le> n" and "cong_below opt n"
  shows "agree (map gsem) (strat_loop opt path key idx a b) (strat_loop opt path key idx a' b')"
  using assms
proof (induction b arbitrary: a a' b' idx)
  case (Cons e b)
  from Cons.prems(2) obtain e' c where b': "b' = e' # c" and e: "gsem e = gsem e'" and bc: "map gsem b = map gsem c"
    by (cases b') auto
  have len: "length a' = length a" using Cons.prems(1) by (metis length_map)
  have key: "entry_key key e' = entry_key key e" using entry_key_cong [OF e] by simp
  have wfe: "wf_val e" "wf_val e'" using Cons.prems(5,6) b' by auto
  note rest = Cons.IH [OF _ bc]
  show ?case
  proof (cases "entry_key key e")
    case None
    then show ?thesis
      using rest [of "a @ [e]" "a' @ [e']" idx] Cons.prems e key
      by (simp add: b' idx_ok_append del: wf_val.simps(2))
  next
    case (Some k)
    show ?thesis
    proof (cases "idx k")
      case None
      have "idx_ok key (idx(k \<mapsto> length a)) (a' @ [e'])"
        using idx_ok_append_new [OF Cons.prems(8), of e' k] Some key len by simp
      moreover have "idx_ok key (idx(k \<mapsto> length a)) (a @ [e])"
        by (rule idx_ok_append_new [OF Cons.prems(7) Some])
      ultimately have "agree (map gsem) (strat_loop opt path key (idx(k \<mapsto> length a)) (a @ [e]) b)
          (strat_loop opt path key (idx(k \<mapsto> length a)) (a' @ [e']) c)"
        by (intro rest [of "a @ [e]" "a' @ [e']" "idx(k \<mapsto> length a)"])
          (use Cons.prems e in \<open>auto simp: b' simp del: wf_val.simps(2) fun_upd_apply\<close>)
      with Some None key len show ?thesis by (simp add: b')
    next
      fix i assume i: "idx k = Some i"
      from idx_okD [OF Cons.prems(7) i] obtain ex where ex: "i < length a" "a ! i = GMap ex"
        "kv_get ex key = Some (GStr k)" "k \<noteq> ''''" .
      from idx_okD [OF Cons.prems(8) i] obtain ex' where ex': "i < length a'" "a' ! i = GMap ex'"
        "kv_get ex' key = Some (GStr k)" "k \<noteq> ''''" .
      have msem_ex: "msem ex = msem ex'"
        using map_gsem_nth [OF Cons.prems(1) ex(1)] ex ex' by simp
      have wf_ex: "wf_map ex" "wf_map ex'"
        using wf_slice_nth [OF Cons.prems(3) ex(1)] wf_slice_nth [OF Cons.prems(4) ex'(1)] ex ex' by auto
      have ag: "agree msem (deep_at opt (path @ ''[]'') ex (entries e)) (deep_at opt (path @ ''[]'') ex' (entries e'))"
        using Cons.prems(9,10) b'
        by (intro deep_at_cong msem_ex msem_entries e wf_ex wf_entries wfe cong_below_entries) auto
      have step: "strat_loop opt path key idx a (e # b) = rbind (deep_at opt (path @ ''[]'') ex (entries e))
            (\<lambda>r. strat_loop opt path key idx (a[i := GMap r]) b)"
        "strat_loop opt path key idx a' (e' # c) = rbind (deep_at opt (path @ ''[]'') ex' (entries e'))
            (\<lambda>r. strat_loop opt path key idx (a'[i := GMap r]) c)"
        using strat_loop_known [OF Cons.prems(7) Some i] strat_loop_known [OF Cons.prems(8) _ i, of e'] Some key ex ex'
        by auto
      show ?thesis
      proof (cases "deep_at opt (path @ ''[]'') ex (entries e)")
        case (Inl err)
        with ag step show ?thesis by (cases "deep_at opt (path @ ''[]'') ex' (entries e')") (auto simp: b')
      next
        case (Inr r)
        with ag obtain r' where r': "deep_at opt (path @ ''[]'') ex' (entries e') = Inr r'" "msem r = msem r'"
          by (cases "deep_at opt (path @ ''[]'') ex' (entries e')") auto
        have kr: "entry_key key (GMap r) = Some k"
          by (rule entry_key_merged [OF wf_entries [OF wfe(1)] ex(3) _ Inr ex(4)]) (use Some in \<open>auto simp: entry_key_Some\<close>)
        have kr': "entry_key key (GMap r') = Some k"
          by (rule entry_key_merged [OF wf_entries [OF wfe(2)] ex'(3) _ r'(1) ex'(4)]) (use Some key entry_key_Some [of key e' k] in auto)
        have wfr: "wf_map r" "wf_map r'"
          using wf_merge(1) Inr r'(1) wf_ex wf_entries wfe by blast+
        have "agree (map gsem) (strat_loop opt path key idx (a[i := GMap r]) b) (strat_loop opt path key idx (a'[i := GMap r']) c)"
        proof (rule rest [of "a[i := GMap r]" "a'[i := GMap r']" idx])
          show "map gsem (a[i := GMap r]) = map gsem (a'[i := GMap r'])"
            by (rule map_gsem_update [OF Cons.prems(1)]) (simp add: r'(2))
          show "idx_ok key idx (a[i := GMap r])" by (rule idx_ok_update [OF Cons.prems(7) i kr])
          show "idx_ok key idx (a'[i := GMap r'])" by (rule idx_ok_update [OF Cons.prems(8) i kr'])
          show "wf_val (GSlice (a[i := GMap r]))" "wf_val (GSlice (a'[i := GMap r']))"
            using Cons.prems(3,4) wfr by (simp_all add: wf_slice_update del: wf_val.simps(2))
        qed (use Cons.prems b' in auto)
        with step Inr r' show ?thesis by (simp add: b')
      qed
    qed
  qed
qed simp

lemma size_in_list: "e \<in> set b \<Longrightarrow> size e \<le> size (GSlice b)"
  by (induction b) auto

lemma gsem_grown: "gsem v = gsem w \<Longrightarrow> map gsem xs = map gsem ys \<Longrightarrow> gsem (grown_slice v xs) = gsem (grown_slice w ys)"
  by (elim gsem_eq_cases) (auto simp: grown_slice_def)

lemma as_slice_cong: "gsem v = gsem w \<Longrightarrow> map_option (map gsem) (as_slice v) = map_option (map gsem) (as_slice w)"
  by (elim gsem_eq_cases) auto

lemma merge_value_cong: "wf_val sv \<Longrightarrow> cong_at opt sv"
proof (induction "size sv" arbitrary: sv rule: less_induct)
  case less
  then have below: "cong_below opt (size sv)" by (simp add: cong_below_def)
  show ?case
    unfolding cong_at_def
  proof (intro allI impI)
    fix path dv dv' sv'
    assume wf: "wf_val dv" "wf_val dv'" "wf_val sv'" and dv: "gsem dv = gsem dv'" and sv: "gsem sv = gsem sv'"
    have maps: "agree msem (deep_at opt path ds ss) (deep_at opt path ds' ss')"
      if "dv = GMap ds" "dv' = GMap ds'" "sv = GMap ss" "sv' = GMap ss'" for ds ds' ss ss'
    proof (rule deep_at_cong)
      show "\<forall>k sv. kv_get ss k = Some sv \<longrightarrow> cong_at opt sv"
        using cong_below_entries [OF below order_refl less.prems] that by simp
    qed (use wf dv sv less.prems that in auto)
    have slices: "agree (map gsem) (strat_loop opt path key (key_index key 0 ds Map.empty) ds ss)
        (strat_loop opt path key (key_index key 0 ds' Map.empty) ds' ss')"
      if "as_slice dv = Some ds" "as_slice dv' = Some ds'" "as_slice sv = Some ss" "as_slice sv' = Some ss'"
      for ds ds' ss ss' key
    proof -
      have ds: "map gsem ds = map gsem ds'" "map gsem ss = map gsem ss'"
        using as_slice_cong [OF dv] as_slice_cong [OF sv] that by auto
      have "size e \<le> size sv" if "e \<in> set ss" for e
        using that \<open>as_slice sv = Some ss\<close> size_in_list by (auto elim!: as_slice_SomeE)
      then show ?thesis
        using below key_index_ok0 [of key ds] key_index_ok0 [of key ds'] key_index_cong [OF ds(1), of key 0 Map.empty]
          wf_as_slice [OF wf(1) that(1)] wf_as_slice [OF wf(2) that(2)]
          wf_as_slice [OF less.prems that(3)] wf_as_slice [OF wf(3) that(4)]
        by (metis strat_loop_cong [OF ds])
    qed
    have slice_case: "agree gsem (merge_value opt path dv sv) (merge_value opt path dv' sv')"
      if "as_map dv = None" "as_slice dv = Some ds" "as_map dv' = None" "as_slice dv' = Some ds'" for ds ds'
    proof (cases "as_slice sv")
      case None
      with as_slice_cong [OF sv] that sv show ?thesis by (auto simp: merge_value.simps)
    next
      case (Some ss)
      with as_slice_cong [OF sv] obtain ss' where ss': "as_slice sv' = Some ss'" "map gsem ss = map gsem ss'"
        by (cases "as_slice sv'") auto
      have ds: "map gsem ds = map gsem ds'" using as_slice_cong [OF dv] that by simp
      show ?thesis
      proof (cases "list_key opt path")
        case None
        with that Some ss' ds sv dv show ?thesis by (auto simp: merge_value.simps intro!: gsem_grown)
      next
        fix key assume key: "list_key opt path = Some key"
        have "agree gsem (rbind x (\<lambda>xs. Inr (grown_slice dv xs))) (rbind y (\<lambda>xs. Inr (grown_slice dv' xs)))"
          if "agree (map gsem) x y" for x y :: "merge_error + gval list"
          using that dv by (cases x; cases y) (auto intro: gsem_grown)
        from this [OF slices [OF that(2,4) Some ss'(1)]] key that Some ss' show ?thesis
          by (simp add: merge_value.simps)
      qed
    qed
    show "agree gsem (merge_value opt path dv sv) (merge_value opt path dv' sv')"
      using dv
    proof (cases rule: gsem_eq_cases)
      case (1 l)
      then show ?thesis using sv same_kind_cong [OF sv] by (auto simp: merge_value.simps)
    next
      case 2
      with sv show ?thesis by (elim gsem_eq_cases) (auto simp: merge_value.simps)
    next
      case (3 ds ds')
      note d = this
      from sv show ?thesis
      proof (cases rule: gsem_eq_cases)
        case (3 ss ss')
        from maps [OF d(1,2) 3(1,2)] d 3 show ?thesis
          by (cases "deep_at opt path ds ss"; cases "deep_at opt path ds' ss'")
            (auto simp: merge_value.simps)
      qed (use d in \<open>auto simp: merge_value.simps\<close>)
    next
      case 4
      with slice_case show ?thesis by simp
    next
      case (5 xs ys)
      with slice_case show ?thesis by simp
    qed
  qed
qed


text \<open>Deep merge is a function of the Go values alone: whichever order \<open>range\<close> picks for the maps on
  either side, at any depth, it fails or succeeds alike and yields the same document.\<close>

lemma deep_cong:
  assumes "msem dst = msem dst'" and "msem src = msem src'"
    and "wf_map dst" and "wf_map dst'" and "wf_map src" and "wf_map src'"
  shows "agree (map_option msem) (deep (Some dst) src opt) (deep (Some dst') src' opt)"
proof -
  have "agree msem (deep_at opt '''' dst src) (deep_at opt '''' dst' src')"
    using assms by (intro deep_at_cong) (auto intro: merge_value_cong dest: wf_map_get)
  then show ?thesis
    by (cases "deep_at opt '''' dst src"; cases "deep_at opt '''' dst' src'") (auto simp: deep_def)
qed

section \<open>The abstract specification: overlay\<close>

text \<open>What a layer means, with the default options: its maps are laid over the document's, key by key
  and level by level, and everything else replaces what was there.\<close>

primrec overlay :: "sem \<Rightarrow> sem \<Rightarrow> sem" where
  "overlay (SLeaf l) d = SLeaf l"
| "overlay SNilMap d = (case d of SMap g \<Rightarrow> SMap g | _ \<Rightarrow> SNilMap)"
| "overlay (SMap f) d =
     (case d of
        SMap g \<Rightarrow>
          SMap (\<lambda>k. case (map_option overlay \<circ> f) k of
                       None \<Rightarrow> g k
                     | Some h \<Rightarrow> (case g k of None \<Rightarrow> f k | Some dk \<Rightarrow> Some (h dk)))
      | _ \<Rightarrow> SMap f)"
| "overlay SNilSlice d = SNilSlice"
| "overlay (SSlice xs) d = SSlice xs"

definition overlay_map :: "(string \<rightharpoonup> sem) \<Rightarrow> (string \<rightharpoonup> sem) \<Rightarrow> (string \<rightharpoonup> sem)" where
  "overlay_map f g k = (case f k of None \<Rightarrow> g k
     | Some s \<Rightarrow> (case g k of None \<Rightarrow> Some s | Some d \<Rightarrow> Some (overlay s d)))"

lemma overlay_SMap: "overlay (SMap f) (SMap g) = SMap (overlay_map f g)"
  by (auto simp: overlay_map_def fun_eq_iff split: option.splits)

definition plain_opts :: "merge_opts \<Rightarrow> bool" where
  "plain_opts opt \<longleftrightarrow> \<not> strict opt \<and> \<not> append_slices opt \<and> merge_keys opt = Map.empty"

lemma overlay_map_step:
  assumes "k \<notin> set (keys src)"
  shows "overlay_map (msem src) (g(k \<mapsto> (case g k of None \<Rightarrow> gsem sv | Some d \<Rightarrow> overlay (gsem sv) d)))
       = overlay_map (msem ((k, sv) # src)) g"
proof -
  have "msem src k = None" using assms by (simp add: msem_None_iff kv_get_None_iff)
  then show ?thesis by (auto simp: overlay_map_def fun_eq_iff msem_Cons split: option.splits)
qed

lemma overlay_refines:
  "plain_opts opt \<Longrightarrow> wf_map src \<Longrightarrow> \<exists>m. deep_at opt pre dst src = Inr m \<and> msem m = overlay_map (msem src) (msem dst)"
  "plain_opts opt \<Longrightarrow> wf_val sv \<Longrightarrow> \<exists>v. merge_value opt path dv sv = Inr v \<and> gsem v = overlay (gsem sv) (gsem dv)"
  "strat_loop opt path key idx a b = strat_loop opt path key idx a b"
proof (induction opt pre dst src and opt path dv sv and opt path key idx a b
    rule: deep_at_merge_value_strat_loop.induct)
  case (1 opt pre dst)
  then show ?case by (simp add: overlay_map_def fun_eq_iff)
next
  case (2 opt pre dst k sv src)
  show ?case
  proof (cases "kv_get dst k")
    case None
    then have "msem dst k = None" by (simp add: msem_def)
    from "2.IH"(1) [OF None] "2.prems" obtain m where
      "deep_at opt pre (kv_set k sv dst) src = Inr m" "msem m = overlay_map (msem src) (msem (kv_set k sv dst))"
      by (auto simp: wf_map_Cons simp del: msem_set)
    with None \<open>msem dst k = None\<close> overlay_map_step [of k src "msem dst" sv] "2.prems" show ?thesis
      by (auto simp: wf_map_Cons simp del: fun_upd_apply)
  next
    case (Some dv)
    then have d: "msem dst k = Some (gsem dv)" by (simp add: msem_def)
    from "2.IH"(2) [OF Some] "2.prems" obtain v where v: "merge_value opt (path_child pre k) dv sv = Inr v"
      "gsem v = overlay (gsem sv) (gsem dv)" by (auto simp: wf_map_Cons)
    from "2.IH"(3) [OF Some v(1)] "2.prems" obtain m where
      "deep_at opt pre (kv_set k v dst) src = Inr m" "msem m = overlay_map (msem src) (msem (kv_set k v dst))"
      by (auto simp: wf_map_Cons simp del: msem_set)
    with Some d v overlay_map_step [of k src "msem dst" sv] "2.prems" show ?thesis
      by (auto simp: wf_map_Cons simp del: fun_upd_apply)
  qed
next
  case (3 opt path dv sv)
  show ?case
  proof (cases "\<exists>ds ss. dv = GMap ds \<and> sv = GMap ss")
    case True
    then obtain ds ss where eq: "dv = GMap ds" "sv = GMap ss" by blast
    with "3.IH"(2) [of ds ss] "3.prems" obtain m where
      "deep_at opt path ds ss = Inr m" "msem m = overlay_map (msem ss) (msem ds)" by auto
    with eq show ?thesis by (simp add: merge_value.simps overlay_SMap del: overlay.simps)
  next
    case False
    with "3.prems" show ?thesis
      by (cases dv; cases sv) (auto simp: merge_value.simps plain_opts_def list_key_def)
  qed
qed simp_all

lemma deep_at_overlay:
  assumes "plain_opts opt" and "wf_map src"
  obtains m where "deep_at opt pre dst src = Inr m" "msem m = overlay_map (msem src) (msem dst)"
  using overlay_refines(1) [OF assms] by metis

lemma overlay_self: "overlay s s = s"
proof (induction s)
  case (SMap f)
  have "overlay y y = y" if "f x = Some y" for x y
    using SMap [of "f x" y] that rangeI [of f x] by simp
  then have "overlay_map f f = f"
    by (auto simp: overlay_map_def fun_eq_iff split: option.splits)
  then show ?case by (simp add: overlay_SMap del: overlay.simps(3))
qed auto

lemma overlay_idem: "overlay s (overlay s d) = overlay s d"
proof (induction s arbitrary: d)
  case (SMap f)
  have "overlay y (overlay y d) = overlay y d" if "f x = Some y" for x y d
    using SMap [of "f x" y] that rangeI [of f x] by simp
  then have "overlay_map f (overlay_map f g) = overlay_map f g" for g
    by (auto simp: overlay_map_def fun_eq_iff overlay_self split: option.splits)
  then have map: "overlay (SMap f) (overlay (SMap f) (SMap g)) = overlay (SMap f) (SMap g)" for g
    by (simp add: overlay_SMap del: overlay.simps(3))
  have "overlay (SMap f) d = SMap f" if "\<nexists>g. d = SMap g"
    using that by (cases d) auto
  with map overlay_self [of "SMap f"] show ?case
    by (cases "\<exists>g. d = SMap g") (auto simp del: overlay.simps(3))
qed (auto split: sem.splits)

lemma overlay_map_idem: "overlay_map f (overlay_map f g) = overlay_map f g"
  using overlay_idem [of "SMap f" "SMap g"] by (simp add: overlay_SMap del: overlay.simps(3))

section \<open>Strict merges\<close>

text \<open>Strict mode only adds failures: where it succeeds, the lax merge computes the same document.\<close>

lemma strict_agrees:
  "deep_at opt pre dst src = Inr m \<Longrightarrow> deep_at (opt\<lparr>strict := False\<rparr>) pre dst src = Inr m"
  "merge_value opt path dv sv = Inr v \<Longrightarrow> merge_value (opt\<lparr>strict := False\<rparr>) path dv sv = Inr v"
  "strat_loop opt path key idx a b = Inr xs \<Longrightarrow> strat_loop (opt\<lparr>strict := False\<rparr>) path key idx a b = Inr xs"
proof (induction opt pre dst src and opt path dv sv and opt path key idx a b
    arbitrary: m and v and xs rule: deep_at_merge_value_strat_loop.induct)
  case (3 opt path dv sv)
  have "list_key (opt\<lparr>strict := False\<rparr>) path = list_key opt path" by (simp add: list_key_def)
  with 3 show ?case
    by (auto simp: merge_value.simps [of _ path dv sv] rbind_Inr_iff split: option.splits if_splits)
qed (auto simp: rbind_Inr_iff split: option.splits if_splits)

text \<open>The type mismatches a strict merge reports.\<close>

fun conflict :: "gval \<Rightarrow> gval \<Rightarrow> bool" where
  "conflict dv sv \<longleftrightarrow>
     (if is_map dv then \<not> is_map sv
      else if as_slice dv \<noteq> None then as_slice sv = None
      else \<not> same_kind dv sv)"

section \<open>Lists aligned by key\<close>

definition list_keys :: "string \<Rightarrow> gval list \<Rightarrow> string list" where
  "list_keys key xs = List.map_filter (entry_key key) xs"

lemma list_keys_simps [simp]:
  "list_keys key [] = []"
  "list_keys key (e # xs) = (case entry_key key e of None \<Rightarrow> list_keys key xs | Some k \<Rightarrow> k # list_keys key xs)"
  "list_keys key (xs @ ys) = list_keys key xs @ list_keys key ys"
  by (auto simp: list_keys_def List.map_filter_def split: option.splits)

lemma set_list_keys: "set (list_keys key xs) = {k. \<exists>e \<in> set xs. entry_key key e = Some k}"
  by (induction xs) (auto split: option.splits)

lemma list_keys_update:
  assumes "i < length a" and "entry_key key e = entry_key key (a ! i)"
  shows "list_keys key (a[i := e]) = list_keys key a"
proof -
  have "list_keys key (a[i := e]) = list_keys key (take i a) @ list_keys key [e] @ list_keys key (drop (Suc i) a)"
    using assms(1) by (simp add: upd_conv_take_nth_drop split: option.splits)
  also have "\<dots> = list_keys key (take i a) @ list_keys key [a ! i] @ list_keys key (drop (Suc i) a)"
    using assms(2) by simp
  also have "\<dots> = list_keys key a"
    using assms(1) by (metis append_Cons append_Nil id_take_nth_drop list_keys_simps(3))
  finally show ?thesis .
qed

text \<open>What the second loop of \<open>strategicMergeList\<close> guarantees for the list \<open>a\<close> it started with and the
  entries \<open>b\<close> it consumed: every old entry keeps its position and its key, an entry whose key \<open>b\<close> does
  not mention is untouched, and the keys of the result are those of both lists.\<close>

definition aligned :: "string \<Rightarrow> gval list \<Rightarrow> gval list \<Rightarrow> gval list \<Rightarrow> bool" where
  "aligned key a b r \<longleftrightarrow>
     length a \<le> length r \<and>
     (\<forall>i < length a. entry_key key (r ! i) = entry_key key (a ! i)) \<and>
     (\<forall>i < length a. entry_key key (a ! i) \<notin> Some ` set (list_keys key b) \<longrightarrow> r ! i = a ! i) \<and>
     set (list_keys key r) = set (list_keys key a) \<union> set (list_keys key b) \<and>
     (distinct (list_keys key a) \<longrightarrow> distinct (list_keys key r))"

lemma alignedD:
  assumes "aligned key a b r"
  shows "length a \<le> length r"
    and "i < length a \<Longrightarrow> entry_key key (r ! i) = entry_key key (a ! i)"
    and "i < length a \<Longrightarrow> entry_key key (a ! i) \<notin> Some ` set (list_keys key b) \<Longrightarrow> r ! i = a ! i"
    and "set (list_keys key r) = set (list_keys key a) \<union> set (list_keys key b)"
    and "distinct (list_keys key a) \<Longrightarrow> distinct (list_keys key r)"
  using assms by (auto simp: aligned_def)

lemma aligned_append:
  assumes "aligned key (a @ [e]) b r" and "entry_key key e = None \<or> entry_key key e \<notin> Some ` set (list_keys key a)"
  shows "aligned key a (e # b) r"
  unfolding aligned_def
proof (intro conjI allI impI)
  show "length a \<le> length r" using alignedD(1) [OF assms(1)] by simp
  show "entry_key key (r ! i) = entry_key key (a ! i)" if "i < length a" for i
    using alignedD(2) [OF assms(1), of i] that by (simp add: nth_append)
  show "r ! i = a ! i" if "i < length a" "entry_key key (a ! i) \<notin> Some ` set (list_keys key (e # b))" for i
    using alignedD(3) [OF assms(1), of i] that by (auto simp: nth_append split: option.splits)
  show "set (list_keys key r) = set (list_keys key a) \<union> set (list_keys key (e # b))"
    using alignedD(4) [OF assms(1)] by (auto split: option.splits)
  show "distinct (list_keys key r)" if "distinct (list_keys key a)"
    using alignedD(5) [OF assms(1)] that assms(2) by (cases "entry_key key e") auto
qed

lemma aligned_update:
  assumes "aligned key (a[i := x]) b r" and "i < length a"
    and "entry_key key (a ! i) = Some k" and "entry_key key x = Some k" and "entry_key key e = Some k"
  shows "aligned key a (e # b) r"
  unfolding aligned_def
proof (intro conjI allI impI)
  have keys: "list_keys key (a[i := x]) = list_keys key a"
    using list_keys_update [OF assms(2), of key x] assms(3,4) by simp
  have k: "k \<in> set (list_keys key a)" using assms(2,3) by (auto simp: set_list_keys)
  show "length a \<le> length r" using alignedD(1) [OF assms(1)] by simp
  show "entry_key key (r ! j) = entry_key key (a ! j)" if "j < length a" for j
    using alignedD(2) [OF assms(1), of j] that assms(2-4) by (cases "j = i") simp_all
  show "r ! j = a ! j" if "j < length a" "entry_key key (a ! j) \<notin> Some ` set (list_keys key (e # b))" for j
    using alignedD(3) [OF assms(1), of j] that assms(3,5) by (cases "j = i") auto
  show "set (list_keys key r) = set (list_keys key a) \<union> set (list_keys key (e # b))"
    using alignedD(4) [OF assms(1)] keys k assms(5) by auto
  show "distinct (list_keys key r)" if "distinct (list_keys key a)"
    using alignedD(5) [OF assms(1)] that keys by simp
qed

lemma strat_loop_aligned:
  assumes "strat_loop opt path key idx a b = Inr r" and "idx_ok key idx a"
    and "dom idx = set (list_keys key a)" and "wf_val (GSlice b)"
  shows "aligned key a b r"
  using assms
proof (induction b arbitrary: a idx)
  case Nil
  then show ?case by (simp add: aligned_def)
next
  case (Cons e b)
  have wf: "wf_val (GSlice b)" "wf_val e" using Cons.prems(4) by auto
  show ?case
  proof (cases "entry_key key e")
    case None
    with Cons.prems have "aligned key (a @ [e]) b r"
      by (intro Cons.IH [of idx "a @ [e]"]) (auto simp: idx_ok_append)
    with None show ?thesis by (simp add: aligned_append)
  next
    case (Some k)
    note k = this
    show ?thesis
    proof (cases "idx k")
      case None
      have new: "k \<notin> set (list_keys key a)" using None Cons.prems(3) by auto
      have "aligned key (a @ [e]) b r"
        by (rule Cons.IH [of "idx(k \<mapsto> length a)" "a @ [e]"])
          (use Cons.prems k None wf in \<open>auto simp: idx_ok_append_new simp del: wf_val.simps(2) fun_upd_apply\<close>)
      with k new show ?thesis by (auto intro: aligned_append)
    next
      fix i assume i: "idx k = Some i"
      from idx_okD [OF Cons.prems(2) i] obtain ex where ex: "i < length a" "a ! i = GMap ex"
        "kv_get ex key = Some (GStr k)" "k \<noteq> ''''" .
      with strat_loop_known [OF Cons.prems(2) k i] Cons.prems(1) obtain m where
        m: "deep_at opt (path @ ''[]'') ex (entries e) = Inr m"
           "strat_loop opt path key idx (a[i := GMap m]) b = Inr r"
        by (auto simp: rbind_Inr_iff)
      have km: "entry_key key (GMap m) = Some k"
        by (rule entry_key_merged [OF wf_entries [OF wf(2)] ex(3) _ m(1) ex(4)])
          (use k entry_key_Some [of key e k] in auto)
      have ki: "entry_key key (a ! i) = Some k" using ex by (simp add: entry_key_Some)
      have keys: "list_keys key (a[i := GMap m]) = list_keys key a"
        using list_keys_update [OF ex(1), of key "GMap m"] km ki by simp
      have "aligned key (a[i := GMap m]) b r"
        by (rule Cons.IH [OF m(2) idx_ok_update [OF Cons.prems(2) i km] _ wf(1)])
          (use Cons.prems(3) keys in simp)
      then show ?thesis by (rule aligned_update [OF _ ex(1) ki km k])
    qed
  qed
qed

lemma dom_key_index: "dom (key_index key i a idx) = dom idx \<union> set (list_keys key a)"
  by (induction a arbitrary: i idx) (auto split: option.splits)

lemma strategic_merge_aligned:
  assumes "list_key opt path = Some key" and "wf_val (GSlice b)"
    and "merge_value opt path (GSlice a) (GSlice b) = Inr v"
  obtains r where "v = GSlice r" "aligned key a b r"
proof -
  from assms obtain r where r: "strat_loop opt path key (key_index key 0 a Map.empty) a b = Inr r" "v = GSlice r"
    by (auto simp: merge_value.simps rbind_Inr_iff grown_slice_def)
  from strat_loop_aligned [OF r(1) key_index_ok0 _ assms(2)] have "aligned key a b r"
    by (simp add: dom_key_index)
  with r that show thesis by blast
qed

section \<open>Properties\<close>

text \<open>C23. The result of a deep merge does not depend on the order in which Go ranges over the maps: for
  any two visiting orders of the same two documents, at every depth and under every combination of
  options, both merges fail or both succeed with the same document.\<close>

theorem merge_order_independent:
  assumes "gsem (GMap dst) = gsem (GMap dst')" and "gsem (GMap src) = gsem (GMap src')"
    and "wf_map dst" and "wf_map dst'" and "wf_map src" and "wf_map src'"
  shows "agree (map_option msem) (deep (Some dst) src opt) (deep (Some dst') src' opt)"
  using assms by (intro deep_cong) simp_all

lemma merge_order_independent_witness:
  "let dst = [(''a'', GMap [(''x'', GStr ''1''), (''y'', GStr ''2'')]), (''b'', GNil)];
       dst' = [(''b'', GNil), (''a'', GMap [(''y'', GStr ''2''), (''x'', GStr ''1'')])];
       src = [(''a'', GMap [(''y'', GStr ''9'')]), (''c'', GSlice [])];
       src' = [(''c'', GSlice []), (''a'', GMap [(''y'', GStr ''9'')])];
       opt = \<lparr>append_slices = False, strict = True, merge_keys = Map.empty\<rparr>
   in dst \<noteq> dst' \<and> src \<noteq> src' \<and> is_ok (deep (Some dst) src opt) \<and>
      agree (map_option msem) (deep (Some dst) src opt) (deep (Some dst') src' opt)"
proof -
  have "agree (map_option msem)
     (deep (Some [(''a'', GMap [(''x'', GStr ''1''), (''y'', GStr ''2'')]), (''b'', GNil)])
        [(''a'', GMap [(''y'', GStr ''9'')]), (''c'', GSlice [])]
        \<lparr>append_slices = False, strict = True, merge_keys = Map.empty\<rparr>)
     (deep (Some [(''b'', GNil), (''a'', GMap [(''y'', GStr ''2''), (''x'', GStr ''1'')])])
        [(''c'', GSlice []), (''a'', GMap [(''y'', GStr ''9'')])]
        \<lparr>append_slices = False, strict = True, merge_keys = Map.empty\<rparr>)"
    by (rule merge_order_independent) (simp_all add: msem_Cons fun_eq_iff wf_map_def)
  then show ?thesis
    by (simp add: deep_def merge_value.simps path_child_def)
qed

text \<open>C24. With the default options (no strict mode, no slice appending, no merge keys) a deep merge always
  succeeds and computes the overlay of the two documents: key by key, maps merge recursively and every
  other value of the layer replaces the document's.\<close>

theorem merge_refines_overlay:
  assumes "plain_opts opt" and "wf_map src"
  shows "\<exists>m. deep (Some dst) src opt = Inr (Some m) \<and> msem m = overlay_map (msem src) (msem dst)"
  using overlay_refines(1) [OF assms, of "''''" dst] by (auto simp: deep_def)

lemma merge_refines_overlay_witness:
  "\<exists>m. deep (Some [(''a'', GStr ''1'')]) [(''a'', GMap [(''b'', GNil)])]
         \<lparr>append_slices = False, strict = False, merge_keys = Map.empty\<rparr> = Inr (Some m) \<and>
       msem m = overlay_map (msem [(''a'', GMap [(''b'', GNil)])]) (msem [(''a'', GStr ''1'')])"
  by (rule merge_refines_overlay) (simp_all add: plain_opts_def wf_map_def)

text \<open>Without strict mode no merge fails, whatever the slice options and merge keys: in particular the
  write to a nil map that \<open>strategicMergeList\<close> could make through its key index never happens.\<close>

theorem lax_merge_total:
  assumes "\<not> strict opt" and "wf_map src"
  shows "is_ok (deep (Some dst) src opt)"
  using lax_ok(1) [OF assms, of "''''" dst] by (auto simp: deep_def is_ok_def)

lemma lax_merge_total_witness:
  "is_ok (deep (Some [(''l'', GSlice [GNilMap, GStr ''x''])]) [(''l'', GSlice [GMap [(''name'', GStr ''n'')]])]
     \<lparr>append_slices = True, strict = False, merge_keys = [''l'' \<mapsto> ''name'']\<rparr>)"
  by (rule lax_merge_total) (simp_all add: wf_map_def)

text \<open>A strict merge that succeeds computes what the lax merge computes: strict mode only turns type
  conflicts into errors.\<close>

theorem strict_merge_agrees:
  assumes "deep dst src opt = Inr m"
  shows "deep dst src (opt\<lparr>strict := False\<rparr>) = Inr m"
proof (cases dst)
  case (Some d)
  with assms obtain m' where "deep_at opt '''' d src = Inr m'" "m = Some m'"
    by (auto simp: deep_def rbind_Inr_iff)
  from strict_agrees(1) [OF this(1)] this(2) Some show ?thesis by (simp add: deep_def)
qed (use assms in \<open>simp add: deep_def split: if_splits\<close>)

lemma strict_merge_agrees_witness:
  "deep (Some [(''a'', GStr ''1'')]) [(''a'', GStr ''2'')]
     (\<lparr>append_slices = False, strict = True, merge_keys = Map.empty\<rparr>\<lparr>strict := False\<rparr>)
   = Inr (Some [(''a'', GStr ''2'')])"
  by (rule strict_merge_agrees) (simp add: deep_def merge_value.simps path_child_def)

text \<open>A strategic merge of two lists under key field \<open>key\<close> keeps every entry of the old list at its
  position with its key, leaves the entries whose key the layer does not mention untouched, and yields
  exactly the keys of both lists, without duplicates when the old list had none.\<close>

theorem strategic_merge_keys:
  assumes "list_key opt path = Some key" and "wf_val (GSlice b)"
    and "merge_value opt path (GSlice a) (GSlice b) = Inr v"
  shows "\<exists>r. v = GSlice r \<and> length a \<le> length r \<and>
     (\<forall>i < length a. entry_key key (r ! i) = entry_key key (a ! i)) \<and>
     (\<forall>i < length a. entry_key key (a ! i) \<notin> Some ` set (list_keys key b) \<longrightarrow> r ! i = a ! i) \<and>
     set (list_keys key r) = set (list_keys key a) \<union> set (list_keys key b) \<and>
     (distinct (list_keys key a) \<longrightarrow> distinct (list_keys key r))"
proof -
  obtain r where "v = GSlice r" "aligned key a b r" by (rule strategic_merge_aligned [OF assms])
  then show ?thesis unfolding aligned_def by blast
qed

lemma strategic_merge_keys_witness:
  "let opt = \<lparr>append_slices = False, strict = False, merge_keys = [''c'' \<mapsto> ''name'']\<rparr>;
       a = [GMap [(''name'', GStr ''x''), (''v'', GStr ''1'')], GStr ''raw''];
       b = [GMap [(''name'', GStr ''x''), (''v'', GStr ''2'')], GMap [(''name'', GStr ''y'')]]
   in \<exists>v r. merge_value opt ''c'' (GSlice a) (GSlice b) = Inr v \<and> v = GSlice r \<and>
        distinct (list_keys ''name'' r) \<and> r ! 1 = GStr ''raw''"
proof -
  define opt where "opt = \<lparr>append_slices = False, strict = False, merge_keys = [''c'' \<mapsto> ''name'']\<rparr>"
  define a where "a = [GMap [(''name'', GStr ''x''), (''v'', GStr ''1'')], GStr ''raw'']"
  define b where "b = [GMap [(''name'', GStr ''x''), (''v'', GStr ''2'')], GMap [(''name'', GStr ''y'')]]"
  have ok: "is_ok (merge_value opt ''c'' (GSlice a) (GSlice b))"
    by (rule lax_ok(2)) (simp_all add: opt_def b_def wf_map_def)
  then obtain v where v: "merge_value opt ''c'' (GSlice a) (GSlice b) = Inr v" by (auto simp: is_ok_def)
  have "list_key opt ''c'' = Some ''name''" "wf_val (GSlice b)"
    by (simp_all add: opt_def list_key_def b_def wf_map_def)
  from strategic_merge_keys [OF this v] obtain r where r: "v = GSlice r"
    "\<forall>i < length a. entry_key ''name'' (a ! i) \<notin> Some ` set (list_keys ''name'' b) \<longrightarrow> r ! i = a ! i"
    "distinct (list_keys ''name'' a) \<longrightarrow> distinct (list_keys ''name'' r)" by blast
  have a: "distinct (list_keys ''name'' a)" "entry_key ''name'' (a ! 1) = None" "1 < length a" "a ! 1 = GStr ''raw''"
    by (simp_all add: a_def entry_key_def)
  from r(2) a(2,3) have "r ! 1 = a ! 1" by (metis image_iff option.distinct(1))
  with r a v have "\<exists>v r. merge_value opt ''c'' (GSlice a) (GSlice b) = Inr v \<and> v = GSlice r \<and>
        distinct (list_keys ''name'' r) \<and> r ! 1 = GStr ''raw''" by auto
  then show ?thesis
    unfolding Let_def opt_def a_def b_def .
qed

end
