(* ===== verification/Paths.thy ===== *)
theory Paths
  imports Merge
begin

text \<open>
  \<open>confmap/path.go\<close>: reading, writing and deleting by dotted path. A document of \<open>None\<close> is a nil
  \<open>map[string]any\<close>. The loops walk down one map per path segment; the model rebuilds the maps on the
  way back. The laws the rest of the repository relies on are the locale \<open>path_store\<close>.
\<close>

section \<open>Definitions\<close>

definition split_path :: "string \<Rightarrow> string list" where
  "split_path dotted = (if dotted = '''' then [] else split_char (CHR ''.'') dotted)"

fun get_from :: "gval \<Rightarrow> string list \<Rightarrow> gval option" where
  "get_from cur [] = Some cur"
| "get_from cur (p # ps) =
     (case as_map cur of
        None \<Rightarrow> None
      | Some m \<Rightarrow> (case kv_get m p of None \<Rightarrow> None | Some v \<Rightarrow> get_from v ps))"

definition get_at :: "gmap option \<Rightarrow> string list \<Rightarrow> gval option" where
  "get_at doc parts =
     (case doc of
        None \<Rightarrow> None
      | Some m \<Rightarrow> if parts = [] then None else get_from (GMap m) parts)"

definition get_dotted :: "gmap option \<Rightarrow> string \<Rightarrow> gval option" where
  "get_dotted doc dotted = get_at doc (split_path dotted)"

text \<open>The map \<open>Set\<close> steps into: the existing one, or a fresh one in place of anything else.\<close>

definition step_into :: "gmap \<Rightarrow> string \<Rightarrow> gmap" where
  "step_into cur p = (case kv_get cur p of Some (GMap m) \<Rightarrow> m | _ \<Rightarrow> [])"

fun set_from :: "gmap \<Rightarrow> string list \<Rightarrow> gval \<Rightarrow> gmap" where
  "set_from cur [] v = cur"
| "set_from cur [p] v = kv_set p v cur"
| "set_from cur (p # q # ps) v = kv_set p (GMap (set_from (step_into cur p) (q # ps) v)) cur"

definition set_at :: "gmap option \<Rightarrow> string list \<Rightarrow> gval \<Rightarrow> gmap option" where
  "set_at doc parts v =
     (case doc of None \<Rightarrow> None | Some m \<Rightarrow> if parts = [] then Some m else Some (set_from m parts v))"

definition set_dotted :: "gmap option \<Rightarrow> string \<Rightarrow> gval \<Rightarrow> gmap option" where
  "set_dotted doc dotted v = set_at doc (split_path dotted) v"

fun del_from :: "gmap \<Rightarrow> string list \<Rightarrow> gmap" where
  "del_from cur [] = cur"
| "del_from cur [p] = kv_del p cur"
| "del_from cur (p # q # ps) =
     (case kv_get cur p of
        Some (GMap m) \<Rightarrow> kv_set p (GMap (del_from m (q # ps))) cur
      | _ \<Rightarrow> cur)"   \<comment> \<open>a nil map on the way has nothing to delete\<close>

definition del_at :: "gmap option \<Rightarrow> string list \<Rightarrow> gmap option" where
  "del_at doc parts =
     (case doc of None \<Rightarrow> None | Some m \<Rightarrow> if parts = [] then Some m else Some (del_from m parts))"

definition del_dotted :: "gmap option \<Rightarrow> string \<Rightarrow> gmap option" where
  "del_dotted doc dotted = del_at doc (split_path dotted)"

section \<open>The laws of a path store\<close>

definition apart :: "string list \<Rightarrow> string list \<Rightarrow> bool" where
  "apart ps qs \<longleftrightarrow> \<not> prefix ps qs \<and> \<not> prefix qs ps"

lemma apart_sym: "apart ps qs \<longleftrightarrow> apart qs ps"
  by (auto simp: apart_def)

lemma apart_Cons: "apart (p # ps) (q # qs) \<longleftrightarrow> p \<noteq> q \<or> apart ps qs"
  by (auto simp: apart_def)

lemma apart_Nil [simp]: "\<not> apart [] qs" "\<not> apart ps []"
  by (auto simp: apart_def)

locale path_store =
  fixes get :: "'s \<Rightarrow> string list \<Rightarrow> 'v option"
    and put :: "'s \<Rightarrow> string list \<Rightarrow> 'v \<Rightarrow> 's"
    and del :: "'s \<Rightarrow> string list \<Rightarrow> 's"
    and live :: "'s \<Rightarrow> bool"
  assumes live_put: "live s \<Longrightarrow> live (put s ps v)"
    and live_del: "live s \<Longrightarrow> live (del s ps)"
    and get_put: "live s \<Longrightarrow> ps \<noteq> [] \<Longrightarrow> get (put s ps v) ps = Some v"
    and get_put_apart: "live s \<Longrightarrow> apart ps qs \<Longrightarrow> get (put s ps v) qs = get s qs"
    and get_del: "live s \<Longrightarrow> ps \<noteq> [] \<Longrightarrow> get (del s ps) (ps @ qs) = None"
    and get_del_apart: "live s \<Longrightarrow> apart ps qs \<Longrightarrow> get (del s ps) qs = get s qs"
begin

text \<open>Moving a value: what \<open>transform.Aliases\<close> does for one mapping whose target is free.\<close>

definition move :: "'s \<Rightarrow> string list \<Rightarrow> string list \<Rightarrow> 's" where
  "move s from to = (case get s from of None \<Rightarrow> s
     | Some v \<Rightarrow> del (if get s to = None then put s to v else s) from)"

lemma live_move: "live s \<Longrightarrow> live (move s from to)"
  by (simp add: move_def live_put live_del split: option.splits)

lemma move_target_free:
  assumes "live s" and "apart from to" and "get s from = Some v" and "get s to = None"
  shows "get (move s from to) to = Some v"
proof -
  have "to \<noteq> []" using assms(2) by auto
  with assms show ?thesis by (simp add: move_def get_del_apart get_put live_put)
qed

lemma move_target_taken:
  assumes "live s" and "apart from to" and "get s to = Some w"
  shows "get (move s from to) to = Some w"
  using assms by (auto simp: move_def get_del_apart split: option.splits)

lemma move_source_gone:
  assumes "live s" and "apart from to"
  shows "get (move s from to) from = None"
proof -
  have "from \<noteq> []" using assms(2) by auto
  then show ?thesis
    using assms get_del [of _ "from" "[]"] by (simp add: move_def live_put split: option.splits)
qed

lemma move_elsewhere:
  assumes "live s" and "apart from qs" and "apart to qs"
  shows "get (move s from to) qs = get s qs"
  using assms by (auto simp: move_def get_del_apart get_put_apart live_put split: option.splits)

text \<open>Deleting a list of paths.\<close>

definition del_all :: "'s \<Rightarrow> string list list \<Rightarrow> 's" where
  "del_all s pss = foldl del s pss"

lemma live_del_all: "live s \<Longrightarrow> live (del_all s pss)"
  by (induction pss arbitrary: s) (auto simp: del_all_def live_del)

lemma del_all_apart: "live s \<Longrightarrow> \<forall>ps \<in> set pss. apart ps qs \<Longrightarrow> get (del_all s pss) qs = get s qs"
  by (induction pss arbitrary: s) (auto simp: del_all_def live_del get_del_apart)

end

section \<open>\<open>Get\<close>, \<open>Set\<close> and \<open>Delete\<close> are a path store\<close>

lemma get_from_set_from: "ps \<noteq> [] \<Longrightarrow> get_from (GMap (set_from m ps v)) ps = Some v"
  by (induction m ps v rule: set_from.induct) auto

lemma get_from_step_into: "ps \<noteq> [] \<Longrightarrow> kv_get m p = Some v \<Longrightarrow>
   get_from (GMap (step_into m p)) ps = get_from v ps"
  by (cases ps; cases v) (auto simp: step_into_def)

lemma get_from_step_into_None: "ps \<noteq> [] \<Longrightarrow> kv_get m p = None \<Longrightarrow> get_from (GMap (step_into m p)) ps = None"
  by (cases ps) (auto simp: step_into_def)

lemma get_from_set_from_apart:
  "apart ps qs \<Longrightarrow> get_from (GMap (set_from m ps v)) qs = get_from (GMap m) qs"
proof (induction m ps v arbitrary: qs rule: set_from.induct)
  case (3 cur p q ps v)
  then obtain r rs where qs: "qs = r # rs" by (cases qs) auto
  show ?case
  proof (cases "r = p")
    case True
    with 3 qs have "apart (q # ps) rs" by (simp add: apart_Cons)
    with "3.IH" have "get_from (GMap (set_from (step_into cur p) (q # ps) v)) rs = get_from (GMap (step_into cur p)) rs"
      by simp
    moreover have "rs \<noteq> []" using \<open>apart (q # ps) rs\<close> by auto
    ultimately show ?thesis
      using qs True get_from_step_into [of rs cur p] get_from_step_into_None [of rs cur p]
      by (cases "kv_get cur p") auto
  qed (simp add: qs)
next
  case (2 cur p v)
  then show ?case by (cases qs) (auto simp: apart_Cons)
qed simp

lemma get_from_del_from: "ps \<noteq> [] \<Longrightarrow> get_from (GMap (del_from m ps)) (ps @ qs) = None"
proof (induction m ps rule: del_from.induct)
  case (3 cur p q ps)
  then show ?case by (cases "kv_get cur p") (auto split: gval.splits)
qed auto

lemma get_from_del_from_apart:
  "apart ps qs \<Longrightarrow> get_from (GMap (del_from m ps)) qs = get_from (GMap m) qs"
proof (induction m ps arbitrary: qs rule: del_from.induct)
  case (3 cur p q ps)
  then obtain r rs where qs: "qs = r # rs" by (cases qs) auto
  with 3 show ?case
    by (cases "kv_get cur p") (auto simp: apart_Cons split: gval.splits)
next
  case (2 cur p)
  then show ?case by (cases qs) (auto simp: apart_Cons)
qed simp

interpretation paths: path_store get_at set_at del_at "\<lambda>r. r \<noteq> None"
proof
  fix s :: "gmap option" and ps qs v
  assume "s \<noteq> None"
  then obtain m where m: "s = Some m" by auto
  show "set_at s ps v \<noteq> None" "del_at s ps \<noteq> None" by (simp_all add: m set_at_def del_at_def)
  show "get_at (set_at s ps v) ps = Some v" if "ps \<noteq> []"
    using that get_from_set_from [of ps m v] by (simp add: m get_at_def set_at_def)
  show "get_at (set_at s ps v) qs = get_at s qs" if "apart ps qs"
    using that get_from_set_from_apart [of ps qs m v] by (auto simp: m get_at_def set_at_def)
  show "get_at (del_at s ps) (ps @ qs) = None" if "ps \<noteq> []"
    using that get_from_del_from [of ps m qs] by (simp add: m get_at_def del_at_def)
  show "get_at (del_at s ps) qs = get_at s qs" if "apart ps qs"
    using that get_from_del_from_apart [of ps qs m] by (auto simp: m get_at_def del_at_def)
qed

lemma wf_set_from [inv_intros]: "wf_map m \<Longrightarrow> wf_val v \<Longrightarrow> wf_map (set_from m ps v)"
proof (induction m ps v rule: set_from.induct)
  case (3 cur p q ps v)
  moreover from 3 have "wf_map (step_into cur p)"
    by (auto simp: step_into_def split: option.splits gval.splits dest: wf_map_get)
  ultimately show ?case by (simp add: wf_map_set)
qed (auto intro: wf_map_set)

lemma wf_del_from [inv_intros]: "wf_map m \<Longrightarrow> wf_map (del_from m ps)"
proof (induction m ps rule: del_from.induct)
  case (3 cur p q ps)
  then show ?case
    by (auto split: option.splits gval.splits intro!: wf_map_set dest: wf_map_get)
qed (auto intro: wf_map_del)

section \<open>Reading a merged document\<close>

fun sget :: "sem \<Rightarrow> string list \<Rightarrow> sem option" where
  "sget s [] = Some s"
| "sget (SMap f) (p # ps) = (case f p of None \<Rightarrow> None | Some t \<Rightarrow> sget t ps)"
| "sget _ (p # ps) = None"

lemma sget_gsem: "sget (gsem v) ps = map_option gsem (get_from v ps)"
proof (induction ps arbitrary: v)
  case (Cons p ps)
  show ?case
  proof (cases v)
    case (GMap m)
    with Cons show ?thesis by (cases "kv_get m p") (simp_all add: msem_def)
  qed simp_all
qed simp

text \<open>A layer that is silent at a path neither defines it nor puts a non-map above it.\<close>

fun silent :: "sem \<Rightarrow> string list \<Rightarrow> bool" where
  "silent (SMap f) (p # ps) = (case f p of None \<Rightarrow> True | Some t \<Rightarrow> silent t ps)"
| "silent _ _ = False"

lemma silent_undefined: "silent s ps \<Longrightarrow> sget s ps = None"
  by (induction s ps rule: silent.induct) (auto split: option.splits)

lemma sget_overlay_silent: "silent s ps \<Longrightarrow> sget (overlay s d) ps = sget d ps"
proof (induction s ps arbitrary: d rule: silent.induct)
  case (1 f p ps)
  show ?case
  proof (cases "\<exists>g. d = SMap g")
    case True
    then obtain g where "d = SMap g" ..
    with 1 show ?thesis
      by (auto simp: overlay_SMap overlay_map_def silent_undefined simp del: overlay.simps(3) split: option.splits)
  next
    case False
    with 1 silent_undefined [of "SMap f" "p # ps"] show ?thesis by (cases d) auto
  qed
qed auto

fun sem_is_map :: "sem \<Rightarrow> bool" where
  "sem_is_map (SMap f) = True"
| "sem_is_map SNilMap = True"
| "sem_is_map _ = False"

lemma sem_is_map_gsem [simp]: "sem_is_map (gsem v) = is_map v"
  by (cases v) auto

lemma sget_overlay_wins: "sget s ps = Some t \<Longrightarrow> \<not> sem_is_map t \<Longrightarrow> sget (overlay s d) ps = Some t"
proof (induction s ps arbitrary: d rule: sget.induct)
  case (1 s)
  then show ?case by (cases s) auto
next
  case (2 f p ps)
  show ?case
  proof (cases "\<exists>g. d = SMap g")
    case True
    then obtain g where "d = SMap g" ..
    with 2 show ?thesis
      by (auto simp: overlay_SMap overlay_map_def simp del: overlay.simps(3) split: option.splits)
  next
    case False
    with 2 show ?thesis by (cases d) auto
  qed
qed auto

definition doc_get :: "(string \<rightharpoonup> sem) \<Rightarrow> string list \<Rightarrow> sem option" where
  "doc_get f ps = sget (SMap f) ps"

lemma doc_get_msem: "ps \<noteq> [] \<Longrightarrow> doc_get (msem m) ps = map_option gsem (get_at (Some m) ps)"
  using sget_gsem [of "GMap m" ps] by (simp add: doc_get_def get_at_def)

lemma doc_get_overlay_silent: "silent (SMap f) ps \<Longrightarrow> doc_get (overlay_map f g) ps = doc_get g ps"
  using sget_overlay_silent [of "SMap f" ps "SMap g"]
  by (simp add: doc_get_def overlay_SMap del: overlay.simps(3))

lemma doc_get_overlay_wins:
  "doc_get f ps = Some t \<Longrightarrow> \<not> sem_is_map t \<Longrightarrow> doc_get (overlay_map f g) ps = Some t"
  using sget_overlay_wins [of "SMap f" ps t "SMap g"]
  by (simp add: doc_get_def overlay_SMap del: overlay.simps(3))

section \<open>Properties\<close>

text \<open>Writing at a path and reading it back returns the value, leaves every path that is neither above
  nor below it as it was, and keeps the document well-formed; deleting a path removes it and everything
  below it, and leaves the rest alone.\<close>

theorem path_write_read_delete:
  assumes "ps \<noteq> []"
  shows "get_at (set_at (Some m) ps v) ps = Some v \<and>
     (\<forall>qs. apart ps qs \<longrightarrow> get_at (set_at (Some m) ps v) qs = get_at (Some m) qs) \<and>
     (\<forall>qs. get_at (del_at (Some m) ps) (ps @ qs) = None) \<and>
     (\<forall>qs. apart ps qs \<longrightarrow> get_at (del_at (Some m) ps) qs = get_at (Some m) qs) \<and>
     (wf_map m \<and> wf_val v \<longrightarrow> wf_map (set_from m ps v) \<and> wf_map (del_from m ps))"
  using assms paths.get_put [of "Some m" ps v] paths.get_put_apart [of "Some m" ps _ v]
    paths.get_del [of "Some m" ps] paths.get_del_apart [of "Some m" ps] wf_set_from wf_del_from
  by blast

lemma path_write_read_delete_witness:
  "get_at (set_at (Some [(''a'', GStr ''x'')]) [''a'', ''b''] GNil) [''a'', ''b''] = Some GNil"
  using path_write_read_delete [of "[''a'', ''b'']" "[(''a'', GStr ''x'')]" GNil] by simp

text \<open>Merge options under which a list of a layer replaces the list below it: no appending and no merge key.\<close>

definition whole_lists :: "merge_opts \<Rightarrow> bool" where
  "whole_lists opt \<longleftrightarrow> \<not> append_slices opt \<and> merge_keys opt = Map.empty"

lemma merge_value_leaf:
  assumes "merge_value opt path dv v = Inr w" "\<not> is_map v" "as_slice v = None \<or> whole_lists opt"
  shows "w = v"
  using assms
  by (cases v; cases dv) (auto simp: merge_value.simps list_key_def whole_lists_def split: if_splits)

lemma merge_value_into:
  assumes "merge_value opt path dv (GMap ss) = Inr w"
  obtains "w = GMap ss" "\<And>p ps. get_from dv (p # ps) = None"
  | ds m pre where "dv = GMap ds" "w = GMap m" "deep_at opt pre ds ss = Inr m"
proof (cases dv)
  case (GMap ds)
  then show ?thesis using assms that(2) by (auto simp: merge_value.simps rbind_Inr_iff)
next
  case GNilMap
  then show ?thesis using assms that(1) by (auto simp: merge_value.simps)
next
  case (GLeaf l)
  then show ?thesis using assms that(1) by (auto simp: merge_value.simps split: if_splits)
next
  case GNilSlice
  then show ?thesis using assms that(1) by (auto simp: merge_value.simps split: if_splits)
next
  case (GSlice xs)
  then show ?thesis using assms that(1) by (auto simp: merge_value.simps split: if_splits)
qed

text \<open>Whatever the merge options, a merge that succeeds leaves a layer's value where the layer holds one.\<close>

lemma deep_at_leaf:
  assumes "deep_at opt pre dst src = Inr m" "wf_map src" "get_from (GMap src) ps = Some v" "\<not> is_map v"
    "as_slice v = None \<or> whole_lists opt"
  shows "get_from (GMap m) ps = Some v"
  using assms(1-4)
proof (induction ps arbitrary: pre dst src m)
  case (Cons p ps)
  obtain sv where sv: "kv_get src p = Some sv" "get_from sv ps = Some v" using Cons.prems(3) by (auto split: option.splits)
  note get = deep_at_get [OF wf_map_distinct [OF Cons.prems(2)] Cons.prems(1), of p]
  show ?case
  proof (cases "kv_get dst p")
    case None
    then show ?thesis using get sv by simp
  next
    case (Some dv)
    have "is_ok (deep_at opt pre dst src)" using Cons.prems(1) by (simp add: is_ok_def)
    then have "is_ok (merge_value opt (path_child pre p) dv sv)"
      unfolding deep_at_ok_iff [OF wf_map_distinct [OF Cons.prems(2)]] using sv(1) Some by blast
    then obtain w where w: "merge_value opt (path_child pre p) dv sv = Inr w" by (auto simp: is_ok_def)
    have m: "kv_get m p = Some w" using get sv(1) Some w by simp
    show ?thesis
    proof (cases ps)
      case Nil
      then have "sv = v" using sv(2) by simp
      then have "w = v" using merge_value_leaf [OF _ Cons.prems(4) assms(5)] w by blast
      then show ?thesis using m Nil by simp
    next
      case (Cons q qs)
      then obtain ss where ss: "sv = GMap ss" using sv(2) by (cases sv) auto
      have wf: "wf_map ss" using wf_map_get [OF Cons.prems(2) sv(1)] by (simp add: ss)
      show ?thesis
      proof (rule merge_value_into [OF w [unfolded ss]])
        assume "w = GMap ss"
        then show ?thesis using m sv(2) ss by simp
      next
        fix ds m' pre' assume *: "w = GMap m'" "deep_at opt pre' ds ss = Inr m'"
        show ?thesis using Cons.IH [OF *(2) wf] sv(2) Cons.prems(4) m *(1) ss by simp
      qed
    qed
  qed
qed (use assms(4) in auto)

text \<open>And it leaves the document's value where the layer is silent.\<close>

lemma deep_at_silent:
  assumes "deep_at opt pre dst src = Inr m" "wf_map src" "silent (gsem (GMap src)) ps"
  shows "get_from (GMap m) ps = get_from (GMap dst) ps"
  using assms
proof (induction ps arbitrary: pre dst src m)
  case (Cons p ps)
  note get = deep_at_get [OF wf_map_distinct [OF Cons.prems(2)] Cons.prems(1), of p]
  show ?case
  proof (cases "kv_get src p")
    case None
    then show ?thesis using get by simp
  next
    case (Some sv)
    have quiet: "silent (gsem sv) ps" using Cons.prems(3) Some by (simp add: msem_def)
    then obtain ss q qs where ss: "sv = GMap ss" and ps: "ps = q # qs" by (cases sv; cases ps) auto
    have wf: "wf_map ss" using wf_map_get [OF Cons.prems(2) Some] by (simp add: ss)
    have none: "get_from sv ps = None" using silent_undefined [OF quiet] sget_gsem [of sv ps] by simp
    show ?thesis
    proof (cases "kv_get dst p")
      case None
      then show ?thesis using get Some none by simp
    next
      case (Some dv)
      have "is_ok (merge_value opt (path_child pre p) dv sv)"
        using deep_at_ok_iff [OF wf_map_distinct [OF Cons.prems(2)], of opt pre dst] Cons.prems(1) \<open>kv_get src p = _\<close> Some
        by (auto simp: is_ok_def)
      then obtain w where w: "merge_value opt (path_child pre p) dv sv = Inr w" by (auto simp: is_ok_def)
      have m: "kv_get m p = Some w" using get \<open>kv_get src p = _\<close> Some w by simp
      show ?thesis
      proof (rule merge_value_into [OF w [unfolded ss]])
        assume "w = GMap ss" "\<And>p ps. get_from dv (p # ps) = None"
        then show ?thesis using m none ss ps Some by simp
      next
        fix ds m' pre' assume *: "dv = GMap ds" "w = GMap m'" "deep_at opt pre' ds ss = Inr m'"
        show ?thesis using Cons.IH [OF *(3) wf] quiet m *(1,2) ss Some by simp
      qed
    qed
  qed
qed (use assms(3) in simp)

text \<open>C25. A later layer wins: when the merge of a layer succeeds, whatever its options (strict, appending, merge keys),
  the document has at every path exactly the value the layer holds there, unless that is a map (maps combine) or a list
  that the options append or merge by key; and where the layer neither defines the path nor puts a non-map above it
  the document's own value stays.\<close>

theorem later_layer_wins:
  assumes "deep (Some dst) src opt = Inr (Some m)" and "wf_map src" and "ps \<noteq> []"
  shows "(\<forall>v. get_at (Some src) ps = Some v \<and> \<not> is_map v \<and> (as_slice v = None \<or> whole_lists opt) \<longrightarrow>
        get_at (Some m) ps = Some v) \<and>
     (silent (gsem (GMap src)) ps \<longrightarrow> get_at (Some m) ps = get_at (Some dst) ps)"
proof -
  have d: "deep_at opt '''' dst src = Inr m" using assms(1) by (auto simp: deep_def rbind_Inr_iff)
  show ?thesis using deep_at_leaf [OF d assms(2)] deep_at_silent [OF d assms(2)] assms(3) by (simp add: get_at_def)
qed

lemma later_layer_wins_witness:
  "get_at (Some [(''a'', GMap [(''b'', GStr ''old''), (''c'', GStr ''new'')])]) [''a'', ''c''] = Some (GStr ''new'') \<and>
   get_at (Some [(''a'', GMap [(''b'', GStr ''old''), (''c'', GStr ''new'')])]) [''a'', ''b''] = Some (GStr ''old'')"
proof -
  have d: "deep (Some [(''a'', GMap [(''b'', GStr ''old'')])]) [(''a'', GMap [(''c'', GStr ''new'')])]
      \<lparr>append_slices = True, strict = True, merge_keys = Map.empty\<rparr>
    = Inr (Some [(''a'', GMap [(''b'', GStr ''old''), (''c'', GStr ''new'')])])"
    by (simp add: deep_def merge_value.simps)
  show ?thesis
    using later_layer_wins [OF d, of "[''a'', ''c'']"] later_layer_wins [OF d, of "[''a'', ''b'']"]
    by (simp add: wf_map_def get_at_def msem_def)
qed

end
