(* ===== verification/Labels.thy ===== *)
theory Labels
  imports Paths
begin

text \<open>
  \<open>confmap/coerce.go\<close>, \<open>confmap/labels.go\<close> and \<open>providers/labels\<close>: flat labels become one nested
  layer; the routing mode types the leaves and promotes indexed siblings to lists.
  \<open>strconv.ParseFloat\<close> is the parameter \<open>pf\<close>. Map-shaped input and the maps of the tree are
  association lists: their order is the order in which \<open>range\<close> visits them.
\<close>

section \<open>Writing a list of paths\<close>

text \<open>The loop shared by the label and environment providers: \<open>confmap.Set\<close> for every pair, in order.\<close>

definition set_all :: "gmap \<Rightarrow> (string list \<times> gval) list \<Rightarrow> gmap" where
  "set_all m pvs = foldl (\<lambda>m pv. if fst pv = [] then m else set_from m (fst pv) (snd pv)) m pvs"

lemma set_all_Nil [simp]: "set_all m [] = m"
  by (simp add: set_all_def)

lemma set_all_Cons [simp]:
  "set_all m (pv # pvs) = set_all (if fst pv = [] then m else set_from m (fst pv) (snd pv)) pvs"
  by (simp add: set_all_def)

lemma set_all_append: "set_all m (xs @ ys) = set_all (set_all m xs) ys"
  by (simp add: set_all_def)

lemma wf_set_all: "wf_map m \<Longrightarrow> \<forall>pv \<in> set pvs. wf_val (snd pv) \<Longrightarrow> wf_map (set_all m pvs)"
  by (induction pvs arbitrary: m) (auto intro: wf_set_from)

lemma set_all_apart:
  "\<forall>pv \<in> set pvs. fst pv = [] \<or> apart (fst pv) qs \<Longrightarrow>
   get_from (GMap (set_all m pvs)) qs = get_from (GMap m) qs"
  by (induction pvs arbitrary: m) (auto simp: get_from_set_from_apart)

lemma set_all_last:
  assumes "ps \<noteq> []" and "\<forall>pv \<in> set post. fst pv = [] \<or> apart (fst pv) ps"
  shows "get_from (GMap (set_all m (pre @ (ps, v) # post))) ps = Some v"
  using assms by (simp add: set_all_append set_all_apart get_from_set_from)

section \<open>Coerce\<close>

record coerce_opts =
  co_trim :: bool
  co_fold :: bool

definition coerce :: "(string \<Rightarrow> gfloat option) \<Rightarrow> coerce_opts \<Rightarrow> string \<Rightarrow> gval" where
  "coerce pf opts s0 =
     (let s = (if co_trim opts then trim_space s0 else s0);
          candidate = (if co_fold opts then to_lower s else s)
      in if candidate = ''true'' then GBool True
         else if candidate = ''false'' then GBool False
         else (case parse_int64 s of
                 Some n \<Rightarrow> GInt KInt64 n
               | None \<Rightarrow> (case pf s of Some f \<Rightarrow> GLeaf (LFloat64 f) | None \<Rightarrow> GStr s)))"

definition default_coerce :: coerce_opts where
  "default_coerce = \<lparr>co_trim = False, co_fold = False\<rparr>"

section \<open>Labels\<close>

type_synonym label_pair = "string \<times> string"

text \<open>The input shapes \<open>NormalizeLabelInput\<close> accepts.\<close>

datatype label_input =
    InPairs "label_pair list"
  | InStrings "string list"
  | InAnys "gval list"
  | InStringMap "label_pair list"
  | InAnyMap gmap
  | InOther

definition cut_eq :: "string \<Rightarrow> label_pair option" where
  "cut_eq s =
     (if CHR ''='' \<in> set s
      then Some (takeWhile (\<lambda>c. c \<noteq> CHR ''='') s, tl (dropWhile (\<lambda>c. c \<noteq> CHR ''='') s))
      else None)"

fun as_string :: "gval \<Rightarrow> string option" where
  "as_string (GLeaf (LStr s)) = Some s"
| "as_string _ = None"

definition normalize_label_input :: "label_input \<Rightarrow> label_pair list" where
  "normalize_label_input input =
     (case input of
        InPairs ps \<Rightarrow> ps
      | InStrings ss \<Rightarrow> List.map_filter cut_eq ss
      | InAnys vs \<Rightarrow> List.map_filter (\<lambda>v. Option.bind (as_string v) cut_eq) vs
      | InStringMap m \<Rightarrow> m
      | InAnyMap m \<Rightarrow> List.map_filter (\<lambda>(k, v). map_option (Pair k) (as_string v)) m
      | InOther \<Rightarrow> [])"

record label_opts =
  lo_prefix :: string
  lo_strip :: bool
  lo_separator :: string
  lo_separators :: "string list"
  lo_coerce :: bool

definition resolve_separators :: "label_opts \<Rightarrow> string list" where
  "resolve_separators lo =
     (let seps = filter (\<lambda>s. s \<noteq> '''') (lo_separators lo)
      in if seps \<noteq> [] then seps
         else if lo_separator lo \<noteq> '''' then [lo_separator lo]
         else [''.''])"

text \<open>\<open>strings.Split(s, sep)\<close> for a non-empty separator; \<open>acc\<close> is the segment read so far, reversed.\<close>

function split_str :: "string \<Rightarrow> string \<Rightarrow> string \<Rightarrow> string list" where
  "split_str sep acc s =
     (case s of
        [] \<Rightarrow> [rev acc]
      | c # r \<Rightarrow>
          if sep \<noteq> [] \<and> has_prefix s sep then rev acc # split_str sep [] (drop (length sep) s)
          else split_str sep (c # acc) r)"
  by pat_completeness auto
termination
  by (relation "measure (\<lambda>(sep, acc, s). length s)") (auto simp: has_prefix_def)

declare split_str.simps [simp del]

fun split_multi :: "string list \<Rightarrow> string list \<Rightarrow> string list" where
  "split_multi parts [] = parts"
| "split_multi parts (sep # seps) =
     split_multi (filter (\<lambda>p. p \<noteq> '''') (concat (map (split_str sep []) parts))) seps"

text \<open>The delimiter left over at the prefix boundary.\<close>

fun strip_boundary :: "string list \<Rightarrow> string \<Rightarrow> string" where
  "strip_boundary [] k = k"
| "strip_boundary (s # seps) k =
     (if s \<noteq> '''' \<and> has_prefix k s then trim_prefix k s else strip_boundary seps k)"

text \<open>The path one label key expands to; \<open>None\<close> when it is skipped.\<close>

definition label_path :: "label_opts \<Rightarrow> string \<Rightarrow> string list option" where
  "label_path lo key =
     (let seps = resolve_separators lo in
      if lo_prefix lo \<noteq> '''' \<and> \<not> has_prefix key (lo_prefix lo) then None
      else
        (let k = (if lo_prefix lo \<noteq> '''' \<and> lo_strip lo
                  then strip_boundary seps (trim_prefix key (lo_prefix lo)) else key)
         in if k = '''' then None else Some (split_multi [k] seps)))"

definition label_value :: "(string \<Rightarrow> gfloat option) \<Rightarrow> label_opts \<Rightarrow> string \<Rightarrow> gval" where
  "label_value pf lo v = (if lo_coerce lo then coerce pf default_coerce v else GStr v)"

definition expand_labels :: "(string \<Rightarrow> gfloat option) \<Rightarrow> label_input \<Rightarrow> label_opts \<Rightarrow> gmap" where
  "expand_labels pf input lo =
     set_all []
       (List.map_filter (\<lambda>(k, v). map_option (\<lambda>ps. (ps, label_value pf lo v)) (label_path lo k))
          (normalize_label_input input))"

section \<open>Routing labels\<close>

record routing =
  ro_gate :: string
  ro_list_sep :: string
  ro_no_split :: bool
  ro_keep_raw :: "string list option"
  ro_raw :: bool
  ro_lower :: bool

definition max_routing_index :: nat where "max_routing_index = 1023"

definition normalize_routing_key :: "bool \<Rightarrow> string \<Rightarrow> string" where
  "normalize_routing_key lower key = (if lower then to_lower key else key)"

definition routing_truthy :: "string \<Rightarrow> bool" where
  "routing_truthy v \<longleftrightarrow> to_lower (trim_space v) \<in> {''true'', ''1'', ''yes'', ''on''}"

definition routing_gate_blocks :: "label_pair list \<Rightarrow> string \<Rightarrow> bool" where
  "routing_gate_blocks pairs gate =
     (if gate = '''' then False
      else (case kv_get (rev pairs) gate of None \<Rightarrow> False | Some v \<Rightarrow> \<not> routing_truthy v))"

definition routing_keep_raw :: "string \<Rightarrow> string list option \<Rightarrow> bool" where
  "routing_keep_raw path configured =
     list_ex (\<lambda>s. s \<noteq> '''' \<and> has_suffix (to_lower path) (to_lower s))
       (case configured of None \<Rightarrow> [''.rule'', ''regexp''] | Some ss \<Rightarrow> ss)"

definition coerce_routing_scalar :: "(string \<Rightarrow> gfloat option) \<Rightarrow> string \<Rightarrow> gval" where
  "coerce_routing_scalar pf v = coerce pf \<lparr>co_trim = True, co_fold = True\<rparr> v"

definition rewrite_routing_leaf :: "(string \<Rightarrow> gfloat option) \<Rightarrow> routing \<Rightarrow> string \<Rightarrow> string \<Rightarrow> gval" where
  "rewrite_routing_leaf pf r dotted v =
     (if ro_raw r \<or> routing_keep_raw dotted (ro_keep_raw r) then GStr v
      else let sep = (if ro_list_sep r = '''' then '','' else ro_list_sep r);
               parts = split_str sep [] v
           in if \<not> ro_no_split r \<and> 1 < length parts
              then GSlice (map (\<lambda>p. coerce_routing_scalar pf (trim_space p)) parts)
              else coerce_routing_scalar pf v)"

definition rewrite_leaves :: "(string \<Rightarrow> gfloat option) \<Rightarrow> routing \<Rightarrow> string list \<Rightarrow> gmap \<Rightarrow> gmap" where
  "rewrite_leaves pf r path node =
     map (\<lambda>(k, v). (k, case as_string v of
                          Some s \<Rightarrow> rewrite_routing_leaf pf r (join_with ''.'' (path @ [k])) s
                        | None \<Rightarrow> v)) node"

text \<open>\<open>^(.+)\[(\d+)\]$\<close>: the base and the digits of an indexed key.\<close>

definition index_match :: "string \<Rightarrow> (string \<times> string) option" where
  "index_match key =
     (case rev key of
        [] \<Rightarrow> None
      | c # r \<Rightarrow>
          (let ds = rev (takeWhile is_digit r); b = dropWhile is_digit r in
           case b of
             [] \<Rightarrow> None
           | d # bs \<Rightarrow>
               if c = CHR '']'' \<and> ds \<noteq> [] \<and> d = CHR ''['' \<and> bs \<noteq> [] \<and> CHR 0x0A \<notin> set bs
               then Some (rev bs, ds) else None))"

datatype routing_error = IndexExceeds "string list"

text \<open>An \<open>indexedGroup\<close>: the values by index and the keys they came from.\<close>

type_synonym group = "(nat \<times> gval) list \<times> string list"

definition group_add :: "string \<Rightarrow> string \<Rightarrow> nat \<Rightarrow> gval \<Rightarrow> (string \<times> group) list \<Rightarrow> (string \<times> group) list" where
  "group_add key base i v groups =
     (let (vals, ks) = (case kv_get groups base of None \<Rightarrow> ([], []) | Some g \<Rightarrow> g)
      in kv_set base (kv_set i v vals, ks @ [key]) groups)"

fun collect_groups :: "string list \<Rightarrow> gmap \<Rightarrow> (string \<times> group) list \<Rightarrow> routing_error + (string \<times> group) list" where
  "collect_groups path [] groups = Inr groups"
| "collect_groups path ((key, v) # node) groups =
     (case index_match key of
        None \<Rightarrow> collect_groups path node groups
      | Some (base, ds) \<Rightarrow>
          (case parse_int64 ds of
             None \<Rightarrow> Inl (IndexExceeds (path @ [key]))
           | Some i \<Rightarrow>
               if int max_routing_index < i then Inl (IndexExceeds (path @ [key]))
               else collect_groups path node (group_add key base (nat i) v groups)))"

definition group_items :: "(nat \<times> gval) list \<Rightarrow> gval list" where
  "group_items vals =
     map (\<lambda>i. case kv_get vals i of Some v \<Rightarrow> v | None \<Rightarrow> GNil)
       [0 ..< Suc (fold max (keys vals) 0)]"

definition promote_group :: "string \<times> group \<Rightarrow> gmap \<Rightarrow> gmap" where
  "promote_group bg node =
     (case bg of (base, vals, ks) \<Rightarrow>
        if kv_get node base \<noteq> None then node
        else kv_set base (GSlice (group_items vals)) (fold kv_del ks node))"

definition promote_indexed :: "string list \<Rightarrow> gmap \<Rightarrow> routing_error + gmap" where
  "promote_indexed path node =
     rbind (collect_groups path node []) (\<lambda>groups. Inr (fold promote_group groups node))"

text \<open>\<open>transformRoutingTree\<close>: the children first, then this level.\<close>

fun sequence_map :: "(string \<times> ('e + gval)) list \<Rightarrow> 'e + gmap" where
  "sequence_map [] = Inr []"
| "sequence_map ((k, r) # rs) = rbind r (\<lambda>v. rbind (sequence_map rs) (\<lambda>m. Inr ((k, v) # m)))"

function transform_tree :: "(string \<Rightarrow> gfloat option) \<Rightarrow> routing \<Rightarrow> string list \<Rightarrow> gmap \<Rightarrow> routing_error + gmap" where
  "transform_tree pf r path node =
     rbind (sequence_map
              (map (\<lambda>(k, v). (k, case v of
                                   GMap child \<Rightarrow>
                                     map_sum id GMap (transform_tree pf r (path @ [k]) child)
                                 | _ \<Rightarrow> Inr v)) node))
       (\<lambda>node'. promote_indexed path (rewrite_leaves pf r path node'))"
  by pat_completeness auto
termination
proof (relation "measure (\<lambda>(_, _, _, node). size (GMap node))", goal_cases)
  case (2 pf r path node z k v child)
  then have "(k, GMap child) \<in> set node" by auto
  then have "size (GMap child) < size (GMap node)" by (induction node) auto
  then show ?case by simp
qed simp

declare transform_tree.simps [simp del]

text \<open>The provider.\<close>

record label_provider =
  lp_opts :: label_opts
  lp_routing :: "routing option"

definition load_routing :: "(string \<Rightarrow> gfloat option) \<Rightarrow> label_input \<Rightarrow> label_opts \<Rightarrow> routing \<Rightarrow> routing_error + gmap" where
  "load_routing pf input lo r =
     (let pairs = map (\<lambda>(k, v). (normalize_routing_key (ro_lower r) k, v)) (normalize_label_input input) in
      if routing_gate_blocks pairs (normalize_routing_key (ro_lower r) (ro_gate r)) then Inr []
      else transform_tree pf r []
             (expand_labels pf (InPairs pairs)
                (lo\<lparr>lo_prefix := normalize_routing_key (ro_lower r) (lo_prefix lo),
                   lo_separator := '''', lo_coerce := False\<rparr>)))"

definition load_labels :: "(string \<Rightarrow> gfloat option) \<Rightarrow> label_input \<Rightarrow> label_provider \<Rightarrow> routing_error + gmap" where
  "load_labels pf input p =
     (case lp_routing p of
        Some r \<Rightarrow> load_routing pf input (lp_opts p) r
      | None \<Rightarrow> Inr (expand_labels pf input ((lp_opts p)\<lparr>lo_separator := ''''\<rparr>)))"

section \<open>Properties\<close>

lemma map_filter_append: "List.map_filter f (xs @ ys) = List.map_filter f xs @ List.map_filter f ys"
  by (simp add: List.map_filter_def)

lemma map_filter_Cons_Some: "f x = Some y \<Longrightarrow> List.map_filter f (x # xs) = y # List.map_filter f xs"
  by (simp add: List.map_filter_def)

lemma set_map_filter: "y \<in> set (List.map_filter f xs) \<longleftrightarrow> (\<exists>x \<in> set xs. f x = Some y)"
  by (force simp: List.map_filter_def)

text \<open>Labels are applied in order and the last writer of a path wins: a label whose path no later label
  touches (each later path parts from it, or is skipped) is read back from the expanded tree at its path,
  with the value its options give it. Earlier labels, also those that conflict with it, do not matter.\<close>

theorem label_last_writer:
  assumes "normalize_label_input input = pre @ (k, v) # post"
    and "label_path lo k = Some ps" and "ps \<noteq> []"
    and "\<forall>kv \<in> set post. \<forall>qs. label_path lo (fst kv) = Some qs \<longrightarrow> qs = [] \<or> apart qs ps"
  shows "get_at (Some (expand_labels pf input lo)) ps = Some (label_value pf lo v)"
proof -
  let ?f = "\<lambda>(k, v). map_option (\<lambda>ps. (ps, label_value pf lo v)) (label_path lo k)"
  have "List.map_filter ?f (pre @ (k, v) # post) =
      List.map_filter ?f pre @ (ps, label_value pf lo v) # List.map_filter ?f post"
    using assms(2) by (simp add: map_filter_append map_filter_Cons_Some)
  moreover have "\<forall>pv \<in> set (List.map_filter ?f post). fst pv = [] \<or> apart (fst pv) ps"
    using assms(4) by (fastforce simp: set_map_filter)
  ultimately show ?thesis
    using assms(1,3) set_all_last [OF assms(3)] by (simp add: expand_labels_def get_at_def)
qed

lemma label_last_writer_witness:
  "get_at (Some (expand_labels (\<lambda>_. None) (InStrings [''a=1'', ''a.b=2'', ''c=3''])
      \<lparr>lo_prefix = '''', lo_strip = False, lo_separator = '''', lo_separators = [], lo_coerce = True\<rparr>)) [''a'', ''b'']
   = Some (GInt KInt64 2)"
proof -
  let ?o = "\<lparr>lo_prefix = '''', lo_strip = False, lo_separator = '''', lo_separators = [], lo_coerce = True\<rparr> :: label_opts"
  have 1: "normalize_label_input (InStrings [''a=1'', ''a.b=2'', ''c=3'']) = [(''a'', ''1'')] @ (''a.b'', ''2'') # [(''c'', ''3'')]"
    by code_simp
  have 2: "label_path ?o ''a.b'' = Some [''a'', ''b'']" by code_simp
  have 3: "label_path ?o ''c'' = Some [''c'']" by code_simp
  have 4: "label_value (\<lambda>_. None) ?o ''2'' = GInt KInt64 2" by code_simp
  show ?thesis
    unfolding 4 [symmetric] by (rule label_last_writer [OF 1 2]) (simp_all add: 3 apart_Cons)
qed

text \<open>Promotion.\<close>

definition index_exceeds :: "string \<Rightarrow> bool" where
  "index_exceeds key =
     (case index_match key of
        None \<Rightarrow> False
      | Some (base, ds) \<Rightarrow> (case parse_int64 ds of None \<Rightarrow> True | Some i \<Rightarrow> int max_routing_index < i))"

text \<open>\<open>v\<close> came from a key \<open>base[i]\<close> of \<open>node\<close>.\<close>

definition indexed_from :: "gmap \<Rightarrow> string \<Rightarrow> nat \<Rightarrow> gval \<Rightarrow> bool" where
  "indexed_from node base i v \<longleftrightarrow>
     (\<exists>key ds j. (key, v) \<in> set node \<and> index_match key = Some (base, ds) \<and>
        parse_int64 ds = Some j \<and> j \<le> int max_routing_index \<and> i = nat j)"

definition groups_ok :: "gmap \<Rightarrow> (string \<times> group) list \<Rightarrow> bool" where
  "groups_ok node groups \<longleftrightarrow>
     (\<forall>base vals ks. (base, vals, ks) \<in> set groups \<longrightarrow>
        (\<forall>(i, v) \<in> set vals. indexed_from node base i v))"

lemma collect_groups_ok_iff: "(\<exists>g. collect_groups path node groups = Inr g) \<longleftrightarrow> \<not> list_ex index_exceeds (keys node)"
  by (induction node arbitrary: groups) (auto simp: index_exceeds_def split: option.splits if_splits)

lemma groups_okD: "groups_ok node groups \<Longrightarrow> (base, vals, ks) \<in> set groups \<Longrightarrow> (i, v) \<in> set vals \<Longrightarrow> indexed_from node base i v"
  by (fastforce simp: groups_ok_def)

lemma groups_ok_add:
  assumes "groups_ok node groups" and "indexed_from node base i v"
  shows "groups_ok node (group_add key base i v groups)"
proof -
  obtain vals ks where g: "(case kv_get groups base of None \<Rightarrow> ([], []) | Some g \<Rightarrow> g) = (vals, ks)"
    by (metis surj_pair)
  have old: "indexed_from node base j w" if "(j, w) \<in> set vals" for j w
    using g that by (cases "kv_get groups base") (auto dest!: map_of_SomeD intro: groups_okD [OF assms(1)])
  have new: "indexed_from node base j w" if "(j, w) \<in> set (kv_set i v vals)" for j w
    using set_kv_set_cases [OF that] old assms(2) by auto
  have "indexed_from node b j w" if "(b, vs, k) \<in> set (group_add key base i v groups)" "(j, w) \<in> set vs" for b vs k j w
  proof -
    from that(1) have "(b, vs, k) = (base, kv_set i v vals, ks @ [key]) \<or> (b, vs, k) \<in> set groups"
      unfolding group_add_def g Let_def prod.case by (rule set_kv_set_cases)
    then show ?thesis using new that(2) groups_okD [OF assms(1)] by blast
  qed
  then show ?thesis by (auto simp: groups_ok_def)
qed

lemma collect_groups_ok:
  "collect_groups path node groups = Inr g \<Longrightarrow> groups_ok all groups \<Longrightarrow> set node \<subseteq> set all \<Longrightarrow> groups_ok all g"
proof (induction node arbitrary: groups)
  case (Cons kv node)
  obtain key v where kv: "kv = (key, v)" by (cases kv)
  show ?case
  proof (cases "index_match key")
    case None
    then show ?thesis using Cons kv by simp
  next
    case (Some bd)
    obtain base ds where bd: "bd = (base, ds)" by (cases bd)
    with Cons(2) kv Some obtain i where i: "parse_int64 ds = Some i" "\<not> int max_routing_index < i"
      by (auto split: option.splits if_splits)
    have "indexed_from all base (nat i) v"
      unfolding indexed_from_def using Cons(4) Some kv bd i
      by (intro exI [of _ key] exI [of _ ds] exI [of _ i]) auto
    with Cons(3) have "groups_ok all (group_add key base (nat i) v groups)"
      by (rule groups_ok_add)
    moreover have "collect_groups path node (group_add key base (nat i) v groups) = Inr g"
      using Cons(2) kv Some bd i by simp
    ultimately show ?thesis using Cons.IH Cons(4) by simp
  qed
qed simp

lemma get_fold_del: "kv_get (fold kv_del ks m) k = (if k \<in> set ks then None else kv_get m k)"
  by (induction ks arbitrary: m) auto

lemma fold_max_le: "a \<le> n \<Longrightarrow> \<forall>x \<in> set xs. x \<le> n \<Longrightarrow> fold max xs a \<le> (n :: nat)"
  by (induction xs arbitrary: a) auto

definition promoted :: "gmap \<Rightarrow> string \<Rightarrow> gval \<Rightarrow> bool" where
  "promoted node k v \<longleftrightarrow>
     (\<exists>items. v = GSlice items \<and> length items \<le> Suc max_routing_index \<and>
        (\<forall>i < length items. items ! i = GNil \<or> indexed_from node k i (items ! i)))"

lemma group_items_promoted:
  assumes "\<forall>(i, v) \<in> set vals. indexed_from node base i v"
  shows "promoted node base (GSlice (group_items vals))"
proof -
  have "\<forall>i \<in> set (keys vals). i \<le> max_routing_index"
    using assms by (fastforce simp: indexed_from_def)
  then have "fold max (keys vals) 0 \<le> max_routing_index"
    by (intro fold_max_le) auto
  moreover have "group_items vals ! i = GNil \<or> indexed_from node base i (group_items vals ! i)"
    if "i < length (group_items vals)" for i
    using that assms by (auto simp: group_items_def split: option.splits dest!: map_of_SomeD simp del: upt_Suc)
  ultimately show ?thesis
    unfolding promoted_def by (intro exI [of _ "group_items vals"]) (auto simp: group_items_def)
qed

lemma promote_groups_get:
  "groups_ok all groups \<Longrightarrow> kv_get (fold promote_group groups node) k = Some v \<Longrightarrow>
   kv_get node k = Some v \<or> promoted all k v"
proof (induction groups arbitrary: node)
  case (Cons g groups)
  obtain base vals ks where g: "g = (base, vals, ks)" by (cases g)
  have ok: "groups_ok all groups" and vs: "\<forall>(i, v) \<in> set vals. indexed_from all base i v"
    using Cons(2) by (auto simp: groups_ok_def g)
  from Cons.IH [OF ok] Cons(3)
  have "kv_get (promote_group g node) k = Some v \<or> promoted all k v" by simp
  then show ?case
    using group_items_promoted [OF vs] by (auto simp: promote_group_def g get_fold_del split: if_splits)
qed simp

text \<open>Promoting the indexed siblings of one map level fails exactly when one of its keys has an index above
  1023, and otherwise invents nothing: every entry of the result is an old entry or a list of at most 1024
  items stored under a base key, each item being nil or the value of the key \<open>base[i]\<close> with that very
  index. So no label set can make the code allocate more than 1024 slots per key.\<close>

theorem routing_promotion_bounded:
  "(is_ok (promote_indexed path node) \<longleftrightarrow> \<not> list_ex index_exceeds (keys node)) \<and>
   (\<forall>node' k v. promote_indexed path node = Inr node' \<longrightarrow> kv_get node' k = Some v \<longrightarrow>
      kv_get node k = Some v \<or> promoted node k v)"
proof -
  have "is_ok (promote_indexed path node) \<longleftrightarrow> \<not> list_ex index_exceeds (keys node)"
    using collect_groups_ok_iff [of path node "[]"]
    by (cases "collect_groups path node []") (auto simp: promote_indexed_def)
  moreover have "kv_get node k = Some v \<or> promoted node k v"
    if "promote_indexed path node = Inr node'" "kv_get node' k = Some v" for node' k v
  proof -
    from that(1) obtain g where g: "collect_groups path node [] = Inr g" "node' = fold promote_group g node"
      by (auto simp: promote_indexed_def rbind_Inr_iff)
    have "groups_ok node g"
      using g(1) by (rule collect_groups_ok) (auto simp: groups_ok_def)
    then show ?thesis using promote_groups_get that(2) g(2) by blast
  qed
  ultimately show ?thesis by blast
qed

lemma routing_promotion_bounded_witness:
  "promote_indexed [] [(''x[1]'', GStr ''b'')] = Inr [(''x'', GSlice [GNil, GStr ''b''])] \<and>
   promoted [(''x[1]'', GStr ''b'')] ''x'' (GSlice [GNil, GStr ''b''])"
proof -
  have e: "promote_indexed [] [(''x[1]'', GStr ''b'')] = Inr [(''x'', GSlice [GNil, GStr ''b''])]"
    by code_simp
  have g: "kv_get [(''x'', GSlice [GNil, GStr ''b''])] ''x'' = Some (GSlice [GNil, GStr ''b''])"
    "kv_get [(''x[1]'', GStr ''b'')] ''x'' = None"
    by simp_all
  from conjunct2 [OF routing_promotion_bounded [of "[]" "[(''x[1]'', GStr ''b'')]"], rule_format, OF e g(1)]
  show ?thesis using e g(2) by simp
qed

end
