(* ===== verification/Envs.thy ===== *)
theory Envs
  imports Labels
begin

text \<open>
  \<open>providers/env\<close>, \<open>providers/dotenv\<close> and \<open>internal/providerutil\<close>: process environment entries and
  \<open>.env\<close> files become layers. The environment, the variable lookup and the files read are
  arguments; a key replacer is a function on strings, as \<open>EnvKeyReplacer\<close> is in the code.
\<close>

section \<open>Key replacers\<close>

fun dot_loop :: "bool \<Rightarrow> string \<Rightarrow> string" where
  "dot_loop prev_dot [] = []"
| "dot_loop prev_dot (b # s) =
     (let c = (if b = CHR ''_'' then CHR ''.'' else b) in
      if c = CHR ''.''
      then (if prev_dot then dot_loop True s else c # dot_loop True s)
      else lower_char c # dot_loop False s)"

definition dot_replacer :: "string \<Rightarrow> string" where
  "dot_replacer s = trim_suffix (dot_loop True s) ''.''"

definition double_underscore_replacer :: "string \<Rightarrow> string" where
  "double_underscore_replacer s = join_with ''.'' (map to_lower (split_str ''__'' [] s))"

section \<open>Provider helpers\<close>

definition graft_at :: "gmap \<Rightarrow> string list \<Rightarrow> gmap" where
  "graft_at inner rt = (if rt = [] then inner else set_from [] rt (GMap inner))"

definition maybe_coerce :: "(string \<Rightarrow> gfloat option) \<Rightarrow> string \<Rightarrow> bool \<Rightarrow> gval" where
  "maybe_coerce pf s enabled = (if enabled then coerce pf \<lparr>co_trim = False, co_fold = True\<rparr> s else GStr s)"

text \<open>\<open>Backoff\<close>: \<open>time.Duration\<close> is a 64-bit integer, so the arithmetic wraps.\<close>

definition wrap64 :: "int \<Rightarrow> int" where
  "wrap64 n = (n + 2 ^ 63) mod 2 ^ 64 - 2 ^ 63"

record backoff =
  bo_min :: int
  bo_max :: int
  bo_cur :: int

definition backoff_next :: "backoff \<Rightarrow> int \<times> backoff" where
  "backoff_next b =
     (let cur = (if bo_cur b = 0 then bo_min b else bo_cur b) in
      (cur, b\<lparr>bo_cur := (if wrap64 (bo_max b - cur) \<le> cur then bo_max b else wrap64 (cur * 2))\<rparr>))"

definition backoff_reset :: "backoff \<Rightarrow> backoff" where
  "backoff_reset b = b\<lparr>bo_cur := 0\<rparr>"

fun backoff_delays :: "nat \<Rightarrow> backoff \<Rightarrow> int list" where
  "backoff_delays 0 b = []"
| "backoff_delays (Suc n) b = (case backoff_next b of (d, b') \<Rightarrow> d # backoff_delays n b')"

text \<open>\<open>Latest\<close>: the newest document of a streaming provider.\<close>

record latest =
  la_value :: "gmap option"
  la_revision :: string
  la_loaded :: bool

record snapshot =
  sn_map :: "gmap option"
  sn_revision :: string
  sn_stale :: bool

definition latest_store :: "gmap option \<Rightarrow> string \<Rightarrow> latest \<Rightarrow> latest" where
  "latest_store v rv l =
     l\<lparr>la_value := v, la_loaded := True,
       la_revision := (if rv \<noteq> '''' then rv else la_revision l)\<rparr>"

definition latest_snapshot :: "latest \<Rightarrow> snapshot" where
  "latest_snapshot l =
     \<lparr>sn_map = Some (case la_value l of None \<Rightarrow> [] | Some m \<Rightarrow> m),
      sn_revision = la_revision l, sn_stale = \<not> la_loaded l\<rparr>"

section \<open>The environment provider\<close>

record env_provider =
  ep_prefix :: string
  ep_coerce :: bool
  ep_replacer :: "string \<Rightarrow> string"
  ep_root :: "string list"

text \<open>The path one raw key is written to; \<open>None\<close> when it is skipped.\<close>

definition env_path :: "string \<Rightarrow> (string \<Rightarrow> string) \<Rightarrow> string \<Rightarrow> string list option" where
  "env_path pre replacer k =
     (if pre \<noteq> '''' \<and> \<not> has_prefix k pre then None
      else let k' = trim_prefix k pre in
           if k' = '''' then None
           else let dotted = replacer k' in
                if dotted = '''' then None else Some (split_char (CHR ''.'') dotted))"

definition env_assignments :: "(string \<Rightarrow> gfloat option) \<Rightarrow> env_provider \<Rightarrow> label_pair list \<Rightarrow> (string list \<times> gval) list" where
  "env_assignments pf p kvs =
     List.map_filter (\<lambda>(k, v). map_option (\<lambda>ps. (ps, maybe_coerce pf v (ep_coerce p)))
                                 (env_path (ep_prefix p) (ep_replacer p) k)) kvs"

definition env_load :: "(string \<Rightarrow> gfloat option) \<Rightarrow> string list \<Rightarrow> env_provider \<Rightarrow> gmap" where
  "env_load pf environ p =
     graft_at (set_all [] (env_assignments pf p (List.map_filter cut_eq environ))) (ep_root p)"

section \<open>The .env provider\<close>

datatype env_error = UnterminatedSingle | UnterminatedDouble | LineTooLong | ReadFailed string

fun unescape_byte :: "char \<Rightarrow> string" where
  "unescape_byte c =
     (if c = CHR ''n'' then [CHR 0x0A]
      else if c = CHR ''t'' then [CHR 0x09]
      else if c = CHR 0x22 then [CHR 0x22]
      else if c = CHR 0x5C then [CHR 0x5C]
      else [CHR 0x5C, c])"

fun parse_double_quoted :: "string \<Rightarrow> env_error + string" where
  "parse_double_quoted [] = Inl UnterminatedDouble"
| "parse_double_quoted (c # s) =
     (if c = CHR 0x22 then Inr []
      else if c = CHR 0x5C then
        (case s of
           d # r \<Rightarrow> rbind (parse_double_quoted r) (\<lambda>v. Inr (unescape_byte d @ v))
         | [] \<Rightarrow> rbind (parse_double_quoted s) (\<lambda>v. Inr (c # v)))
      else rbind (parse_double_quoted s) (\<lambda>v. Inr (c # v)))"

definition trim_right_blank :: "string \<Rightarrow> string" where
  "trim_right_blank s = rev (dropWhile (\<lambda>c. c = CHR '' '' \<or> c = CHR 0x09) (rev s))"

definition parse_value :: "string \<Rightarrow> env_error + string" where
  "parse_value s =
     (case s of
        [] \<Rightarrow> Inr []
      | c # r \<Rightarrow>
          if c = CHR 0x27 then
            (if CHR 0x27 \<in> set r then Inr (takeWhile (\<lambda>d. d \<noteq> CHR 0x27) r) else Inl UnterminatedSingle)
          else if c = CHR 0x22 then parse_double_quoted r
          else Inr (trim_right_blank s))"

text \<open>\<open>bufio.Scanner\<close> with its default split function and limit: the lines, and whether it stopped at a
  line of 64 KiB or more.\<close>

definition max_line :: nat where "max_line = 65536"

definition drop_cr :: "string \<Rightarrow> string" where
  "drop_cr l = (if l \<noteq> [] \<and> last l = CHR 0x0D then butlast l else l)"

function scan_lines :: "string \<Rightarrow> string list \<times> bool" where
  "scan_lines s =
     (if s = [] then ([], False)
      else let l = takeWhile (\<lambda>c. c \<noteq> CHR 0x0A) s in
           if max_line \<le> length l then ([], True)
           else (case scan_lines (drop (Suc (length l)) s) of (ls, bad) \<Rightarrow> (drop_cr l # ls, bad)))"
  by pat_completeness auto
termination by (relation "measure length") auto

declare scan_lines.simps [simp del]

definition dot_env_line :: "string \<Rightarrow> env_error + label_pair option" where
  "dot_env_line text0 =
     (let l0 = trim_space text0 in
      if l0 = '''' \<or> has_prefix l0 ''#'' then Inr None
      else (let l = trim_space (trim_prefix l0 ''export '') in
            case cut_eq l of
              None \<Rightarrow> Inr None
            | Some (k, raw) \<Rightarrow>
                if trim_space k = '''' then Inr None
                else rbind (parse_value raw) (\<lambda>v. Inr (Some (trim_space k, v)))))"

fun dot_env_lines :: "string list \<Rightarrow> env_error + label_pair list" where
  "dot_env_lines [] = Inr []"
| "dot_env_lines (l # ls) =
     rbind (dot_env_line l) (\<lambda>kv. rbind (dot_env_lines ls)
       (\<lambda>kvs. Inr (case kv of None \<Rightarrow> kvs | Some p \<Rightarrow> p # kvs)))"

definition parse_dot_env :: "string \<Rightarrow> env_error + label_pair list" where
  "parse_dot_env data =
     (case scan_lines data of (ls, bad) \<Rightarrow>
        rbind (dot_env_lines ls) (\<lambda>kvs. if bad then Inl LineTooLong else Inr kvs))"

datatype file_read = NotExist | ReadError | FileData string

text \<open>\<open>lookup k\<close> tells whether the process environment has \<open>k\<close>, be it empty.\<close>

fun dotenv_fill :: "(string \<Rightarrow> gfloat option) \<Rightarrow> (string \<Rightarrow> file_read) \<Rightarrow> (string \<Rightarrow> bool) \<Rightarrow> env_provider
    \<Rightarrow> string list \<Rightarrow> gmap \<Rightarrow> env_error + gmap" where
  "dotenv_fill pf files lookup p [] inner = Inr inner"
| "dotenv_fill pf files lookup p (path # paths) inner =
     (case files path of
        NotExist \<Rightarrow> dotenv_fill pf files lookup p paths inner
      | ReadError \<Rightarrow> Inl (ReadFailed path)
      | FileData data \<Rightarrow>
          rbind (parse_dot_env data) (\<lambda>kvs.
            dotenv_fill pf files lookup p paths
              (set_all inner (env_assignments pf p (filter (\<lambda>kv. \<not> lookup (fst kv)) kvs)))))"

definition dotenv_load :: "(string \<Rightarrow> gfloat option) \<Rightarrow> (string \<Rightarrow> file_read) \<Rightarrow> (string \<Rightarrow> bool) \<Rightarrow> env_provider
    \<Rightarrow> string list \<Rightarrow> env_error + gmap" where
  "dotenv_load pf files lookup p paths =
     rbind (dotenv_fill pf files lookup p paths []) (\<lambda>inner. Inr (graft_at inner (ep_root p)))"

section \<open>Replaced keys are canonical\<close>

fun canonical :: "bool \<Rightarrow> string \<Rightarrow> bool" where
  "canonical prev_dot [] = True"
| "canonical prev_dot (c # s) =
     (c \<noteq> CHR ''_'' \<and> \<not> is_upper c \<and>
      (if c = CHR ''.'' then \<not> prev_dot \<and> canonical True s else canonical False s))"

lemma lower_char_props: "c \<noteq> CHR ''_'' \<Longrightarrow> c \<noteq> CHR ''.'' \<Longrightarrow>
  lower_char c \<noteq> CHR ''_'' \<and> lower_char c \<noteq> CHR ''.'' \<and> \<not> is_upper (lower_char c)"
proof (cases "is_upper c")
  case True
  then have "of_char (lower_char c) = (of_char c + 32 :: nat)"
    by (auto simp: lower_char_def is_upper_def of_char_of)
  moreover have "(97 :: nat) \<le> of_char c + 32 \<and> of_char c + 32 \<le> (122 :: nat)"
    using True by (simp add: is_upper_def)
  ultimately have "(97 :: nat) \<le> of_char (lower_char c)" by linarith
  then show ?thesis by (auto simp: is_upper_def)
qed (simp add: lower_char_def)

lemma dot_not_upper: "\<not> is_upper (CHR ''.'')"
  by (simp add: is_upper_def)

lemma canonical_dot_loop: "canonical prev_dot (dot_loop prev_dot s)"
  by (induction prev_dot s rule: dot_loop.induct) (auto simp: Let_def lower_char_props dot_not_upper)

lemma dot_loop_canonical: "canonical prev_dot s \<Longrightarrow> dot_loop prev_dot s = s"
  by (induction s arbitrary: prev_dot) (auto simp: Let_def lower_char_def split: if_splits)

lemma canonical_butlast: "canonical prev_dot (s @ [c]) \<Longrightarrow> canonical prev_dot s"
  by (induction s arbitrary: prev_dot) (auto split: if_splits)

lemma canonical_no_double: "canonical prev_dot (s @ [CHR ''.'']) \<Longrightarrow> s = [] \<and> \<not> prev_dot \<or> s \<noteq> [] \<and> last s \<noteq> CHR ''.''"
  by (induction s arbitrary: prev_dot) (auto split: if_splits)

lemma trim_dot: "trim_suffix s ''.'' = (if s \<noteq> [] \<and> last s = CHR ''.'' then butlast s else s)"
  by (cases s rule: rev_cases) (auto simp: trim_suffix_def has_suffix_def)

lemma dot_replacer_props:
  "canonical True (dot_replacer s) \<and> (dot_replacer s = [] \<or> last (dot_replacer s) \<noteq> CHR ''.'')"
proof (cases "dot_loop True s" rule: rev_cases)
  case Nil
  then show ?thesis by (simp add: dot_replacer_def trim_dot)
next
  case (snoc t c)
  have "canonical True (t @ [c])"
    using canonical_dot_loop [of True s] snoc by simp
  then show ?thesis
    using snoc canonical_butlast canonical_no_double [of True t]
    by (auto simp: dot_replacer_def trim_dot)
qed

lemma canonical_segments:
  "canonical prev_dot s \<Longrightarrow> s = [] \<or> last s \<noteq> CHR ''.'' \<Longrightarrow>
   (\<forall>w \<in> set (tl (split_char (CHR ''.'') s)). w \<noteq> []) \<and>
   (prev_dot \<longrightarrow> s \<noteq> [] \<longrightarrow> hd (split_char (CHR ''.'') s) \<noteq> [])"
proof (induction s arbitrary: prev_dot)
  case (Cons c s)
  obtain w ws where w: "split_char (CHR ''.'') s = w # ws"
    by (cases "split_char (CHR ''.'') s") auto
  have l: "s = [] \<or> last s \<noteq> CHR ''.''"
    using Cons.prems(2) by (auto split: if_splits)
  show ?case
  proof (cases "c = CHR ''.''")
    case True
    then have "canonical True s" "\<not> prev_dot" "s \<noteq> []"
      using Cons.prems by (auto split: if_splits)
    then show ?thesis using Cons.IH [of True] l w True by auto
  next
    case False
    then have "canonical False s" using Cons.prems by simp
    then show ?thesis using Cons.IH [of False] l w False by auto
  qed
qed simp

lemma canonical_chars: "canonical prev_dot s \<Longrightarrow> c \<in> set s \<Longrightarrow> c \<noteq> CHR ''_'' \<and> \<not> is_upper c"
  by (induction s arbitrary: prev_dot) (auto split: if_splits)

text \<open>\<open>DotReplacer\<close> normalises: applying it twice changes nothing, its result has no underscore and no
  upper-case letter, and as a dotted path it has no empty segment, whatever runs of dots and underscores the
  variable name starts with, ends with or contains.\<close>

theorem dot_replacer_canonical:
  "dot_replacer (dot_replacer s) = dot_replacer s \<and>
   list_all (\<lambda>c. c \<noteq> CHR ''_'' \<and> \<not> is_upper c) (dot_replacer s) \<and>
   list_all (\<lambda>w. w \<noteq> '''') (split_path (dot_replacer s))"
proof -
  let ?r = "dot_replacer s"
  have c: "canonical True ?r" and l: "?r = [] \<or> last ?r \<noteq> CHR ''.''"
    using dot_replacer_props by blast+
  have "dot_replacer ?r = ?r"
    using l by (auto simp: dot_replacer_def [of ?r] dot_loop_canonical [OF c] trim_dot)
  moreover have "list_all (\<lambda>c. c \<noteq> CHR ''_'' \<and> \<not> is_upper c) ?r"
    using canonical_chars [OF c] by (simp add: list_all_iff)
  moreover have "list_all (\<lambda>w. w \<noteq> '''') (split_path ?r)"
  proof (cases "?r = []")
    case False
    obtain w ws where w: "split_char (CHR ''.'') ?r = w # ws"
      by (cases "split_char (CHR ''.'') ?r") auto
    from False canonical_segments [OF c l] show ?thesis
      by (simp add: list_all_iff split_path_def w)
  qed (simp add: split_path_def)
  ultimately show ?thesis by blast
qed

section \<open>Retry delays\<close>

lemma wrap64_id: "- (2 ^ 63) \<le> n \<Longrightarrow> n < 2 ^ 63 \<Longrightarrow> wrap64 n = n"
  by (simp add: wrap64_def)

lemma backoff_next_ok:
  assumes "0 < bo_min b" "bo_min b \<le> bo_max b" "bo_max b < 2 ^ 63" "0 \<le> bo_cur b" "bo_cur b \<le> bo_max b"
  shows "backoff_next b =
    (let cur = (if bo_cur b = 0 then bo_min b else bo_cur b) in (cur, b\<lparr>bo_cur := min (2 * cur) (bo_max b)\<rparr>))"
proof -
  let ?c = "if bo_cur b = 0 then bo_min b else bo_cur b"
  have c: "0 < ?c" "?c \<le> bo_max b" using assms by auto
  have 1: "wrap64 (bo_max b - ?c) = bo_max b - ?c"
    using c assms(3) by (intro wrap64_id) linarith+
  have "(if bo_max b - ?c \<le> ?c then bo_max b else wrap64 (?c * 2)) = min (2 * ?c) (bo_max b)"
  proof (cases "bo_max b - ?c \<le> ?c")
    case True
    then show ?thesis by (simp add: min_def)
  next
    case False
    have "wrap64 (?c * 2) = ?c * 2"
      using False c assms(3) by (intro wrap64_id) linarith+
    with False show ?thesis by (simp add: min_def)
  qed
  with 1 show ?thesis by (simp only: backoff_next_def Let_def)
qed

lemma min_capped:
  fixes c m p :: int
  assumes "0 \<le> m" and "1 \<le> p"
  shows "min (min (2 * c) m * p) m = min (c * (2 * p)) m"
proof (cases "2 * c \<le> m")
  case True
  then have e: "min (2 * c) m = 2 * c" by simp
  show ?thesis unfolding e by (simp add: mult.commute mult.left_commute)
next
  case False
  have 1: "m \<le> m * p" using assms mult_left_mono [of 1 p m] by simp
  have "m * p \<le> 2 * c * p" using False assms by (intro mult_right_mono) auto
  then have 2: "m * p \<le> c * (2 * p)" by (simp only: mult.commute mult.left_commute)
  have e: "min (2 * c) m = m" using False by simp
  show ?thesis unfolding e using 1 2 by linarith
qed

lemma backoff_delays_from:
  assumes "0 < bo_min b" "bo_min b \<le> bo_max b" "bo_max b < 2 ^ 63" "0 < bo_cur b" "bo_cur b \<le> bo_max b"
  shows "backoff_delays n b = map (\<lambda>i. min (bo_cur b * 2 ^ i) (bo_max b)) [0 ..< n]"
  using assms(1-5)
proof (induction n arbitrary: b)
  case (Suc n)
  let ?b = "b\<lparr>bo_cur := min (2 * bo_cur b) (bo_max b)\<rparr>"
  have step: "backoff_delays (Suc n) b = bo_cur b # backoff_delays n ?b"
    using Suc.prems by (simp add: backoff_next_ok Let_def)
  have "backoff_delays n ?b = map (\<lambda>i. min (bo_cur ?b * 2 ^ i) (bo_max ?b)) [0 ..< n]"
    using Suc.prems by (intro Suc.IH) auto
  moreover have "min (bo_cur ?b * 2 ^ i) (bo_max ?b) = min (bo_cur b * 2 ^ Suc i) (bo_max b)" for i
    using min_capped [of "bo_max b" "2 ^ i" "bo_cur b"] Suc.prems by (simp add: mult.commute)
  ultimately have "backoff_delays (Suc n) b = bo_cur b # map (\<lambda>i. min (bo_cur b * 2 ^ Suc i) (bo_max b)) [0 ..< n]"
    by (simp only: step)
  also have "\<dots> = map (\<lambda>i. min (bo_cur b * 2 ^ i) (bo_max b)) (0 # map Suc [0 ..< n])"
    using Suc.prems by (simp add: comp_def)
  also have "0 # map Suc [0 ..< n] = [0 ..< Suc n]"
    by (simp add: map_Suc_upt upt_conv_Cons)
  finally show ?case .
qed simp

text \<open>With \<open>0 < Min \<le> Max\<close>, as the callers must set, a fresh or reset backoff yields Min, 2 Min, 4 Min, ...
  capped at Max: the 64-bit arithmetic never wraps, however many retries follow and however large Max is.\<close>

theorem backoff_doubles:
  assumes "0 < bo_min b" and "bo_min b \<le> bo_max b" and "bo_max b < 2 ^ 63"
  shows "backoff_delays n (backoff_reset b) = map (\<lambda>i. min (bo_min b * 2 ^ i) (bo_max b)) [0 ..< n]"
proof (cases n)
  case (Suc m)
  have "backoff_next (backoff_reset b) = backoff_next (b\<lparr>bo_cur := bo_min b\<rparr>)"
    using assms by (simp add: backoff_next_def backoff_reset_def Let_def)
  then have "backoff_delays n (backoff_reset b) = backoff_delays n (b\<lparr>bo_cur := bo_min b\<rparr>)"
    by (simp add: Suc)
  then show ?thesis
    using assms by (simp add: backoff_delays_from)
qed simp

lemma backoff_doubles_witness:
  "backoff_delays 4 (backoff_reset \<lparr>bo_min = 3, bo_max = 10, bo_cur = 7\<rparr>) = [3, 6, 10, 10]"
  by (subst backoff_doubles) (simp_all add: upt_rec)

section \<open>Quoted values\<close>

text \<open>The double-quoted spelling of a value.\<close>

fun escape_byte :: "char \<Rightarrow> string" where
  "escape_byte c =
     (if c = CHR 0x0A then [CHR 0x5C, CHR ''n'']
      else if c = CHR 0x22 \<or> c = CHR 0x5C then [CHR 0x5C, c]
      else [c])"

definition quote_value :: "string \<Rightarrow> string" where
  "quote_value v = CHR 0x22 # concat (map escape_byte v) @ [CHR 0x22]"

definition env_key :: "string \<Rightarrow> bool" where
  "env_key k \<longleftrightarrow> k \<noteq> '''' \<and> list_all (\<lambda>c. is_upper c \<or> is_lower c \<or> is_digit c \<or> c = CHR ''_'') k"

definition env_line :: "label_pair \<Rightarrow> string" where
  "env_line kv = fst kv @ CHR ''='' # quote_value (snd kv)"

lemma parse_quoted: "parse_double_quoted (concat (map escape_byte v) @ CHR 0x22 # t) = Inr v"
  by (induction v) auto

lemma env_key_chars: "env_key k \<Longrightarrow> c \<in> set k \<Longrightarrow> \<not> is_space c \<and> c \<noteq> CHR ''='' \<and> c \<noteq> CHR ''#'' \<and> c \<noteq> CHR 0x0A"
  by (auto simp: env_key_def list_all_iff ascii_defs)

lemma trim_space_id: "s \<noteq> [] \<Longrightarrow> \<not> is_space (hd s) \<Longrightarrow> \<not> is_space (last s) \<Longrightarrow> trim_space s = s"
  by (simp add: trim_space_def dropWhile_eq_self_iff [THEN iffD2] hd_rev)

lemma env_key_trim: "env_key k \<Longrightarrow> trim_space k = k"
  using env_key_chars by (intro trim_space_id) (auto simp: env_key_def)

lemma env_line_no_newline: "env_key (fst kv) \<Longrightarrow> CHR 0x0A \<notin> set (env_line kv)"
  using env_key_chars [of "fst kv"] by (auto simp: env_line_def quote_value_def split: if_splits)

lemma dot_env_line_quoted:
  assumes "env_key (fst kv)"
  shows "dot_env_line (env_line kv) = Inr (Some kv)"
proof -
  obtain k v where kv: "kv = (k, v)" by (cases kv)
  let ?l = "k @ CHR ''='' # quote_value v"
  have k: "env_key k" "k \<noteq> []" using assms kv by (auto simp: env_key_def)
  have h: "\<not> is_space (hd k)" "hd k \<noteq> CHR ''#''"
    using env_key_chars [OF k(1), of "hd k"] k(2) by auto
  have sp: "\<not> is_space (CHR 0x22)" "is_space (CHR '' '')" by (simp_all add: is_space_def)
  have t: "trim_space ?l = ?l"
    using k(2) h sp(1) by (intro trim_space_id) (auto simp: quote_value_def)
  have no_export: "\<not> has_prefix ?l ''export ''"
  proof
    assume "has_prefix ?l ''export ''"
    then obtain r where r: "k @ CHR ''='' # quote_value v = ''export '' @ r"
      by (auto simp: has_prefix_iff)
    have "CHR ''='' \<notin> set (''export '')" by simp
    with r have "\<exists>r'. k = ''export '' @ r'"
      by (auto simp: append_eq_append_conv2 append_eq_Cons_conv Cons_eq_append_conv)
    then show False using env_key_chars [OF k(1), of "CHR '' ''"] sp(2) by auto
  qed
  have hash: "\<not> has_prefix ?l ''#''"
    using k(2) h(2) by (cases k) (auto simp: has_prefix_def)
  have "\<forall>c \<in> set k. c \<noteq> CHR ''=''"
    using env_key_chars [OF k(1)] by blast
  then have cut: "cut_eq ?l = Some (k, quote_value v)"
    by (auto simp: cut_eq_def takeWhile_append2 dropWhile_append2)
  have val: "parse_value (quote_value v) = Inr v"
    using parse_quoted [of v "[]"] by (simp add: parse_value_def quote_value_def)
  show ?thesis
    using k t no_export hash
    by (simp add: dot_env_line_def env_line_def kv trim_prefix_def cut val env_key_trim)
qed

lemma scan_env_lines:
  assumes "\<forall>kv \<in> set kvs. env_key (fst kv) \<and> length (env_line kv) < max_line"
  shows "scan_lines (concat (map (\<lambda>kv. env_line kv @ [CHR 0x0A]) kvs)) = (map env_line kvs, False)"
  using assms
proof (induction kvs)
  case Nil
  then show ?case by (simp add: scan_lines.simps)
next
  case (Cons kv kvs)
  let ?rest = "concat (map (\<lambda>kv. env_line kv @ [CHR 0x0A]) kvs)"
  have n: "\<forall>c \<in> set (env_line kv). c \<noteq> CHR 0x0A"
    using Cons.prems env_line_no_newline [of kv] by auto
  then have tw: "takeWhile (\<lambda>c. c \<noteq> CHR 0x0A) (env_line kv @ CHR 0x0A # ?rest) = env_line kv"
    by (simp add: takeWhile_append2)
  have "drop_cr (env_line kv) = env_line kv"
    by (simp add: drop_cr_def env_line_def quote_value_def)
  then show ?case
    using Cons by (subst scan_lines.simps) (simp add: tw Let_def)
qed

lemma dot_env_lines_quoted: "\<forall>kv \<in> set kvs. env_key (fst kv) \<Longrightarrow> dot_env_lines (map env_line kvs) = Inr kvs"
  by (induction kvs) (simp_all add: dot_env_line_quoted)

text \<open>A \<open>.env\<close> file written with double-quoted values, one variable per line, parses back to exactly the
  pairs it was written from: quotes, backslashes, newlines, blanks, \<open>#\<close> and \<open>=\<close> inside a value survive,
  provided the keys are shell identifiers and every line stays under the scanner's 64 KiB.\<close>

theorem dotenv_roundtrip:
  assumes "\<forall>kv \<in> set kvs. env_key (fst kv) \<and> length (env_line kv) < max_line"
  shows "parse_dot_env (concat (map (\<lambda>kv. env_line kv @ [CHR 0x0A]) kvs)) = Inr kvs"
  using scan_env_lines [OF assms] dot_env_lines_quoted [of kvs] assms by (simp add: parse_dot_env_def)

lemma dotenv_roundtrip_witness:
  "parse_dot_env (''A=\"x#'' @ [CHR 0x5C] @ ''n\"'' @ [CHR 0x0A]) = Inr [(''A'', ''x#'' @ [CHR 0x0A])]"
  using dotenv_roundtrip [of "[(''A'', ''x#'' @ [CHR 0x0A])]"]
  by (simp add: env_key_def env_line_def quote_value_def max_line_def is_upper_def)

end
