(* ===== verification/Transform.thy ===== *)
theory Transform
  imports Paths
begin

text \<open>
  \<open>transform\<close>: what runs on the merged map before it is decoded. \<open>aliases\<close>, \<open>delete_paths\<close> and
  \<open>capture_raw\<close> follow \<open>transform.go\<close>, \<open>env_subst\<close> follows \<open>envsubst.go\<close> with its regular expression
  written out as a scanner, and \<open>new_chain\<close> and \<open>run_chain\<close> follow \<open>migration.go\<close>. The order of the alias
  mapping and of every map is the order in which \<open>range\<close> visits it. A migration's \<open>Apply\<close>,
  the variable lookup and \<open>json.Marshal\<close> are arguments.
\<close>

section \<open>Aliases, deletions and raw capture\<close>

definition alias_step :: "gmap option \<Rightarrow> string \<times> string \<Rightarrow> gmap option" where
  "alias_step rt ft =
     (case get_dotted rt (fst ft) of
        None \<Rightarrow> rt
      | Some v \<Rightarrow>
          del_dotted (if get_dotted rt (snd ft) = None then set_dotted rt (snd ft) v else rt) (fst ft))"

definition aliases :: "(string \<times> string) list \<Rightarrow> gmap option \<Rightarrow> gmap option" where
  "aliases mapping rt = foldl alias_step rt mapping"

definition delete_paths :: "string list \<Rightarrow> gmap option \<Rightarrow> gmap option" where
  "delete_paths ps rt = foldl del_dotted rt ps"

record raw_capture =
  rc_paths :: "string list"
  rc_values :: "(string \<times> string) list"

fun capture_values :: "(gval \<Rightarrow> string option) \<Rightarrow> string list \<Rightarrow> gmap option \<Rightarrow> (string \<times> string) list
    \<Rightarrow> string + (string \<times> string) list" where
  "capture_values marshal [] rt vals = Inr vals"
| "capture_values marshal (p # ps) rt vals =
     (case get_dotted rt p of
        None \<Rightarrow> capture_values marshal ps rt vals
      | Some v \<Rightarrow>
          (case marshal v of
             None \<Rightarrow> Inl p
           | Some b \<Rightarrow> capture_values marshal ps rt (kv_set p b vals)))"

text \<open>The captured values are replaced as a whole, and only when every path marshals.\<close>

definition capture_raw :: "(gval \<Rightarrow> string option) \<Rightarrow> gmap option \<Rightarrow> raw_capture \<Rightarrow> string option \<times> raw_capture" where
  "capture_raw marshal rt r =
     (case capture_values marshal (rc_paths r) rt [] of
        Inl p \<Rightarrow> (Some p, r)
      | Inr vals \<Rightarrow> (None, r\<lparr>rc_values := vals\<rparr>))"

definition capture_get :: "raw_capture \<Rightarrow> string \<Rightarrow> string option" where
  "capture_get r p = kv_get (rc_values r) p"

section \<open>Variable substitution\<close>

definition name_start :: "char \<Rightarrow> bool" where
  "name_start c \<longleftrightarrow> is_upper c \<or> is_lower c \<or> c = CHR ''_''"

definition name_char :: "char \<Rightarrow> bool" where
  "name_char c \<longleftrightarrow> name_start c \<or> is_digit c"

datatype env_op = OpPlain | OpDefault string | OpRequired string

text \<open>A match of \<open>\$\{([A-Za-z_][A-Za-z0-9_]*)(?::([-?])([^}]*))?\}\<close> at the start of a string: the name, the
  operator with its body, and what follows the match.\<close>

definition match_operator :: "string \<Rightarrow> (env_op \<times> string) option" where
  "match_operator s =
     (case s of
        [] \<Rightarrow> None
      | c # r \<Rightarrow>
          if c = CHR ''}'' then Some (OpPlain, r)
          else if c = CHR '':'' then
            (case r of
               [] \<Rightarrow> None
             | d # b \<Rightarrow>
                 let body = takeWhile (\<lambda>x. x \<noteq> CHR ''}'') b in
                 if (d = CHR ''-'' \<or> d = CHR ''?'') \<and> CHR ''}'' \<in> set b
                 then Some (if d = CHR ''-'' then OpDefault body else OpRequired body,
                            drop (Suc (length body)) b)
                 else None)
          else None)"

definition match_env :: "string \<Rightarrow> (string \<times> env_op \<times> string) option" where
  "match_env s =
     (if has_prefix s ''${'' then
        (let r = drop 2 s; name = takeWhile name_char r in
         if name \<noteq> [] \<and> name_start (hd name)
         then map_option (\<lambda>(op, rest). (name, op, rest)) (match_operator (dropWhile name_char r))
         else None)
      else None)"

text \<open>The value one reference is replaced by, and the error a required one raises.\<close>

definition ref_value :: "(string \<Rightarrow> string) \<Rightarrow> string \<Rightarrow> env_op \<Rightarrow> string" where
  "ref_value lookup name op =
     (case op of
        OpDefault body \<Rightarrow> if lookup name \<noteq> '''' then lookup name else body
      | _ \<Rightarrow> lookup name)"

definition ref_error :: "(string \<Rightarrow> string) \<Rightarrow> string \<Rightarrow> env_op \<Rightarrow> (string \<times> string) option" where
  "ref_error lookup name op =
     (case op of
        OpRequired body \<Rightarrow>
          if lookup name = '''' then Some (name, if body = '''' then ''variable is required'' else body)
          else None
      | _ \<Rightarrow> None)"

definition first_error :: "'e option \<Rightarrow> 'e option \<Rightarrow> 'e option" where
  "first_error a b = (case a of None \<Rightarrow> b | Some e \<Rightarrow> Some e)"

lemma match_operator_shorter: "match_operator s = Some (op, rest) \<Longrightarrow> length rest < length s"
  by (auto simp: match_operator_def Let_def split: list.splits if_splits)

lemma match_env_shorter: "match_env s = Some (name, op, rest) \<Longrightarrow> length rest < length s"
proof -
  assume m: "match_env s = Some (name, op, rest)"
  then have "match_operator (dropWhile name_char (drop 2 s)) = Some (op, rest)"
    by (auto simp: match_env_def Let_def split: if_splits)
  then have "length rest < length (dropWhile name_char (drop 2 s))"
    by (rule match_operator_shorter)
  also have "\<dots> \<le> length s"
    using length_dropWhile_le [of name_char "drop 2 s"] by simp
  finally show ?thesis .
qed

text \<open>\<open>ReplaceAllStringFunc\<close>: the matches from left to right, none overlapping.\<close>

function subst_string :: "(string \<Rightarrow> string) \<Rightarrow> string \<Rightarrow> string \<times> (string \<times> string) option" where
  "subst_string lookup s =
     (case s of
        [] \<Rightarrow> ([], None)
      | c # r \<Rightarrow>
          (case match_env s of
             None \<Rightarrow> (case subst_string lookup r of (t, e) \<Rightarrow> (c # t, e))
           | Some (name, op, rest) \<Rightarrow>
               (case subst_string lookup rest of (t, e) \<Rightarrow>
                  (ref_value lookup name op @ t, first_error (ref_error lookup name op) e))))"
  by pat_completeness auto
termination
  by (relation "measure (\<lambda>(_, s). length s)") (auto dest: match_env_shorter)

declare subst_string.simps [simp del]

fun walk_strings :: "(string \<Rightarrow> string \<times> 'e option) \<Rightarrow> gval \<Rightarrow> gval \<times> 'e option"
  and walk_entries :: "(string \<Rightarrow> string \<times> 'e option) \<Rightarrow> gmap \<Rightarrow> gmap \<times> 'e option"
  and walk_items :: "(string \<Rightarrow> string \<times> 'e option) \<Rightarrow> gval list \<Rightarrow> gval list \<times> 'e option" where
  "walk_strings f (GMap m) = (case walk_entries f m of (m', e) \<Rightarrow> (GMap m', e))"
| "walk_strings f (GSlice xs) = (case walk_items f xs of (xs', e) \<Rightarrow> (GSlice xs', e))"
| "walk_strings f (GLeaf l) = (case l of LStr s \<Rightarrow> (case f s of (t, e) \<Rightarrow> (GStr t, e)) | _ \<Rightarrow> (GLeaf l, None))"
| "walk_strings f GNilMap = (GNilMap, None)"
| "walk_strings f GNilSlice = (GNilSlice, None)"
| "walk_entries f [] = ([], None)"
| "walk_entries f ((k, v) # m) =
     (case walk_strings f v of (v', e) \<Rightarrow> (case walk_entries f m of (m', e') \<Rightarrow> ((k, v') # m', first_error e e')))"
| "walk_items f [] = ([], None)"
| "walk_items f (v # xs) =
     (case walk_strings f v of (v', e) \<Rightarrow> (case walk_items f xs of (xs', e') \<Rightarrow> (v' # xs', first_error e e')))"

text \<open>The map is rewritten in place, also when a required variable is missing and the reload fails.\<close>

definition env_subst :: "(string \<Rightarrow> string) \<Rightarrow> gmap \<Rightarrow> gmap \<times> (string \<times> string) option" where
  "env_subst lookup rt = walk_entries (subst_string lookup) rt"

section \<open>Migrations\<close>













section \<open>Properties\<close>

text \<open>Aliases.\<close>

lemma alias_step_move:
  "alias_step rt ft = paths.move rt (split_path (fst ft)) (split_path (snd ft))"
  unfolding alias_step_def paths.move_def get_dotted_def set_dotted_def del_dotted_def by (rule refl)

definition alias_paths :: "(string \<times> string) list \<Rightarrow> string list list" where
  "alias_paths mapping = concat (map (\<lambda>ft. [split_path (fst ft), split_path (snd ft)]) mapping)"

lemma alias_paths_Cons: "alias_paths (ft # mapping) = split_path (fst ft) # split_path (snd ft) # alias_paths mapping"
  by (simp add: alias_paths_def)

lemma aliases_Cons: "aliases (ft # mapping) rt = aliases mapping (alias_step rt ft)"
  by (simp add: aliases_def)

lemma alias_step_live: "rt \<noteq> None \<Longrightarrow> alias_step rt ft \<noteq> None"
  unfolding alias_step_move by (rule paths.live_move)

lemma aliases_apart:
  "rt \<noteq> None \<Longrightarrow> \<forall>ps \<in> set (alias_paths mapping). apart ps qs \<Longrightarrow> get_at (aliases mapping rt) qs = get_at rt qs"
proof (induction mapping arbitrary: rt)
  case Nil
  then show ?case by (simp add: aliases_def)
next
  case (Cons ft mapping)
  then have "get_at (aliases mapping (alias_step rt ft)) qs = get_at (alias_step rt ft) qs"
    by (intro Cons.IH alias_step_live) (auto simp: alias_paths_Cons)
  also have "\<dots> = get_at rt qs"
    unfolding alias_step_move using Cons.prems by (intro paths.move_elsewhere) (auto simp: alias_paths_Cons)
  finally show ?case by (simp add: aliases_Cons)
qed

lemma alias_step_target:
  assumes "rt \<noteq> None" and "apart (split_path f) (split_path t)"
  shows "get_at (alias_step rt (f, t)) (split_path t) =
      (case get_at rt (split_path t) of None \<Rightarrow> get_at rt (split_path f) | Some w \<Rightarrow> Some w)"
proof (cases "get_at rt (split_path t)")
  case None
  show ?thesis
  proof (cases "get_at rt (split_path f)")
    case None
    then show ?thesis
      using \<open>get_at rt (split_path t) = None\<close> by (simp add: alias_step_def get_dotted_def)
  next
    case (Some v)
    then show ?thesis
      using paths.move_target_free [OF assms Some None] None by (simp add: alias_step_move)
  qed
next
  case (Some w)
  then show ?thesis
    using paths.move_target_taken [OF assms Some] by (simp add: alias_step_move)
qed

lemma alias_step_get:
  assumes "rt \<noteq> None" and "apart (split_path f) (split_path t)"
  shows "get_dotted (alias_step rt (f, t)) f = None \<and>
    get_dotted (alias_step rt (f, t)) t = (case get_dotted rt t of None \<Rightarrow> get_dotted rt f | Some w \<Rightarrow> Some w)"
  using alias_step_target [OF assms] paths.move_source_gone [OF assms]
  unfolding get_dotted_def alias_step_move fst_conv snd_conv by blast

lemma aliases_member:
  "rt \<noteq> None \<Longrightarrow> sorted_wrt apart (alias_paths mapping) \<Longrightarrow> (f, t) \<in> set mapping \<Longrightarrow>
   get_dotted (aliases mapping rt) f = None \<and>
   get_dotted (aliases mapping rt) t = (case get_dotted rt t of None \<Rightarrow> get_dotted rt f | Some w \<Rightarrow> Some w)"
proof (induction mapping arbitrary: rt)
  case (Cons ft mapping)
  have live: "alias_step rt ft \<noteq> None" using Cons.prems(1) by (rule alias_step_live)
  have rest: "sorted_wrt apart (alias_paths mapping)"
    using Cons.prems(2) by (simp add: alias_paths_Cons)
  show ?case
  proof (cases "(f, t) = ft")
    case True
    have ap: "\<forall>ps \<in> set (alias_paths mapping). apart ps (split_path f) \<and> apart ps (split_path t)"
      using Cons.prems(2) True [symmetric] by (auto simp: alias_paths_Cons apart_sym)
    have "get_dotted (aliases mapping (alias_step rt ft)) p = get_dotted (alias_step rt ft) p" if "p \<in> {f, t}" for p
      using aliases_apart [OF live, of mapping "split_path p"] ap that by (auto simp: get_dotted_def)
    then show ?thesis
      using alias_step_get [OF Cons.prems(1), of f t] Cons.prems(2) True [symmetric]
      by (simp add: aliases_Cons alias_paths_Cons)
  next
    case False
    then have m: "(f, t) \<in> set mapping" using Cons.prems(3) by auto
    then have mem: "split_path f \<in> set (alias_paths mapping)" "split_path t \<in> set (alias_paths mapping)"
      by (force simp: alias_paths_def)+
    have ap: "apart (split_path (fst ft)) (split_path p) \<and> apart (split_path (snd ft)) (split_path p)" if "p \<in> {f, t}" for p
      using Cons.prems(2) that mem by (auto simp: alias_paths_Cons)
    have "get_dotted (alias_step rt ft) p = get_dotted rt p" if "p \<in> {f, t}" for p
      unfolding alias_step_move get_dotted_def using Cons.prems(1) ap [OF that] by (intro paths.move_elsewhere) auto
    then have e: "get_dotted (alias_step rt ft) f = get_dotted rt f" "get_dotted (alias_step rt ft) t = get_dotted rt t"
      by blast+
    show ?thesis
      using Cons.IH [OF live rest m] unfolding aliases_Cons e .
  qed
qed simp

text \<open>Renaming by aliases: when no path of the mapping lies on another, every old key disappears, its value
  is found at the new key unless the new key was already set (then the new key's own value stays), and every
  path apart from the mapping keeps its value. The order in which Go ranges over the mapping does not matter,
  since the result at each path depends on the document before the transform only.\<close>

theorem aliases_rename:
  assumes "rt \<noteq> None" and "sorted_wrt apart (alias_paths mapping)" and "(f, t) \<in> set mapping"
  shows "get_dotted (aliases mapping rt) f = None \<and>
    get_dotted (aliases mapping rt) t = (case get_dotted rt t of None \<Rightarrow> get_dotted rt f | Some w \<Rightarrow> Some w) \<and>
    (\<forall>qs. (\<forall>ps \<in> set (alias_paths mapping). apart ps qs) \<longrightarrow> get_at (aliases mapping rt) qs = get_at rt qs)"
  using aliases_member [OF assms] aliases_apart [OF assms(1)] by auto

lemma aliases_rename_witness:
  "get_dotted (aliases [(''old'', ''srv.port''), (''x'', ''y'')] (Some [(''old'', GInt KInt 1)])) ''srv.port'' = Some (GInt KInt 1)"
proof -
  have "sorted_wrt apart (alias_paths [(''old'', ''srv.port''), (''x'', ''y'')])"
    by (simp add: alias_paths_def split_path_def apart_Cons)
  from aliases_rename [OF _ this, of "Some [(''old'', GInt KInt 1)]" "''old''" "''srv.port''"]
  show ?thesis by (simp add: get_dotted_def split_path_def get_at_def)
qed

text \<open>Substitution.\<close>

datatype token = Lit string | Ref string env_op

fun operator_text :: "env_op \<Rightarrow> string" where
  "operator_text OpPlain = ''}''"
| "operator_text (OpDefault b) = '':-'' @ b @ ''}''"
| "operator_text (OpRequired b) = '':?'' @ b @ ''}''"

fun render :: "token \<Rightarrow> string" where
  "render (Lit s) = s"
| "render (Ref name op) = ''${'' @ name @ operator_text op"

fun body_of :: "env_op \<Rightarrow> string" where
  "body_of OpPlain = ''''"
| "body_of (OpDefault b) = b"
| "body_of (OpRequired b) = b"

fun token_ok :: "token \<Rightarrow> bool" where
  "token_ok (Lit s) \<longleftrightarrow> CHR ''$'' \<notin> set s"
| "token_ok (Ref name op) \<longleftrightarrow>
     name \<noteq> '''' \<and> name_start (hd name) \<and> list_all name_char name \<and> CHR ''}'' \<notin> set (body_of op)"

fun token_value :: "(string \<Rightarrow> string) \<Rightarrow> token \<Rightarrow> string" where
  "token_value lookup (Lit s) = s"
| "token_value lookup (Ref name op) = ref_value lookup name op"

fun token_error :: "(string \<Rightarrow> string) \<Rightarrow> token \<Rightarrow> (string \<times> string) option" where
  "token_error lookup (Lit s) = None"
| "token_error lookup (Ref name op) = ref_error lookup name op"

lemma match_env_not_dollar: "c \<noteq> CHR ''$'' \<Longrightarrow> match_env (c # s) = None"
  by (simp add: match_env_def has_prefix_def)

lemma subst_literal:
  "CHR ''$'' \<notin> set s \<Longrightarrow> subst_string lookup (s @ t) = (case subst_string lookup t of (u, e) \<Rightarrow> (s @ u, e))"
proof (induction s)
  case (Cons c s)
  then show ?case
    by (subst subst_string.simps) (simp add: match_env_not_dollar split: prod.splits)
qed (simp split: prod.splits)

lemma match_operator_text:
  assumes "CHR ''}'' \<notin> set (body_of op)"
  shows "match_operator (operator_text op @ t) = Some (op, t)"
proof -
  have "takeWhile (\<lambda>x. x \<noteq> CHR ''}'') (b @ CHR ''}'' # t) = b" if "CHR ''}'' \<notin> set b" for b
    using that by (subst takeWhile_append2) auto
  then show ?thesis using assms by (cases op) (simp_all add: match_operator_def Let_def)
qed

lemma operator_text_hd: "\<exists>c r. operator_text op @ t = c # r \<and> \<not> name_char c"
  by (cases op) (simp_all add: name_char_def name_start_def ascii_defs)

lemma match_env_ref:
  assumes "token_ok (Ref name op)"
  shows "match_env (render (Ref name op) @ t) = Some (name, op, t)"
proof -
  let ?tail = "operator_text op @ t"
  have n: "\<forall>c \<in> set name. name_char c" "name \<noteq> []" "name_start (hd name)"
    using assms by (auto simp: list_all_iff)
  obtain c r where cr: "?tail = c # r" "\<not> name_char c" using operator_text_hd by blast
  have tw: "takeWhile name_char (name @ ?tail) = name" "dropWhile name_char (name @ ?tail) = ?tail"
    using n(1) cr by (simp_all add: takeWhile_append2 dropWhile_append2)
  have op: "match_operator ?tail = Some (op, t)"
    using assms by (intro match_operator_text) simp
  have d: "drop 2 (render (Ref name op) @ t) = name @ ?tail"
    by simp
  have p: "has_prefix (render (Ref name op) @ t) ''${''"
    by (simp add: has_prefix_def)
  show ?thesis
    unfolding match_env_def Let_def d tw op using p n(2,3) by simp
qed

fun first_token_error :: "(string \<Rightarrow> string) \<Rightarrow> token list \<Rightarrow> (string \<times> string) option" where
  "first_token_error lookup [] = None"
| "first_token_error lookup (t # ts) = first_error (token_error lookup t) (first_token_error lookup ts)"

lemma subst_ref:
  assumes "token_ok (Ref name op)"
  shows "subst_string lookup (render (Ref name op) @ t) =
    (case subst_string lookup t of (u, e) \<Rightarrow> (ref_value lookup name op @ u, first_error (ref_error lookup name op) e))"
proof -
  obtain c r where cr: "render (Ref name op) @ t = c # r" by simp
  have m: "match_env (c # r) = Some (name, op, t)"
    using match_env_ref [OF assms, of t] cr by simp
  show ?thesis
    unfolding cr by (subst subst_string.simps) (simp add: m)
qed

lemma subst_tokens:
  "list_all token_ok ts \<Longrightarrow>
   subst_string lookup (concat (map render ts)) = (concat (map (token_value lookup) ts), first_token_error lookup ts)"
proof (induction ts)
  case Nil
  show ?case by (simp add: subst_string.simps)
next
  case (Cons t ts)
  then have ok: "token_ok t" and ih: "subst_string lookup (concat (map render ts)) =
      (concat (map (token_value lookup) ts), first_token_error lookup ts)"
    by simp_all
  show ?case
  proof (cases t)
    case (Lit s)
    then show ?thesis using ok ih by (simp add: subst_literal first_error_def)
  next
    case (Ref name op)
    have "subst_string lookup (concat (map render (t # ts))) =
        subst_string lookup (render (Ref name op) @ concat (map render ts))"
      by (simp add: Ref)
    also have "\<dots> = (ref_value lookup name op @ concat (map (token_value lookup) ts),
        first_error (ref_error lookup name op) (first_token_error lookup ts))"
      using subst_ref [OF ok [unfolded Ref]] ih by simp
    finally show ?thesis by (simp add: Ref)
  qed
qed

text \<open>Substitution on a template, a string made of literal text without \<open>$\<close> and of references: every
  reference is replaced by the variable's value, or by its default when the variable is unset or empty, the
  literal text is kept, nothing inside a substituted value is expanded again, and the reported error is that of
  the first required reference whose variable is unset or empty.\<close>

theorem env_subst_template:
  assumes "list_all token_ok ts"
  shows "env_subst lookup [(k, GStr (concat (map render ts)))] =
    ([(k, GStr (concat (map (token_value lookup) ts)))], first_token_error lookup ts)"
  using subst_tokens [OF assms, of lookup] by (simp add: env_subst_def first_error_def split: option.splits)

lemma env_subst_template_witness:
  "env_subst (\<lambda>n. if n = ''A'' then ''${B}'' else '''') [(''k'', GStr ''x${A}-${B:-d}${C:?m}'')] =
    ([(''k'', GStr ''x${B}-d'')], Some (''C'', ''m''))"
  using env_subst_template [of "[Lit ''x'', Ref ''A'' OpPlain, Lit ''-'', Ref ''B'' (OpDefault ''d''), Ref ''C'' (OpRequired ''m'')]"
      "\<lambda>n. if n = ''A'' then ''${B}'' else ''''" "''k''"]
  by (simp add: name_char_def name_start_def is_upper_def ref_value_def ref_error_def first_error_def)














end
