(* ===== verification/Feature.thy ===== *)
theory Feature
  imports Value "HOL-Library.Word"
begin

text \<open>
  \<open>feature/feature.go\<close>: rules that pick a value for a request by ordered targets, then by percentage
  rollouts. \<open>sha\<close> stands for the first eight bytes, big-endian, of the SHA-256 of a string. Contexts and
  the attributes of a target are maps, given as association lists.
\<close>

section \<open>Definitions\<close>

type_synonym eval_context = "(string \<times> string) list"

record target =
  tg_when :: eval_context
  tg_value :: gval

record rollout =
  rl_percent :: int
  rl_hash_key :: string
  rl_value :: gval

record rule =
  ru_default :: gval
  ru_targets :: "target list"
  ru_rollouts :: "rollout list"

definition matches :: "eval_context \<Rightarrow> eval_context \<Rightarrow> bool" where
  "matches want have \<longleftrightarrow> want \<noteq> [] \<and> list_all (\<lambda>(k, v). kv_get have k = Some v) want"

definition in_bucket :: "(string \<Rightarrow> 64 word) \<Rightarrow> string \<Rightarrow> int \<Rightarrow> bool" where
  "in_bucket sha anchor percent \<longleftrightarrow>
     (if percent \<le> 0 then False
      else if percent \<ge> 100 then True
      else uint (sha anchor mod 100) < percent)"

definition rollout_hits :: "(string \<Rightarrow> 64 word) \<Rightarrow> eval_context \<Rightarrow> rollout \<Rightarrow> bool" where
  "rollout_hits sha ctx ro \<longleftrightarrow>
     rl_hash_key ro \<noteq> '''' \<and>
     (case kv_get ctx (rl_hash_key ro) of
        None \<Rightarrow> False
      | Some anchor \<Rightarrow> anchor \<noteq> '''' \<and> in_bucket sha anchor (rl_percent ro))"

fun first_rollout :: "(string \<Rightarrow> 64 word) \<Rightarrow> eval_context \<Rightarrow> rollout list \<Rightarrow> gval \<Rightarrow> gval" where
  "first_rollout sha ctx [] dflt = dflt"
| "first_rollout sha ctx (ro # ros) dflt =
     (if rollout_hits sha ctx ro then rl_value ro else first_rollout sha ctx ros dflt)"

fun first_target :: "eval_context \<Rightarrow> target list \<Rightarrow> gval option" where
  "first_target ctx [] = None"
| "first_target ctx (t # ts) = (if matches (tg_when t) ctx then Some (tg_value t) else first_target ctx ts)"

definition evaluate :: "(string \<Rightarrow> 64 word) \<Rightarrow> rule \<Rightarrow> eval_context \<Rightarrow> gval" where
  "evaluate sha r ctx =
     (case first_target ctx (ru_targets r) of
        Some v \<Rightarrow> v
      | None \<Rightarrow> first_rollout sha ctx (ru_rollouts r) (ru_default r))"

definition feature_eval :: "(string \<Rightarrow> 64 word) \<Rightarrow> (string \<times> rule) list \<Rightarrow> string \<Rightarrow> eval_context \<Rightarrow> gval \<Rightarrow> gval" where
  "feature_eval sha rules key ctx dflt =
     (case kv_get rules key of None \<Rightarrow> dflt | Some r \<Rightarrow> evaluate sha r ctx)"

section \<open>Properties\<close>

lemma in_bucket_mono: "in_bucket sha anchor p \<Longrightarrow> p \<le> q \<Longrightarrow> in_bucket sha anchor q"
  by (auto simp: in_bucket_def split: if_splits)

lemma bucket_range: "uint (sha anchor mod (100 :: 64 word)) < 100"
  by (simp add: uint_mod)

text \<open>Between 0 and 100 the clamping is redundant: a request is in when its bucket, 0 to 99, is below the
  percentage.\<close>

lemma in_bucket_iff: "in_bucket sha anchor p \<longleftrightarrow> uint (sha anchor mod 100) < p"
proof -
  have "in_bucket sha anchor p \<longleftrightarrow> \<not> p \<le> 0 \<and> (100 \<le> p \<or> uint (sha anchor mod 100) < p)"
    by (simp add: in_bucket_def)
  moreover have "0 \<le> uint (sha anchor mod 100)" "uint (sha anchor mod 100) < 100"
    using bucket_range by simp_all
  ultimately show ?thesis by presburger
qed

lemma rollout_hits_mono:
  "rollout_hits sha ctx ro \<Longrightarrow> rl_percent ro \<le> q \<Longrightarrow> rollout_hits sha ctx (ro\<lparr>rl_percent := q\<rparr>)"
  by (auto simp: rollout_hits_def in_bucket_mono split: option.splits)

lemma first_rollout_append:
  "first_rollout sha ctx (pre @ ros) d =
   (if list_ex (rollout_hits sha ctx) pre then first_rollout sha ctx pre d else first_rollout sha ctx ros d)"
  by (induction pre) auto

lemma first_rollout_raised:
  assumes "rl_percent ro \<le> q"
  shows "first_rollout sha ctx (pre @ ro\<lparr>rl_percent := q\<rparr> # post) d =
    (if \<not> list_ex (rollout_hits sha ctx) pre \<and> rollout_hits sha ctx (ro\<lparr>rl_percent := q\<rparr>) then rl_value ro
     else first_rollout sha ctx (pre @ ro # post) d)"
  using rollout_hits_mono [OF _ assms, of sha ctx] by (auto simp: first_rollout_append)

text \<open>Raising the percentage of one rollout is monotone: every request that rollout served is still served
  its value, a request decided by a target or by another rollout before it is unaffected, and the only other
  change a request can see is to move onto this rollout's value. Nobody ever loses an enabled feature by a
  wider rollout.\<close>

theorem rollout_monotone:
  assumes "rl_percent ro \<le> q"
  shows "(evaluate sha (r\<lparr>ru_rollouts := pre @ ro\<lparr>rl_percent := q\<rparr> # post\<rparr>) ctx =
            evaluate sha (r\<lparr>ru_rollouts := pre @ ro # post\<rparr>) ctx \<or>
          evaluate sha (r\<lparr>ru_rollouts := pre @ ro\<lparr>rl_percent := q\<rparr> # post\<rparr>) ctx = rl_value ro) \<and>
    (first_target ctx (ru_targets r) = None \<and> \<not> list_ex (rollout_hits sha ctx) pre \<and> rollout_hits sha ctx ro \<longrightarrow>
       evaluate sha (r\<lparr>ru_rollouts := pre @ ro\<lparr>rl_percent := q\<rparr> # post\<rparr>) ctx = rl_value ro) \<and>
    (first_target ctx (ru_targets r) \<noteq> None \<or> list_ex (rollout_hits sha ctx) pre \<longrightarrow>
       evaluate sha (r\<lparr>ru_rollouts := pre @ ro\<lparr>rl_percent := q\<rparr> # post\<rparr>) ctx =
       evaluate sha (r\<lparr>ru_rollouts := pre @ ro # post\<rparr>) ctx)"
  using first_rollout_raised [OF assms, of sha ctx pre post "ru_default r"] rollout_hits_mono [OF _ assms, of sha ctx]
  by (simp add: evaluate_def split: option.splits)

lemma rollout_monotone_witness:
  "evaluate (\<lambda>_. 1042) \<lparr>ru_default = GBool False, ru_targets = [],
      ru_rollouts = [\<lparr>rl_percent = 43, rl_hash_key = ''id'', rl_value = GBool True\<rparr>\<lparr>rl_percent := 50\<rparr>]\<rparr> [(''id'', ''u'')] = GBool True"
  using rollout_monotone [of "\<lparr>rl_percent = 43, rl_hash_key = ''id'', rl_value = GBool True\<rparr>" 50 "\<lambda>_. 1042"
      "[]" "[]" "\<lparr>ru_default = GBool False, ru_targets = [], ru_rollouts = []\<rparr>" "[(''id'', ''u'')]"]
  by (simp add: rollout_hits_def in_bucket_def)

end
