(* ===== verification/Profiles.thy ===== *)
theory Profiles
  imports Prelude
begin

text \<open>
  \<open>internal/scan/profile_expr.go\<close>: the expressions over profile names that select overlay directories.
  The parser state is the rest of the source. The code builds closures; the model builds their syntax tree
  and evaluates it. The parser functions carry fuel, one unit per call; \<open>compile_profile\<close> supplies
  \<open>5 * length + 5\<close> units, which is always enough (\<open>parse_total\<close>).
\<close>

section \<open>Definitions\<close>

datatype pexpr = PHas string | PNot pexpr | PAnd pexpr pexpr | POr pexpr pexpr

fun eval_expr :: "pexpr \<Rightarrow> string set \<Rightarrow> bool" where
  "eval_expr (PHas p) active = (p \<in> active)"
| "eval_expr (PNot e) active = (\<not> eval_expr e active)"
| "eval_expr (PAnd a b) active = (eval_expr a active \<and> eval_expr b active)"
| "eval_expr (POr a b) active = (eval_expr a active \<or> eval_expr b active)"

definition new_profile_set :: "string list \<Rightarrow> string set" where
  "new_profile_set names = set (filter (\<lambda>a. a \<noteq> '''') (map trim_space names))"

datatype profile_error =
    UnexpectedEnd | MissingParen string | ExpectedIdent string | TrailingInput string | OutOfFuel

text \<open>\<open>unicode.IsSpace\<close> of one byte taken as a rune.\<close>

definition expr_space :: "char \<Rightarrow> bool" where
  "expr_space c \<longleftrightarrow> is_space c \<or> c = CHR 0x85 \<or> c = CHR 0xA0"

definition skip_spaces :: "string \<Rightarrow> string" where
  "skip_spaces s = dropWhile expr_space s"

definition ident_char :: "char \<Rightarrow> bool" where
  "ident_char c \<longleftrightarrow> c = CHR ''_'' \<or> c = CHR ''-'' \<or> c = CHR ''.'' \<or> is_lower c \<or> is_upper c \<or> is_digit c"

definition parse_ident :: "string \<Rightarrow> profile_error + string \<times> string" where
  "parse_ident s =
     (let name = takeWhile ident_char s in
      if name = '''' then Inl (ExpectedIdent s) else Inr (name, dropWhile ident_char s))"

type_synonym parsed = "profile_error + pexpr \<times> string"

function parse_or :: "nat \<Rightarrow> string \<Rightarrow> parsed"
  and or_loop :: "nat \<Rightarrow> pexpr \<Rightarrow> string \<Rightarrow> parsed"
  and parse_and :: "nat \<Rightarrow> string \<Rightarrow> parsed"
  and and_loop :: "nat \<Rightarrow> pexpr \<Rightarrow> string \<Rightarrow> parsed"
  and parse_not :: "nat \<Rightarrow> string \<Rightarrow> parsed"
  and parse_atom :: "nat \<Rightarrow> string \<Rightarrow> parsed" where
  "parse_or 0 s = Inl OutOfFuel"
| "parse_or (Suc n) s = rbind (parse_and n s) (\<lambda>(l, s'). or_loop n l s')"
| "or_loop 0 l s = Inl OutOfFuel"
| "or_loop (Suc n) l s =
     (case skip_spaces s of
        c # r \<Rightarrow> if c = CHR ''|'' then rbind (parse_and n r) (\<lambda>(e, s'). or_loop n (POr l e) s')
                 else Inr (l, c # r)
      | [] \<Rightarrow> Inr (l, []))"
| "parse_and 0 s = Inl OutOfFuel"
| "parse_and (Suc n) s = rbind (parse_not n s) (\<lambda>(l, s'). and_loop n l s')"
| "and_loop 0 l s = Inl OutOfFuel"
| "and_loop (Suc n) l s =
     (case skip_spaces s of
        c # r \<Rightarrow> if c = CHR ''&'' then rbind (parse_not n r) (\<lambda>(e, s'). and_loop n (PAnd l e) s')
                 else Inr (l, c # r)
      | [] \<Rightarrow> Inr (l, []))"
| "parse_not 0 s = Inl OutOfFuel"
| "parse_not (Suc n) s =
     (case skip_spaces s of
        c # r \<Rightarrow> if c = CHR ''!'' then rbind (parse_not n r) (\<lambda>(e, s'). Inr (PNot e, s'))
                 else parse_atom n (c # r)
      | [] \<Rightarrow> parse_atom n [])"
| "parse_atom 0 s = Inl OutOfFuel"
| "parse_atom (Suc n) s =
     (case skip_spaces s of
        [] \<Rightarrow> Inl UnexpectedEnd
      | c # r \<Rightarrow>
          if c = CHR 0x00 then Inl UnexpectedEnd
          else if c = CHR ''('' then
            rbind (parse_or n r) (\<lambda>(e, s').
              case skip_spaces s' of
                d # r' \<Rightarrow> if d = CHR '')'' then Inr (e, r') else Inl (MissingParen (d # r'))
              | [] \<Rightarrow> Inl (MissingParen []))
          else rbind (parse_ident (c # r)) (\<lambda>(name, s'). Inr (PHas name, s')))"
  by pat_completeness auto
termination
  by (relation "measure (\<lambda>x. case x of
      Inl (Inl (n, _)) \<Rightarrow> n | Inl (Inr (Inl (n, _))) \<Rightarrow> n | Inl (Inr (Inr (n, _))) \<Rightarrow> n
    | Inr (Inl (n, _)) \<Rightarrow> n | Inr (Inr (Inl (n, _))) \<Rightarrow> n | Inr (Inr (Inr (n, _))) \<Rightarrow> n)") simp_all

text \<open>\<open>Compile\<close>: \<open>None\<close> is the always-true predicate of the empty expression.\<close>

definition compile_profile :: "string \<Rightarrow> profile_error + pexpr option" where
  "compile_profile expr0 =
     (let expr = trim_space expr0 in
      if expr = '''' then Inr None
      else rbind (parse_or (5 * length expr + 5) expr) (\<lambda>(e, rest).
             if rest = '''' then Inr (Some e) else Inl (TrailingInput rest)))"

definition eval_profile :: "string \<Rightarrow> string set \<Rightarrow> profile_error + bool" where
  "eval_profile expr active =
     rbind (compile_profile expr) (\<lambda>c. Inr (case c of None \<Rightarrow> True | Some e \<Rightarrow> eval_expr e active))"

section \<open>The fuel suffices\<close>

definition within :: "nat \<Rightarrow> parsed \<Rightarrow> bool" where
  "within k r \<longleftrightarrow> (case r of Inl e \<Rightarrow> e \<noteq> OutOfFuel | Inr (e, s) \<Rightarrow> length s < k)"

lemma withinI: "(r = Inl OutOfFuel \<Longrightarrow> False) \<Longrightarrow> (\<And>e s. r = Inr (e, s) \<Longrightarrow> length s < k) \<Longrightarrow> within k r"
  by (auto simp: within_def split: sum.splits)

lemma within_bind:
  assumes "within k r" and "\<And>e s. length s < k \<Longrightarrow> within k' (f (e, s))"
  shows "within k' (rbind r f)"
  using assms by (cases r) (auto simp: within_def)

lemma within_simps [simp]: "within k (Inr (e, s)) \<longleftrightarrow> length s < k" "within k (Inl x) \<longleftrightarrow> x \<noteq> OutOfFuel"
  by (simp_all add: within_def)

lemma within_mono: "within k r \<Longrightarrow> k \<le> k' \<Longrightarrow> within k' r"
  by (auto simp: within_def split: sum.splits)

lemma length_skip: "length (skip_spaces s) \<le> length s"
  by (simp add: skip_spaces_def length_dropWhile_le)

lemma within_ident: "length (c # r) \<le> k \<Longrightarrow> within k (rbind (parse_ident (c # r)) (\<lambda>(name, s'). Inr (PHas name, s')))"
  using length_dropWhile_le [of ident_char r] by (auto simp: parse_ident_def Let_def)

lemma parse_within:
  "5 * length s + 5 \<le> n \<Longrightarrow> within (max 1 (length s)) (parse_or n s)"
  "5 * length s + 1 \<le> n \<Longrightarrow> within (Suc (length s)) (or_loop n l s)"
  "5 * length s + 4 \<le> n \<Longrightarrow> within (max 1 (length s)) (parse_and n s)"
  "5 * length s + 1 \<le> n \<Longrightarrow> within (Suc (length s)) (and_loop n l s)"
  "5 * length s + 3 \<le> n \<Longrightarrow> within (max 1 (length s)) (parse_not n s)"
  "5 * length s + 2 \<le> n \<Longrightarrow> within (max 1 (length s)) (parse_atom n s)"
proof (induction n arbitrary: s l)
  case (Suc n)
  have skip: "length r < length s" if "skip_spaces s = c # r" for c r s
    using length_skip [of s] that by simp
  { case 1
    then show ?case
      by (auto intro!: within_bind [OF Suc.IH(3)] within_mono [OF Suc.IH(2)])
  next
    case 2
    show ?case
    proof (cases "skip_spaces s")
      case (Cons c r)
      from skip [OF Cons] have r: "length r < length s" .
      have "within (Suc (length s)) (or_loop n (POr l e) s')" if "length s' < max 1 (length r)" for e s'
        using that r 2 by (intro within_mono [OF Suc.IH(2)]) auto
      then have "within (Suc (length s)) (rbind (parse_and n r) (\<lambda>(e, s'). or_loop n (POr l e) s'))"
        using r 2 by (intro within_bind [OF Suc.IH(3)]) auto
      then show ?thesis using Cons r by simp
    qed simp
  next
    case 3
    then show ?case
      by (auto intro!: within_bind [OF Suc.IH(5)] within_mono [OF Suc.IH(4)])
  next
    case 4
    show ?case
    proof (cases "skip_spaces s")
      case (Cons c r)
      from skip [OF Cons] have r: "length r < length s" .
      have "within (Suc (length s)) (and_loop n (PAnd l e) s')" if "length s' < max 1 (length r)" for e s'
        using that r 4 by (intro within_mono [OF Suc.IH(4)]) auto
      then have "within (Suc (length s)) (rbind (parse_not n r) (\<lambda>(e, s'). and_loop n (PAnd l e) s'))"
        using r 4 by (intro within_bind [OF Suc.IH(5)]) auto
      then show ?thesis using Cons r by simp
    qed simp
  next
    case 5
    show ?case
    proof (cases "skip_spaces s")
      case Nil
      then show ?thesis using 5 Suc.IH(6) [of "[]"] by (auto intro: within_mono)
    next
      case (Cons c r)
      from skip [OF Cons] have r: "length r < length s" .
      have "within (max 1 (length s)) (rbind (parse_not n r) (\<lambda>(e, s'). Inr (PNot e, s')))"
        using r 5 by (intro within_bind [OF Suc.IH(5)]) auto
      moreover have "within (max 1 (length s)) (parse_atom n (c # r))"
        using r 5 by (intro within_mono [OF Suc.IH(6)]) auto
      ultimately show ?thesis using Cons by simp
    qed
  next
    case 6
    show ?case
    proof (cases "skip_spaces s")
      case (Cons c r)
      from skip [OF Cons] have r: "length r < length s" .
      have close: "within (max 1 (length s)) (case skip_spaces s' of
             d # r' \<Rightarrow> if d = CHR '')'' then Inr (e, r') else Inl (MissingParen (d # r'))
           | [] \<Rightarrow> Inl (MissingParen []))" if "length s' < max 1 (length r)" for e s'
        using that r skip [of s'] by (auto split: list.split)
      have "within (max 1 (length s)) (rbind (parse_or n r) (\<lambda>(e, s'). case skip_spaces s' of
             d # r' \<Rightarrow> if d = CHR '')'' then Inr (e, r') else Inl (MissingParen (d # r'))
           | [] \<Rightarrow> Inl (MissingParen [])))"
        using r 6 close by (intro within_bind [OF Suc.IH(1)]) auto
      moreover have "within (max 1 (length s)) (rbind (parse_ident (c # r)) (\<lambda>(name, s'). Inr (PHas name, s')))"
        using r by (intro within_ident) auto
      ultimately show ?thesis using Cons by simp
    qed simp
  }
qed simp_all

lemma compile_total: "compile_profile s \<noteq> Inl OutOfFuel"
proof -
  let ?t = "trim_space s"
  have "within (max 1 (length ?t)) (parse_or (5 * length ?t + 5) ?t)"
    by (rule parse_within) simp
  then show ?thesis
    unfolding compile_profile_def Let_def
    by (cases "parse_or (5 * length ?t + 5) ?t") (auto simp: within_def split: if_splits)
qed

section \<open>Printing and parsing\<close>

fun show_expr :: "pexpr \<Rightarrow> string" where
  "show_expr (PHas p) = p"
| "show_expr (PNot e) = CHR ''!'' # show_expr e"
| "show_expr (PAnd a b) = CHR ''('' # show_expr a @ CHR ''&'' # show_expr b @ '')''"
| "show_expr (POr a b) = CHR ''('' # show_expr a @ CHR ''|'' # show_expr b @ '')''"

fun names_ok :: "pexpr \<Rightarrow> bool" where
  "names_ok (PHas p) = (p \<noteq> '''' \<and> list_all ident_char p)"
| "names_ok (PNot e) = names_ok e"
| "names_ok (PAnd a b) = (names_ok a \<and> names_ok b)"
| "names_ok (POr a b) = (names_ok a \<and> names_ok b)"

fun fuel_of :: "pexpr \<Rightarrow> nat" where
  "fuel_of (PHas p) = 2"
| "fuel_of (PNot e) = fuel_of e + 1"
| "fuel_of (PAnd a b) = fuel_of a + fuel_of b + 6"
| "fuel_of (POr a b) = fuel_of a + fuel_of b + 6"

definition stops :: "string \<Rightarrow> bool" where
  "stops s \<longleftrightarrow> (case s of [] \<Rightarrow> True | c # _ \<Rightarrow> c \<in> {CHR '')'', CHR ''&'', CHR ''|''})"

lemma stops_simps [simp]:
  "stops []" "stops (CHR '')'' # r)" "stops (CHR ''&'' # r)" "stops (CHR ''|'' # r)"
  by (simp_all add: stops_def)

lemma ident_not_special:
  assumes "ident_char c"
  shows "\<not> expr_space c" "c \<noteq> CHR ''!''" "c \<noteq> CHR ''(''" "c \<noteq> CHR 0x00"
  using assms by (auto simp: ident_char_def expr_space_def is_space_def is_lower_def is_upper_def is_digit_def)

lemma skip_ident: "ident_char c \<Longrightarrow> skip_spaces (c # r) = c # r"
  by (simp add: skip_spaces_def ident_not_special)

lemma special_simps [simp]:
  "skip_spaces (CHR ''!'' # r) = CHR ''!'' # r" "skip_spaces (CHR ''('' # r) = CHR ''('' # r"
  "skip_spaces (CHR '')'' # r) = CHR '')'' # r" "skip_spaces (CHR ''&'' # r) = CHR ''&'' # r"
  "skip_spaces (CHR ''|'' # r) = CHR ''|'' # r" "skip_spaces [] = []"
  by (simp_all add: skip_spaces_def expr_space_def is_space_def)

lemma parse_ident_name:
  assumes "list_all ident_char p" "p \<noteq> ''''" "stops s"
  shows "parse_ident (p @ s) = Inr (p, s)"
proof -
  have "takeWhile ident_char s = []" "dropWhile ident_char s = s"
    using assms(3) by (auto simp: stops_def ident_char_def is_lower_def is_upper_def is_digit_def split: list.splits)
  then show ?thesis
    using assms(1,2) by (simp add: parse_ident_def Let_def takeWhile_append dropWhile_append list_all_iff)
qed

lemma not_paren: "parse_not (Suc n) (CHR ''('' # r) = parse_atom n (CHR ''('' # r)"
  by simp

lemma six_more: "k + 6 \<le> n \<Longrightarrow> \<exists>m. n = Suc (Suc (Suc (Suc (Suc (Suc m))))) \<and> k \<le> m"
  by (rule exI [of _ "n - 6"]) auto

lemma parse_shown:
  "names_ok e \<Longrightarrow> fuel_of e \<le> n \<Longrightarrow> stops s \<Longrightarrow> parse_not n (show_expr e @ s) = Inr (e, s)"
proof (induction e arbitrary: n s)
  case (PHas p)
  then obtain c q m where p: "p = c # q" and n: "n = Suc (Suc m)" and c: "ident_char c"
    by (cases p; cases n; cases "n - 1") (auto simp: Suc_le_eq)
  have "parse_ident (c # q @ s) = Inr (p, s)"
    using parse_ident_name [of p s] PHas p by simp
  then show ?case
    using ident_not_special [OF c] by (simp add: p n skip_ident [OF c])
next
  case (PNot e)
  then obtain m where "n = Suc m" by (cases n) auto
  then show ?case using PNot by simp
next
  case (PAnd a b)
  obtain m where n: "n = Suc (Suc (Suc (Suc (Suc (Suc m)))))" and m: "fuel_of a + fuel_of b \<le> m"
    using six_more [OF PAnd.prems(2) [unfolded fuel_of.simps]] by blast
  show ?case
    using PAnd.prems PAnd.IH m by (simp add: n not_paren del: parse_not.simps)
next
  case (POr a b)
  obtain m where n: "n = Suc (Suc (Suc (Suc (Suc (Suc m)))))" and m: "fuel_of a + fuel_of b \<le> m"
    using six_more [OF POr.prems(2) [unfolded fuel_of.simps]] by blast
  show ?case
    using POr.prems POr.IH m by (simp add: n not_paren del: parse_not.simps)
qed

lemma fuel_of_length: "names_ok e \<Longrightarrow> fuel_of e \<le> 5 * length (show_expr e) + 3"
  by (induction e) auto

lemma show_ends:
  assumes "names_ok e"
  shows "show_expr e \<noteq> ''''" "\<not> is_space (hd (show_expr e))" "\<not> is_space (last (show_expr e))"
proof -
  have sp: "\<not> is_space c" if "ident_char c" for c
    using ident_not_special(1) [OF that] by (simp add: expr_space_def)
  show "show_expr e \<noteq> ''''" using assms by (cases e) auto
  show "\<not> is_space (hd (show_expr e))"
    using assms sp by (cases e) (auto simp: is_space_def list_all_iff)
  show "\<not> is_space (last (show_expr e))"
    using assms
  proof (induction e)
    case (PNot e)
    then show ?case by (cases e) auto
  qed (use sp in \<open>auto simp: is_space_def list_all_iff\<close>)
qed

lemma trim_shown: "names_ok e \<Longrightarrow> trim_space (show_expr e) = show_expr e"
proof -
  assume "names_ok e"
  from show_ends [OF this] have "dropWhile is_space (show_expr e) = show_expr e"
    "dropWhile is_space (rev (show_expr e)) = rev (show_expr e)"
    by (simp_all add: dropWhile_eq_self_iff hd_rev)
  then show ?thesis by (simp add: trim_space_def)
qed

lemma compile_shown:
  assumes "names_ok e"
  shows "compile_profile (show_expr e) = Inr (Some e)"
proof -
  let ?n = "5 * length (show_expr e) + 5"
  have "parse_not (5 * length (show_expr e) + 3) (show_expr e @ []) = Inr (e, [])"
    using assms fuel_of_length by (intro parse_shown) auto
  then have "parse_or ?n (show_expr e) = Inr (e, [])"
    by (simp add: eval_nat_numeral del: parse_not.simps)
  then show ?thesis
    using show_ends [OF assms] by (simp add: compile_profile_def trim_shown [OF assms] Let_def)
qed

section \<open>Properties\<close>

text \<open>Compiling a profile expression always ends with a predicate or a parse error, and an expression
  written out with explicit parentheses compiles to a predicate that holds exactly when the expression
  does: precedence and negation are the ones the grammar states.\<close>

theorem profile_parse_roundtrip:
  "compile_profile expr \<noteq> Inl OutOfFuel \<and>
   (names_ok e \<longrightarrow> eval_profile (show_expr e) active = Inr (eval_expr e active))"
  using compile_total compile_shown [of e] by (simp add: eval_profile_def)

lemma profile_parse_roundtrip_witness:
  "show_expr (PAnd (PHas ''prod'') (PNot (PHas ''eu-1''))) = ''(prod&!eu-1)'' \<and>
   eval_profile ''(prod&!eu-1)'' (new_profile_set [''prod'', '' '']) = Inr True"
proof -
  have s: "show_expr (PAnd (PHas ''prod'') (PNot (PHas ''eu-1''))) = ''(prod&!eu-1)''" by simp
  have "names_ok (PAnd (PHas ''prod'') (PNot (PHas ''eu-1'')))" by code_simp
  moreover have "eval_expr (PAnd (PHas ''prod'') (PNot (PHas ''eu-1''))) (new_profile_set [''prod'', '' ''])"
    by code_simp
  ultimately show ?thesis
    using conjunct2 [OF profile_parse_roundtrip [of "[]" "PAnd (PHas ''prod'') (PNot (PHas ''eu-1''))"
      "new_profile_set [''prod'', '' '']"]] s by simp
qed

end
