(* ===== verification/Codec.thy ===== *)
theory Codec
  imports Value "HOL-Library.Word"
begin

text \<open>
  \<open>codec/registry.go\<close>, \<open>builtin.go\<close>, \<open>decoder.go\<close> and \<open>ini.go\<close>: the process-global codec table and the
  document decoders around the YAML, JSON, TOML and INI parsers. The parsers themselves are
  third-party code: what they make of the bytes is an argument (\<open>parsers\<close>). \<open>raw\<close> is what a parser
  returns before \<open>normalize\<close>: it may hold maps with non-string keys and slices of maps.
\<close>

section \<open>The registry\<close>

record 'd registry =
  re_codecs :: "(string \<times> 'd) list"
  re_exts :: "(string \<times> string) list"
  re_generation :: "64 word"

definition register :: "string \<Rightarrow> 'd \<Rightarrow> 'd registry \<Rightarrow> 'd registry" where
  "register name c r =
     r\<lparr>re_codecs := kv_set (to_lower name) c (re_codecs r), re_generation := re_generation r + 1\<rparr>"

definition norm_ext :: "string \<Rightarrow> string" where
  "norm_ext ext = trim_prefix (to_lower ext) ''.''"

definition register_ext :: "string \<Rightarrow> string \<Rightarrow> 'd registry \<Rightarrow> 'd registry" where
  "register_ext ext codec r = r\<lparr>re_exts := kv_set (norm_ext ext) (to_lower codec) (re_exts r)\<rparr>"

definition lookup_codec :: "'d registry \<Rightarrow> string \<Rightarrow> 'd option" where
  "lookup_codec r name = kv_get (re_codecs r) (to_lower name)"

definition lookup_ext :: "'d registry \<Rightarrow> string \<Rightarrow> string" where
  "lookup_ext r ext = (case kv_get (re_exts r) (norm_ext ext) of None \<Rightarrow> '''' | Some c \<Rightarrow> c)"

definition drop_through_slash :: "string \<Rightarrow> string" where
  "drop_through_slash s = last (split_char (CHR ''/'') s)"

definition by_content_type :: "'d registry \<Rightarrow> string \<Rightarrow> 'd option" where
  "by_content_type r ct0 =
     (let ct1 = to_lower (trim_space ct0);
          ct2 = (if CHR '';'' \<in> set ct1 then trim_space (takeWhile (\<lambda>c. c \<noteq> CHR '';'') ct1) else ct1);
          ct = (if CHR ''/'' \<in> set ct2 then trim_prefix (drop_through_slash ct2) ''x-'' else ct2);
          name = lookup_ext r ct
      in if name \<noteq> '''' then lookup_codec r name else None)"

datatype builtin = YamlDecoder | JsonDecoder | TomlDecoder | IniDecoder

text \<open>\<open>init\<close> on the empty tables.\<close>

definition init_registry :: "builtin registry" where
  "init_registry =
     fold (\<lambda>(ext, c). register_ext ext c)
       [(''yaml'', ''yaml''), (''yml'', ''yaml''), (''json'', ''json''), (''toml'', ''toml''), (''ini'', ''ini'')]
     (fold (\<lambda>(name, c). register name c)
       [(''yaml'', YamlDecoder), (''yml'', YamlDecoder), (''json'', JsonDecoder), (''toml'', TomlDecoder), (''ini'', IniDecoder)]
       \<lparr>re_codecs = [], re_exts = [], re_generation = 0\<rparr>)"

section \<open>Normalisation\<close>

datatype raw =
    RLeaf leaf
  | RMap "(string \<times> raw) list"            \<comment> \<open>\<open>map[string]any\<close>\<close>
  | RAnyMap "(leaf \<times> raw) list"           \<comment> \<open>\<open>map[any]any\<close>\<close>
  | RMapSlice "(string \<times> raw) list list"   \<comment> \<open>\<open>[]map[string]any\<close>\<close>
  | RSlice "raw list"                       \<comment> \<open>\<open>[]any\<close>\<close>

text \<open>\<open>fmt.Sprint\<close> of a key is the argument \<open>sprint\<close>; two keys that print alike leave one entry, the one
  visited last.\<close>

fun normalize_value :: "(leaf \<Rightarrow> string) \<Rightarrow> raw \<Rightarrow> gval" where
  "normalize_value sprint (RLeaf l) = GLeaf l"
| "normalize_value sprint (RMap m) = GMap (map (\<lambda>(k, v). (k, normalize_value sprint v)) m)"
| "normalize_value sprint (RAnyMap m) =
     GMap (foldl (\<lambda>acc (k, v). kv_set (sprint k) v acc) [] (map (\<lambda>(k, v). (k, normalize_value sprint v)) m))"
| "normalize_value sprint (RMapSlice ms) =
     GSlice (map (\<lambda>m. GMap (map (\<lambda>(k, v). (k, normalize_value sprint v)) m)) ms)"
| "normalize_value sprint (RSlice xs) = GSlice (map (normalize_value sprint) xs)"

section \<open>Decoders\<close>

datatype codec_error =
    Malformed | MultipleDocuments | TrailingContent | NotAMapping | UnknownCodec string
  | SectionConflict string

text \<open>What the parsers make of the bytes: one YAML document (\<open>yaml.Unmarshal\<close>), the documents of a YAML or JSON
  stream in order up to its end (\<open>None\<close> is a document that does not parse; nothing follows it), one TOML table,
  and the sections of an INI file with their own keys (\<open>None\<close> is the default section).\<close>

record parsers =
  pa_yaml :: "string \<Rightarrow> raw option"
  pa_yaml_stream :: "string \<Rightarrow> raw option list"
  pa_json_stream :: "string \<Rightarrow> raw option list"
  pa_toml :: "string \<Rightarrow> (string \<times> raw) list option"
  pa_ini :: "string \<Rightarrow> (string option \<times> (string \<times> string) list) list option"
  pa_sprint :: "leaf \<Rightarrow> string"

definition has_boundary :: "string \<Rightarrow> bool" where
  "has_boundary data \<longleftrightarrow>
     list_ex (\<lambda>l. has_prefix l ''---'' \<or> has_prefix l ''...'') (split_char (CHR 0x0A) data)"

abbreviation raw_nil :: raw where "raw_nil \<equiv> RLeaf LNil"

fun reject_extra :: "raw option list \<Rightarrow> codec_error option" where
  "reject_extra [] = None"
| "reject_extra (None # ds) = Some TrailingContent"
| "reject_extra (Some v # ds) = (if v \<noteq> raw_nil then Some MultipleDocuments else reject_extra ds)"

definition single_yaml :: "parsers \<Rightarrow> string \<Rightarrow> codec_error + raw" where
  "single_yaml P data =
     (if \<not> has_boundary data
      then (case pa_yaml P data of None \<Rightarrow> Inl Malformed | Some v \<Rightarrow> Inr v)
      else (case pa_yaml_stream P data of
              [] \<Rightarrow> Inr raw_nil
            | None # ds \<Rightarrow> Inl Malformed
            | Some v # ds \<Rightarrow> (case reject_extra ds of Some e \<Rightarrow> Inl e | None \<Rightarrow> Inr v)))"

definition decode_yaml :: "parsers \<Rightarrow> string \<Rightarrow> codec_error + gmap" where
  "decode_yaml P data =
     (if trim_space data = '''' then Inr []
      else rbind (single_yaml P data) (\<lambda>v.
        case v of
          RMap m \<Rightarrow> (case normalize_value (pa_sprint P) v of GMap m' \<Rightarrow> Inr m' | _ \<Rightarrow> Inl NotAMapping)
        | _ \<Rightarrow> if v = raw_nil then Inr [] else Inl NotAMapping))"

definition json_document :: "parsers \<Rightarrow> string \<Rightarrow> codec_error + raw" where
  "json_document P data =
     (case pa_json_stream P data of
        [] \<Rightarrow> Inl Malformed
      | None # ds \<Rightarrow> Inl Malformed
      | Some v # [] \<Rightarrow> Inr v
      | Some v # None # ds \<Rightarrow> Inl TrailingContent
      | Some v # Some w # ds \<Rightarrow> Inl MultipleDocuments)"

definition decode_json :: "parsers \<Rightarrow> string \<Rightarrow> codec_error + gmap" where
  "decode_json P data =
     (if data = '''' then Inr []
      else rbind (json_document P data) (\<lambda>v.
        case v of
          RMap m \<Rightarrow> (case normalize_value (pa_sprint P) v of GMap m' \<Rightarrow> Inr m' | _ \<Rightarrow> Inl NotAMapping)
        | _ \<Rightarrow> if v = raw_nil then Inr [] else Inl NotAMapping))"

definition decode_toml :: "parsers \<Rightarrow> string \<Rightarrow> codec_error + gmap" where
  "decode_toml P data =
     (if data = '''' then Inr []
      else (case pa_toml P data of
              None \<Rightarrow> Inl Malformed
            | Some m \<Rightarrow> Inr (map (\<lambda>(k, v). (k, normalize_value (pa_sprint P) v)) m)))"

definition ini_keys :: "(string \<times> string) list \<Rightarrow> gmap \<Rightarrow> gmap" where
  "ini_keys kvs m = fold (\<lambda>(k, v). kv_set k (GStr v)) kvs m"

fun ini_sections :: "(string option \<times> (string \<times> string) list) list \<Rightarrow> gmap \<Rightarrow> codec_error + gmap" where
  "ini_sections [] out = Inr out"
| "ini_sections ((None, kvs) # ss) out = ini_sections ss (ini_keys kvs out)"
| "ini_sections ((Some name, kvs) # ss) out =
     (if kv_get out name \<noteq> None then Inl (SectionConflict name)
      else ini_sections ss (kv_set name (GMap (ini_keys kvs [])) out))"

definition decode_ini :: "parsers \<Rightarrow> string \<Rightarrow> codec_error + gmap" where
  "decode_ini P data =
     (if data = '''' then Inr []
      else (case pa_ini P data of None \<Rightarrow> Inl Malformed | Some ss \<Rightarrow> ini_sections ss []))"

definition run_decoder :: "parsers \<Rightarrow> builtin \<Rightarrow> string \<Rightarrow> codec_error + gmap" where
  "run_decoder P d =
     (case d of YamlDecoder \<Rightarrow> decode_yaml P | JsonDecoder \<Rightarrow> decode_json P
      | TomlDecoder \<Rightarrow> decode_toml P | IniDecoder \<Rightarrow> decode_ini P)"

definition codec_for :: "'d registry \<Rightarrow> string \<Rightarrow> codec_error + 'd" where
  "codec_for r name = (case lookup_codec r name of Some d \<Rightarrow> Inr d | None \<Rightarrow> Inl (UnknownCodec name))"

definition decode_any :: "parsers \<Rightarrow> string \<Rightarrow> string \<Rightarrow> codec_error + gval" where
  "decode_any P codec data =
     (if trim_space data = '''' then Inr GNil
      else let name = to_lower codec in
        if name = ''yaml'' \<or> name = ''yml''
        then rbind (single_yaml P data) (\<lambda>v. Inr (normalize_value (pa_sprint P) v))
        else if name = ''json'' then rbind (json_document P data) (\<lambda>v. Inr (normalize_value (pa_sprint P) v))
        else Inl (UnknownCodec codec))"

section \<open>Properties\<close>

lemma lookup_register:
  "lookup_codec (register name c r) n = (if to_lower n = to_lower name then Some c else lookup_codec r n)"
  by (simp add: lookup_codec_def register_def)

lemma lookup_register_ext:
  "lookup_ext (register_ext ext c r) e = (if norm_ext e = norm_ext ext then to_lower c else lookup_ext r e)"
  by (simp add: lookup_ext_def register_ext_def)

lemma generation_register: "re_generation (register name c r) = re_generation r + 1"
  by (simp add: register_def)

lemma init_registry_codecs:
  "re_codecs init_registry =
     [(''yaml'', YamlDecoder), (''yml'', YamlDecoder), (''json'', JsonDecoder), (''toml'', TomlDecoder), (''ini'', IniDecoder)]"
  "re_exts init_registry =
     [(''yaml'', ''yaml''), (''yml'', ''yaml''), (''json'', ''json''), (''toml'', ''toml''), (''ini'', ''ini'')]"
  by (code_simp)+

lemma reject_extra_None: "reject_extra ds = None \<longleftrightarrow> list_all (\<lambda>d. d = Some raw_nil) ds"
  by (induction ds rule: reject_extra.induct) auto

text \<open>A YAML stream with a document boundary is accepted only when it holds one document: \<open>single_yaml\<close> succeeds
  exactly when the first document parses and every later one parses to null, so no trailing content is ever
  silently dropped; the value is that of the first document.\<close>

theorem yaml_single_document:
  assumes "has_boundary data"
  shows "single_yaml P data = Inr v \<longleftrightarrow>
    (pa_yaml_stream P data = [] \<and> v = raw_nil \<or>
     (\<exists>ds. pa_yaml_stream P data = Some v # ds \<and> list_all (\<lambda>d. d = Some raw_nil) ds))"
  using assms reject_extra_None [symmetric]
  by (auto simp: single_yaml_def split: list.splits option.splits)

definition two_documents :: parsers where
  "two_documents = \<lparr>pa_yaml = (\<lambda>_. None), pa_yaml_stream = (\<lambda>_. [Some (RMap []), Some raw_nil]),
     pa_json_stream = (\<lambda>_. []), pa_toml = (\<lambda>_. None), pa_ini = (\<lambda>_. None), pa_sprint = (\<lambda>_. '''')\<rparr>"

lemma yaml_single_document_witness:
  "single_yaml two_documents ''---'' = Inr (RMap [])"
  by (subst yaml_single_document) (simp_all add: two_documents_def has_boundary_def has_prefix_def)

text \<open>Decoded documents are well formed, whatever the codec.\<close>

lemma wf_ini_keys: "wf_map m \<Longrightarrow> wf_map (ini_keys kvs m)"
  unfolding ini_keys_def by (induction kvs arbitrary: m) (auto simp: wf_map_set)

lemma wf_ini_sections: "ini_sections ss out = Inr m \<Longrightarrow> wf_map out \<Longrightarrow> wf_map m"
  by (induction ss out rule: ini_sections.induct) (auto split: if_splits simp: wf_ini_keys wf_map_set)

end
