(* ===== verification/Scan.thy ===== *)
theory Scan
  imports Profiles Codec
begin

text \<open>
  \<open>internal/scan\<close> (\<open>scan.go\<close>, \<open>axis.go\<close>, \<open>meta.go\<close>) and \<open>contracts/body.go\<close>: discovery of the file layers.
  The file system, the environment, the host name and the YAML reading of one \<open>match\<close> field are
  arguments. \<open>Scan\<close> is an iterator over layers and errors whose consumer may stop early; the model is the
  list of what it yields when nobody stops it, with the \<open>OnDir\<close> calls in between.
\<close>

section \<open>Paths and file contents\<close>

text \<open>\<open>path.Clean\<close> on the segments; \<open>st\<close> is the stack of segments kept so far, innermost first.\<close>

fun clean_segments :: "bool \<Rightarrow> string list \<Rightarrow> string list \<Rightarrow> string list" where
  "clean_segments rooted [] st = rev st"
| "clean_segments rooted (s # ss) st =
     (if s = '''' \<or> s = ''.'' then clean_segments rooted ss st
      else if s = ''..'' then
        (case st of
           [] \<Rightarrow> clean_segments rooted ss (if rooted then [] else [''..''])
         | t # st' \<Rightarrow> if t = ''..'' then clean_segments rooted ss (''..'' # st) else clean_segments rooted ss st')
      else clean_segments rooted ss (s # st))"

definition path_clean :: "string \<Rightarrow> string" where
  "path_clean p =
     (let rooted = has_prefix p ''/'';
          body = join_with ''/'' (clean_segments rooted (split_char (CHR ''/'') p) [])
      in if rooted then CHR ''/'' # body else if body = '''' then ''.'' else body)"

definition path_join :: "string list \<Rightarrow> string" where
  "path_join elems =
     (let es = filter (\<lambda>e. e \<noteq> '''') elems in if es = [] then '''' else path_clean (join_with ''/'' es))"

text \<open>\<open>filepath.Ext\<close>: from the last dot of the last path element.\<close>

definition file_ext :: "string \<Rightarrow> string" where
  "file_ext p =
     (let r = takeWhile (\<lambda>c. c \<noteq> CHR ''/'') (rev p) in
      if CHR ''.'' \<in> set r then CHR ''.'' # rev (takeWhile (\<lambda>c. c \<noteq> CHR ''.'') r) else '''')"

text \<open>A readable file: its bytes, and whether reading fails after them instead of reporting the end.\<close>

record file_data =
  fd_bytes :: string
  fd_broken :: bool

datatype file_error = MissingFile | StatFailed | NotRegular | OpenFailed | ReadBroken | TooLarge

definition default_max_body :: int where "default_max_body = 4 * 2 ^ 20"

text \<open>\<open>io.ReadAll\<close> of \<open>io.LimitReader\<close>: at most \<open>limit\<close> bytes; a failure past the limit is not seen.\<close>

definition read_limited :: "file_data \<Rightarrow> int \<Rightarrow> file_error + string" where
  "read_limited f limit =
     (if int (length (fd_bytes f)) < limit \<and> fd_broken f then Inl ReadBroken
      else Inr (take (nat limit) (fd_bytes f)))"

definition read_all_max :: "file_data \<Rightarrow> int \<Rightarrow> file_error + string" where
  "read_all_max f max0 =
     (let max = (if max0 \<le> 0 then default_max_body else max0);
          limit = (if max < max_int64 then max + 1 else max)
      in rbind (read_limited f limit) (\<lambda>b.
           if max < int (length b) then Inl TooLarge else Inr b))"

definition max_file_bytes :: int where "max_file_bytes = default_max_body"

text \<open>\<open>readBounded\<close>: \<open>sz\<close> is the size \<open>Stat\<close> said, which may be stale. The second reader is the limited rest.\<close>

definition limit_file :: "file_data \<Rightarrow> int \<Rightarrow> file_data" where
  "limit_file f n =
     (if int (length (fd_bytes f)) < n then f else \<lparr>fd_bytes = take (nat n) (fd_bytes f), fd_broken = False\<rparr>)"

definition read_bounded :: "file_data \<Rightarrow> int \<Rightarrow> file_error + string" where
  "read_bounded f sz =
     (if sz < 0 \<or> max_file_bytes < sz then read_all_max f max_file_bytes
      else
        (let n = nat (sz + 1);
             data = take n (fd_bytes f);
             finish = (\<lambda>d. if max_file_bytes < int (length d) then Inl TooLarge else Inr d)
         in if length (fd_bytes f) < n then (if fd_broken f then Inl ReadBroken else finish data)
            else rbind (read_all_max
                          (limit_file (f\<lparr>fd_bytes := drop n (fd_bytes f)\<rparr>) (max_file_bytes - int n + 1)) max_file_bytes)
                   (\<lambda>tail. finish (data @ tail))))"

datatype file_stat = NoEntry | Unstatable | Irregular | Regular int

datatype dir_read = DirMissing | DirError | DirEntries "(string \<times> bool) list"   \<comment> \<open>name, is a directory\<close>

record files =
  fi_dir :: "string \<Rightarrow> dir_read"
  fi_stat :: "string \<Rightarrow> file_stat"
  fi_open :: "string \<Rightarrow> file_data option"

definition read_regular :: "files \<Rightarrow> string \<Rightarrow> bool \<Rightarrow> file_error + string option" where
  "read_regular fs p strict =
     (case fi_stat fs p of
        NoEntry \<Rightarrow> Inl MissingFile
      | Unstatable \<Rightarrow> Inl StatFailed
      | Irregular \<Rightarrow> if strict then Inl NotRegular else Inr None
      | Regular sz \<Rightarrow>
          (case fi_open fs p of
             None \<Rightarrow> Inl OpenFailed
           | Some f \<Rightarrow> rbind (read_bounded f sz) (\<lambda>d. Inr (Some d))))"

section \<open>Options, metadata and axes\<close>

record axis_overlay =
  ao_dir :: string
  ao_profile :: string
  ao_priority :: int

record scan_opts =
  so_base :: string
  so_overlay :: string
  so_profiles :: "string list"
  so_global :: string
  so_patch_suffixes :: "string list"
  so_strict :: bool
  so_axes :: "axis_overlay list"

definition scan_defaults :: "scan_opts \<Rightarrow> scan_opts" where
  "scan_defaults lo =
     lo\<lparr>so_base := (if so_base lo = '''' then ''base'' else so_base lo),
        so_overlay := (if so_overlay lo = '''' then ''overlays'' else so_overlay lo),
        so_patch_suffixes := (if so_patch_suffixes lo = [] then [''.patch.yaml'', ''.patch.json''] else so_patch_suffixes lo)\<rparr>"

record meta_spec =
  ms_base_dir :: string
  ms_overlay_dir :: string
  ms_profile_env :: string
  ms_default_profile :: string
  ms_patch_suffixes :: "string list"
  ms_strict :: bool
  ms_append_slices :: bool
  ms_merge_keys :: "(string \<times> string) list"

definition apply_meta :: "meta_spec option \<Rightarrow> scan_opts \<Rightarrow> scan_opts" where
  "apply_meta m lo =
     (case m of
        None \<Rightarrow> lo
      | Some sp \<Rightarrow>
          lo\<lparr>so_base := (if ms_base_dir sp \<noteq> '''' then ms_base_dir sp else so_base lo),
             so_overlay := (if ms_overlay_dir sp \<noteq> '''' then ms_overlay_dir sp else so_overlay lo),
             so_patch_suffixes := (if ms_patch_suffixes sp \<noteq> [] then ms_patch_suffixes sp else so_patch_suffixes lo),
             so_strict := (if ms_strict sp then True else so_strict lo)\<rparr>)"

text \<open>\<open>LoadMeta\<close>: \<open>None\<close> when the file is missing. With \<open>strict\<close>, no other call returns without data.\<close>

definition load_meta :: "files \<Rightarrow> string \<Rightarrow> file_error + string option" where
  "load_meta fs rt =
     (case read_regular fs (path_join [rt, ''_meta.yaml'']) True of
        Inl e \<Rightarrow> if e = MissingFile then Inr None else Inl e
      | Inr d \<Rightarrow> Inr d)"

definition band_base :: int where "band_base = 1000"
definition band_overlay :: int where "band_overlay = 2000"
definition band_axis :: int where "band_axis = 3000"
definition band_file_end :: int where "band_file_end = 7000"
definition overlay_stride :: int where "overlay_stride = 100"
definition base_band_width :: int where "base_band_width = band_overlay - band_base"

lemmas band_defs = band_base_def band_overlay_def band_axis_def band_file_end_def overlay_stride_def
  base_band_width_def

record axis_spec =
  as_dir :: string
  as_env :: string
  as_priority :: int
  as_hostname :: bool

datatype axis_error = HostFailed string | UnsafeAxisValue string

definition cont_byte :: "nat \<Rightarrow> bool" where "cont_byte b \<longleftrightarrow> 0x80 \<le> b \<and> b < 0xC0"

text \<open>\<open>utf8.ValidString\<close>.\<close>

fun valid_utf8 :: "nat list \<Rightarrow> bool" where
  "valid_utf8 [] = True"
| "valid_utf8 (a # r) =
     (if a < 0x80 then valid_utf8 r
      else case r of
        [] \<Rightarrow> False
      | b # r2 \<Rightarrow>
          if 0xC2 \<le> a \<and> a < 0xE0 then cont_byte b \<and> valid_utf8 r2
          else case r2 of
            [] \<Rightarrow> False
          | c # r3 \<Rightarrow>
              if 0xE0 \<le> a \<and> a < 0xF0
              then cont_byte b \<and> (a = 0xE0 \<longrightarrow> 0xA0 \<le> b) \<and> (a = 0xED \<longrightarrow> b < 0xA0) \<and> cont_byte c \<and> valid_utf8 r3
              else case r3 of
                [] \<Rightarrow> False
              | d # r4 \<Rightarrow>
                  0xF0 \<le> a \<and> a \<le> 0xF4 \<and> cont_byte b \<and> (a = 0xF0 \<longrightarrow> 0x90 \<le> b) \<and> (a = 0xF4 \<longrightarrow> b < 0x90) \<and>
                  cont_byte c \<and> cont_byte d \<and> valid_utf8 r4)"

text \<open>Outside the excluded values \<open>fs.ValidPath\<close> of a value without slashes asks for valid UTF-8.\<close>

definition safe_segment :: "string \<Rightarrow> bool" where
  "safe_segment v \<longleftrightarrow> v \<noteq> ''.'' \<and> v \<noteq> ''..'' \<and> CHR ''/'' \<notin> set v \<and> CHR 0x5C \<notin> set v \<and> valid_utf8 (map of_char v)"

text \<open>The value of one axis: skipped, failed, or found.\<close>

definition axis_value :: "(string \<Rightarrow> string option) \<Rightarrow> string + string \<Rightarrow> axis_spec \<Rightarrow> axis_error + string option" where
  "axis_value env host ax =
     (let from_host = (if as_hostname ax
                       then (case host of Inl e \<Rightarrow> Inl (HostFailed e) | Inr h \<Rightarrow> Inr h) else Inr '''');
          env_val = (if as_env ax = '''' then None else env (as_env ax))
      in case env_val of
           Some v \<Rightarrow> if v = '''' then Inr None
                     else if safe_segment v then Inr (Some v) else Inl (UnsafeAxisValue v)
         | None \<Rightarrow> rbind from_host (\<lambda>v.
             if v = '''' then Inr None
             else if safe_segment v then Inr (Some v) else Inl (UnsafeAxisValue v)))"

fun resolve_loop :: "(string \<Rightarrow> string option) \<Rightarrow> string + string \<Rightarrow> int \<Rightarrow> axis_spec list
    \<Rightarrow> axis_overlay list \<times> (string \<times> axis_error) list" where
  "resolve_loop env host rank [] = ([], [])"
| "resolve_loop env host rank (ax # axs) =
     (let (outs, errs) = resolve_loop env host (rank + 1) axs in
      case axis_value env host ax of
        Inl e \<Rightarrow> (outs, (as_dir ax, e) # errs)
      | Inr None \<Rightarrow> (outs, errs)
      | Inr (Some v) \<Rightarrow>
          (\<lparr>ao_dir = path_join [as_dir ax, v], ao_profile = as_dir ax @ '':'' @ v,
            ao_priority = band_axis + rank * overlay_stride\<rparr> # outs, errs))"

definition resolve_axes :: "(string \<Rightarrow> string option) \<Rightarrow> string + string \<Rightarrow> axis_spec list
    \<Rightarrow> axis_overlay list \<times> (string \<times> axis_error) list" where
  "resolve_axes env host specs = resolve_loop env host 0 (sort_key as_priority specs)"

section \<open>Discovery\<close>

datatype layer_type = KindMerge | KindPatch

record layer =
  ly_path :: string
  ly_kind :: layer_type
  ly_profile :: string
  ly_priority :: int
  ly_codec :: string
  ly_bytes :: string

datatype scan_error =
    DirUnreadable string | UnknownExtension string | FileFailed string file_error
  | OverlaysUnreadable string | GlobalMatchInvalid profile_error | MetaFailed string file_error
  | MetaUnparsable string | MatchInvalid string profile_error
  | TooManyBaseLayers nat | TooManyOverlays | TooManyLayers string nat | AxisOutOfBand string

text \<open>\<open>classify\<close>: \<open>None\<close> for an unknown extension.\<close>

fun patch_suffix_of :: "string \<Rightarrow> string list \<Rightarrow> string option" where
  "patch_suffix_of lname [] = None"
| "patch_suffix_of lname (sfx # rest) = (if has_suffix lname sfx then Some sfx else patch_suffix_of lname rest)"

definition classify :: "'d registry \<Rightarrow> string \<Rightarrow> string list \<Rightarrow> (layer_type \<times> string) option" where
  "classify reg name sfxs =
     (let lname = to_lower name in
      case patch_suffix_of lname sfxs of
        Some sfx \<Rightarrow> Some (KindPatch, lookup_ext reg (trim_prefix sfx ''.patch''))
      | None \<Rightarrow>
          (let c = lookup_ext reg (file_ext lname) in if c \<noteq> '''' then Some (KindMerge, c) else None))"

definition hidden :: "string \<Rightarrow> bool" where
  "hidden name \<longleftrightarrow> has_prefix name ''_'' \<or> has_prefix name ''.''"

text \<open>The loop of \<open>collectDir\<close>; \<open>prio\<close> is \<open>base + len(out)\<close>.\<close>

fun collect_entries :: "'d registry \<Rightarrow> files \<Rightarrow> scan_opts \<Rightarrow> string \<Rightarrow> string \<Rightarrow> int \<Rightarrow> (string \<times> bool) list
    \<Rightarrow> scan_error + layer list" where
  "collect_entries reg fs lo dir profile prio [] = Inr []"
| "collect_entries reg fs lo dir profile prio ((name, is_dir) # es) =
     (if is_dir \<or> hidden name then collect_entries reg fs lo dir profile prio es
      else
        (let full = path_join [dir, name] in
         case classify reg name (so_patch_suffixes lo) of
           None \<Rightarrow> if so_strict lo then Inl (UnknownExtension name)
                   else collect_entries reg fs lo dir profile prio es
         | Some (kind, codec) \<Rightarrow>
             (case read_regular fs full (so_strict lo) of
                Inl e \<Rightarrow> Inl (FileFailed full e)
              | Inr None \<Rightarrow> collect_entries reg fs lo dir profile prio es
              | Inr (Some data) \<Rightarrow>
                  rbind (collect_entries reg fs lo dir profile (prio + 1) es) (\<lambda>ls.
                    Inr (\<lparr>ly_path = full, ly_kind = kind, ly_profile = profile, ly_priority = prio,
                          ly_codec = codec, ly_bytes = data\<rparr> # ls)))))"

definition collect_dir :: "'d registry \<Rightarrow> files \<Rightarrow> string \<Rightarrow> string \<Rightarrow> string \<Rightarrow> int \<Rightarrow> scan_opts
    \<Rightarrow> scan_error + layer list" where
  "collect_dir reg fs rt sub profile base lo =
     (let dir = path_join [rt, sub] in
      case fi_dir fs dir of
        DirMissing \<Rightarrow> if profile \<noteq> '''' \<or> \<not> so_strict lo then Inr [] else Inl (DirUnreadable dir)
      | DirError \<Rightarrow> Inl (DirUnreadable dir)
      | DirEntries es \<Rightarrow> collect_entries reg fs lo dir profile base (sort_key fst es))"

definition overlay_matches :: "(string \<Rightarrow> string option) \<Rightarrow> files \<Rightarrow> string \<Rightarrow> string \<Rightarrow> string \<Rightarrow> string set
    \<Rightarrow> scan_error + bool" where
  "overlay_matches parse_match fs rt sub name active =
     (let meta = path_join [rt, sub, ''_meta.yaml''] in
      case read_regular fs meta True of
        Inl e \<Rightarrow> if e = MissingFile then Inr (name \<in> active) else Inl (MetaFailed meta e)
      | Inr d \<Rightarrow>
          (case parse_match (case d of None \<Rightarrow> '''' | Some b \<Rightarrow> b) of
             None \<Rightarrow> Inl (MetaUnparsable meta)
           | Some m \<Rightarrow>
               if trim_space m = '''' then Inr (name \<in> active)
               else map_sum (MatchInvalid meta) id (eval_profile m active)))"

text \<open>Whether one overlay directory contributes: its own match, then the global one.\<close>

definition overlay_selected :: "(string \<Rightarrow> string option) \<Rightarrow> files \<Rightarrow> string \<Rightarrow> scan_opts \<Rightarrow> string \<Rightarrow> string
    \<Rightarrow> scan_error + bool" where
  "overlay_selected pm fs rt lo gexpr name =
     (let active = new_profile_set (so_profiles lo) in
      rbind (overlay_matches pm fs rt (path_join [so_overlay lo, name]) name active) (\<lambda>ok.
        if \<not> ok then Inr False
        else if gexpr = '''' then Inr True
        else map_sum GlobalMatchInvalid id (eval_profile gexpr (insert name active))))"

text \<open>The loop over the overlay directories; the first component lists the directories handed to \<open>OnDir\<close>.\<close>

fun overlay_loop :: "'d registry \<Rightarrow> (string \<Rightarrow> string option) \<Rightarrow> files \<Rightarrow> string \<Rightarrow> scan_opts \<Rightarrow> string \<Rightarrow> int
    \<Rightarrow> (string \<times> bool) list \<Rightarrow> string list \<times> (scan_error + layer list)" where
  "overlay_loop reg pm fs rt lo gexpr prio [] = ([], Inr [])"
| "overlay_loop reg pm fs rt lo gexpr prio ((name, is_dir) # es) =
     (if \<not> is_dir \<or> hidden name then overlay_loop reg pm fs rt lo gexpr prio es
      else
        (case overlay_selected pm fs rt lo gexpr name of
           Inl e \<Rightarrow> ([], Inl e)
         | Inr selected \<Rightarrow>
             if \<not> selected then overlay_loop reg pm fs rt lo gexpr prio es
             else if band_axis \<le> prio then ([], Inl TooManyOverlays)
             else
               (let sub = path_join [so_overlay lo, name]; dir = path_join [rt, sub] in
                case collect_dir reg fs rt sub name prio lo of
                  Inl e \<Rightarrow> ([dir], Inl e)
                | Inr ls \<Rightarrow>
                    if overlay_stride < int (length ls) then ([dir], Inl (TooManyLayers sub (length ls)))
                    else
                      (let (ds, r) = overlay_loop reg pm fs rt lo gexpr (prio + overlay_stride) es
                       in (dir # ds, rbind r (\<lambda>ls'. Inr (ls @ ls')))))))"

definition collect_profile_overlays :: "'d registry \<Rightarrow> (string \<Rightarrow> string option) \<Rightarrow> files \<Rightarrow> string \<Rightarrow> scan_opts
    \<Rightarrow> string list \<times> (scan_error + layer list)" where
  "collect_profile_overlays reg pm fs rt lo =
     (let dir = path_join [rt, so_overlay lo] in
      case fi_dir fs dir of
        DirMissing \<Rightarrow> ([dir], Inr [])
      | DirError \<Rightarrow> ([dir], Inl (OverlaysUnreadable dir))
      | DirEntries es \<Rightarrow>
          (let active = new_profile_set (so_profiles lo);
               g = trim_space (so_global lo) \<noteq> ''''
           in case (if g then eval_profile (so_global lo) active else Inr True) of
                Inl e \<Rightarrow> ([dir], Inl (GlobalMatchInvalid e))
              | Inr _ \<Rightarrow>
                  (let (ds, r) = overlay_loop reg pm fs rt lo (if g then so_global lo else '''') band_overlay (sort_key fst es)
                   in (dir # ds, r))))"

datatype scan_item = OnDir string | Yield layer | YieldError scan_error

fun scan_axes :: "'d registry \<Rightarrow> files \<Rightarrow> string \<Rightarrow> scan_opts \<Rightarrow> axis_overlay list \<Rightarrow> scan_item list" where
  "scan_axes reg fs rt lo [] = []"
| "scan_axes reg fs rt lo (x # xs) =
     (if ao_priority x < band_axis \<or> band_file_end - overlay_stride < ao_priority x
      then [YieldError (AxisOutOfBand (ao_dir x))]
      else
        OnDir (path_join [rt, ao_dir x]) #
        (case collect_dir reg fs rt (ao_dir x) (ao_profile x) (ao_priority x) lo of
           Inl e \<Rightarrow> [YieldError e]
         | Inr ls \<Rightarrow>
             if overlay_stride < int (length ls) then [YieldError (TooManyLayers (ao_dir x) (length ls))]
             else map Yield ls @ scan_axes reg fs rt lo xs))"

definition scan_profiles :: "'d registry \<Rightarrow> (string \<Rightarrow> string option) \<Rightarrow> files \<Rightarrow> string \<Rightarrow> scan_opts
    \<Rightarrow> scan_item list" where
  "scan_profiles reg pm fs rt lo =
     (let (ds, r) = (if so_profiles lo = [] then ([], Inr []) else collect_profile_overlays reg pm fs rt lo) in
      map OnDir ds @
      (case r of
         Inl e \<Rightarrow> [YieldError e]
       | Inr ls \<Rightarrow> map Yield ls @ scan_axes reg fs rt lo (sort_key ao_priority (so_axes lo))))"

definition scan :: "'d registry \<Rightarrow> (string \<Rightarrow> string option) \<Rightarrow> files \<Rightarrow> string \<Rightarrow> scan_opts \<Rightarrow> scan_item list" where
  "scan reg pm fs rt lo0 =
     (let lo = scan_defaults lo0 in
      OnDir (path_join [rt, so_base lo]) #
      (case collect_dir reg fs rt (so_base lo) '''' band_base lo of
         Inl e \<Rightarrow> [YieldError e]
       | Inr ls \<Rightarrow>
           if base_band_width < int (length ls) then [YieldError (TooManyBaseLayers (length ls))]
           else map Yield ls @ scan_profiles reg pm fs rt lo))"

fun yielded :: "scan_item list \<Rightarrow> layer list" where
  "yielded [] = []"
| "yielded (it # its) = (case it of Yield l \<Rightarrow> l # yielded its | _ \<Rightarrow> yielded its)"

section \<open>Priorities\<close>

text \<open>Strictly increasing priorities inside \<open>[a, b)\<close>.\<close>

definition window :: "int \<Rightarrow> int \<Rightarrow> layer list \<Rightarrow> bool" where
  "window a b ls \<longleftrightarrow>
     sorted_wrt (<) (map ly_priority ls) \<and> list_all (\<lambda>l. a \<le> ly_priority l \<and> ly_priority l < b) ls"

lemma window_Nil [simp]: "window a b []"
  by (simp add: window_def)

lemma window_append: "window a b xs \<Longrightarrow> window c d ys \<Longrightarrow> b \<le> c \<Longrightarrow> a \<le> c \<Longrightarrow> b \<le> d \<Longrightarrow> window a d (xs @ ys)"
  by (fastforce simp: window_def sorted_wrt_append list_all_iff)

lemma window_mono: "window a b ls \<Longrightarrow> a' \<le> a \<Longrightarrow> b \<le> b' \<Longrightarrow> window a' b' ls"
  by (auto simp: window_def list_all_iff)

lemma collect_entries_priorities:
  "collect_entries reg fs lo dir profile prio es = Inr ls \<Longrightarrow> window prio (prio + int (length ls)) ls"
proof (induction es arbitrary: prio ls)
  case (Cons e es)
  obtain name is_dir where e: "e = (name, is_dir)" by (cases e)
  show ?case
  proof (cases "collect_entries reg fs lo dir profile prio es = Inr ls")
    case True
    then show ?thesis by (rule Cons.IH)
  next
    case False
    then obtain l ls' where l: "ls = l # ls'" "ly_priority l = prio"
      and r: "collect_entries reg fs lo dir profile (prio + 1) es = Inr ls'"
      using Cons.prems by (auto simp: e Let_def rbind_Inr_iff split: if_splits option.splits sum.splits)
    from Cons.IH [OF r] show ?thesis
      by (auto simp: l window_def list_all_iff)
  qed
qed simp

lemma collect_dir_window:
  "collect_dir reg fs rt sub profile base lo = Inr ls \<Longrightarrow> int (length ls) \<le> n \<Longrightarrow> window base (base + n) ls"
  by (auto simp: collect_dir_def Let_def split: dir_read.splits if_splits
      dest!: collect_entries_priorities elim!: window_mono)

lemma overlay_loop_window:
  "snd (overlay_loop reg pm fs rt lo g prio es) = Inr ls \<Longrightarrow> overlay_stride dvd prio \<Longrightarrow> prio \<le> band_axis \<Longrightarrow>
   window prio band_axis ls"
proof (induction es arbitrary: prio ls)
  case (Cons e es)
  obtain name is_dir where e: "e = (name, is_dir)" by (cases e)
  show ?case
  proof (cases "snd (overlay_loop reg pm fs rt lo g prio es) = Inr ls")
    case True
    then show ?thesis using Cons by blast
  next
    case False
    let ?sub = "path_join [so_overlay lo, name]"
    from False Cons.prems(1) obtain ls1 ls2 where ls: "ls = ls1 @ ls2" and p: "prio < band_axis"
      and c: "collect_dir reg fs rt ?sub name prio lo = Inr ls1" "int (length ls1) \<le> overlay_stride"
      and r: "snd (overlay_loop reg pm fs rt lo g (prio + overlay_stride) es) = Inr ls2"
      by (auto simp: e Let_def rbind_Inr_iff split: if_splits sum.splits prod.splits)
    have le: "prio + overlay_stride \<le> band_axis"
      using p Cons.prems(2) by (auto simp: band_defs dvd_def)
    have "window (prio + overlay_stride) band_axis ls2"
      using Cons.IH [OF r] Cons.prems(2) le by simp
    from window_append [OF collect_dir_window [OF c] this] le show ?thesis
      by (simp add: ls overlay_stride_def)
  qed
qed simp

lemma band_dvd: "overlay_stride dvd band_overlay" "band_overlay \<le> band_axis"
  by (simp_all add: band_defs)

lemma overlay_pair_window:
  "overlay_loop reg pm fs rt lo g band_overlay es = (ds, Inr ls) \<Longrightarrow> window band_overlay band_axis ls"
  using overlay_loop_window [of reg pm fs rt lo g band_overlay es ls] band_dvd by simp

lemma collect_profile_overlays_window:
  "snd (collect_profile_overlays reg pm fs rt lo) = Inr ls \<Longrightarrow> window band_overlay band_axis ls"
  by (auto simp: collect_profile_overlays_def Let_def split: dir_read.splits sum.splits prod.splits
      dest!: overlay_pair_window)

lemma yielded_append [simp]: "yielded (xs @ ys) = yielded xs @ yielded ys"
  by (induction xs) (auto split: scan_item.split)

lemma yielded_map [simp]: "yielded (map Yield ls) = ls" "yielded (map OnDir ds) = []"
  by (induction ls; simp) (induction ds; simp)

definition spaced :: "int \<Rightarrow> axis_overlay list \<Rightarrow> bool" where
  "spaced p xs \<longleftrightarrow> sorted_wrt (\<lambda>x y. ao_priority x + overlay_stride \<le> ao_priority y) xs \<and>
     (\<forall>x \<in> set xs. p \<le> ao_priority x)"

lemma spaced_mono: "spaced p xs \<Longrightarrow> q \<le> p \<Longrightarrow> spaced q xs"
  by (auto simp: spaced_def)

lemma scan_axes_window:
  "spaced p xs \<Longrightarrow> window p band_file_end (yielded (scan_axes reg fs rt lo xs))"
proof (induction xs arbitrary: p)
  case (Cons x xs)
  from Cons.prems have rest: "spaced (ao_priority x + overlay_stride) xs" and p: "p \<le> ao_priority x"
    by (auto simp: spaced_def)
  show ?case
  proof (cases "collect_dir reg fs rt (ao_dir x) (ao_profile x) (ao_priority x) lo")
    case (Inr ls)
    have "window p band_file_end (ls @ yielded (scan_axes reg fs rt lo xs))"
      if "int (length ls) \<le> overlay_stride" "ao_priority x \<le> band_file_end - overlay_stride"
      using window_append [OF collect_dir_window [OF Inr that(1)] Cons.IH [OF rest]] that(2) p
      by (auto simp: band_defs intro: window_mono)
    then show ?thesis using Inr by auto
  qed simp
qed simp

lemma resolve_loop_spaced: "spaced (band_axis + rank * overlay_stride) (fst (resolve_loop env host rank axs))"
proof (induction axs arbitrary: rank)
  case (Cons ax axs)
  have "spaced (band_axis + rank * overlay_stride + overlay_stride) (fst (resolve_loop env host (rank + 1) axs))"
    using Cons [of "rank + 1"] by (simp add: algebra_simps)
  then show ?case
    using spaced_mono [of "band_axis + rank * overlay_stride + overlay_stride" _ "band_axis + rank * overlay_stride"]
    by (auto simp: spaced_def band_defs Let_def split: sum.splits option.splits prod.splits)
qed (simp add: spaced_def)

lemma sort_spaced: "spaced p xs \<Longrightarrow> sort_key ao_priority xs = xs"
  by (rule sort_key_id_if_sorted)
    (auto simp: spaced_def band_defs sorted_wrt_map elim!: sorted_wrt_mono_rel [rotated])

lemma scan_profiles_window:
  assumes "so_axes lo = fst (resolve_axes env host specs)"
  shows "window band_overlay band_file_end (yielded (scan_profiles reg pm fs rt lo))"
proof -
  have sp: "spaced band_axis (so_axes lo)"
    using resolve_loop_spaced [of 0 env host] by (simp add: assms resolve_axes_def)
  have ax: "window band_axis band_file_end (yielded (scan_axes reg fs rt lo (sort_key ao_priority (so_axes lo))))"
    using sp by (simp add: sort_spaced scan_axes_window)
  have "window band_overlay band_file_end (ls @ yielded (scan_axes reg fs rt lo (sort_key ao_priority (so_axes lo))))"
    if "window band_overlay band_axis ls" for ls
    by (rule window_append [OF that ax]) (simp_all add: band_defs)
  moreover have "window band_overlay band_axis ls"
    if "(if so_profiles lo = [] then ([], Inr []) else collect_profile_overlays reg pm fs rt lo) = (ds, Inr ls)" for ds ls
    using that collect_profile_overlays_window [of reg pm fs rt lo ls] by (auto split: if_splits)
  ultimately show ?thesis
    unfolding scan_profiles_def Let_def
    by (cases "if so_profiles lo = [] then ([], Inr []) else collect_profile_overlays reg pm fs rt lo")
      (auto split: sum.split)
qed

lemma scan_window:
  assumes "so_axes lo = fst (resolve_axes env host specs)"
  shows "window band_base band_file_end (yielded (scan reg pm fs rt lo))"
proof -
  have "window band_overlay band_file_end (yielded (scan_profiles reg pm fs rt (scan_defaults lo)))"
    by (rule scan_profiles_window) (simp add: scan_defaults_def assms)
  then have "window band_base band_file_end (ls @ yielded (scan_profiles reg pm fs rt (scan_defaults lo)))"
    if "collect_dir reg fs rt (so_base (scan_defaults lo)) '''' band_base (scan_defaults lo) = Inr ls"
      "int (length ls) \<le> base_band_width" for ls
    using window_append [OF collect_dir_window [OF that]] by (simp add: band_defs)
  then show ?thesis
    unfolding scan_def Let_def by (auto split: sum.split)
qed

section \<open>Contents\<close>

lemma read_bounded_iff:
  "read_bounded f n = Inr d \<longleftrightarrow> \<not> fd_broken f \<and> d = fd_bytes f \<and> int (length (fd_bytes f)) \<le> max_file_bytes"
proof -
  have m: "0 < max_file_bytes" "max_file_bytes < max_int64"
    by (simp_all add: max_file_bytes_def default_max_body_def max_int64_def)
  have all: "read_all_max f max_file_bytes = Inr d \<longleftrightarrow>
      \<not> fd_broken f \<and> d = fd_bytes f \<and> int (length (fd_bytes f)) \<le> max_file_bytes" for f d
    using m by (auto simp: read_all_max_def read_limited_def Let_def rbind_Inr_iff)
  show ?thesis
  proof (cases "n < 0 \<or> max_file_bytes < n \<or> length (fd_bytes f) < nat (n + 1)")
    case True
    then show ?thesis
      using m by (auto simp: read_bounded_def all Let_def)
  next
    case False
    define k where "k = nat (n + 1)"
    have k: "\<not> n < 0" "\<not> max_file_bytes < n" "k \<le> length (fd_bytes f)" "int k = n + 1"
      using False by (auto simp: k_def)
    let ?m = "max_file_bytes - int k + 1"
    let ?rest = "f\<lparr>fd_bytes := drop k (fd_bytes f)\<rparr>"
    have len: "int (length (fd_bytes ?rest)) = int (length (fd_bytes f)) - int k" and m0: "0 \<le> ?m"
      using k by auto
    show ?thesis
    proof (cases "int (length (fd_bytes f)) \<le> max_file_bytes")
      case True
      then have "limit_file ?rest ?m = ?rest" using len by (simp add: limit_file_def)
      then show ?thesis
        using k True by (auto simp: read_bounded_def k_def [symmetric] Let_def rbind_Inr_iff all)
    next
      case False
      then have "fd_bytes (limit_file ?rest (max_file_bytes - n)) = take (nat (max_file_bytes - n)) (drop k (fd_bytes f))"
        using len k by (simp add: limit_file_def)
      moreover have "int (length (take (nat (max_file_bytes - n)) (drop k (fd_bytes f)))) = max_file_bytes - n"
        using False k by simp
      ultimately have l: "int (length (fd_bytes (limit_file ?rest (max_file_bytes - n)))) = max_file_bytes - n" by simp
      have "int (length (take k (fd_bytes f))) = n + 1" using k by simp
      then show ?thesis
        using k False by (auto simp: read_bounded_def k_def [symmetric] Let_def rbind_Inr_iff all l simp del: length_take)
    qed
  qed
qed

lemma read_bounded_errors: "read_bounded f n = Inl e \<Longrightarrow> e = ReadBroken \<or> e = TooLarge"
  by (auto simp: read_bounded_def read_all_max_def read_limited_def Let_def rbind_Inl_iff split: if_splits)

text \<open>What a discovered layer is.\<close>

definition complete_file :: "'d registry \<Rightarrow> files \<Rightarrow> string list \<Rightarrow> layer \<Rightarrow> bool" where
  "complete_file reg fs sfxs l \<longleftrightarrow>
     (\<exists>dir name f. ly_path l = path_join [dir, name] \<and> \<not> hidden name \<and>
        classify reg name sfxs = Some (ly_kind l, ly_codec l) \<and>
        fi_open fs (ly_path l) = Some f \<and> \<not> fd_broken f \<and> ly_bytes l = fd_bytes f \<and>
        int (length (ly_bytes l)) \<le> max_file_bytes)"

lemma read_regular_Some:
  "read_regular fs p strict = Inr (Some d) \<Longrightarrow>
   \<exists>f. fi_open fs p = Some f \<and> \<not> fd_broken f \<and> d = fd_bytes f \<and> int (length d) \<le> max_file_bytes"
  by (auto simp: read_regular_def rbind_Inr_iff read_bounded_iff split: file_stat.splits option.splits if_splits)

lemma collect_entries_complete:
  "collect_entries reg fs lo dir profile prio es = Inr ls \<Longrightarrow>
   list_all (complete_file reg fs (so_patch_suffixes lo)) ls"
proof (induction es arbitrary: prio ls)
  case (Cons e es)
  obtain name is_dir where e: "e = (name, is_dir)" by (cases e)
  show ?case
  proof (cases "collect_entries reg fs lo dir profile prio es = Inr ls")
    case False
    then obtain kind codec data ls' where nh: "\<not> hidden name"
      and c: "classify reg name (so_patch_suffixes lo) = Some (kind, codec)"
      and d: "read_regular fs (path_join [dir, name]) (so_strict lo) = Inr (Some data)"
      and r: "collect_entries reg fs lo dir profile (prio + 1) es = Inr ls'"
      and l: "ls = \<lparr>ly_path = path_join [dir, name], ly_kind = kind, ly_profile = profile, ly_priority = prio,
                          ly_codec = codec, ly_bytes = data\<rparr> # ls'"
      using Cons.prems by (auto simp: e Let_def rbind_Inr_iff split: if_splits option.splits sum.splits)
    from read_regular_Some [OF d] Cons.IH [OF r] nh c show ?thesis
      by (auto simp: l complete_file_def)
  qed (rule Cons.IH)
qed simp

lemma collect_dir_complete:
  "collect_dir reg fs rt sub profile base lo = Inr ls \<Longrightarrow> list_all (complete_file reg fs (so_patch_suffixes lo)) ls"
  by (auto simp: collect_dir_def Let_def split: dir_read.splits if_splits dest!: collect_entries_complete)

lemma overlay_loop_complete:
  "overlay_loop reg pm fs rt lo g prio es = (ds, Inr ls) \<Longrightarrow> list_all (complete_file reg fs (so_patch_suffixes lo)) ls"
  by (induction es arbitrary: prio ds ls)
    (auto simp: Let_def rbind_Inr_iff split: if_splits sum.splits prod.splits dest!: collect_dir_complete)

lemma scan_axes_complete: "list_all (complete_file reg fs (so_patch_suffixes lo)) (yielded (scan_axes reg fs rt lo xs))"
  by (induction xs) (auto split: sum.split dest!: collect_dir_complete)

lemma scan_complete:
  "list_all (complete_file reg fs (so_patch_suffixes (scan_defaults lo))) (yielded (scan reg pm fs rt lo))"
  using scan_axes_complete
  by (auto simp: scan_def scan_profiles_def collect_profile_overlays_def Let_def
      split: sum.splits prod.splits dir_read.splits if_splits dest!: collect_dir_complete overlay_loop_complete)

section \<open>Properties\<close>

text \<open>C37. The layers one \<open>Scan\<close> yields, with the axis overlays \<open>ResolveAxes\<close> produced, come in strictly increasing
  priority, all of them at least 1000 and below 7000: base files before every overlay, overlays before every
  axis, and all of them below the generator and provider bands, whatever the directories hold.\<close>

theorem scan_priorities:
  "window band_base band_file_end
     (yielded (scan reg pm fs rt (lo\<lparr>so_axes := fst (resolve_axes env host specs)\<rparr>)))"
  by (rule scan_window) simp

text \<open>Every layer \<open>Scan\<close> yields carries the complete content of a readable file of at most 4 MiB that is not
  hidden, with the kind and codec its name classifies to, whatever size \<open>Stat\<close> reported for it.\<close>

theorem scan_complete_files:
  "list_all (complete_file reg fs (so_patch_suffixes (scan_defaults lo))) (yielded (scan reg pm fs rt lo))"
  by (rule scan_complete)

text \<open>\<open>readBounded\<close> succeeds exactly on files that read to their end within the limit, and then returns all
  their bytes: the size it was given never changes the result.\<close>

theorem read_bounded_exact:
  "(\<exists>d. read_bounded f sz = Inr d) = (\<not> fd_broken f \<and> int (length (fd_bytes f)) \<le> max_file_bytes) \<and>
   read_bounded f sz \<in> {Inr (fd_bytes f), Inl ReadBroken, Inl TooLarge}"
  using read_bounded_iff [of f sz] read_bounded_errors [of f sz] by (cases "read_bounded f sz") auto

end
