(* ===== verification/Watch.thy ===== *)
theory Watch
  imports Scan
begin

text \<open>
  \<open>internal/coalesce\<close>, \<open>internal/watcher\<close> and \<open>file_watch.go\<close>: from file events to reload requests. A directory's
  events are gathered into a burst, which a timer ends; a burst becomes one call, and at most one request per
  directory is in flight. Instants and durations are nanoseconds; the code under the coalescer's lock reads the
  clock once. Starting a timer's callback and the callback taking the lock are two steps, as in the code.
  The file system and fsnotify are arguments.
\<close>

section \<open>The coalescer\<close>

record coalesce_opts =
  cq_quiet :: int
  cq_max_lag :: int
  cq_swap_hint :: int

definition milliseconds :: "int \<Rightarrow> int" where "milliseconds n = n * 1000000"

definition default_quiet :: int where "default_quiet = milliseconds 30"
definition default_max_lag :: int where "default_max_lag = milliseconds 250"
definition default_swap_hint :: int where "default_swap_hint = milliseconds 5"

definition normalize_opts :: "coalesce_opts \<Rightarrow> coalesce_opts" where
  "normalize_opts oo =
     (let quiet = (if cq_quiet oo \<le> 0 then default_quiet else cq_quiet oo);
          lag = (if cq_max_lag oo \<le> 0 then default_max_lag else cq_max_lag oo);
          hint = (if cq_swap_hint oo \<le> 0 then default_swap_hint else cq_swap_hint oo)
      in \<lparr>cq_quiet = quiet, cq_max_lag = lag, cq_swap_hint = (if hint > quiet then quiet else hint)\<rparr>)"

definition profile_local_dev :: int where "profile_local_dev = 1"

definition apply_profile :: "int \<Rightarrow> coalesce_opts" where
  "apply_profile p =
     (if p = profile_local_dev
      then \<lparr>cq_quiet = milliseconds 80, cq_max_lag = milliseconds 500, cq_swap_hint = milliseconds 20\<rparr>
      else \<lparr>cq_quiet = default_quiet, cq_max_lag = default_max_lag, cq_swap_hint = default_swap_hint\<rparr>)"

text \<open>\<open>bu_id\<close> is the address of the burst, and names its timer.\<close>

record burst =
  bu_id :: nat
  bu_deadline :: int
  bu_reasons :: "string list"
  bu_swap :: bool

text \<open>\<open>co_timers\<close> holds the armed timers with their instants, \<open>co_started\<close> the callbacks that wait for the lock.
  \<open>co_calls\<close> are the calls of \<open>fn\<close>; \<open>co_pushed\<close> and \<open>co_taken\<close> are history variables: the events accepted and
  the reasons of each burst that ended in a call.\<close>

record coalescer =
  co_opts :: coalesce_opts
  co_bursts :: "(string \<times> burst) list"
  co_stopped :: bool
  co_timers :: "(nat \<times> string \<times> int) list"
  co_started :: "(nat \<times> string) list"
  co_next :: nat
  co_calls :: "(string \<times> string) list"
  co_pushed :: "(string \<times> string) list"
  co_taken :: "(string \<times> string list) list"

definition new_coalescer :: "coalesce_opts \<Rightarrow> coalescer" where
  "new_coalescer oo =
     \<lparr>co_opts = normalize_opts oo, co_bursts = [], co_stopped = False, co_timers = [], co_started = [], co_next = 0,
      co_calls = [], co_pushed = [], co_taken = []\<rparr>"

fun first_seen :: "string list \<Rightarrow> string list \<Rightarrow> string list" where
  "first_seen [] seen = []"
| "first_seen (s # ss) seen = (if s \<in> set seen then first_seen ss seen else s # first_seen ss (s # seen))"

definition join_unique :: "string list \<Rightarrow> string" where
  "join_unique rs = (if length rs \<le> 1 then join_with '','' rs else join_with '','' (first_seen rs []))"

definition call_fn :: "string \<Rightarrow> string list \<Rightarrow> coalescer \<Rightarrow> coalescer" where
  "call_fn key rs c = c\<lparr>co_calls := co_calls c @ [(key, join_unique rs)], co_taken := co_taken c @ [(key, rs)]\<rparr>"

definition evict_burst :: "string \<Rightarrow> burst \<Rightarrow> coalescer \<Rightarrow> coalescer" where
  "evict_burst key b c =
     (let c1 = c\<lparr>co_timers := kv_del (bu_id b) (co_timers c), co_bursts := kv_del key (co_bursts c)\<rparr>
      in if bu_reasons b = [] then c1 else call_fn key (bu_reasons b) c1)"

definition start_burst :: "int \<Rightarrow> string \<Rightarrow> string \<Rightarrow> bool \<Rightarrow> coalescer \<Rightarrow> coalescer" where
  "start_burst now key reason swap c =
     (let lag = cq_max_lag (co_opts c);
          window = min (if swap then cq_swap_hint (co_opts c) else cq_quiet (co_opts c)) lag;
          b = \<lparr>bu_id = co_next c, bu_deadline = now + lag, bu_reasons = [reason], bu_swap = swap\<rparr>
      in c\<lparr>co_bursts := kv_set key b (co_bursts c), co_timers := kv_set (co_next c) (key, now + window) (co_timers c),
           co_next := co_next c + 1, co_pushed := co_pushed c @ [(key, reason)]\<rparr>)"

definition extend_burst :: "int \<Rightarrow> string \<Rightarrow> string \<Rightarrow> bool \<Rightarrow> burst \<Rightarrow> coalescer \<Rightarrow> coalescer" where
  "extend_burst now key reason swap b c =
     (let left = bu_deadline b - now;
          reset = (\<lambda>d. kv_set (bu_id b) (key, now + d) (co_timers c));
          timers = (if swap then reset (min (cq_swap_hint (co_opts c)) left)
                    else if bu_swap b then co_timers c
                    else let window = min (cq_quiet (co_opts c)) left in if window > 0 then reset window else co_timers c)
      in c\<lparr>co_bursts := kv_set key (b\<lparr>bu_reasons := bu_reasons b @ [reason], bu_swap := bu_swap b \<or> swap\<rparr>) (co_bursts c),
           co_timers := timers, co_pushed := co_pushed c @ [(key, reason)]\<rparr>)"

definition push :: "int \<Rightarrow> string \<Rightarrow> string \<Rightarrow> bool \<Rightarrow> coalescer \<Rightarrow> coalescer" where
  "push now key reason swap c =
     (if co_stopped c then c
      else
        (case kv_get (co_bursts c) key of
           None \<Rightarrow> start_burst now key reason swap c
         | Some b \<Rightarrow>
             if \<not> now < bu_deadline b then start_burst now key reason swap (evict_burst key b c)
             else extend_burst now key reason swap b c))"

definition flush_burst :: "string \<Rightarrow> nat \<Rightarrow> coalescer \<Rightarrow> coalescer" where
  "flush_burst key self c =
     (case kv_get (co_bursts c) key of
        None \<Rightarrow> c
      | Some b \<Rightarrow>
          if bu_id b \<noteq> self \<or> co_stopped c then c
          else
            (let c1 = c\<lparr>co_bursts := kv_del key (co_bursts c)\<rparr>
             in if bu_reasons b = [] then c1 else call_fn key (bu_reasons b) c1))"

definition stop_coalescer :: "coalescer \<Rightarrow> coalescer" where
  "stop_coalescer c =
     c\<lparr>co_stopped := True, co_bursts := [],
       co_timers := filter (\<lambda>(i, k, t). i \<notin> bu_id ` snd ` set (co_bursts c)) (co_timers c)\<rparr>"

inductive coal_step :: "int \<times> coalescer \<Rightarrow> int \<times> coalescer \<Rightarrow> bool" where
  Tick: "now \<le> now' \<Longrightarrow> coal_step (now, c) (now', c)"
| Push: "coal_step (now, c) (now, push now key reason swap c)"
| TimerFires: "kv_get (co_timers c) i = Some (key, t) \<Longrightarrow> t \<le> now \<Longrightarrow>
    coal_step (now, c) (now, c\<lparr>co_timers := kv_del i (co_timers c), co_started := co_started c @ [(i, key)]\<rparr>)"
| Flush: "co_started c = before @ (i, key) # after \<Longrightarrow>
    coal_step (now, c) (now, flush_burst key i (c\<lparr>co_started := before @ after\<rparr>))"
| Stop: "coal_step (now, c) (now, stop_coalescer c)"

inductive coal_reachable :: "coalesce_opts \<Rightarrow> int \<times> coalescer \<Rightarrow> bool" for oo where
  CoalNew: "coal_reachable oo (now, new_coalescer oo)"
| CoalStep: "coal_reachable oo s \<Longrightarrow> coal_step s s' \<Longrightarrow> coal_reachable oo s'"

section \<open>One request per directory\<close>

record dir_slot =
  ds_running :: bool
  ds_pending :: bool
  ds_reason :: string

definition fresh_slot :: dir_slot where "fresh_slot = \<lparr>ds_running = False, ds_pending = False, ds_reason = ''''\<rparr>"

text \<open>A call of the coalescer's function: the slot, and the request it submits, if any.\<close>

definition slot_event :: "bool \<Rightarrow> bool \<Rightarrow> string \<Rightarrow> dir_slot \<Rightarrow> dir_slot \<times> string option" where
  "slot_event shut paused reason s =
     (if shut \<or> paused then (s, None)
      else if ds_running s then (s\<lparr>ds_reason := reason, ds_pending := True\<rparr>, None)
      else (s\<lparr>ds_reason := reason, ds_running := True, ds_pending := False\<rparr>, Some reason))"

text \<open>The request came back.\<close>

definition slot_done :: "dir_slot \<Rightarrow> dir_slot \<times> string option" where
  "slot_done s =
     (if \<not> ds_pending s then (s\<lparr>ds_running := False\<rparr>, None) else (s\<lparr>ds_pending := False\<rparr>, Some (ds_reason s)))"

datatype slot_input = SlotEvent bool bool string | SlotDone

definition slot_input :: "slot_input \<Rightarrow> dir_slot \<times> string list \<Rightarrow> dir_slot \<times> string list" where
  "slot_input i st =
     (case (case i of SlotEvent shut paused reason \<Rightarrow> slot_event shut paused reason (fst st)
                    | SlotDone \<Rightarrow> if ds_running (fst st) then slot_done (fst st) else (fst st, None)) of
        (s, None) \<Rightarrow> (s, snd st)
      | (s, Some r) \<Rightarrow> (s, snd st @ [r]))"

section \<open>No event is lost, none waits longer than the bound\<close>

definition for_key :: "string \<Rightarrow> (string \<times> 'v) list \<Rightarrow> 'v list" where
  "for_key key xs = map snd (filter (\<lambda>(k, v). k = key) xs)"

lemma for_key_simps [simp]:
  "for_key k [] = []" "for_key k (xs @ ys) = for_key k xs @ for_key k ys"
  "for_key k [(k', v)] = (if k' = k then [v] else [])"
  by (simp_all add: for_key_def)

definition waiting :: "string \<Rightarrow> coalescer \<Rightarrow> string list" where
  "waiting key c = (case kv_get (co_bursts c) key of None \<Rightarrow> [] | Some b \<Rightarrow> bu_reasons b)"

text \<open>A burst that will be flushed: its timer is armed and fires by the deadline, or its callback has started.\<close>

definition due :: "string \<Rightarrow> burst \<Rightarrow> coalescer \<Rightarrow> bool" where
  "due key b c \<longleftrightarrow> (\<exists>t. kv_get (co_timers c) (bu_id b) = Some (key, t) \<and> t \<le> bu_deadline b) \<or> (bu_id b, key) \<in> set (co_started c)"

definition burst_ok :: "int \<Rightarrow> string \<Rightarrow> burst \<Rightarrow> coalescer \<Rightarrow> bool" where
  "burst_ok now key b c \<longleftrightarrow> due key b c \<and> bu_id b < co_next c \<and> bu_reasons b \<noteq> [] \<and> bu_deadline b \<le> now + cq_max_lag (co_opts c)"

definition opts_ok :: "coalesce_opts \<Rightarrow> bool" where
  "opts_ok oo \<longleftrightarrow> 0 < cq_quiet oo \<and> 0 < cq_max_lag oo \<and> 0 < cq_swap_hint oo \<and> cq_swap_hint oo \<le> cq_quiet oo"

definition coal_inv :: "int \<times> coalescer \<Rightarrow> bool" where
  "coal_inv s \<longleftrightarrow> (case s of (now, c) \<Rightarrow>
     opts_ok (co_opts c) \<and>
     (\<forall>key b. kv_get (co_bursts c) key = Some b \<longrightarrow> burst_ok now key b c) \<and>
     (\<forall>k k' b b'. kv_get (co_bursts c) k = Some b \<and> kv_get (co_bursts c) k' = Some b' \<and> bu_id b = bu_id b' \<longrightarrow> k = k') \<and>
     (\<forall>i v. kv_get (co_timers c) i = Some v \<longrightarrow> i < co_next c) \<and>
     co_calls c = map (\<lambda>(k, rs). (k, join_unique rs)) (co_taken c) \<and>
     (\<not> co_stopped c \<longrightarrow> (\<forall>key. for_key key (co_pushed c) = concat (for_key key (co_taken c)) @ waiting key c)) \<and>
     (co_stopped c \<longrightarrow> co_bursts c = []))"

lemma normalize_ok: "opts_ok (normalize_opts oo)"
  by (simp add: opts_ok_def normalize_opts_def default_quiet_def default_max_lag_def default_swap_hint_def milliseconds_def Let_def)

lemma coal_inv_new: "coal_inv (now, new_coalescer oo)"
  by (simp add: coal_inv_def new_coalescer_def normalize_ok waiting_def)

lemma coal_inv_tick: "coal_inv (now, c) \<Longrightarrow> now \<le> now' \<Longrightarrow> coal_inv (now', c)"
  by (fastforce simp: coal_inv_def burst_ok_def)

lemma waiting_set [simp]:
  "waiting k (c\<lparr>co_bursts := kv_set key b bs, co_timers := ts, co_next := n, co_pushed := ps\<rparr>) =
     (if k = key then bu_reasons b else (case kv_get bs k of None \<Rightarrow> [] | Some b \<Rightarrow> bu_reasons b))"
  by (simp add: waiting_def)

lemma coal_inv_start:
  assumes "coal_inv (now, c)" and "\<not> co_stopped c" and "kv_get (co_bursts c) key = None"
  shows "coal_inv (now, start_burst now key reason swap c)"
proof -
  let ?c = "start_burst now key reason swap c"
  note inv = assms(1) [unfolded coal_inv_def prod.case]
  have f: "co_opts ?c = co_opts c" "co_calls ?c = co_calls c" "co_taken ?c = co_taken c" "co_stopped ?c = co_stopped c"
    "co_started ?c = co_started c" "co_next ?c = co_next c + 1" "co_pushed ?c = co_pushed c @ [(key, reason)]"
    by (simp_all add: start_burst_def Let_def)
  let ?b = "\<lparr>bu_id = co_next c, bu_deadline = now + cq_max_lag (co_opts c), bu_reasons = [reason], bu_swap = swap\<rparr>"
  have b: "kv_get (co_bursts ?c) k = (if k = key then Some ?b else kv_get (co_bursts c) k)" for k
    by (simp add: start_burst_def Let_def)
  obtain w where w: "w \<le> cq_max_lag (co_opts c)"
    and t: "\<And>i. kv_get (co_timers ?c) i = (if i = co_next c then Some (key, now + w) else kv_get (co_timers c) i)"
    by (intro that [of "min (if swap then cq_swap_hint (co_opts c) else cq_quiet (co_opts c)) (cq_max_lag (co_opts c))"])
      (simp_all add: start_burst_def Let_def)
  have "burst_ok now k bb ?c" if "kv_get (co_bursts ?c) k = Some bb" for k bb
  proof (cases "k = key")
    case True
    then have "bb = ?b" using that by (simp add: b)
    then show ?thesis using True w by (simp add: burst_ok_def due_def t f)
  next
    case False
    then have "burst_ok now k bb c" using that inv by (simp add: b)
    then show ?thesis by (auto simp: burst_ok_def due_def t f)
  qed
  moreover have "\<forall>k k' b b'. kv_get (co_bursts ?c) k = Some b \<and> kv_get (co_bursts ?c) k' = Some b' \<and> bu_id b = bu_id b' \<longrightarrow> k = k'"
  proof (intro allI impI, elim conjE)
    fix k k' b1 b2
    assume a: "kv_get (co_bursts ?c) k = Some b1" "kv_get (co_bursts ?c) k' = Some b2" "bu_id b1 = bu_id b2"
    have new: "kv_get (co_bursts c) x = Some y \<Longrightarrow> bu_id y \<noteq> co_next c" for x y
      using inv unfolding burst_ok_def by (metis less_irrefl)
    have "kv_get (co_bursts c) k = Some b1 \<Longrightarrow> kv_get (co_bursts c) k' = Some b2 \<Longrightarrow> k = k'" using inv a(3) by blast
    then show "k = k'" using a new [of k b1] new [of k' b2] by (auto simp: b split: if_splits)
  qed
  moreover have "\<forall>i v. kv_get (co_timers ?c) i = Some v \<longrightarrow> i < co_next ?c"
    using inv by (fastforce simp: t f)
  moreover have "\<forall>k. for_key k (co_pushed ?c) = concat (for_key k (co_taken ?c)) @ waiting k ?c"
    using inv assms(2,3) by (auto simp: f waiting_def b split: option.splits)
  ultimately show ?thesis using inv assms(2) unfolding coal_inv_def prod.case f by blast
qed

lemma coal_inv_remove:
  assumes "coal_inv (now, c)" and "\<not> co_stopped c" and "kv_get (co_bursts c) key = Some b"
    and "co_timers c' = co_timers c \<or> co_timers c' = kv_del (bu_id b) (co_timers c)"
    and "c' = c\<lparr>co_bursts := kv_del key (co_bursts c), co_timers := co_timers c'\<rparr>"
  shows "coal_inv (now, call_fn key (bu_reasons b) c')"
proof -
  let ?c = "call_fn key (bu_reasons b) c'"
  note inv = assms(1) [unfolded coal_inv_def prod.case]
  obtain ts where c': "c' = c\<lparr>co_bursts := kv_del key (co_bursts c), co_timers := ts\<rparr>"
    and ts: "ts = co_timers c \<or> ts = kv_del (bu_id b) (co_timers c)"
    using assms(4,5) by blast
  have f: "co_opts ?c = co_opts c" "co_calls ?c = co_calls c @ [(key, join_unique (bu_reasons b))]"
    "co_taken ?c = co_taken c @ [(key, bu_reasons b)]" "co_stopped ?c = co_stopped c"
    "co_started ?c = co_started c" "co_next ?c = co_next c" "co_pushed ?c = co_pushed c" "co_timers ?c = ts"
    by (simp_all add: call_fn_def c')
  have g: "kv_get (co_bursts ?c) k = (if k = key then None else kv_get (co_bursts c) k)" for k
    by (simp add: call_fn_def c')
  have "burst_ok now k bb ?c" if "kv_get (co_bursts ?c) k = Some bb" for k bb
  proof -
    have k: "k \<noteq> key" "kv_get (co_bursts c) k = Some bb" using that by (simp_all add: g split: if_splits)
    then have "burst_ok now k bb c" "bu_id bb \<noteq> bu_id b" using inv assms(3) by blast+
    then show ?thesis using ts by (auto simp: burst_ok_def due_def f)
  qed
  moreover have "\<forall>k k' b b'. kv_get (co_bursts ?c) k = Some b \<and> kv_get (co_bursts ?c) k' = Some b' \<and> bu_id b = bu_id b' \<longrightarrow> k = k'"
    using inv by (auto simp: g)
  moreover have "\<forall>i v. kv_get (co_timers ?c) i = Some v \<longrightarrow> i < co_next ?c"
    using inv ts by (auto simp: f split: if_splits)
  moreover have "\<forall>k. for_key k (co_pushed ?c) = concat (for_key k (co_taken ?c)) @ waiting k ?c"
    using inv assms(2,3) by (auto simp: f waiting_def g)
  ultimately show ?thesis using inv assms(2) unfolding coal_inv_def prod.case f by simp
qed

lemma coal_inv_extend:
  assumes "coal_inv (now, c)" and "\<not> co_stopped c" and "kv_get (co_bursts c) key = Some b" and "now < bu_deadline b"
  shows "coal_inv (now, extend_burst now key reason swap b c)"
proof -
  let ?c = "extend_burst now key reason swap b c"
  note inv = assms(1) [unfolded coal_inv_def prod.case]
  have f: "co_opts ?c = co_opts c" "co_calls ?c = co_calls c" "co_taken ?c = co_taken c" "co_stopped ?c = co_stopped c"
    "co_started ?c = co_started c" "co_next ?c = co_next c" "co_pushed ?c = co_pushed c @ [(key, reason)]"
    by (simp_all add: extend_burst_def Let_def)
  let ?b = "b\<lparr>bu_reasons := bu_reasons b @ [reason], bu_swap := bu_swap b \<or> swap\<rparr>"
  have g: "kv_get (co_bursts ?c) k = (if k = key then Some ?b else kv_get (co_bursts c) k)" for k
    by (simp add: extend_burst_def Let_def)
  have old: "burst_ok now key b c" using inv assms(3) by blast
  have t: "(\<exists>w. w \<le> bu_deadline b \<and> kv_get (co_timers ?c) i = Some (key, w)) \<and> i = bu_id b \<or> kv_get (co_timers ?c) i = kv_get (co_timers c) i" for i
    using min.cobounded2 [of "cq_swap_hint (co_opts c)" "bu_deadline b - now"] min.cobounded2 [of "cq_quiet (co_opts c)" "bu_deadline b - now"]
    unfolding extend_burst_def Let_def by (auto simp del: min.cobounded2)
  have "burst_ok now k bb ?c" if "kv_get (co_bursts ?c) k = Some bb" for k bb
  proof (cases "k = key")
    case True
    then have "bb = ?b" using that by (simp add: g)
    then show ?thesis using True old t [of "bu_id b"] by (auto simp: burst_ok_def due_def f)
  next
    case False
    then have k: "kv_get (co_bursts c) k = Some bb" using that by (simp add: g)
    then have "burst_ok now k bb c" "bu_id bb \<noteq> bu_id b" using inv assms(3) False by blast+
    then show ?thesis using t [of "bu_id bb"] by (auto simp: burst_ok_def due_def f)
  qed
  moreover have "\<forall>k k' b b'. kv_get (co_bursts ?c) k = Some b \<and> kv_get (co_bursts ?c) k' = Some b' \<and> bu_id b = bu_id b' \<longrightarrow> k = k'"
  proof (intro allI impI, elim conjE)
    fix k k' b1 b2
    assume "kv_get (co_bursts ?c) k = Some b1" "kv_get (co_bursts ?c) k' = Some b2" "bu_id b1 = bu_id b2"
    then obtain c1 c2 where "kv_get (co_bursts c) k = Some c1" "kv_get (co_bursts c) k' = Some c2" "bu_id c1 = bu_id c2"
      using assms(3) by (auto simp: g split: if_splits)
    then show "k = k'" using inv by blast
  qed
  moreover have "\<forall>i v. kv_get (co_timers ?c) i = Some v \<longrightarrow> i < co_next ?c"
  proof (intro allI impI)
    fix i v assume "kv_get (co_timers ?c) i = Some v"
    then show "i < co_next ?c" using inv old t [of i] unfolding f burst_ok_def by (metis (no_types, lifting))
  qed
  moreover have "\<forall>k. for_key k (co_pushed ?c) = concat (for_key k (co_taken ?c)) @ waiting k ?c"
    using inv assms(2,3) by (auto simp: f waiting_def g)
  ultimately show ?thesis using inv assms(2) unfolding coal_inv_def prod.case f by simp
qed

lemma evict_call: "bu_reasons b \<noteq> [] \<Longrightarrow> evict_burst key b c =
    call_fn key (bu_reasons b) (c\<lparr>co_timers := kv_del (bu_id b) (co_timers c), co_bursts := kv_del key (co_bursts c)\<rparr>)"
  by (simp add: evict_burst_def Let_def)

lemma coal_inv_push: "coal_inv (now, c) \<Longrightarrow> coal_inv (now, push now key reason swap c)"
proof (cases "co_stopped c")
  case True
  then show "coal_inv (now, c) \<Longrightarrow> coal_inv (now, push now key reason swap c)" by (simp add: push_def)
next
  case live: False
  assume inv: "coal_inv (now, c)"
  show ?thesis
  proof (cases "kv_get (co_bursts c) key")
    case None
    then show ?thesis using coal_inv_start [OF inv live None] live by (simp add: push_def)
  next
    case (Some b)
    show ?thesis
    proof (cases "now < bu_deadline b")
      case True
      then show ?thesis using coal_inv_extend [OF inv live Some] Some live by (simp add: push_def)
    next
      case False
      have "bu_reasons b \<noteq> []" using inv Some by (auto simp: coal_inv_def burst_ok_def)
      note e = evict_call [OF this]
      have "coal_inv (now, evict_burst key b c)"
        unfolding e by (rule coal_inv_remove [OF inv live Some]) simp_all
      moreover have "\<not> co_stopped (evict_burst key b c)" "kv_get (co_bursts (evict_burst key b c)) key = None"
        using live by (simp_all add: e call_fn_def)
      ultimately show ?thesis using coal_inv_start False Some live by (simp add: push_def)
    qed
  qed
qed

lemma coal_inv_unstart:
  assumes "coal_inv (now, c)" and "co_started c = before @ (i, key) # after"
    and "\<And>b. kv_get (co_bursts c) key = Some b \<Longrightarrow> bu_id b \<noteq> i"
  shows "coal_inv (now, c\<lparr>co_started := before @ after\<rparr>)"
proof -
  have "burst_ok now k b (c\<lparr>co_started := before @ after\<rparr>)" if "kv_get (co_bursts c) k = Some b" for k b
  proof -
    have "burst_ok now k b c" using assms(1) that by (auto simp: coal_inv_def)
    moreover have "k = key \<Longrightarrow> bu_id b \<noteq> i" using assms(3) that by blast
    ultimately show ?thesis using assms(2) by (auto simp: burst_ok_def due_def)
  qed
  then show ?thesis using assms(1) by (simp add: coal_inv_def waiting_def)
qed

lemma coal_inv_flush:
  assumes "coal_inv (now, c)" and "co_started c = before @ (i, key) # after"
  shows "coal_inv (now, flush_burst key i (c\<lparr>co_started := before @ after\<rparr>))"
proof (cases "\<exists>b. kv_get (co_bursts c) key = Some b \<and> bu_id b = i")
  case False
  then have "flush_burst key i (c\<lparr>co_started := before @ after\<rparr>) = c\<lparr>co_started := before @ after\<rparr>"
    by (auto simp: flush_burst_def split: option.split)
  then show ?thesis using coal_inv_unstart [OF assms] False by auto
next
  case True
  then obtain b where b: "kv_get (co_bursts c) key = Some b" "bu_id b = i" by blast
  have live: "\<not> co_stopped c" and ne: "bu_reasons b \<noteq> []"
    using assms(1) b by (auto simp: coal_inv_def burst_ok_def)
  let ?c = "call_fn key (bu_reasons b) (c\<lparr>co_bursts := kv_del key (co_bursts c)\<rparr>)"
  have "coal_inv (now, ?c)" by (rule coal_inv_remove [OF assms(1) live b(1)]) simp_all
  then have "coal_inv (now, ?c\<lparr>co_started := before @ after\<rparr>)"
    using coal_inv_unstart [of now ?c before i key after] by (simp add: call_fn_def assms(2))
  moreover have "flush_burst key i (c\<lparr>co_started := before @ after\<rparr>) = ?c\<lparr>co_started := before @ after\<rparr>"
    using b live ne by (simp add: flush_burst_def call_fn_def Let_def)
  ultimately show ?thesis by simp
qed

lemma coal_inv_fires:
  assumes "coal_inv (now, c)" and "kv_get (co_timers c) i = Some (key, t)"
  shows "coal_inv (now, c\<lparr>co_timers := kv_del i (co_timers c), co_started := co_started c @ [(i, key)]\<rparr>)"
proof -
  have "burst_ok now k b c \<Longrightarrow> burst_ok now k b (c\<lparr>co_timers := kv_del i (co_timers c), co_started := co_started c @ [(i, key)]\<rparr>)" for k b
    using assms(2) by (auto simp: burst_ok_def due_def)
  then show ?thesis using assms(1) by (auto simp: coal_inv_def waiting_def split: if_splits)
qed

lemma coal_inv_stop: "coal_inv (now, c) \<Longrightarrow> coal_inv (now, stop_coalescer c)"
proof -
  assume inv: "coal_inv (now, c)"
  have "kv_get (filter (\<lambda>(i, k, t). P i) ts) i = (if P i then kv_get ts i else None)" for P and ts :: "(nat \<times> string \<times> int) list" and i
    by (induction ts) auto
  then show ?thesis using inv by (simp add: coal_inv_def stop_coalescer_def)
qed

lemma coal_inv_step: "coal_step s s' \<Longrightarrow> coal_inv s \<Longrightarrow> coal_inv s'"
  by (induction rule: coal_step.induct) (blast intro: coal_inv_tick coal_inv_push coal_inv_fires coal_inv_flush coal_inv_stop)+

lemma coal_reachable_inv: "coal_reachable oo s \<Longrightarrow> coal_inv s"
  by (induction rule: coal_reachable.induct) (auto intro: coal_inv_new coal_inv_step)

section \<open>Requests follow events\<close>

definition slot_run :: "slot_input list \<Rightarrow> dir_slot \<times> string list" where
  "slot_run xs = fold slot_input xs (fresh_slot, [])"

fun accepted :: "slot_input \<Rightarrow> string list" where
  "accepted (SlotEvent shut paused r) = (if shut \<or> paused then [] else [r])"
| "accepted SlotDone = []"

definition slot_inv :: "string list \<Rightarrow> dir_slot \<times> string list \<Rightarrow> bool" where
  "slot_inv evs st \<longleftrightarrow> (evs = [] \<longleftrightarrow> snd st = []) \<and> (ds_pending (fst st) \<longrightarrow> ds_running (fst st)) \<and>
     (ds_running (fst st) \<longrightarrow> evs \<noteq> []) \<and> (evs \<noteq> [] \<longrightarrow> ds_reason (fst st) = last evs \<and> (\<not> ds_pending (fst st) \<longrightarrow> last (snd st) = last evs)) \<and>
     set (snd st) \<subseteq> set evs"

lemma slot_input_inv: "slot_inv evs st \<Longrightarrow> slot_inv (evs @ accepted i) (slot_input i st)"
  by (cases i) (auto simp: slot_inv_def slot_input_def slot_event_def slot_done_def)

lemma slot_run_inv: "slot_inv (concat (map accepted xs)) (slot_run xs)"
proof (induction xs rule: rev_induct)
  case Nil
  then show ?case by (simp add: slot_run_def slot_inv_def fresh_slot_def)
next
  case (snoc x xs)
  then show ?case using slot_input_inv [OF snoc, of x] by (simp add: slot_run_def)
qed

section \<open>The watcher\<close>

text \<open>\<open>filepath.Dir\<close> and \<open>filepath.Base\<close>.\<close>

definition path_dir :: "string \<Rightarrow> string" where
  "path_dir p = path_clean (rev (dropWhile (\<lambda>c. c \<noteq> CHR ''/'') (rev p)))"

definition path_base :: "string \<Rightarrow> string" where
  "path_base p =
     (if p = '''' then ''.''
      else
        (let t = rev (dropWhile (\<lambda>c. c = CHR ''/'') (rev p)) in
         if t = '''' then ''/'' else rev (takeWhile (\<lambda>c. c \<noteq> CHR ''/'') (rev t))))"

lemma clean_segments_length:
  "sum_list (map (\<lambda>s. length s + 1) (clean_segments rooted ss st)) \<le>
     sum_list (map (\<lambda>s. length s + 1) ss) + sum_list (map (\<lambda>s. length s + 1) st)"
  by (induction rooted ss st rule: clean_segments.induct) (auto simp: rev_map [symmetric] sum_list_rev split: list.splits if_splits)

lemma clean_segments_snoc: "clean_segments rooted (ss @ ['''']) st = clean_segments rooted ss st"
  by (induction rooted ss st rule: clean_segments.induct) (auto split: list.splits)

lemma length_join: "xs \<noteq> [] \<Longrightarrow> length (join_with ''/'' xs) + 1 = sum_list (map (\<lambda>s. length s + 1) xs)"
  by (induction "''/''" xs rule: join_with.induct) auto

lemma split_char_snoc: "split_char c (xs @ [c]) = split_char c xs @ [[]]"
  by (induction xs) (auto split: list.split)

lemma split_length: "sum_list (map (\<lambda>s. length s + 1) (split_char (CHR ''/'') p)) = length p + 1"
  using length_join [of "split_char (CHR ''/'') p"] by simp

lemma clean_shorter:
  assumes "q \<noteq> ''/''"
  shows "path_clean (q @ ''/'') = ''.'' \<or> path_clean (q @ ''/'') = ''/'' \<or> length (path_clean (q @ ''/'')) \<le> length q"
proof -
  let ?rooted = "has_prefix (q @ ''/'') ''/''"
  let ?segs = "clean_segments ?rooted (split_char (CHR ''/'') q) []"
  have segs: "clean_segments ?rooted (split_char (CHR ''/'') (q @ ''/'')) [] = ?segs"
    by (simp add: split_char_snoc clean_segments_snoc)
  have sum: "sum_list (map (\<lambda>s. length s + 1) ?segs) \<le> length q + (if ?rooted then 0 else 1)"
  proof (cases "?rooted")
    case False
    then show ?thesis using clean_segments_length [of ?rooted "split_char (CHR ''/'') q" "[]"] split_length [of q] by simp
  next
    case True
    then show ?thesis
    proof (cases q)
      case (Cons x r)
      then have "split_char (CHR ''/'') q = [] # split_char (CHR ''/'') r" using True by (simp add: has_prefix_def)
      then show ?thesis
        using True Cons clean_segments_length [of True "split_char (CHR ''/'') r" "[]"] split_length [of r] by simp
    qed simp
  qed
  show ?thesis
  proof (cases "?segs = []")
    case True
    then show ?thesis unfolding path_clean_def Let_def segs True by simp
  next
    case False
    then show ?thesis using sum length_join [OF False] unfolding path_clean_def Let_def segs
      by (auto split: if_splits)
  qed
qed

lemma path_dir_shorter: "path_dir p = ''.'' \<or> path_dir p = p \<or> length (path_dir p) < length p"
proof -
  let ?q = "rev (dropWhile (\<lambda>c. c \<noteq> CHR ''/'') (rev p))"
  have len: "length ?q \<le> length p" by (metis length_dropWhile_le length_rev)
  show ?thesis
  proof (cases "?q = []")
    case True
    have "path_clean '''' = ''.''" by code_simp
    then show ?thesis unfolding path_dir_def True by simp
  next
    case False
    then have "hd (dropWhile (\<lambda>c. c \<noteq> CHR ''/'') (rev p)) = CHR ''/''"
      using hd_dropWhile [of "\<lambda>c. c \<noteq> CHR ''/''" "rev p"] by simp
    then obtain q where q: "?q = q @ ''/''"
      using False by (cases "dropWhile (\<lambda>c. c \<noteq> CHR ''/'') (rev p)") auto
    have d: "path_dir p = path_clean (q @ ''/'')" by (simp add: path_dir_def q)
    show ?thesis
    proof (cases "q = ''/''")
      case True
      have "path_clean ''//'' = ''/''" by code_simp
      then show ?thesis using len unfolding d q True by simp
    next
      case False
      show ?thesis
      proof (cases "path_dir p = ''/''")
        case True
        show ?thesis
        proof (cases "length p = 1")
          case True
          then have "p = ''/''" using len False q \<open>path_dir p = ''/''\<close> d
            by (cases p; cases q) (auto split: if_splits)
          then show ?thesis using \<open>path_dir p = ''/''\<close> by simp
        next
          case False
          then have "length p > 1" using len q by (cases "length p") auto
          then show ?thesis using True by simp
        qed
      next
        case n: False
        then show ?thesis using clean_shorter [OF False] len unfolding d q by auto
      qed
    qed
  qed
qed

text \<open>\<open>isdir\<close> is \<open>os.Stat\<close> finding a directory.\<close>

function watch_dir :: "(string \<Rightarrow> bool) \<Rightarrow> string \<Rightarrow> string" where
  "watch_dir isdir dir =
     (if isdir dir then dir
      else let parent = path_dir dir in if parent = dir then dir else watch_dir isdir parent)"
  by pat_completeness auto
termination
proof (relation "measure (\<lambda>(f, p). if p = ''.'' then 0 else Suc (length p))", simp)
  fix isdir :: "string \<Rightarrow> bool" and dir x
  assume a: "\<not> isdir dir" "x = path_dir dir" "x \<noteq> dir"
  have "path_dir ''.'' = ''.''" by code_simp
  then have "dir \<noteq> ''.''" using a by auto
  then show "((isdir, x), isdir, dir) \<in> measure (\<lambda>(f, p). if p = ''.'' then 0 else Suc (length p))"
    using a path_dir_shorter [of dir] by auto
qed

declare watch_dir.simps [simp del]

text \<open>An fsnotify event: the operations it carries, and its path. \<open>fe_text\<close> is \<open>Op.String()\<close>.\<close>

record fs_event =
  fe_create :: bool
  fe_write :: bool
  fe_remove :: bool
  fe_rename :: bool
  fe_chmod :: bool
  fe_name :: string
  fe_text :: string

text \<open>\<open>wa_added\<close> and \<open>wa_removed\<close> record the calls of fsnotify's \<open>Add\<close> and \<open>Remove\<close>.\<close>

record watcher =
  wa_want :: "string list"
  wa_dirs :: "string list"
  wa_closed :: bool

text \<open>\<open>register\<close>: \<open>add\<close> says whether fsnotify accepts a directory. The result is \<open>None\<close> on its error.\<close>

definition register :: "(string \<Rightarrow> bool) \<Rightarrow> (string \<Rightarrow> bool) \<Rightarrow> string \<Rightarrow> watcher \<Rightarrow> bool option \<times> watcher" where
  "register isdir add path w =
     (let dir = watch_dir isdir path in
      if dir \<in> set (wa_dirs w) then (Some False, w)
      else if \<not> add dir then (None, w)
      else (Some True, w\<lparr>wa_dirs := dir # wa_dirs w\<rparr>))"

definition add_path :: "(string \<Rightarrow> bool) \<Rightarrow> (string \<Rightarrow> bool) \<Rightarrow> string \<Rightarrow> watcher \<Rightarrow> bool option \<times> watcher" where
  "add_path isdir add path w =
     (if wa_closed w then (Some False, w)
      else register isdir add path (w\<lparr>wa_want := List.insert path (wa_want w)\<rparr>))"

text \<open>One pass over \<open>want\<close>, which says whether a watch was added, and the loop around it.\<close>

fun register_pass :: "(string \<Rightarrow> bool) \<Rightarrow> (string \<Rightarrow> bool) \<Rightarrow> string list \<Rightarrow> watcher \<Rightarrow> bool \<times> watcher" where
  "register_pass isdir add [] w = (False, w)"
| "register_pass isdir add (p # ps) w =
     (case register isdir add p w of (r, w1) \<Rightarrow>
        (case register_pass isdir add ps w1 of (added, w2) \<Rightarrow> (r = Some True \<or> added, w2)))"

lemma register_pass_dirs:
  assumes "register_pass isdir add ps w = (added, w')"
  shows "set (wa_dirs w) \<subseteq> set (wa_dirs w') \<and> set (wa_dirs w') \<subseteq> set (wa_dirs w) \<union> watch_dir isdir ` set ps \<and>
    (added \<longleftrightarrow> set (wa_dirs w') \<noteq> set (wa_dirs w)) \<and> (\<not> added \<longrightarrow> w' = w) \<and> wa_want w' = wa_want w \<and> wa_closed w' = wa_closed w \<and>
    (\<forall>p \<in> set ps. watch_dir isdir p \<in> set (wa_dirs w') \<or> \<not> add (watch_dir isdir p))"
  using assms
proof (induction ps arbitrary: w added w')
  case (Cons p ps)
  obtain r w1 where r: "register isdir add p w = (r, w1)" by (cases "register isdir add p w")
  obtain a w2 where rest: "register_pass isdir add ps w1 = (a, w2)" by (cases "register_pass isdir add ps w1")
  show ?case using Cons.prems Cons.IH [OF rest] r rest by (auto simp: register_def Let_def split: if_splits)
qed simp

function register_loop :: "(string \<Rightarrow> bool) \<Rightarrow> (string \<Rightarrow> bool) \<Rightarrow> watcher \<Rightarrow> watcher" where
  "register_loop isdir add w =
     (case register_pass isdir add (wa_want w) w of (added, w') \<Rightarrow> if added then register_loop isdir add w' else w')"
  by pat_completeness auto
termination
proof (relation "measure (\<lambda>(isdir, add, w). card (watch_dir isdir ` set (wa_want w) - set (wa_dirs w)))", simp)
  fix isdir add w added w'
  assume p: "(added, w') = register_pass isdir add (wa_want w) w" "added"
  then have "register_pass isdir add (wa_want w) w = (added, w')" by simp
  from register_pass_dirs [OF this] p(2)
  have "watch_dir isdir ` set (wa_want w') - set (wa_dirs w') \<subset> watch_dir isdir ` set (wa_want w) - set (wa_dirs w)" by auto
  then show "((isdir, add, w'), isdir, add, w) \<in> measure (\<lambda>(isdir, add, w). card (watch_dir isdir ` set (wa_want w) - set (wa_dirs w)))"
    by (simp add: psubset_card_mono)
qed

declare register_loop.simps [simp del]

definition track :: "(string \<Rightarrow> bool) \<Rightarrow> (string \<Rightarrow> bool) \<Rightarrow> fs_event \<Rightarrow> watcher \<Rightarrow> watcher" where
  "track isdir add ev w =
     (if wa_closed w then w
      else if fe_remove ev \<or> fe_rename ev
      then (if fe_name ev \<notin> set (wa_dirs w) then w
            else register_loop isdir add (w\<lparr>wa_dirs := removeAll (fe_name ev) (wa_dirs w)\<rparr>))
      else if fe_create ev then (if isdir (fe_name ev) then register_loop isdir add w else w)
      else w)"

definition is_k8s_swap_commit :: "fs_event \<Rightarrow> string \<Rightarrow> bool" where
  "is_k8s_swap_commit ev base \<longleftrightarrow>
     (fe_create ev \<or> fe_rename ev) \<and> (base = ''..data'' \<or> has_prefix base ''..data_tmp_'')"

definition watch_event :: "(string \<Rightarrow> bool) \<Rightarrow> (string \<Rightarrow> bool) \<Rightarrow> int \<Rightarrow> fs_event \<Rightarrow> watcher \<times> coalescer \<Rightarrow> watcher \<times> coalescer" where
  "watch_event isdir add now ev s =
     (if \<not> (fe_create ev \<or> fe_write ev \<or> fe_chmod ev \<or> fe_rename ev \<or> fe_remove ev) then s
      else (track isdir add ev (fst s),
            push now (path_dir (fe_name ev)) (''fs:'' @ fe_text ev @ '':'' @ fe_name ev)
              (is_k8s_swap_commit ev (path_base (fe_name ev))) (snd s)))"

definition watch_error :: "int \<Rightarrow> string \<Rightarrow> watcher \<times> coalescer \<Rightarrow> watcher \<times> coalescer" where
  "watch_error now msg s = (fst s, push now '''' (''fs-error:'' @ msg) False (snd s))"

fun add_paths :: "(string \<Rightarrow> bool) \<Rightarrow> (string \<Rightarrow> bool) \<Rightarrow> string list \<Rightarrow> watcher \<Rightarrow> watcher option" where
  "add_paths isdir add [] w = Some w"
| "add_paths isdir add (p # ps) w =
     (case add_path isdir add p w of (None, w1) \<Rightarrow> None | (Some b, w1) \<Rightarrow> add_paths isdir add ps w1)"

definition new_watcher :: "(string \<Rightarrow> bool) \<Rightarrow> (string \<Rightarrow> bool) \<Rightarrow> string list \<Rightarrow> watcher option" where
  "new_watcher isdir add paths = add_paths isdir add paths \<lparr>wa_want = [], wa_dirs = [], wa_closed = False\<rparr>"

section \<open>The watched paths\<close>

text \<open>\<open>abs\<close> is \<open>filepath.Abs\<close>, which fails only when the working directory is unknown.\<close>

definition normalize_watch_path :: "(string \<Rightarrow> string option) \<Rightarrow> string \<Rightarrow> string" where
  "normalize_watch_path absp p =
     (if p = '''' then '''' else case absp p of None \<Rightarrow> p | Some a \<Rightarrow> a)"

definition add_static :: "(string \<Rightarrow> string option) \<Rightarrow> string \<Rightarrow> string list \<Rightarrow> string list" where
  "add_static absp p out =
     (if p = '''' then out
      else let a = (case absp p of None \<Rightarrow> p | Some a \<Rightarrow> a) in if a \<in> set out then out else out @ [a])"

definition static_watch_paths :: "(string \<Rightarrow> string option) \<Rightarrow> string \<Rightarrow> string list \<Rightarrow> string list list \<Rightarrow> string list" where
  "static_watch_paths absp dir watch_paths provider_paths =
     fold (add_static absp)
       ([dir, path_join [dir, ''base''], path_join [dir, ''overlays'']] @ watch_paths @ concat provider_paths) []"

definition add_scanned :: "(string \<Rightarrow> string option) \<Rightarrow> string \<Rightarrow> string list \<Rightarrow> string list" where
  "add_scanned absp p paths =
     (let q = normalize_watch_path absp p in if q \<in> set paths then paths else paths @ [q])"

definition start_paths :: "(string \<Rightarrow> string option) \<Rightarrow> string \<Rightarrow> string list \<Rightarrow> string list list \<Rightarrow> string list \<Rightarrow> string list" where
  "start_paths absp dir watch_paths provider_paths scanned =
     fold (add_scanned absp) scanned (static_watch_paths absp dir watch_paths provider_paths)"

definition refresh_watch_paths ::
  "(string \<Rightarrow> bool) \<Rightarrow> (string \<Rightarrow> bool) \<Rightarrow> (string \<Rightarrow> string option) \<Rightarrow> bool \<Rightarrow> string list \<Rightarrow> watcher option \<Rightarrow> watcher option" where
  "refresh_watch_paths isdir add absp shut dirs w =
     (case w of
        None \<Rightarrow> None
      | Some x \<Rightarrow>
          if shut then w
          else Some (fold (\<lambda>p x. let q = normalize_watch_path absp p in if q = '''' then x else snd (add_path isdir add q x)) dirs x))"

lemma register_loop_covers:
  "set (wa_dirs w) \<subseteq> set (wa_dirs (register_loop isdir add w)) \<and> wa_want (register_loop isdir add w) = wa_want w \<and>
   set (wa_dirs (register_loop isdir add w)) \<subseteq> set (wa_dirs w) \<union> watch_dir isdir ` set (wa_want w) \<and>
   (\<forall>p \<in> set (wa_want w). watch_dir isdir p \<in> set (wa_dirs (register_loop isdir add w)) \<or> \<not> add (watch_dir isdir p))"
proof (induction isdir add w rule: register_loop.induct)
  case (1 isdir add w)
  obtain added w' where p: "register_pass isdir add (wa_want w) w = (added, w')" by (cases "register_pass isdir add (wa_want w) w")
  note f = register_pass_dirs [OF p]
  have e: "register_loop isdir add w = (if added then register_loop isdir add w' else w')"
    by (subst register_loop.simps) (simp add: p)
  show ?case
  proof (cases added)
    case True
    then have e': "register_loop isdir add w = register_loop isdir add w'" using e by simp
    have want: "wa_want w' = wa_want w" and grow: "set (wa_dirs w) \<subseteq> set (wa_dirs w')"
      and new: "set (wa_dirs w') \<subseteq> set (wa_dirs w) \<union> watch_dir isdir ` set (wa_want w)"
      using f by simp_all
    note ih = "1.IH" [OF p [symmetric] True, unfolded want]
    have "set (wa_dirs w) \<subseteq> set (wa_dirs (register_loop isdir add w'))" using grow ih by (meson subset_trans)
    moreover have "set (wa_dirs (register_loop isdir add w')) \<subseteq> set (wa_dirs w) \<union> watch_dir isdir ` set (wa_want w)"
      using new conjunct1 [OF conjunct2 [OF conjunct2 [OF ih]]] by blast
    ultimately show ?thesis using ih unfolding e' by (intro conjI) simp_all
  next
    case False
    then have e': "register_loop isdir add w = w" using e f by simp
    have "w' = w" using f False by simp
    then show ?thesis using f unfolding e' by (intro conjI) simp_all
  qed
qed

text \<open>Where \<open>watchDir\<close> ends: at a directory, or where the path has no parent.\<close>

lemma watch_dir_end: "isdir (watch_dir isdir p) \<or> path_dir (watch_dir isdir p) = watch_dir isdir p"
proof (induction isdir p rule: watch_dir.induct)
  case (1 isdir dir)
  then show ?case by (cases "isdir dir"; cases "path_dir dir = dir") (simp_all add: watch_dir.simps [of isdir dir] Let_def)
qed

lemma first_seen_set: "set (first_seen xs seen) = set xs - set seen"
  by (induction xs seen rule: first_seen.induct) auto

lemma first_seen_distinct: "distinct (first_seen xs seen)"
  by (induction xs seen rule: first_seen.induct) (auto simp: first_seen_set)

section \<open>Properties\<close>

text \<open>C16. The coalescer loses no event and delays none beyond its bound: until it is stopped, the events accepted for a
  directory are, in order and without repeat, those of the bursts that ended in a call followed by those of the burst
  that waits; every waiting burst has a timer armed no later than its deadline or a callback already started, and its
  deadline is at most \<open>MaxLag\<close> from now; each call carries the reasons of its burst, each once; after \<open>Stop\<close> nothing
  waits.\<close>

theorem events_accounted:
  assumes "coal_reachable oo (now, c)"
  shows "(\<not> co_stopped c \<longrightarrow> for_key key (co_pushed c) = concat (for_key key (co_taken c)) @ waiting key c) \<and>
     (case kv_get (co_bursts c) key of
        None \<Rightarrow> True
      | Some b \<Rightarrow> \<not> co_stopped c \<and> due key b c \<and> bu_deadline b \<le> now + cq_max_lag (co_opts c)) \<and>
     co_calls c = map (\<lambda>(k, rs). (k, join_unique rs)) (co_taken c)"
proof -
  note inv = coal_reachable_inv [OF assms, unfolded coal_inv_def prod.case]
  have "kv_get (co_bursts c) key = Some b \<Longrightarrow> burst_ok now key b c \<and> \<not> co_stopped c" for b
    using inv by (cases "co_stopped c") simp_all
  then show ?thesis using inv by (cases "kv_get (co_bursts c) key") (simp_all add: burst_ok_def)
qed

definition demo_coal :: "coalescer" where
  "demo_coal = push 9 ''d'' ''b'' False (push 5 ''d'' ''a'' False (new_coalescer \<lparr>cq_quiet = 10, cq_max_lag = 50, cq_swap_hint = 3\<rparr>))"

lemma demo_coal_reachable: "coal_reachable \<lparr>cq_quiet = 10, cq_max_lag = 50, cq_swap_hint = 3\<rparr> (9, demo_coal)"
proof -
  let ?oo = "\<lparr>cq_quiet = 10, cq_max_lag = 50, cq_swap_hint = 3\<rparr>"
  have "coal_reachable ?oo (5, push 5 ''d'' ''a'' False (new_coalescer ?oo))"
    using CoalStep [OF CoalNew Push] .
  then have "coal_reachable ?oo (9, push 5 ''d'' ''a'' False (new_coalescer ?oo))"
    using CoalStep Tick [of 5 9 "push 5 ''d'' ''a'' False (new_coalescer ?oo)"] by simp
  then show ?thesis unfolding demo_coal_def by (rule CoalStep [OF _ Push])
qed

theorem events_accounted_witness:
  "for_key ''d'' (co_pushed demo_coal) = [''a'', ''b''] \<and> waiting ''d'' demo_coal = [''a'', ''b''] \<and>
   (case kv_get (co_bursts demo_coal) ''d'' of None \<Rightarrow> False | Some b \<Rightarrow> due ''d'' b demo_coal)"
proof -
  have c: "\<not> co_stopped demo_coal" "co_taken demo_coal = []" "kv_get (co_bursts demo_coal) ''d'' \<noteq> None"
    "for_key ''d'' (co_pushed demo_coal) = [''a'', ''b'']"
    by code_simp+
  then show ?thesis using events_accounted [OF demo_coal_reachable, of "''d''"] by (auto split: option.splits)
qed

text \<open>A late swap commit can postpone a burst: \<open>Push\<close> promises that a swap commit shortens the window, but it rearms
  the timer to \<open>SwapHint\<close> from now even when the window would have ended sooner. A swap commit at 12 moves the end of
  a burst from 13 to 15.\<close>

theorem swap_can_postpone:
  "let c = push 3 ''d'' ''a'' False (new_coalescer \<lparr>cq_quiet = 10, cq_max_lag = 50, cq_swap_hint = 3\<rparr>)
   in kv_get (co_timers c) 0 = Some (''d'', 13) \<and> kv_get (co_timers (push 12 ''d'' ''s'' True c)) 0 = Some (''d'', 15)"
  by code_simp

text \<open>C21. One request per directory, and none too few: whatever events arrive and whenever requests return, a call of the
  coalescer submits a request only when none of its directory is in flight, every request has the reason of an event,
  and when nothing is in flight the last request submitted was for the last event accepted.\<close>

theorem slot_serves_last_event:
  "(\<forall>shut paused r. snd (slot_event shut paused r (fst (slot_run xs))) \<noteq> None \<longrightarrow> \<not> ds_running (fst (slot_run xs))) \<and>
   set (snd (slot_run xs)) \<subseteq> set (concat (map accepted xs)) \<and>
   (ds_running (fst (slot_run xs)) \<or> concat (map accepted xs) = [] \<or>
      snd (slot_run xs) \<noteq> [] \<and> last (snd (slot_run xs)) = last (concat (map accepted xs)))"
proof -
  have "snd (slot_event shut paused r s) \<noteq> None \<longrightarrow> \<not> ds_running s" for shut paused r s
    by (simp add: slot_event_def)
  then show ?thesis using slot_run_inv [of xs] unfolding slot_inv_def by blast
qed

theorem slot_serves_last_event_witness:
  "snd (slot_run [SlotEvent False False ''a'', SlotEvent False False ''b'', SlotEvent False False ''c'', SlotDone, SlotDone]) = [''a'', ''c'']
   \<and> snd (slot_event False False ''d'' (fst (slot_run [SlotEvent False False ''a'', SlotDone]))) = Some ''d''
   \<and> \<not> ds_running (fst (slot_run [SlotEvent False False ''a'', SlotDone]))"
proof -
  have "snd (slot_event False False ''d'' (fst (slot_run [SlotEvent False False ''a'', SlotDone]))) = Some ''d''"
    "snd (slot_run [SlotEvent False False ''a'', SlotEvent False False ''b'', SlotEvent False False ''c'', SlotDone, SlotDone]) = [''a'', ''c'']"
    by code_simp+
  then show ?thesis using slot_serves_last_event [of "[SlotEvent False False ''a'', SlotDone]"] by auto
qed

text \<open>The watcher heals: when a directory it watches goes away, or a directory appears, every requested path is watched
  again through its nearest existing ancestor, provided fsnotify accepts that directory; no other directory is added,
  and the loop that re-registers ends.\<close>

theorem watcher_heals:
  assumes "\<not> wa_closed w"
    and "(fe_remove ev \<or> fe_rename ev) \<and> fe_name ev \<in> set (wa_dirs w) \<or>
         \<not> fe_remove ev \<and> \<not> fe_rename ev \<and> fe_create ev \<and> isdir (fe_name ev)"
    and "p \<in> set (wa_want w)" and "add (watch_dir isdir p)"
  shows "watch_dir isdir p \<in> set (wa_dirs (track isdir add ev w)) \<and>
     set (wa_dirs (track isdir add ev w)) \<subseteq> set (wa_dirs w) \<union> watch_dir isdir ` set (wa_want w) \<and>
     (isdir (watch_dir isdir p) \<or> path_dir (watch_dir isdir p) = watch_dir isdir p)"
proof -
  obtain w' where w': "track isdir add ev w = register_loop isdir add w'" "wa_want w' = wa_want w" "set (wa_dirs w') \<subseteq> set (wa_dirs w)"
  proof (cases "fe_remove ev \<or> fe_rename ev")
    case True
    then show ?thesis using assms(1,2) by (intro that [of "w\<lparr>wa_dirs := removeAll (fe_name ev) (wa_dirs w)\<rparr>"]) (auto simp: track_def)
  next
    case False
    then show ?thesis using assms(1,2) by (intro that [of w]) (auto simp: track_def)
  qed
  then show ?thesis
    using register_loop_covers [of w' isdir add] assms(3,4) watch_dir_end [of isdir p] by auto
qed

definition demo_watcher :: watcher where
  "demo_watcher = \<lparr>wa_want = [''/etc/app/conf.d''], wa_dirs = [''/etc/app/conf.d''], wa_closed = False\<rparr>"

definition demo_removed :: fs_event where
  "demo_removed = \<lparr>fe_create = False, fe_write = False, fe_remove = True, fe_rename = False, fe_chmod = False,
     fe_name = ''/etc/app/conf.d'', fe_text = ''REMOVE''\<rparr>"

theorem watcher_heals_witness:
  "wa_dirs (track (\<lambda>d. d = ''/etc'' \<or> d = ''/'') (\<lambda>_. True) demo_removed demo_watcher) = [''/etc'']"
proof -
  let ?isdir = "\<lambda>d. d = ''/etc'' \<or> d = ''/''"
  have d: "path_dir ''/etc/app/conf.d'' = ''/etc/app''" "path_dir ''/etc/app'' = ''/etc''" by code_simp+
  have wd: "watch_dir ?isdir ''/etc/app/conf.d'' = ''/etc''"
    by (simp add: watch_dir.simps [of ?isdir "''/etc/app/conf.d''"] watch_dir.simps [of ?isdir "''/etc/app''"]
      watch_dir.simps [of ?isdir "''/etc''"] d)
  from watcher_heals [of demo_watcher demo_removed ?isdir "''/etc/app/conf.d''" "\<lambda>_. True"]
  have "''/etc'' \<in> set (wa_dirs (track ?isdir (\<lambda>_. True) demo_removed demo_watcher))"
    by (simp add: demo_watcher_def demo_removed_def wd)
  moreover have "register_loop ?isdir (\<lambda>_. True) \<lparr>wa_want = [''/etc/app/conf.d''], wa_dirs = [''/etc''], wa_closed = False\<rparr> =
     \<lparr>wa_want = [''/etc/app/conf.d''], wa_dirs = [''/etc''], wa_closed = False\<rparr>"
    by (subst register_loop.simps) (simp add: register_def wd)
  ultimately show ?thesis
    by (simp add: track_def demo_watcher_def demo_removed_def)
      (subst register_loop.simps, simp add: register_def wd)
qed

end
