(* ===== verification/Types.thy ===== *)
theory Types
  imports Prelude
begin

text \<open>
  \<open>internal/typeinfo\<close>: what the code reads of Go types by reflection. A type is a tree in which a named type is
  a reference into a finite table of declarations, so recursive types are cycles through the table. Struct tags are
  given as the map \<open>Tag.Get\<close> reads; interfaces, functions and channels are one kind without structure. Named pointer
  types (\<open>type P *T\<close>) are left out: a declaration's underlying type is not a pointer. Field names are ASCII; any
  other byte counts as a letter.
\<close>

section \<open>Types\<close>

datatype prim = PBool | PInt nat | PUint nat | PFloat nat | PString | POther

datatype rtype =
    RNamed nat
  | RPtr rtype
  | RSlice rtype
  | RArray nat rtype
  | RMap rtype rtype
  | RPrim prim
  | RStruct "rfield list"
and rfield = RField (rf_name: string) (rf_exported: bool) (rf_anonymous: bool) (rf_tags: "(string \<times> string) list") (rf_type: rtype)

record decl =
  de_package :: string
  de_under :: rtype

type_synonym tenv = "decl list"

definition tag_get :: "rfield \<Rightarrow> string \<Rightarrow> string" where
  "tag_get f k = (case kv_get (rf_tags f) k of None \<Rightarrow> '''' | Some v \<Rightarrow> v)"

text \<open>The type a kind is read from, and pointer indirection.\<close>

definition under :: "tenv \<Rightarrow> rtype \<Rightarrow> rtype" where
  "under env t = (case t of RNamed n \<Rightarrow> if n < length env then de_under (env ! n) else RPrim POther | _ \<Rightarrow> t)"

fun deref :: "rtype \<Rightarrow> rtype" where
  "deref (RPtr t) = deref t"
| "deref t = t"

definition struct_of :: "tenv \<Rightarrow> rtype \<Rightarrow> rfield list option" where
  "struct_of env t = (case under env t of RStruct fs \<Rightarrow> Some fs | _ \<Rightarrow> None)"

text \<open>The types a type is built from, and a finite set closed under taking parts: the parts of the type and of every
  declaration.\<close>

primrec parts :: "rtype \<Rightarrow> rtype set" and field_parts :: "rfield \<Rightarrow> rtype set" where
  "parts (RNamed n) = {RNamed n}"
| "parts (RPtr t) = insert (RPtr t) (parts t)"
| "parts (RSlice t) = insert (RSlice t) (parts t)"
| "parts (RArray n t) = insert (RArray n t) (parts t)"
| "parts (RMap k t) = insert (RMap k t) (parts k \<union> parts t)"
| "parts (RPrim p) = {RPrim p}"
| "parts (RStruct fs) = insert (RStruct fs) (\<Union> (set (map field_parts fs)))"
| "field_parts (RField n e a tags t) = parts t"

lemma field_parts_type [simp]: "field_parts f = parts (rf_type f)"
  by (cases f) simp

lemma finite_parts [simp]: "finite (parts t)" "finite (field_parts f)"
  by (induction t and f rule: rtype.induct rfield.induct) auto

lemma parts_self [simp]: "t \<in> parts t"
  by (cases t) auto

lemma parts_mono: "u \<in> parts t \<Longrightarrow> parts u \<subseteq> parts t" "u \<in> field_parts f \<Longrightarrow> parts u \<subseteq> field_parts f"
  by (induction t and f rule: rtype.induct rfield.induct) (auto simp del: field_parts_type)

definition universe :: "tenv \<Rightarrow> rtype set \<Rightarrow> rtype set" where
  "universe env ts = (\<Union>t \<in> ts. parts t) \<union> (\<Union>d \<in> set env. parts (de_under d))"

lemma finite_universe [simp]: "finite ts \<Longrightarrow> finite (universe env ts)"
  by (simp add: universe_def)

lemma universe_mono: "ts \<subseteq> us \<Longrightarrow> universe env ts \<subseteq> universe env us"
  by (auto simp: universe_def)

lemma universe_part: "t \<in> universe env ts \<Longrightarrow> parts t \<subseteq> universe env ts"
  using parts_mono(1) by (fastforce simp: universe_def)

lemma universe_closed: "us \<subseteq> universe env ts \<Longrightarrow> universe env us \<subseteq> universe env ts"
proof
  fix x assume us: "us \<subseteq> universe env ts" and x: "x \<in> universe env us"
  show "x \<in> universe env ts"
  proof (cases "\<exists>d \<in> set env. x \<in> parts (de_under d)")
    case False
    then obtain t where "t \<in> us" "x \<in> parts t" using x by (auto simp: universe_def)
    then show ?thesis using us universe_part [of t env ts] by blast
  qed (auto simp: universe_def)
qed

lemma in_universe [simp]: "t \<in> ts \<Longrightarrow> t \<in> universe env ts"
  using parts_self [of t] by (auto simp: universe_def simp del: parts_self)

lemma parts_deref: "deref t \<in> parts t"
  by (induction t rule: deref.induct) auto

lemma under_universe: "t \<in> universe env ts \<Longrightarrow> under env t = RPrim POther \<or> under env t \<in> universe env ts"
proof (cases t)
  case (RNamed n)
  have "n < length env \<Longrightarrow> de_under (env ! n) \<in> (\<Union>d \<in> set env. parts (de_under d))" using nth_mem parts_self by blast
  then show ?thesis using RNamed by (simp add: under_def universe_def)
qed (simp_all add: under_def)

lemma deref_universe: "t \<in> universe env ts \<Longrightarrow> deref t \<in> universe env ts"
  using universe_part parts_deref by blast

lemma struct_universe:
  assumes "t \<in> universe env ts" and "struct_of env t = Some fs" and "f \<in> set fs"
  shows "rf_type f \<in> universe env ts"
proof -
  have u: "under env t = RStruct fs" using assms(2) by (auto simp: struct_of_def split: rtype.splits)
  then have "RStruct fs \<in> universe env ts" using under_universe [OF assms(1)] by auto
  then have "parts (RStruct fs) \<subseteq> universe env ts" by (rule universe_part)
  then show ?thesis using assms(3) by (auto intro: parts_self)
qed

section \<open>Tags and names\<close>

fun cut_comma :: "string \<Rightarrow> string \<times> string" where
  "cut_comma [] = ([], [])"
| "cut_comma (c # s) = (if c = CHR '','' then ([], s) else (case cut_comma s of (a, b) \<Rightarrow> (c # a, b)))"

definition strip_tag :: "string \<Rightarrow> string" where
  "strip_tag t = fst (cut_comma t)"

definition yaml_inline :: "string \<Rightarrow> bool" where
  "yaml_inline tag \<longleftrightarrow> ''inline'' \<in> set (split_char (CHR '','') (snd (cut_comma tag)))"

definition json_name_char :: "char \<Rightarrow> bool" where
  "json_name_char c \<longleftrightarrow> is_lower c \<or> is_upper c \<or> is_digit c \<or> 128 \<le> (of_char c :: nat) \<or> c \<in> set ''!#$%&()*+-./:;<=>?@[]^_{|}~ ''"

definition valid_json_name :: "string \<Rightarrow> bool" where
  "valid_json_name name \<longleftrightarrow> name \<noteq> '''' \<and> list_all json_name_char name"

record field_names =
  fn_primary :: string
  fn_aliases :: "string list"
  fn_flatten :: bool

definition add_candidate :: "string \<Rightarrow> string list \<Rightarrow> string list" where
  "add_candidate s out = (let t = trim_space s in if t = '''' \<or> t = ''-'' \<or> t \<in> set out then out else out @ [t])"

definition field_names_of :: "rfield \<Rightarrow> field_names" where
  "field_names_of f =
     (let json_name = strip_tag (tag_get f ''json''); yaml_name = strip_tag (tag_get f ''yaml'');
          aliases = fold add_candidate [json_name, yaml_name, to_lower (rf_name f), rf_name f] []
      in if json_name \<noteq> '''' \<and> json_name \<noteq> ''-'' then \<lparr>fn_primary = json_name, fn_aliases = aliases, fn_flatten = False\<rparr>
         else if yaml_name \<noteq> '''' \<and> yaml_name \<noteq> ''-'' then \<lparr>fn_primary = yaml_name, fn_aliases = aliases, fn_flatten = False\<rparr>
         else if rf_anonymous f then \<lparr>fn_primary = '''', fn_aliases = aliases, fn_flatten = True\<rparr>
         else \<lparr>fn_primary = to_lower (rf_name f), fn_aliases = aliases, fn_flatten = False\<rparr>)"

section \<open>The fields of a struct\<close>

text \<open>\<open>StructFields\<close> as the list of its visits; \<open>st\<close> are the structs being visited, so embedded cycles end. A field
  comes with its index path.\<close>

record embed =
  em_json :: bool
  em_yaml :: bool

definition skipped_field :: "tenv \<Rightarrow> bool \<Rightarrow> rfield \<Rightarrow> bool" where
  "skipped_field env anon f \<longleftrightarrow>
     \<not> rf_exported f \<and> (\<not> anon \<or> \<not> rf_anonymous f \<or> struct_of env (deref (rf_type f)) = None)"

definition embeds :: "embed \<Rightarrow> rfield \<Rightarrow> bool" where
  "embeds em f \<longleftrightarrow>
     em_json em \<and> rf_anonymous f \<and> tag_get f ''json'' \<noteq> ''-'' \<and> \<not> valid_json_name (strip_tag (tag_get f ''json'')) \<or>
     em_yaml em \<and> yaml_inline (tag_get f ''yaml'')"

function visit_struct :: "tenv \<Rightarrow> embed \<Rightarrow> rtype list \<Rightarrow> nat list \<Rightarrow> rtype \<Rightarrow> (rfield \<times> nat list) list"
  and visit_fields :: "tenv \<Rightarrow> embed \<Rightarrow> rtype list \<Rightarrow> nat list \<Rightarrow> nat \<Rightarrow> rfield list \<Rightarrow> (rfield \<times> nat list) list" where
  "visit_struct env em st idx t =
     (case struct_of env (deref t) of
        None \<Rightarrow> []
      | Some fs \<Rightarrow> if deref t \<in> set st then [] else visit_fields env em (deref t # st) idx 0 fs)"
| "visit_fields env em st idx i [] = []"
| "visit_fields env em st idx i (f # fs) =
     (if skipped_field env (em_json em) f then []
      else if struct_of env (deref (rf_type f)) \<noteq> None \<and> embeds em f
      then visit_struct env em st (idx @ [i]) (deref (rf_type f))
      else [(f, idx @ [i])]) @
     visit_fields env em st idx (i + 1) fs"
  by pat_completeness auto

definition left_types :: "tenv \<Rightarrow> rtype set \<Rightarrow> rtype list \<Rightarrow> nat" where
  "left_types env ts st = card (universe env ts - set st)"

lemma left_types_push: "t \<in> universe env ts \<Longrightarrow> t \<notin> set st \<Longrightarrow> finite ts \<Longrightarrow> us \<subseteq> universe env ts \<Longrightarrow>
    left_types env us (t # st) < left_types env ts st"
proof -
  assume a: "t \<in> universe env ts" "t \<notin> set st" "finite ts" "us \<subseteq> universe env ts"
  then have "universe env us - set (t # st) \<subset> universe env ts - set st"
    using universe_closed [of us env ts] by auto
  then show ?thesis using a(3) by (simp add: left_types_def psubset_card_mono)
qed

lemma left_types_mono: "finite ts \<Longrightarrow> us \<subseteq> universe env ts \<Longrightarrow> left_types env us st \<le> left_types env ts st"
  using universe_closed [of us env ts] by (auto simp: left_types_def intro!: card_mono)

termination visit_struct
proof (relation "measures [\<lambda>x. case x of Inl (env, em, st, idx, t) \<Rightarrow> left_types env {t} st
                                     | Inr (env, em, st, idx, i, fs) \<Rightarrow> left_types env (rf_type ` set fs) st,
                           \<lambda>x. case x of Inl _ \<Rightarrow> 0 | Inr (env, em, st, idx, i, fs) \<Rightarrow> Suc (length fs)]", simp_all, goal_cases)
  case (1 env st t fs)
  have d: "deref t \<in> universe env {t}" using deref_universe [of t env "{t}"] by simp
  have "rf_type ` set fs \<subseteq> universe env {t}" using struct_universe [OF d 1(1)] by auto
  then show ?case using left_types_push [OF d 1(2)] by simp
next
  case (2 env em st f fs)
  have "rf_type f \<in> universe env (insert (rf_type f) (rf_type ` set fs))" by simp
  then have "deref (rf_type f) \<in> universe env (insert (rf_type f) (rf_type ` set fs))" by (rule deref_universe)
  then show ?case
    using left_types_mono [of "insert (rf_type f) (rf_type ` set fs)" "{deref (rf_type f)}" env st] by auto
next
  case (3 env st f fs)
  have "rf_type ` set fs \<subseteq> universe env (insert (rf_type f) (rf_type ` set fs))" by auto
  then show ?case
    using left_types_mono [of "insert (rf_type f) (rf_type ` set fs)" "rf_type ` set fs" env st] by auto
qed

declare visit_struct.simps [simp del]

definition struct_fields :: "tenv \<Rightarrow> embed \<Rightarrow> rtype \<Rightarrow> (rfield \<times> nat list) list" where
  "struct_fields env em t = visit_struct env em [] [] t"

section \<open>Reachable types\<close>

definition children :: "tenv \<Rightarrow> rtype \<Rightarrow> rtype list" where
  "children env t =
     (case under env t of
        RPtr u \<Rightarrow> [u] | RSlice u \<Rightarrow> [u] | RArray n u \<Rightarrow> [u] | RMap k u \<Rightarrow> [k, u]
      | RStruct fs \<Rightarrow> map rf_type (filter (\<lambda>f. rf_exported f \<or> rf_anonymous f) fs)
      | _ \<Rightarrow> [])"

text \<open>\<open>Reaches\<close>: depth first, with the types seen so far; one unit of fuel per nested call.\<close>

fun reach_visit :: "('a \<Rightarrow> 'a list) \<Rightarrow> ('a \<Rightarrow> bool) \<Rightarrow> nat \<Rightarrow> 'a \<Rightarrow> 'a list \<Rightarrow> bool \<times> 'a list"
  and reach_list :: "('a \<Rightarrow> 'a list) \<Rightarrow> ('a \<Rightarrow> bool) \<Rightarrow> nat \<Rightarrow> 'a list \<Rightarrow> 'a list \<Rightarrow> bool \<times> 'a list" where
  "reach_visit kids pred 0 t seen = (False, seen)"
| "reach_visit kids pred (Suc n) t seen =
     (if t \<in> set seen then (False, seen)
      else if pred t then (True, t # seen)
      else reach_list kids pred n (kids t) (t # seen))"
| "reach_list kids pred n [] seen = (False, seen)"
| "reach_list kids pred n (u # us) seen =
     (case reach_visit kids pred n u seen of (found, seen1) \<Rightarrow>
        if found then (True, seen1) else reach_list kids pred n us seen1)"

definition reaches :: "tenv \<Rightarrow> (rtype \<Rightarrow> bool) \<Rightarrow> rtype \<Rightarrow> bool" where
  "reaches env pred t = fst (reach_visit (children env) pred (card (universe env {t}) + 1) t [])"

abbreviation kid :: "('a \<Rightarrow> 'a list) \<Rightarrow> 'a \<Rightarrow> 'a \<Rightarrow> bool" where
  "kid kids t u \<equiv> u \<in> set (kids t)"

abbreviation edges :: "tenv \<Rightarrow> rtype \<Rightarrow> rtype \<Rightarrow> bool" where
  "edges env \<equiv> kid (children env)"

lemma children_universe: "t \<in> universe env ts \<Longrightarrow> edges env t u \<Longrightarrow> u \<in> universe env ts"
proof -
  assume t: "t \<in> universe env ts" and e: "edges env t u"
  then have "under env t \<in> universe env ts" using under_universe [OF t] by (auto simp: children_def)
  then have "parts (under env t) \<subseteq> universe env ts" by (rule universe_part)
  then show ?thesis using e by (auto simp: children_def split: rtype.splits intro: parts_self)
qed

definition explored :: "('a \<Rightarrow> 'a list) \<Rightarrow> ('a \<Rightarrow> bool) \<Rightarrow> 'a list \<Rightarrow> 'a list \<Rightarrow> bool" where
  "explored kids pred seen seen' \<longleftrightarrow>
     (\<forall>u. u \<in> set seen' \<and> u \<notin> set seen \<longrightarrow> \<not> pred u \<and> set (kids u) \<subseteq> set seen')"

lemma explored_trans: "explored kids pred a b \<Longrightarrow> explored kids pred b c \<Longrightarrow> set b \<subseteq> set c \<Longrightarrow> explored kids pred a c"
  unfolding explored_def by (meson subset_trans)

lemma reach_invariant:
  shows "finite U \<Longrightarrow> \<forall>v \<in> U. set (kids v) \<subseteq> U \<Longrightarrow> t \<in> U \<Longrightarrow> set seen \<subseteq> U \<Longrightarrow>
      card (U - set seen) < n \<Longrightarrow> reach_visit kids pred n t seen = (b, seen') \<Longrightarrow>
      set seen \<subseteq> set seen' \<and> set seen' \<subseteq> U \<and>
      (if b then \<exists>u. (kid kids)\<^sup>*\<^sup>* t u \<and> pred u else t \<in> set seen' \<and> explored kids pred seen seen')"
    and "finite U \<Longrightarrow> \<forall>v \<in> U. set (kids v) \<subseteq> U \<Longrightarrow> set us \<subseteq> U \<Longrightarrow> set seen \<subseteq> U \<Longrightarrow>
      card (U - set seen) < n \<Longrightarrow> reach_list kids pred n us seen = (b, seen') \<Longrightarrow>
      set seen \<subseteq> set seen' \<and> set seen' \<subseteq> U \<and>
      (if b then \<exists>t u. t \<in> set us \<and> (kid kids)\<^sup>*\<^sup>* t u \<and> pred u else set us \<subseteq> set seen' \<and> explored kids pred seen seen')"
proof (induction kids pred n t seen and kids pred n us seen arbitrary: b seen' and b seen' rule: reach_visit_reach_list.induct)
  case (1 kids pred t seen)
  then show ?case by simp
next
  case (2 kids pred n t seen)
  show ?case
  proof (cases "t \<in> set seen \<or> pred t")
    case True
    then show ?thesis using 2(3-7) by (auto simp: explored_def split: if_splits)
  next
    case False
    then have run: "reach_list kids pred n (kids t) (t # seen) = (b, seen')" using 2(7) by simp
    have "U - set (t # seen) \<subset> U - set seen" using False 2(4) by auto
    then have "card (U - set (t # seen)) < card (U - set seen)" using 2(2) by (simp add: psubset_card_mono)
    then have card: "card (U - set (t # seen)) < n" using 2(6) by simp
    have sub: "set (kids t) \<subseteq> U" "set (t # seen) \<subseteq> U" using 2(3-5) by simp_all
    have ih: "set (t # seen) \<subseteq> set seen' \<and> set seen' \<subseteq> U \<and>
      (if b then \<exists>x u. x \<in> set (kids t) \<and> (kid kids)\<^sup>*\<^sup>* x u \<and> pred u
       else set (kids t) \<subseteq> set seen' \<and> explored kids pred (t # seen) seen')"
      by (rule "2.IH" [OF _ _ 2(2,3) sub card run]) (use False in simp_all)
    show ?thesis
    proof (cases b)
      case True
      then show ?thesis using ih by (auto intro: converse_rtranclp_into_rtranclp)
    next
      case nb: False
      then show ?thesis using ih False by (auto simp: explored_def)
    qed
  qed
next
  case (3 kids pred n seen)
  then show ?case by (simp add: explored_def)
next
  case (4 kids pred n u us seen)
  obtain f s1 where v: "reach_visit kids pred n u seen = (f, s1)" by (cases "reach_visit kids pred n u seen")
  have u: "u \<in> U" "set us \<subseteq> U" using 4(5) by auto
  note ih1 = "4.IH"(1) [OF 4(3,4) u(1) 4(6,7) v]
  show ?case
  proof (cases f)
    case True
    then show ?thesis using ih1 v 4(8) by auto
  next
    case False
    then have run: "reach_list kids pred n us s1 = (b, seen')" using 4(8) v by simp
    have s1: "set s1 \<subseteq> U" "set seen \<subseteq> set s1" using ih1 by auto
    then have "card (U - set s1) \<le> card (U - set seen)" using 4(3) by (intro card_mono) auto
    then have card: "card (U - set s1) < n" using 4(7) by simp
    note ih2 = "4.IH"(2) [OF v [symmetric] _ 4(3,4) u(2) s1(1) card run]
    show ?thesis
    proof (cases b)
      case True
      then obtain t v where "t \<in> set us" "(kid kids)\<^sup>*\<^sup>* t v" "pred v" using ih2 False by auto
      then show ?thesis using ih1 ih2 False True by auto
    next
      case nb: False
      have "explored kids pred seen seen'" using ih1 ih2 False nb explored_trans [of kids pred seen s1 seen'] by simp
      then show ?thesis using ih1 ih2 False nb by auto
    qed
  qed
qed

lemma reaches_iff: "reaches env pred t \<longleftrightarrow> (\<exists>u. (edges env)\<^sup>*\<^sup>* t u \<and> pred u)"
proof -
  let ?U = "universe env {t}"
  obtain b seen' where run: "reach_visit (children env) pred (card ?U + 1) t [] = (b, seen')" by (cases "reach_visit (children env) pred (card ?U + 1) t []")
  have inv: "if b then \<exists>u. (edges env)\<^sup>*\<^sup>* t u \<and> pred u else t \<in> set seen' \<and> explored (children env) pred [] seen'"
    using reach_invariant(1) [of ?U "children env" t "[]" "card ?U + 1" pred b seen', OF _ _ _ _ _ run]
      children_universe [of _ env "{t}"] by (simp add: subset_iff)
  show ?thesis
  proof (cases b)
    case True
    then show ?thesis using inv run by (simp add: reaches_def)
  next
    case False
    have "(edges env)\<^sup>*\<^sup>* t u \<Longrightarrow> u \<in> set seen'" for u
      by (induction rule: rtranclp_induct) (use inv False in \<open>auto simp: explored_def\<close>)
    then show ?thesis using inv run False by (auto simp: reaches_def explored_def)
  qed
qed

section \<open>The fields encoding/json selects\<close>

record json_field =
  jf_name :: string
  jf_field :: rfield
  jf_index :: "nat list"
  jf_tagged :: bool

definition json_candidate :: "rfield \<times> nat list \<Rightarrow> json_field option" where
  "json_candidate p =
     (let tag = tag_get (fst p) ''json''; name = strip_tag tag; tagged = valid_json_name name in
      if tag = ''-'' then None
      else Some \<lparr>jf_name = (if tagged then name else rf_name (fst p)), jf_field = fst p, jf_index = snd p, jf_tagged = tagged\<rparr>)"

definition json_candidates :: "tenv \<Rightarrow> rtype \<Rightarrow> json_field list" where
  "json_candidates env t = List.map_filter json_candidate (struct_fields env \<lparr>em_json = True, em_yaml = False\<rparr> t)"

definition json_rank :: "json_field \<Rightarrow> nat \<times> bool" where
  "json_rank c = (length (jf_index c), \<not> jf_tagged c)"

definition json_key :: "json_field \<Rightarrow> string \<times> nat \<times> bool" where
  "json_key c = (jf_name c, json_rank c)"

function dominant :: "json_field list \<Rightarrow> json_field list" where
  "dominant [] = []"
| "dominant (a # cs) =
     (let same = takeWhile (\<lambda>c. jf_name c = jf_name a) cs in
      (if same = [] \<or> length (jf_index a) \<noteq> length (jf_index (hd same)) \<or> jf_tagged a \<noteq> jf_tagged (hd same) then [a] else []) @
      dominant (drop (length same) cs))"
  by pat_completeness auto
termination by (relation "measure length") (auto simp: less_Suc_eq_le)

text \<open>The sort is by name, depth, then tagged first; the order of equal candidates does not matter, they exclude
  each other.\<close>

definition json_fields :: "tenv \<Rightarrow> rtype \<Rightarrow> json_field list" where
  "json_fields env t = dominant (sort_key json_key (json_candidates env t))"

lemma visit_index:
  "(f, p) \<in> set (visit_struct env em st idx t) \<Longrightarrow> strict_prefix idx p"
  "(f, p) \<in> set (visit_fields env em st idx i fs) \<Longrightarrow> \<exists>j \<ge> i. prefix (idx @ [j]) p"
proof (induction env em st idx t and env em st idx i fs rule: visit_struct_visit_fields.induct)
  case (1 env em st idx t)
  then obtain fs where "(f, p) \<in> set (visit_fields env em (deref t # st) idx 0 fs)" "struct_of env (deref t) = Some fs" "deref t \<notin> set st"
    by (auto simp: visit_struct.simps split: option.splits if_splits)
  then obtain j where "prefix (idx @ [j]) p" using 1(1) by blast
  then show ?case by (auto simp: strict_prefix_def prefix_def)
next
  case (3 env em st idx i f' fs)
  show ?case
  proof (cases "(f, p) \<in> set (visit_fields env em st idx (i + 1) fs)")
    case True
    then show ?thesis using 3(2) by (metis Suc_eq_plus1 Suc_leD)
  next
    case False
    then have "p = idx @ [i] \<or> strict_prefix (idx @ [i]) p"
      using 3(1,3) by (auto split: if_splits)
    then show ?thesis by (auto simp: strict_prefix_def)
  qed
qed simp

lemma visit_distinct:
  "distinct (map snd (visit_struct env em st idx t))"
  "distinct (map snd (visit_fields env em st idx i fs))"
proof (induction env em st idx t and env em st idx i fs rule: visit_struct_visit_fields.induct)
  case (1 env em st idx t)
  then show ?case by (auto simp: visit_struct.simps [of env em st idx t] split: option.split)
next
  case (3 env em st idx i f fs)
  let ?here = "if skipped_field env (em_json em) f then []
      else if struct_of env (deref (rf_type f)) \<noteq> None \<and> embeds em f
      then visit_struct env em st (idx @ [i]) (deref (rf_type f)) else [(f, idx @ [i])]"
  have here: "(g, p) \<in> set ?here \<Longrightarrow> prefix (idx @ [i]) p" for g p
    using visit_index(1) [of g p env em st "idx @ [i]" "deref (rf_type f)"] by (auto simp: strict_prefix_def split: if_splits)
  have "snd ` set ?here \<inter> snd ` set (visit_fields env em st idx (i + 1) fs) = {}"
  proof (rule equals0I)
    fix p assume "p \<in> snd ` set ?here \<inter> snd ` set (visit_fields env em st idx (i + 1) fs)"
    then obtain g h where "(g, p) \<in> set ?here" "(h, p) \<in> set (visit_fields env em st idx (i + 1) fs)" by force
    then obtain j where "prefix (idx @ [i]) p" "prefix (idx @ [j]) p" "i + 1 \<le> j"
      using here visit_index(2) by blast
    then show False by (auto simp: prefix_def)
  qed
  moreover have "distinct (map snd ?here)" using 3(1) by auto
  ultimately show ?case using 3(2) unfolding visit_fields.simps map_append distinct_append set_map by (intro conjI)
qed simp

lemma json_candidates_distinct: "distinct (json_candidates env t)"
proof -
  have "distinct (map snd xs) \<Longrightarrow> distinct (map jf_index (List.map_filter json_candidate xs)) \<and>
      set (map jf_index (List.map_filter json_candidate xs)) \<subseteq> set (map snd xs)" for xs
    by (induction xs) (auto simp: List.map_filter_simps json_candidate_def Let_def)
  then have "distinct (map jf_index (json_candidates env t))"
    using visit_distinct(1) by (simp add: json_candidates_def struct_fields_def)
  then show ?thesis by (simp add: distinct_map)
qed

text \<open>A candidate wins when every other of its name is deeper, or as deep and untagged while it is tagged.\<close>

definition wins :: "json_field set \<Rightarrow> json_field \<Rightarrow> bool" where
  "wins cs a \<longleftrightarrow> a \<in> cs \<and> (\<forall>c \<in> cs. c \<noteq> a \<and> jf_name c = jf_name a \<longrightarrow> json_rank a < json_rank c)"

lemma takeWhile_same:
  assumes "sorted (map json_key (a # cs))"
  shows "set (takeWhile (\<lambda>c. jf_name c = jf_name a) cs) = {c \<in> set cs. jf_name c = jf_name a}"
    and "set (drop (length (takeWhile (\<lambda>c. jf_name c = jf_name a) cs)) cs) = {c \<in> set cs. jf_name c \<noteq> jf_name a}"
proof -
  let ?P = "\<lambda>c. jf_name c = jf_name a"
  have "\<not> ?P c" if c: "c \<in> set (dropWhile ?P cs)" for c
  proof
    assume p: "?P c"
    obtain d ds where d: "dropWhile ?P cs = d # ds" using c by (cases "dropWhile ?P cs") auto
    then have nd: "\<not> ?P d" using hd_dropWhile [of ?P cs] by simp
    have "sorted (map json_key cs)" using assms by simp
    then have s: "sorted (map json_key (dropWhile ?P cs))"
      unfolding dropWhile_eq_drop drop_map [symmetric] by (rule sorted_wrt_drop)
    have ge: "d \<in> set cs" using d by (metis list.set_intros(1) set_dropWhileD)
    have "json_key a \<le> json_key d" using assms ge by simp
    moreover have "json_key d \<le> json_key c" using s c d by auto
    ultimately have "jf_name a \<le> jf_name d" "jf_name d \<le> jf_name c" by (auto simp: json_key_def)
    then show False using p nd by simp
  qed
  moreover have "c \<in> set (takeWhile ?P cs) \<Longrightarrow> ?P c" for c by (rule set_takeWhileD [THEN conjunct2])
  moreover have "set cs = set (takeWhile ?P cs) \<union> set (dropWhile ?P cs)" by (metis set_append takeWhile_dropWhile_id)
  ultimately have "set (takeWhile ?P cs) = {c \<in> set cs. ?P c} \<and> set (dropWhile ?P cs) = {c \<in> set cs. \<not> ?P c}" by blast
  then show "set (takeWhile ?P cs) = {c \<in> set cs. ?P c}"
    "set (drop (length (takeWhile ?P cs)) cs) = {c \<in> set cs. \<not> ?P c}"
    unfolding dropWhile_eq_drop [symmetric] by simp_all
qed


lemma rank_le: "json_key a \<le> json_key c \<Longrightarrow> jf_name c = jf_name a \<Longrightarrow> json_rank a \<le> json_rank c"
  by (simp add: json_key_def)

lemma dominant_wins:
  assumes "sorted (map json_key cs)" and "distinct cs"
  shows "set (dominant cs) = {a. wins (set cs) a}"
  using assms
proof (induction cs rule: dominant.induct)
  case (2 a cs)
  let ?same = "takeWhile (\<lambda>c. jf_name c = jf_name a) cs"
  let ?rest = "drop (length ?same) cs"
  note same = takeWhile_same(1) [OF 2(2)] and rest = takeWhile_same(2) [OF 2(2)]
  have sorted: "sorted (map json_key ?same)" "sorted (map json_key ?rest)"
  proof -
    have "sorted (map json_key cs)" using 2(2) by simp
    then show "sorted (map json_key ?rest)" unfolding drop_map [symmetric] by (rule sorted_wrt_drop)
    have "sorted (take (length ?same) (map json_key cs))" using \<open>sorted (map json_key cs)\<close> by (rule sorted_wrt_take)
    then show "sorted (map json_key ?same)" unfolding take_map takeWhile_eq_take [symmetric] .
  qed
  have ih: "set (dominant ?rest) = {b. wins (set ?rest) b}"
    using 2(1) [OF refl sorted(2)] 2(3) by simp
  have a_le: "c \<in> set ?same \<Longrightarrow> json_rank a \<le> json_rank c" for c
    using rank_le [of a c] 2(2) same by auto
  have top: "(?same = [] \<or> length (jf_index a) \<noteq> length (jf_index (hd ?same)) \<or> jf_tagged a \<noteq> jf_tagged (hd ?same)) \<longleftrightarrow> wins (set (a # cs)) a"
  proof (cases ?same)
    case Nil
    then show ?thesis using same by (auto simp: wins_def)
  next
    case (Cons d ds)
    have ne: "c \<noteq> a" if "c \<in> set ?same" for c using that 2(3) same by auto
    have d: "(length (jf_index a) \<noteq> length (jf_index d) \<or> jf_tagged a \<noteq> jf_tagged d) \<longleftrightarrow> json_rank a < json_rank d"
      using a_le [of d] Cons by (auto simp: json_rank_def)
    have "json_rank d \<le> json_rank c" if "c \<in> set ?same" for c
    proof -
      have n: "jf_name c = jf_name a" "jf_name d = jf_name a" using that Cons same by auto
      have "json_key d \<le> json_key c" using sorted(1) that unfolding Cons by auto
      then show ?thesis using rank_le n by simp
    qed
    then have "json_rank a < json_rank d \<longleftrightarrow> (\<forall>c \<in> set ?same. json_rank a < json_rank c)"
      using Cons by (auto intro: less_le_trans)
    moreover have "wins (set (a # cs)) a \<longleftrightarrow> (\<forall>c \<in> set ?same. json_rank a < json_rank c)"
      using ne unfolding same wins_def by auto
    ultimately show ?thesis using d Cons by simp
  qed
  have eq: "wins (set (a # cs)) b \<longleftrightarrow> b = a \<and> wins (set (a # cs)) a \<or> wins (set ?rest) b" for b
  proof (cases "jf_name b = jf_name a")
    case False
    then show ?thesis using rest by (auto simp: wins_def)
  next
    case name: True
    have no: "\<not> wins (set ?rest) b" using rest name by (auto simp: wins_def)
    have "\<not> wins (set (a # cs)) b" if "b \<noteq> a"
    proof
      assume w: "wins (set (a # cs)) b"
      then have "b \<in> set ?same" using that name same by (auto simp: wins_def)
      moreover have "json_rank b < json_rank a" using w that name by (auto simp: wins_def)
      ultimately show False using a_le [of b] by simp
    qed
    then show ?thesis using no by blast
  qed
  have split: "{b. wins (set (a # cs)) b} = (if wins (set (a # cs)) a then {a} else {}) \<union> {b. wins (set ?rest) b}"
    by (intro set_eqI) (simp only: mem_Collect_eq Un_iff split: if_split, use eq in blast)
  show ?case unfolding dominant.simps Let_def set_append ih split top by (simp only: if_distrib [of set] list.set)
qed (simp add: wins_def)

lemma dominant_subset: "set (dominant cs) \<subseteq> set cs"
  by (induction cs rule: dominant.induct) (auto simp: Let_def dest: in_set_dropD)

lemma dominant_names:
  "sorted (map json_key cs) \<Longrightarrow> sorted (map jf_name (dominant cs)) \<and> distinct (map jf_name (dominant cs))"
proof (induction cs rule: dominant.induct)
  case (2 a cs)
  let ?same = "takeWhile (\<lambda>c. jf_name c = jf_name a) cs"
  let ?rest = "drop (length ?same) cs"
  have "sorted (map json_key cs)" using 2(2) by simp
  then have "sorted (map json_key ?rest)" unfolding drop_map [symmetric] by (rule sorted_wrt_drop)
  moreover have "b \<in> set (dominant ?rest) \<Longrightarrow> jf_name a \<noteq> jf_name b \<and> jf_name a \<le> jf_name b" for b
  proof -
    assume "b \<in> set (dominant ?rest)"
    then have "b \<in> set ?rest" using dominant_subset by blast
    then have "b \<in> set cs" "jf_name b \<noteq> jf_name a" using takeWhile_same(2) [OF 2(2)] by auto
    then show ?thesis using 2(2) by (auto simp: json_key_def)
  qed
  ultimately show ?case using 2(1) [OF refl] by (auto simp: Let_def)
qed simp

section \<open>Walking the fields\<close>

definition max_type_depth :: nat where "max_type_depth = 256"

text \<open>\<open>walk\<close> as the list of its visits, in order; \<open>go\<close> is what the visitor answers.\<close>

definition walk_path :: "string \<Rightarrow> rfield \<Rightarrow> string" where
  "walk_path pre f =
     (let name = fn_primary (field_names_of f) in
      if name = '''' then pre else if pre \<noteq> '''' then pre @ ''.'' @ name else name)"

function walk_type :: "tenv \<Rightarrow> (string \<Rightarrow> nat list \<Rightarrow> rfield \<Rightarrow> bool) \<Rightarrow> nat \<Rightarrow> rtype list \<Rightarrow> string \<Rightarrow> nat list \<Rightarrow> rtype
    \<Rightarrow> (string \<times> nat list \<times> rfield) list"
  and walk_fields :: "tenv \<Rightarrow> (string \<Rightarrow> nat list \<Rightarrow> rfield \<Rightarrow> bool) \<Rightarrow> nat \<Rightarrow> rtype list \<Rightarrow> string \<Rightarrow> nat list \<Rightarrow> nat \<Rightarrow> rfield list
    \<Rightarrow> (string \<times> nat list \<times> rfield) list" where
  "walk_type env go depth st pre idx t =
     (if depth > max_type_depth then []
      else case struct_of env (deref t) of
             None \<Rightarrow> []
           | Some fs \<Rightarrow> if deref t \<in> set st then [] else walk_fields env go depth (deref t # st) pre idx 0 fs)"
| "walk_fields env go depth st pre idx i [] = []"
| "walk_fields env go depth st pre idx i (f # fs) =
     (if skipped_field env True f then []
      else (walk_path pre f, idx @ [i], f) #
        (if go (walk_path pre f) (idx @ [i]) f \<and> struct_of env (deref (rf_type f)) \<noteq> None \<and> depth \<le> max_type_depth
         then walk_type env go (depth + 1) st (walk_path pre f) (idx @ [i]) (deref (rf_type f)) else [])) @
     walk_fields env go depth st pre idx (i + 1) fs"
  by pat_completeness auto
termination
  by (relation "measures [\<lambda>x. case x of Inl (env, go, d, st, pre, idx, t) \<Rightarrow> Suc max_type_depth - d
                                     | Inr (env, go, d, st, pre, idx, i, fs) \<Rightarrow> Suc max_type_depth - d,
                          \<lambda>x. case x of Inl _ \<Rightarrow> Suc 0 | Inr _ \<Rightarrow> 0,
                          \<lambda>x. case x of Inl _ \<Rightarrow> 0 | Inr (env, go, d, st, pre, idx, i, fs) \<Rightarrow> length fs]") auto

declare walk_type.simps [simp del]

definition walk :: "tenv \<Rightarrow> (string \<Rightarrow> nat list \<Rightarrow> rfield \<Rightarrow> bool) \<Rightarrow> rtype \<Rightarrow> (string \<times> nat list \<times> rfield) list" where
  "walk env go t = walk_type env go 0 [] '''' [] t"


text \<open>The field an index path leads to.\<close>

fun field_by_index :: "tenv \<Rightarrow> rtype \<Rightarrow> nat list \<Rightarrow> rfield option" where
  "field_by_index env t [] = None"
| "field_by_index env t (i # ixs) =
     (case struct_of env (deref t) of
        None \<Rightarrow> None
      | Some fs \<Rightarrow> if i < length fs then (if ixs = [] then Some (fs ! i) else field_by_index env (rf_type (fs ! i)) ixs) else None)"

lemma deref_idem [simp]: "deref (deref t) = deref t"
  by (induction t rule: deref.induct) auto

lemma field_by_index_deref [simp]: "field_by_index env (deref t) ixs = field_by_index env t ixs"
  by (cases ixs) simp_all

definition inside :: "tenv \<Rightarrow> rfield list \<Rightarrow> nat \<Rightarrow> nat list \<Rightarrow> rfield \<Rightarrow> bool" where
  "inside env fs i js f \<longleftrightarrow>
     (case js of
        [] \<Rightarrow> False
      | j # ks \<Rightarrow> i \<le> j \<and> j - i < length fs \<and>
          (if ks = [] then f = fs ! (j - i) else field_by_index env (rf_type (fs ! (j - i))) ks = Some f))"

lemma inside_zero: "struct_of env (deref t) = Some fs \<Longrightarrow> inside env fs 0 js f \<longleftrightarrow> field_by_index env t js = Some f"
  by (cases js) (auto simp: inside_def)

lemma inside_Cons: "inside env fs (i + 1) js f \<Longrightarrow> inside env (g # fs) i js f"
proof (cases js)
  case (Cons j ks)
  have "Suc i \<le> j \<Longrightarrow> j - i = Suc (j - Suc i)" by simp
  then show "inside env fs (i + 1) js f \<Longrightarrow> ?thesis" using Cons by (auto simp: inside_def)
qed (simp add: inside_def)

lemma walk_index:
  "(p, ix, f) \<in> set (walk_type env go d st pre idx t) \<Longrightarrow> \<exists>js. ix = idx @ js \<and> field_by_index env t js = Some f"
  "(p, ix, f) \<in> set (walk_fields env go d st pre idx i fs) \<Longrightarrow> \<exists>js. ix = idx @ js \<and> inside env fs i js f"
proof (induction env go d st pre idx t and env go d st pre idx i fs rule: walk_type_walk_fields.induct)
  case (1 env go d st pre idx t)
  then obtain fs where fs: "struct_of env (deref t) = Some fs" "deref t \<notin> set st" "\<not> d > max_type_depth"
    and m: "(p, ix, f) \<in> set (walk_fields env go d (deref t # st) pre idx 0 fs)"
    by (auto simp: walk_type.simps split: option.splits if_splits)
  from 1(1) [OF fs(3,1,2) m] show ?case using inside_zero [OF fs(1)] by blast
next
  case (3 env go d st pre idx i g fs)
  show ?case
  proof (cases "(p, ix, f) \<in> set (walk_fields env go d st pre idx (i + 1) fs)")
    case True
    then show ?thesis using 3(2) inside_Cons by blast
  next
    case False
    then consider "ix = idx @ [i]" "f = g"
      | "\<not> skipped_field env True g" "go (walk_path pre g) (idx @ [i]) g" "struct_of env (deref (rf_type g)) \<noteq> None" "d \<le> max_type_depth"
        "(p, ix, f) \<in> set (walk_type env go (d + 1) st (walk_path pre g) (idx @ [i]) (deref (rf_type g)))"
      using 3(3) by (auto split: if_splits)
    then show ?thesis
    proof cases
      case 1
      then show ?thesis by (intro exI [of _ "[i]"]) (simp add: inside_def)
    next
      case 2
      then obtain js where js: "ix = (idx @ [i]) @ js" "field_by_index env (rf_type g) js = Some f"
        using 3(1) by auto
      then have "js \<noteq> []" by (cases js) auto
      then show ?thesis using js by (intro exI [of _ "i # js"]) (simp add: inside_def)
    qed
  qed
qed simp

definition visit_ix :: "string \<times> nat list \<times> rfield \<Rightarrow> nat list" where
  "visit_ix p = fst (snd p)"

lemma walk_distinct:
  "distinct (map visit_ix (walk_type env go d st pre idx t))"
  "distinct (map visit_ix (walk_fields env go d st pre idx i fs))"
proof (induction env go d st pre idx t and env go d st pre idx i fs rule: walk_type_walk_fields.induct)
  case (1 env go d st pre idx t)
  then show ?case by (auto simp: walk_type.simps [of env go d st pre idx t] split: option.split)
next
  case (3 env go d st pre idx i g fs)
  let ?sub = "if go (walk_path pre g) (idx @ [i]) g \<and> struct_of env (deref (rf_type g)) \<noteq> None \<and> d \<le> max_type_depth
         then walk_type env go (d + 1) st (walk_path pre g) (idx @ [i]) (deref (rf_type g)) else []"
  let ?here = "if skipped_field env True g then [] else (walk_path pre g, idx @ [i], g) # ?sub"
  let ?rest = "walk_fields env go d st pre idx (i + 1) fs"
  have sub: "(p, ix, f) \<in> set ?sub \<Longrightarrow> \<exists>js. js \<noteq> [] \<and> ix = (idx @ [i]) @ js" for p ix f
    using walk_index(1) [of p ix f env go "d + 1" st "walk_path pre g" "idx @ [i]" "deref (rf_type g)"]
    by (auto split: if_splits)
  have rest: "(p, ix, f) \<in> set ?rest \<Longrightarrow> \<exists>j ks. ix = idx @ j # ks \<and> i < j" for p ix f
  proof -
    assume "(p, ix, f) \<in> set ?rest"
    then obtain js where js: "ix = idx @ js" "inside env fs (i + 1) js f" using walk_index(2) by blast
    then show ?thesis by (cases js) (auto simp: inside_def)
  qed
  have no: "idx @ [i] \<notin> visit_ix ` set ?sub" using sub by (fastforce simp: visit_ix_def)
  have "distinct (map visit_ix ?here)"
  proof (cases "skipped_field env True g")
    case False
    then have "distinct (map visit_ix ?sub)" using 3(1) by auto
    then have "distinct (map visit_ix ((walk_path pre g, idx @ [i], g) # ?sub))"
      using no unfolding list.map distinct.simps set_map by (simp only: visit_ix_def fst_conv snd_conv not_False_eq_True simp_thms)
    then show ?thesis using False by simp
  qed simp
  moreover have "visit_ix ` set ?here \<inter> visit_ix ` set ?rest = {}"
  proof (rule equals0I)
    fix ix assume "ix \<in> visit_ix ` set ?here \<inter> visit_ix ` set ?rest"
    then obtain p f q h where a: "(p, ix, f) \<in> set ?here" "(q, ix, h) \<in> set ?rest" by (force simp: visit_ix_def)
    then obtain j ks where "ix = idx @ j # ks" "i < j" using rest by blast
    moreover have "\<exists>js. ix = idx @ i # js" using a(1) sub by (fastforce split: if_splits)
    ultimately show False by auto
  qed
  ultimately show ?case using 3(2) unfolding walk_fields.simps map_append distinct_append set_map by (intro conjI)
qed simp

section \<open>Fields by paths\<close>

text \<open>What a field path is, without an algorithm: from a struct to one of its fields, and on through a field whose type is
  a struct and that \<open>via\<close> allows to pass. No path is excluded, however often it enters a type.\<close>

inductive field_path :: "tenv \<Rightarrow> (rfield \<Rightarrow> bool) \<Rightarrow> rtype \<Rightarrow> nat list \<Rightarrow> rfield \<Rightarrow> bool" for env via where
  here: "struct_of env (deref t) = Some fs \<Longrightarrow> i < length fs \<Longrightarrow> field_path env via t [i] (fs ! i)"
| below: "struct_of env (deref t) = Some fs \<Longrightarrow> i < length fs \<Longrightarrow> via (fs ! i) \<Longrightarrow>
    field_path env via (rf_type (fs ! i)) ix f \<Longrightarrow> field_path env via t (i # ix) f"

text \<open>The same, entering no type of \<open>st\<close> and none twice.\<close>

inductive once_path :: "tenv \<Rightarrow> (rfield \<Rightarrow> bool) \<Rightarrow> rtype list \<Rightarrow> rtype \<Rightarrow> nat list \<Rightarrow> rfield \<Rightarrow> bool" for env via where
  here: "struct_of env (deref t) = Some fs \<Longrightarrow> deref t \<notin> set st \<Longrightarrow> i < length fs \<Longrightarrow> once_path env via st t [i] (fs ! i)"
| below: "struct_of env (deref t) = Some fs \<Longrightarrow> deref t \<notin> set st \<Longrightarrow> i < length fs \<Longrightarrow> via (fs ! i) \<Longrightarrow>
    once_path env via (deref t # st) (rf_type (fs ! i)) ix f \<Longrightarrow> once_path env via st t (i # ix) f"

inductive_cases once_pathE: "once_path env via st t (i # ix) f"

lemma once_path_not_Nil: "once_path env via st t ix f \<Longrightarrow> ix \<noteq> []"
  by (induction rule: once_path.induct) auto

lemma once_field_path: "once_path env via st t ix f \<Longrightarrow> field_path env via t ix f"
  by (induction rule: once_path.induct) (auto intro: field_path.intros)

lemma field_path_deref: "field_path env via t ix f \<Longrightarrow> deref t = deref u \<Longrightarrow> field_path env via u ix f"
proof (induction rule: field_path.induct)
  case (here t fs i)
  then show ?case using field_path.here [of env u fs i via] by simp
next
  case (below t fs i ix f)
  then show ?case using field_path.below [of env u fs i via ix f] by simp
qed

text \<open>A path that enters a type again has a shorter one to the same field.\<close>

lemma field_path_shorter:
  "field_path env via t ix f \<Longrightarrow>
   once_path env via st t ix f \<or>
   (\<exists>u ks. u \<in> set st \<and> field_path env via u ks f \<and> length ks \<le> length ix) \<or>
   (\<exists>ks. field_path env via t ks f \<and> length ks < length ix)"
proof (induction arbitrary: st rule: field_path.induct)
  case (here t fs i)
  have "field_path env via (deref t) [i] (fs ! i)" using here by (intro field_path.here) simp_all
  then show ?case using here once_path.here [of env t fs st i via] by (cases "deref t \<in> set st") force+
next
  case (below t fs i ix f)
  show ?case
  proof (cases "deref t \<in> set st")
    case True
    have "field_path env via (deref t) (i # ix) f" using below(1-4) by (intro field_path.below) simp_all
    then show ?thesis using True by blast
  next
    case False
    from below.IH [of "deref t # st"] show ?thesis
    proof (elim disjE exE conjE)
      assume "once_path env via (deref t # st) (rf_type (fs ! i)) ix f"
      then have "once_path env via st t (i # ix) f"
        using below(1-3) False by (intro once_path.below)
      then show ?thesis by blast
    next
      fix u ks assume u: "u \<in> set (deref t # st)" "field_path env via u ks f" "length ks \<le> length ix"
      show ?thesis
      proof (cases "u = deref t")
        case True
        then have "field_path env via t ks f" using u(2) by (auto intro: field_path_deref)
        moreover have "length ks < length (i # ix)" using u(3) by simp
        ultimately show ?thesis by blast
      next
        case False
        moreover have "length ks \<le> length (i # ix)" using u(3) by simp
        ultimately show ?thesis using u(1,2) by auto
      qed
    next
      fix ks assume ks: "field_path env via (rf_type (fs ! i)) ks f" "length ks < length ix"
      have "field_path env via t (i # ks) f" using below(1-3) ks(1) by (rule field_path.below)
      moreover have "length (i # ks) < length (i # ix)" using ks(2) by simp
      ultimately show ?thesis by blast
    qed
  qed
qed

lemma field_path_once:
  "field_path env via t ix f \<Longrightarrow>
   once_path env via [] t ix f \<or> (\<exists>ks. once_path env via [] t ks f \<and> length ks < length ix)"
proof (induction "length ix" arbitrary: ix rule: less_induct)
  case less
  show ?case
  proof (cases "once_path env via [] t ix f")
    case False
    then obtain ks where ks: "field_path env via t ks f" "length ks < length ix"
      using field_path_shorter [OF less(2), of "[]"] by auto
    from less(1) [OF ks(2,1)] show ?thesis
    proof
      assume "once_path env via [] t ks f"
      then show ?thesis using ks(2) by blast
    next
      assume "\<exists>js. once_path env via [] t js f \<and> length js < length ks"
      then obtain js where "once_path env via [] t js f" "length js < length ks" by blast
      then show ?thesis using ks(2) by (intro disjI2 exI [of _ js]) simp
    qed
  qed simp
qed

text \<open>Paths that start in the fields \<open>fs\<close> of a struct, whose indices start at \<open>i\<close>.\<close>

definition path_from :: "tenv \<Rightarrow> (rfield \<Rightarrow> bool) \<Rightarrow> rtype list \<Rightarrow> nat \<Rightarrow> rfield list \<Rightarrow> nat list \<Rightarrow> rfield \<Rightarrow> bool" where
  "path_from env via st i fs ix f \<longleftrightarrow>
     (\<exists>j ks. ix = j # ks \<and> i \<le> j \<and> j - i < length fs \<and>
        (if ks = [] then f = fs ! (j - i) else via (fs ! (j - i)) \<and> once_path env via st (rf_type (fs ! (j - i))) ks f))"

lemma path_from_Nil [simp]: "\<not> path_from env via st i [] ix f"
  by (simp add: path_from_def)

lemma path_from_Cons:
  "path_from env via st i (g # fs) ix f \<longleftrightarrow>
     ix = [i] \<and> f = g \<or> (\<exists>ks. ix = i # ks \<and> via g \<and> once_path env via st (rf_type g) ks f) \<or> path_from env via st (i + 1) fs ix f"
proof -
  let ?at = "\<lambda>i fs j ks. i \<le> j \<and> j - i < length fs \<and>
        (if ks = [] then f = fs ! (j - i) else via (fs ! (j - i)) \<and> once_path env via st (rf_type (fs ! (j - i))) ks f)"
  have "?at i (g # fs) j ks \<longleftrightarrow> j = i \<and> (if ks = [] then f = g else via g \<and> once_path env via st (rf_type g) ks f) \<or>
      ?at (i + 1) fs j ks" for j ks
  proof (cases "i + 1 \<le> j")
    case True
    then have "j - i = Suc (j - (i + 1))" by simp
    then show ?thesis using True by simp
  next
    case False
    then show ?thesis by (cases "j = i") auto
  qed
  then have "path_from env via st i (g # fs) ix f \<longleftrightarrow>
      (\<exists>ks. ix = i # ks \<and> (if ks = [] then f = g else via g \<and> once_path env via st (rf_type g) ks f)) \<or>
      path_from env via st (i + 1) fs ix f"
    unfolding path_from_def by blast
  also have "(\<exists>ks. ix = i # ks \<and> (if ks = [] then f = g else via g \<and> once_path env via st (rf_type g) ks f)) \<longleftrightarrow>
      ix = [i] \<and> f = g \<or> (\<exists>ks. ix = i # ks \<and> via g \<and> once_path env via st (rf_type g) ks f)"
    using once_path_not_Nil by (metis (full_types))
  finally show ?thesis by blast
qed

lemma once_path_iff:
  "once_path env via st t ix f \<longleftrightarrow>
     (\<exists>fs. struct_of env (deref t) = Some fs \<and> deref t \<notin> set st \<and> path_from env via (deref t # st) 0 fs ix f)"
proof
  assume "once_path env via st t ix f"
  then show "\<exists>fs. struct_of env (deref t) = Some fs \<and> deref t \<notin> set st \<and> path_from env via (deref t # st) 0 fs ix f"
    by (cases rule: once_path.cases) (auto simp: path_from_def dest: once_path_not_Nil)
next
  assume "\<exists>fs. struct_of env (deref t) = Some fs \<and> deref t \<notin> set st \<and> path_from env via (deref t # st) 0 fs ix f"
  then show "once_path env via st t ix f"
    by (auto simp: path_from_def intro: once_path.intros split: if_splits)
qed

lemma once_path_of_deref [simp]: "once_path env via st (deref t) ix f = once_path env via st t ix f"
  by (simp add: once_path_iff)

section \<open>encoding/json's rule\<close>

text \<open>A field whose members encoding/json promotes: an embedded struct, or pointer to one, exported or not, that has no
  JSON name of its own and is not ignored. A field that is a member itself: exported or an embedded struct, not
  ignored, not promoted. Its name is the valid name of the tag, or that of the field.\<close>

definition promoted :: "tenv \<Rightarrow> rfield \<Rightarrow> bool" where
  "promoted env f \<longleftrightarrow> rf_anonymous f \<and> struct_of env (deref (rf_type f)) \<noteq> None \<and> tag_get f ''json'' \<noteq> ''-'' \<and>
     \<not> valid_json_name (strip_tag (tag_get f ''json''))"

definition json_member :: "tenv \<Rightarrow> rfield \<Rightarrow> bool" where
  "json_member env f \<longleftrightarrow> (rf_exported f \<or> rf_anonymous f \<and> struct_of env (deref (rf_type f)) \<noteq> None) \<and>
     tag_get f ''json'' \<noteq> ''-'' \<and> \<not> promoted env f"

definition json_member_at :: "rfield \<Rightarrow> nat list \<Rightarrow> json_field" where
  "json_member_at f ix =
     \<lparr>jf_name = (if valid_json_name (strip_tag (tag_get f ''json'')) then strip_tag (tag_get f ''json'') else rf_name f),
      jf_field = f, jf_index = ix, jf_tagged = valid_json_name (strip_tag (tag_get f ''json''))\<rparr>"

definition json_members :: "tenv \<Rightarrow> rtype \<Rightarrow> json_field set" where
  "json_members env t = {json_member_at f ix |f ix. field_path env (promoted env) t ix f \<and> json_member env f}"

lemma visit_paths:
  "(f, p) \<in> set (visit_struct env \<lparr>em_json = True, em_yaml = False\<rparr> st idx t) \<longleftrightarrow>
     \<not> skipped_field env True f \<and> \<not> promoted env f \<and> (\<exists>ix. p = idx @ ix \<and> once_path env (promoted env) st t ix f)"
  "(f, p) \<in> set (visit_fields env \<lparr>em_json = True, em_yaml = False\<rparr> st idx i fs) \<longleftrightarrow>
     \<not> skipped_field env True f \<and> \<not> promoted env f \<and> (\<exists>ix. p = idx @ ix \<and> path_from env (promoted env) st i fs ix f)"
proof (induction env "\<lparr>em_json = True, em_yaml = False\<rparr>" st idx t and env "\<lparr>em_json = True, em_yaml = False\<rparr>" st idx i fs
    arbitrary: and rule: visit_struct_visit_fields.induct)
  case (1 env st idx t)
  show ?case
  proof (cases "struct_of env (deref t)")
    case None
    then show ?thesis by (simp add: visit_struct.simps once_path_iff)
  next
    case (Some fs)
    show ?thesis
    proof (cases "deref t \<in> set st")
      case True
      then show ?thesis by (simp add: visit_struct.simps once_path_iff Some)
    next
      case False
      then show ?thesis using 1 [OF Some False] by (simp add: visit_struct.simps [of env _ st idx t] once_path_iff [of env _ st t] Some)
    qed
  qed
next
  case (2 env st idx i)
  show ?case by simp
next
  case (3 env st idx i g fs)
  have p: "struct_of env (deref (rf_type g)) \<noteq> None \<and> embeds \<lparr>em_json = True, em_yaml = False\<rparr> g \<longleftrightarrow> promoted env g"
    by (auto simp: promoted_def embeds_def)
  have s: "promoted env g \<Longrightarrow> \<not> skipped_field env True g" by (auto simp: promoted_def skipped_field_def)
  show ?case
  proof (cases "promoted env g")
    case True
    then have "struct_of env (deref (rf_type g)) \<noteq> None" "embeds \<lparr>em_json = True, em_yaml = False\<rparr> g" using p by auto
    then have ih: "(f, p) \<in> set (visit_struct env \<lparr>em_json = True, em_yaml = False\<rparr> st (idx @ [i]) (deref (rf_type g))) \<longleftrightarrow>
        \<not> skipped_field env True f \<and> \<not> promoted env f \<and>
        (\<exists>ix. p = (idx @ [i]) @ ix \<and> once_path env (promoted env) st (rf_type g) ix f)"
      using 3(1) s True by simp
    have "visit_fields env \<lparr>em_json = True, em_yaml = False\<rparr> st idx i (g # fs) =
        visit_struct env \<lparr>em_json = True, em_yaml = False\<rparr> st (idx @ [i]) (deref (rf_type g)) @
        visit_fields env \<lparr>em_json = True, em_yaml = False\<rparr> st idx (i + 1) fs"
      using s [OF True] True unfolding visit_fields.simps p by simp
    then show ?thesis using ih 3(2) True unfolding path_from_Cons by auto
  next
    case False
    then have "visit_fields env \<lparr>em_json = True, em_yaml = False\<rparr> st idx i (g # fs) =
        (if skipped_field env True g then [] else [(g, idx @ [i])]) @
        visit_fields env \<lparr>em_json = True, em_yaml = False\<rparr> st idx (i + 1) fs"
      unfolding visit_fields.simps p by simp
    then show ?thesis using 3(2) False unfolding path_from_Cons by auto
  qed
qed

lemma map_filter_set: "x \<in> set (List.map_filter f xs) \<longleftrightarrow> (\<exists>y \<in> set xs. f y = Some x)"
  by (induction xs) (auto simp: List.map_filter_simps split: option.split)

lemma json_candidates_set:
  "set (json_candidates env t) = {json_member_at f ix |f ix. once_path env (promoted env) [] t ix f \<and> json_member env f}"
proof -
  have "c \<in> set (json_candidates env t) \<longleftrightarrow>
      (\<exists>f ix. c = json_member_at f ix \<and> once_path env (promoted env) [] t ix f \<and> json_member env f)" for c
  proof -
    have "c \<in> set (json_candidates env t) \<longleftrightarrow>
        (\<exists>f ix. (f, ix) \<in> set (struct_fields env \<lparr>em_json = True, em_yaml = False\<rparr> t) \<and> json_candidate (f, ix) = Some c)"
      unfolding json_candidates_def map_filter_set by auto
    also have "\<dots> \<longleftrightarrow> (\<exists>f ix. c = json_member_at f ix \<and> once_path env (promoted env) [] t ix f \<and> json_member env f)"
      by (auto simp: struct_fields_def visit_paths json_candidate_def json_member_at_def json_member_def skipped_field_def Let_def
          promoted_def)
    finally show ?thesis .
  qed
  then show ?thesis by blast
qed

text \<open>A path that is not simple neither wins nor keeps another from winning: the simple one to its field has its name and
  is shallower.\<close>

lemma wins_members: "wins (set (json_candidates env t)) a \<longleftrightarrow> wins (json_members env t) a"
proof -
  let ?once = "set (json_candidates env t)" and ?all = "json_members env t"
  have sub: "?once \<subseteq> ?all"
    unfolding json_candidates_set json_members_def using once_field_path by blast
  have shorter: "c \<in> ?once \<or> (\<exists>d \<in> ?once. jf_name d = jf_name c \<and> json_rank d < json_rank c)" if c: "c \<in> ?all" for c
  proof -
    from c obtain f ix where f: "c = json_member_at f ix" "field_path env (promoted env) t ix f" "json_member env f"
      unfolding json_members_def by blast
    from field_path_once [OF f(2)] show ?thesis
    proof
      assume "once_path env (promoted env) [] t ix f"
      then show ?thesis using f unfolding json_candidates_set by blast
    next
      assume "\<exists>ks. once_path env (promoted env) [] t ks f \<and> length ks < length ix"
      then obtain ks where "once_path env (promoted env) [] t ks f" "length ks < length ix" by blast
      then have "json_member_at f ks \<in> ?once" "jf_name (json_member_at f ks) = jf_name c" "json_rank (json_member_at f ks) < json_rank c"
        using f unfolding json_candidates_set by (blast, simp_all add: json_member_at_def json_rank_def)
      then show ?thesis by blast
    qed
  qed
  show ?thesis
  proof
    assume w: "wins ?once a"
    then have a: "a \<in> ?once" by (simp add: wins_def)
    have "json_rank a < json_rank c" if c: "c \<in> ?all" "c \<noteq> a" "jf_name c = jf_name a" for c
    proof -
      have le: "d \<in> ?once \<Longrightarrow> jf_name d = jf_name a \<Longrightarrow> json_rank a \<le> json_rank d" for d
        using w by (cases "d = a") (auto simp: wins_def intro: less_imp_le)
      from shorter [OF c(1)] show ?thesis
      proof
        assume "c \<in> ?once"
        then show ?thesis using w c by (simp add: wins_def)
      next
        assume "\<exists>d \<in> ?once. jf_name d = jf_name c \<and> json_rank d < json_rank c"
        then show ?thesis using le c(3) by (metis le_less_trans)
      qed
    qed
    then show "wins ?all a" using a sub by (auto simp: wins_def)
  next
    assume w: "wins ?all a"
    have "a \<in> ?once"
    proof (rule ccontr)
      assume n: "a \<notin> ?once"
      have "a \<in> ?all" using w by (simp add: wins_def)
      from shorter [OF this] n obtain d where d: "d \<in> ?once" "jf_name d = jf_name a" "json_rank d < json_rank a" by blast
      then have "json_rank a < json_rank d" using w sub n by (auto simp: wins_def)
      then show False using d(3) by simp
    qed
    then show "wins ?once a" using w sub by (auto simp: wins_def)
  qed
qed

section \<open>Properties\<close>

text \<open>C27. \<open>Reaches\<close> answers reachability: on any table of types, recursive ones included, it ends and says yes exactly
  when a type that satisfies the predicate can be reached through pointers, elements, map keys and values, and
  exported or embedded fields. \<open>hasSecrets\<close> and \<open>hasCustomEncoding\<close> are this question.\<close>

theorem reaches_spec:
  "reaches env pred t \<longleftrightarrow> (\<exists>u. (edges env)\<^sup>*\<^sup>* t u \<and> pred u)"
  by (rule reaches_iff)

text \<open>C29. The fields of a struct are those encoding/json selects by its rule, stated over all paths into embedded structs,
  recursive ones included: the members are the fields that are exported or embedded structs, are not ignored by a
  \<open>json:"-"\<close> tag and are reached through untagged embedded structs or pointers to them; a member is selected exactly when
  every other member of its name lies deeper, or lies as deep without a tag while it has one. One field is selected per
  name, in the order of the names.\<close>

theorem json_fields_dominance:
  "set (json_fields env t) = {a. wins (json_members env t) a} \<and>
   sorted (map jf_name (json_fields env t)) \<and> distinct (map jf_name (json_fields env t))"
proof -
  let ?cs = "sort_key json_key (json_candidates env t)"
  have "set (json_fields env t) = {a. wins (set (json_candidates env t)) a}"
    using dominant_wins [of ?cs] json_candidates_distinct [of env t] by (simp add: json_fields_def)
  then show ?thesis
    using dominant_names [of ?cs] unfolding wins_members by (simp add: json_fields_def)
qed

end
