(* ===== verification/FieldMeta.thy ===== *)
theory FieldMeta
  imports Types Value
begin

text \<open>
  \<open>internal/typeinfo/fieldmeta.go\<close> and \<open>defaults.go\<close>: the constraints and defaults of the \<open>fc\<close> tag, and how they read
  and fill a decoded value. Values carry the width of their numbers; the conversion of an integer to a float, the
  parsing of floats and the printing of a value are arguments. The plans are computed once per type and cached, which
  does not change them. Messages are kept as data.
\<close>

section \<open>Values\<close>

datatype rval =
    VBool bool
  | VInt nat int
  | VUint nat int
  | VFloat nat gfloat
  | VString string
  | VPtr "rval option"
  | VStruct "rval list"
  | VSlice "rval list option"
  | VArray "rval list"
  | VMap "(rval \<times> rval) list option"
  | VIface "rval option"
  | VOther bool   \<comment> \<open>a function or channel: whether it is nil\<close>

text \<open>\<open>IsZero\<close>.\<close>

fun is_zero :: "rval \<Rightarrow> bool" where
  "is_zero (VBool b) = (\<not> b)"
| "is_zero (VInt w n) = (n = 0)"
| "is_zero (VUint w n) = (n = 0)"
| "is_zero (VFloat w f) = (f = FFin 0)"
| "is_zero (VString s) = (s = '''')"
| "is_zero (VPtr p) = (p = None)"
| "is_zero (VStruct vs) = list_all is_zero vs"
| "is_zero (VSlice xs) = (xs = None)"
| "is_zero (VArray vs) = list_all is_zero vs"
| "is_zero (VMap m) = (m = None)"
| "is_zero (VIface v) = (v = None)"
| "is_zero (VOther nil) = nil"

text \<open>Following pointers; \<open>None\<close> at a nil one.\<close>

fun strip_ptr :: "rval \<Rightarrow> rval option" where
  "strip_ptr (VPtr None) = None"
| "strip_ptr (VPtr (Some v)) = strip_ptr v"
| "strip_ptr v = Some v"

text \<open>\<open>fieldAt\<close>: no parent is allocated, and the last pointer is returned as it is.\<close>

fun field_at :: "rval \<Rightarrow> nat list \<Rightarrow> rval option" where
  "field_at v [] = Some v"
| "field_at v (i # ixs) =
     (case strip_ptr v of
        Some (VStruct vs) \<Rightarrow> if i < length vs then field_at (vs ! i) ixs else None
      | _ \<Rightarrow> None)"

section \<open>Constraints\<close>

text \<open>Arguments: \<open>strconv.ParseFloat\<close> for a width, the float nearest an integer, and \<open>fmt.Sprint\<close>.\<close>

record number_ops =
  no_parse_float :: "nat \<Rightarrow> string \<Rightarrow> gfloat option"
  no_round :: "int \<Rightarrow> gfloat"
  no_sprint :: "rval \<Rightarrow> string"

fun float_less :: "gfloat \<Rightarrow> gfloat \<Rightarrow> bool" where
  "float_less FNaN y = False"
| "float_less x FNaN = False"
| "float_less FPosInf y = False"
| "float_less x FNegInf = False"
| "float_less x FPosInf = True"
| "float_less FNegInf y = True"
| "float_less (FFin a) (FFin b) = (a < b)"

record field_constraint =
  fc_path :: string
  fc_index :: "nat list"
  fc_required :: bool
  fc_min :: "gfloat option"
  fc_max :: "gfloat option"
  fc_oneof :: "string list"

definition no_constraint :: field_constraint where
  "no_constraint = \<lparr>fc_path = '''', fc_index = [], fc_required = False, fc_min = None, fc_max = None, fc_oneof = []\<rparr>"

definition tag_token :: "number_ops \<Rightarrow> string \<Rightarrow> field_constraint \<Rightarrow> field_constraint" where
  "tag_token ops raw0 fs =
     (let raw = trim_space raw0 in
      if raw = '''' then fs
      else if raw = ''required'' then fs\<lparr>fc_required := True\<rparr>
      else if has_prefix raw ''min='' then
        (case no_parse_float ops 64 (trim_prefix raw ''min='') of None \<Rightarrow> fs | Some v \<Rightarrow> fs\<lparr>fc_min := Some v\<rparr>)
      else if has_prefix raw ''max='' then
        (case no_parse_float ops 64 (trim_prefix raw ''max='') of None \<Rightarrow> fs | Some v \<Rightarrow> fs\<lparr>fc_max := Some v\<rparr>)
      else if has_prefix raw ''oneof='' then fs\<lparr>fc_oneof := split_char (CHR ''|'') (trim_prefix raw ''oneof='')\<rparr>
      else fs)"

definition parse_field_tag :: "number_ops \<Rightarrow> string \<Rightarrow> field_constraint" where
  "parse_field_tag ops tag = fold (tag_token ops) (split_char (CHR '','') tag) no_constraint"

definition constraining :: "field_constraint \<Rightarrow> bool" where
  "constraining fs \<longleftrightarrow> fc_required fs \<or> fc_min fs \<noteq> None \<or> fc_max fs \<noteq> None \<or> fc_oneof fs \<noteq> []"

definition into_structs :: "tenv \<Rightarrow> string \<Rightarrow> nat list \<Rightarrow> rfield \<Rightarrow> bool" where
  "into_structs env path ix f \<longleftrightarrow> struct_of env (deref (rf_type f)) \<noteq> None"

definition constraint_of :: "number_ops \<Rightarrow> string \<times> nat list \<times> rfield \<Rightarrow> field_constraint option" where
  "constraint_of ops p =
     (case p of (path, ix, f) \<Rightarrow>
        (let tag = tag_get f ''fc''; spec = parse_field_tag ops tag in
         if tag \<noteq> '''' \<and> constraining spec then Some (spec\<lparr>fc_path := path, fc_index := ix\<rparr>) else None))"

definition field_meta_plan :: "number_ops \<Rightarrow> tenv \<Rightarrow> rtype \<Rightarrow> field_constraint list" where
  "field_meta_plan ops env t =
     (if struct_of env (deref t) = None then []
      else List.map_filter (constraint_of ops) (walk env (into_structs env) (deref t)))"

datatype violation_kind = RequiredEmpty | BelowMin gfloat gfloat | AboveMax gfloat gfloat | NotOneOf string "string list"

record field_violation =
  fv_path :: string
  fv_kind :: violation_kind

definition numeric_as_float :: "number_ops \<Rightarrow> rval \<Rightarrow> gfloat option" where
  "numeric_as_float ops v =
     (case v of VInt w n \<Rightarrow> Some (no_round ops n) | VUint w n \<Rightarrow> Some (no_round ops n) | VFloat w f \<Rightarrow> Some f | _ \<Rightarrow> None)"

definition range_violations :: "number_ops \<Rightarrow> field_constraint \<Rightarrow> rval \<Rightarrow> violation_kind list" where
  "range_violations ops spec v =
     (case numeric_as_float ops v of
        None \<Rightarrow> []
      | Some f \<Rightarrow>
          (case fc_min spec of Some lo \<Rightarrow> if float_less f lo then [BelowMin f lo] else [] | None \<Rightarrow> []) @
          (case fc_max spec of Some hi \<Rightarrow> if float_less hi f then [AboveMax f hi] else [] | None \<Rightarrow> []))"

definition oneof_violations :: "number_ops \<Rightarrow> field_constraint \<Rightarrow> rval \<Rightarrow> violation_kind list" where
  "oneof_violations ops spec v =
     (if fc_oneof spec = [] \<or> no_sprint ops v \<in> set (fc_oneof spec) then [] else [NotOneOf (no_sprint ops v) (fc_oneof spec)])"

text \<open>One round of the loop of \<open>CheckFieldMeta\<close>.\<close>

definition check_constraint :: "number_ops \<Rightarrow> rval \<Rightarrow> field_constraint \<Rightarrow> field_violation list" where
  "check_constraint ops target spec =
     map (\<lambda>k. \<lparr>fv_path = fc_path spec, fv_kind = k\<rparr>)
       (case field_at target (fc_index spec) of
          None \<Rightarrow> []
        | Some fv \<Rightarrow>
            if fc_required spec \<and> is_zero fv then [RequiredEmpty]
            else (case strip_ptr fv of
                    None \<Rightarrow> []
                  | Some v \<Rightarrow> range_violations ops spec v @ oneof_violations ops spec v))"

definition check_field_meta :: "number_ops \<Rightarrow> tenv \<Rightarrow> rtype \<Rightarrow> rval \<Rightarrow> field_violation list" where
  "check_field_meta ops env t target = concat (map (check_constraint ops target) (field_meta_plan ops env t))"

section \<open>Defaults\<close>

fun default_in :: "string list \<Rightarrow> string option" where
  "default_in [] = None"
| "default_in (p # ps) =
     (let q = trim_space p in if has_prefix q ''default='' then Some (trim_prefix q ''default='') else default_in ps)"

definition default_tag_value :: "string \<Rightarrow> string option" where
  "default_tag_value tag = (if tag = '''' then None else default_in (split_char (CHR '','') tag))"

record default_entry =
  df_index :: "nat list"
  df_raw :: string
  df_settable :: bool   \<comment> \<open>an exported field, so reflection may set it\<close>

definition default_of :: "string \<times> nat list \<times> rfield \<Rightarrow> default_entry option" where
  "default_of p =
     (case p of (path, ix, f) \<Rightarrow>
        map_option (\<lambda>raw. \<lparr>df_index = ix, df_raw = raw, df_settable = rf_exported f\<rparr>) (default_tag_value (tag_get f ''fc'')))"

definition defaults_plan :: "tenv \<Rightarrow> rtype \<Rightarrow> default_entry list" where
  "defaults_plan env t =
     (if struct_of env (deref t) = None then []
      else List.map_filter default_of (walk env (into_structs env) (deref t)))"

definition parse_bool :: "string \<Rightarrow> bool option" where
  "parse_bool s =
     (if s \<in> set [''1'', ''t'', ''T'', ''true'', ''TRUE'', ''True''] then Some True
      else if s \<in> set [''0'', ''f'', ''F'', ''false'', ''FALSE'', ''False''] then Some False
      else None)"

text \<open>\<open>ParseInt\<close> and \<open>ParseUint\<close> in base 10 for a width.\<close>

definition parse_int_bits :: "nat \<Rightarrow> string \<Rightarrow> int option" where
  "parse_int_bits w s =
     (case parse_int64 s of None \<Rightarrow> None | Some n \<Rightarrow> if - (2 ^ (w - 1)) \<le> n \<and> n < 2 ^ (w - 1) then Some n else None)"

definition parse_uint_bits :: "nat \<Rightarrow> string \<Rightarrow> int option" where
  "parse_uint_bits w s = (if is_all_digits s \<and> digits_val s < 2 ^ w then Some (digits_val s) else None)"

definition assign_from_tag :: "number_ops \<Rightarrow> string \<Rightarrow> rval \<Rightarrow> rval option" where
  "assign_from_tag ops raw v =
     (case v of
        VString s \<Rightarrow> Some (VString raw)
      | VBool b \<Rightarrow> map_option VBool (parse_bool raw)
      | VInt w n \<Rightarrow> map_option (VInt w) (parse_int_bits w raw)
      | VUint w n \<Rightarrow> map_option (VUint w) (parse_uint_bits w raw)
      | VFloat w f \<Rightarrow> map_option (VFloat w) (no_parse_float ops w raw)
      | _ \<Rightarrow> None)"

text \<open>Setting a field in place, through the pointers on the way.\<close>

fun set_ptr :: "rval \<Rightarrow> (rval \<Rightarrow> rval) \<Rightarrow> rval" where
  "set_ptr (VPtr (Some v)) g = VPtr (Some (set_ptr v g))"
| "set_ptr v g = g v"

fun set_field :: "nat list \<Rightarrow> rval \<Rightarrow> rval \<Rightarrow> rval" where
  "set_field [] x v = x"
| "set_field (i # ixs) x v =
     set_ptr v (\<lambda>u. case u of VStruct vs \<Rightarrow> if i < length vs then VStruct (vs[i := set_field ixs x (vs ! i)]) else u | _ \<Rightarrow> u)"

fun apply_defaults :: "number_ops \<Rightarrow> default_entry list \<Rightarrow> rval \<Rightarrow> string + rval" where
  "apply_defaults ops [] v = Inr v"
| "apply_defaults ops (e # es) v =
     (case field_at v (df_index e) of
        None \<Rightarrow> apply_defaults ops es v
      | Some fv \<Rightarrow>
          if \<not> df_settable e \<or> \<not> is_zero fv then apply_defaults ops es v
          else (case assign_from_tag ops (df_raw e) fv of
                  None \<Rightarrow> Inl (df_raw e)
                | Some x \<Rightarrow> apply_defaults ops es (set_field (df_index e) x v)))"

definition apply_struct_defaults :: "number_ops \<Rightarrow> tenv \<Rightarrow> rtype \<Rightarrow> rval \<Rightarrow> string + rval" where
  "apply_struct_defaults ops env t v = apply_defaults ops (defaults_plan env t) v"

section \<open>Reading a tag\<close>

lemma tag_token_required: "fc_required (tag_token ops raw fs) \<longleftrightarrow> fc_required fs \<or> trim_space raw = ''required''"
  by (auto simp: tag_token_def Let_def has_prefix_def split: option.split)

lemma required_in_tag:
  "fc_required (parse_field_tag ops tag) \<longleftrightarrow> ''required'' \<in> set (map trim_space (split_char (CHR '','') tag))"
proof -
  have "fc_required (fold (tag_token ops) ts fs) \<longleftrightarrow> fc_required fs \<or> ''required'' \<in> set (map trim_space ts)" for ts fs
    by (induction ts arbitrary: fs) (auto simp: tag_token_required)
  then show ?thesis by (simp add: parse_field_tag_def no_constraint_def)
qed

lemma empty_tag: "\<not> constraining (parse_field_tag ops '''')"
  by (simp add: parse_field_tag_def constraining_def tag_token_def no_constraint_def trim_space_def)

lemma walk_not_struct: "struct_of env (deref t) = None \<Longrightarrow> walk env go (deref t) = []"
  by (simp add: walk_def walk_type.simps)

lemma field_meta_plan_set:
  "spec \<in> set (field_meta_plan ops env t) \<longleftrightarrow>
     (\<exists>p \<in> set (walk env (into_structs env) (deref t)). constraint_of ops p = Some spec)"
  using walk_not_struct [of env t "into_structs env"] by (simp add: field_meta_plan_def map_filter_set)

section \<open>Reading and setting fields\<close>

definition scalar :: "rval \<Rightarrow> bool" where
  "scalar v = (case v of VBool b \<Rightarrow> True | VInt w n \<Rightarrow> True | VUint w n \<Rightarrow> True | VFloat w f \<Rightarrow> True | VString s \<Rightarrow> True | _ \<Rightarrow> False)"

lemma scalar_strip: "scalar v \<Longrightarrow> strip_ptr v = Some v \<and> (\<forall>vs. v \<noteq> VStruct vs)"
  by (cases v) (simp_all add: scalar_def)

lemma scalar_field: "scalar v \<Longrightarrow> field_at v (i # ixs) = None"
  using scalar_strip [of v] by (cases v) (simp_all add: scalar_def)

lemma assign_scalar: "assign_from_tag ops raw v = Some x \<Longrightarrow> scalar v \<and> scalar x"
  by (cases v) (auto simp: assign_from_tag_def scalar_def)

lemma strip_set_ptr: "strip_ptr v = Some (VStruct vs) \<Longrightarrow> g (VStruct vs) = VStruct ws \<Longrightarrow> strip_ptr (set_ptr v g) = Some (VStruct ws)"
  by (induction v rule: strip_ptr.induct) auto

lemma set_field_Cons:
  "strip_ptr v = Some (VStruct vs) \<Longrightarrow> i < length vs \<Longrightarrow>
   strip_ptr (set_field (i # ixs) x v) = Some (VStruct (vs[i := set_field ixs x (vs ! i)]))"
  by (simp add: strip_set_ptr)

lemma field_at_Cons: "field_at v (i # ixs) = Some z \<longleftrightarrow>
    (\<exists>vs. strip_ptr v = Some (VStruct vs) \<and> i < length vs \<and> field_at (vs ! i) ixs = Some z)"
  by (auto split: option.splits rval.splits if_splits)

lemma field_at_set:
  assumes "field_at v a = Some z" and "scalar z" and "scalar x"
  shows "field_at (set_field a x v) b =
    (if b = a then Some x else if strict_prefix b a then map_option (set_field (drop (length b) a) x) (field_at v b) else field_at v b)"
  using assms
proof (induction a arbitrary: v b)
  case Nil
  then show ?case using scalar_field by (cases b) auto
next
  case (Cons i ixs)
  obtain vs where vs: "strip_ptr v = Some (VStruct vs)" "i < length vs" "field_at (vs ! i) ixs = Some z"
    using Cons.prems(1) unfolding field_at_Cons by blast
  note set = set_field_Cons [OF vs(1,2), of ixs x]
  show ?case
  proof (cases b)
    case Nil
    then show ?thesis by simp
  next
    case (Cons j js)
    show ?thesis
    proof (cases "j = i")
      case True
      have "field_at (set_field (i # ixs) x v) b = field_at (set_field ixs x (vs ! i)) js"
        using set vs(2) True Cons by (simp del: set_field.simps)
      moreover have "field_at v b = field_at (vs ! i) js" using vs True Cons by simp
      ultimately show ?thesis using Cons.IH [OF vs(3) Cons.prems(2,3), of js] True Cons by (simp del: set_field.simps field_at.simps)
    next
      case False
      then show ?thesis using set vs Cons by (simp del: set_field.simps)
    qed
  qed
qed

section \<open>Defaults fill and never overwrite\<close>

lemma field_at_append: "field_at v (a @ b) = (case field_at v a of None \<Rightarrow> None | Some u \<Rightarrow> field_at u b)"
  by (induction a arbitrary: v) (auto split: option.split rval.split)

lemma no_field_below: "field_at v b = Some y \<Longrightarrow> scalar y \<Longrightarrow> strict_prefix b a \<Longrightarrow> field_at v a = None"
proof -
  assume y: "field_at v b = Some y" "scalar y" and "strict_prefix b a"
  then obtain i ixs where "a = b @ i # ixs" by (auto elim: strict_prefixE')
  then show ?thesis using y scalar_field [OF y(2), of i ixs] by (simp add: field_at_append del: field_at.simps)
qed

lemma defaults_plan_distinct: "distinct (map df_index (defaults_plan env t))"
proof -
  have "distinct (map visit_ix xs) \<Longrightarrow> distinct (map df_index (List.map_filter default_of xs)) \<and>
      df_index ` set (List.map_filter default_of xs) \<subseteq> visit_ix ` set xs" for xs
    by (induction xs) (auto simp: List.map_filter_simps default_of_def visit_ix_def split: option.split, blast)
  then show ?thesis using walk_distinct(1) by (simp add: defaults_plan_def walk_def)
qed

section \<open>What the walk visits\<close>

text \<open>A field that metadata applies to: exported, or an embedded struct. It is named by the primary names on the way, without
  those of untagged embedded structs.\<close>

definition walkable :: "tenv \<Rightarrow> rfield \<Rightarrow> bool" where
  "walkable env f \<longleftrightarrow> rf_exported f \<or> rf_anonymous f \<and> struct_of env (deref (rf_type f)) \<noteq> None"

definition own_name :: "rfield \<Rightarrow> string list" where
  "own_name f = (let name = fn_primary (field_names_of f) in if name = '''' then [] else [name])"

fun path_names :: "tenv \<Rightarrow> rtype \<Rightarrow> nat list \<Rightarrow> string list" where
  "path_names env t [] = []"
| "path_names env t (i # ix) =
     (case struct_of env (deref t) of
        None \<Rightarrow> []
      | Some fs \<Rightarrow> if i < length fs then own_name (fs ! i) @ path_names env (rf_type (fs ! i)) ix else [])"

text \<open>The fields that metadata is read from: reached through fields of struct type, entering no type twice on the way
  and no more than 257 fields deep.\<close>

definition meta_field :: "tenv \<Rightarrow> rtype \<Rightarrow> nat list \<Rightarrow> rfield \<Rightarrow> bool" where
  "meta_field env t ix f \<longleftrightarrow> walkable env f \<and> once_path env (walkable env) [] t ix f \<and> length ix \<le> 257"

definition below_name :: "string \<Rightarrow> string list \<Rightarrow> string" where
  "below_name pre ns = (if ns = [] then pre else if pre = '''' then join_with ''.'' ns else pre @ ''.'' @ join_with ''.'' ns)"

lemma walk_path_names: "below_name (walk_path pre f) ns = below_name pre (own_name f @ ns)"
  by (cases ns) (auto simp: below_name_def walk_path_def own_name_def Let_def)

definition names_from :: "tenv \<Rightarrow> nat \<Rightarrow> rfield list \<Rightarrow> nat list \<Rightarrow> string list" where
  "names_from env i fs ix =
     (case ix of [] \<Rightarrow> [] | j # ks \<Rightarrow> own_name (fs ! (j - i)) @ path_names env (rf_type (fs ! (j - i))) ks)"

lemma names_from_below: "path_from env via st (i + 1) fs ix f \<Longrightarrow> names_from env i (g # fs) ix = names_from env (i + 1) fs ix"
proof -
  assume "path_from env via st (i + 1) fs ix f"
  then obtain j ks where "ix = j # ks" "i + 1 \<le> j" by (auto simp: path_from_def)
  moreover from this have "j - i = Suc (j - (i + 1))" by simp
  ultimately show ?thesis by (simp add: names_from_def)
qed

lemma path_names_from: "struct_of env (deref t) = Some fs \<Longrightarrow> path_from env via st 0 fs ix f \<Longrightarrow> names_from env 0 fs ix = path_names env t ix"
  by (auto simp: path_from_def names_from_def)

lemma path_names_deref [simp]: "path_names env (deref t) ix = path_names env t ix"
  by (cases ix) simp_all

lemma walk_struct_paths:
  "go = into_structs env \<Longrightarrow> (q, p, f) \<in> set (walk_type env go d st pre idx t) \<longleftrightarrow>
     walkable env f \<and> (\<exists>ix. p = idx @ ix \<and> once_path env (walkable env) st t ix f \<and> d + length ix \<le> 257 \<and>
       q = below_name pre (path_names env t ix))"
  "go = into_structs env \<Longrightarrow> d \<le> 256 \<Longrightarrow> (q, p, f) \<in> set (walk_fields env go d st pre idx i fs) \<longleftrightarrow>
     walkable env f \<and> (\<exists>ix. p = idx @ ix \<and> path_from env (walkable env) st i fs ix f \<and> d + length ix \<le> 257 \<and>
       q = below_name pre (names_from env i fs ix))"
proof (induction env go d st pre idx t and env go d st pre idx i fs arbitrary: and rule: walk_type_walk_fields.induct)
  case (1 env go d st pre idx t)
  show ?case
  proof (cases "d \<le> 256 \<and> struct_of env (deref t) \<noteq> None \<and> deref t \<notin> set st")
    case False
    have "\<not> d + length ix \<le> 257" if "once_path env (walkable env) st t ix f" for ix
      using False that once_path_not_Nil [OF that] by (cases ix) (auto simp: once_path_iff)
    then show ?thesis using False by (subst walk_type.simps) (auto simp: max_type_depth_def)
  next
    case True
    then obtain fs where fs: "struct_of env (deref t) = Some fs" by auto
    have w: "walk_type env go d st pre idx t = walk_fields env go d (deref t # st) pre idx 0 fs"
      using True fs by (subst walk_type.simps) (simp add: max_type_depth_def)
    have "\<not> d > max_type_depth" using True by (simp add: max_type_depth_def)
    then have ih: "(q, p, f) \<in> set (walk_fields env go d (deref t # st) pre idx 0 fs) \<longleftrightarrow>
        walkable env f \<and> (\<exists>ix. p = idx @ ix \<and> path_from env (walkable env) (deref t # st) 0 fs ix f \<and> d + length ix \<le> 257 \<and>
          q = below_name pre (names_from env 0 fs ix))"
      using 1(1) [OF _ fs _ 1(2)] True by blast
    show ?thesis unfolding w ih once_path_iff [of env _ st t] using True fs path_names_from [OF fs] by auto
  qed
next
  case (3 env go d st pre idx i g fs)
  have sk: "skipped_field env True g \<longleftrightarrow> \<not> walkable env g" by (auto simp: skipped_field_def walkable_def)
  let ?into = "struct_of env (deref (rf_type g)) \<noteq> None"
  have none: "\<not> ?into \<Longrightarrow> \<not> once_path env (walkable env) st (rf_type g) ix f" for ix by (auto simp: once_path_iff)
  have step: "walk_fields env go d st pre idx i (g # fs) =
      (if walkable env g then (walk_path pre g, idx @ [i], g) #
         (if ?into then walk_type env go (d + 1) st (walk_path pre g) (idx @ [i]) (deref (rf_type g)) else []) else []) @
      walk_fields env go d st pre idx (i + 1) fs"
    using 3(3,4) by (simp add: sk into_structs_def max_type_depth_def)
  have sub: "(q, p, f) \<in> set (walk_type env go (d + 1) st (walk_path pre g) (idx @ [i]) (deref (rf_type g))) \<longleftrightarrow>
      walkable env f \<and> (\<exists>ix. p = (idx @ [i]) @ ix \<and> once_path env (walkable env) st (rf_type g) ix f \<and> d + 1 + length ix \<le> 257 \<and>
       q = below_name pre (own_name g @ path_names env (rf_type g) ix))" if "walkable env g" ?into
    using 3(1) [OF _ _ 3(3)] that 3(3,4) sk by (simp add: into_structs_def max_type_depth_def walk_path_names)
  have head: "(\<exists>ix. p = idx @ ix \<and> path_from env (walkable env) st i (g # fs) ix f \<and> d + length ix \<le> 257 \<and>
       q = below_name pre (names_from env i (g # fs) ix)) \<longleftrightarrow>
      (p = idx @ [i] \<and> f = g \<and> q = below_name pre (own_name g)) \<or>
      (walkable env g \<and> (\<exists>ks. p = (idx @ [i]) @ ks \<and> once_path env (walkable env) st (rf_type g) ks f \<and> d + 1 + length ks \<le> 257 \<and>
         q = below_name pre (own_name g @ path_names env (rf_type g) ks))) \<or>
      (\<exists>ix. p = idx @ ix \<and> path_from env (walkable env) st (i + 1) fs ix f \<and> d + length ix \<le> 257 \<and>
       q = below_name pre (names_from env (i + 1) fs ix))"
    (is "?l \<longleftrightarrow> ?a \<or> ?b \<or> ?c")
  proof
    assume ?l
    then obtain ix where ix: "p = idx @ ix" "path_from env (walkable env) st i (g # fs) ix f" "d + length ix \<le> 257"
      "q = below_name pre (names_from env i (g # fs) ix)" by blast
    from ix(2) show "?a \<or> ?b \<or> ?c" unfolding path_from_Cons
    proof (elim disjE exE conjE)
      assume "path_from env (walkable env) st (i + 1) fs ix f"
      then show ?thesis using ix names_from_below by metis
    qed (use ix in \<open>auto simp: names_from_def\<close>)
  next
    assume "?a \<or> ?b \<or> ?c"
    then show ?l
    proof (elim disjE)
      assume ?a
      then show ?l using 3(4) by (intro exI [of _ "[i]"]) (simp add: path_from_Cons names_from_def)
    next
      assume ?b
      then obtain ks where "p = (idx @ [i]) @ ks" "once_path env (walkable env) st (rf_type g) ks f" "d + 1 + length ks \<le> 257" "walkable env g"
         "q = below_name pre (own_name g @ path_names env (rf_type g) ks)" by blast
      then show ?l by (intro exI [of _ "i # ks"]) (simp add: path_from_Cons names_from_def)
    next
      assume ?c
      then show ?l using names_from_below unfolding path_from_Cons by metis
    qed
  qed
  have self: "walk_path pre g = below_name pre (own_name g)" using walk_path_names [of pre g "[]"] by (simp add: below_name_def)
  show ?case
    unfolding head step using sub none 3(2) [OF 3(3,4)] unfolding self
    by (cases "walkable env g"; cases ?into) auto
qed simp

lemma walk_set:
  "(q, ix, f) \<in> set (walk env (into_structs env) t) \<longleftrightarrow> meta_field env t ix f \<and> q = join_with ''.'' (path_names env t ix)"
  using walk_struct_paths(1) [OF refl, of q ix f env 0 "[]" "''''" "[]" t]
  by (auto simp: walk_def meta_field_def below_name_def)

section \<open>What a tag asks\<close>

definition tokens :: "string \<Rightarrow> string list" where
  "tokens tag = map trim_space (split_char (CHR '','') tag)"

definition last_opt :: "'a list \<Rightarrow> 'a option" where
  "last_opt xs = (if xs = [] then None else Some (last xs))"

text \<open>The bound of a tag is that of its last \<open>min=\<close> or \<open>max=\<close> token with a number; the choices are those of its last
  \<open>oneof=\<close> token; the default is that of its first \<open>default=\<close> token.\<close>

definition last_bound :: "number_ops \<Rightarrow> string \<Rightarrow> string \<Rightarrow> gfloat option" where
  "last_bound ops key tag =
     last_opt (List.map_filter (\<lambda>t. if has_prefix t key then no_parse_float ops 64 (drop 4 t) else None) (tokens tag))"

definition last_choices :: "string \<Rightarrow> string list option" where
  "last_choices tag = map_option (\<lambda>t. split_char (CHR ''|'') (drop 6 t)) (last_opt (filter (\<lambda>t. has_prefix t ''oneof='') (tokens tag)))"

definition first_default :: "string \<Rightarrow> string option" where
  "first_default tag = map_option (drop 8) (find (\<lambda>t. has_prefix t ''default='') (tokens tag))"

text \<open>The value at an index path, through pointers that are not nil.\<close>

inductive holds_at :: "rval \<Rightarrow> nat list \<Rightarrow> rval \<Rightarrow> bool" where
  holds_here: "holds_at v [] v"
| holds_ptr: "ix \<noteq> [] \<Longrightarrow> holds_at v ix x \<Longrightarrow> holds_at (VPtr (Some v)) ix x"
| holds_struct: "i < length vs \<Longrightarrow> holds_at (vs ! i) ix x \<Longrightarrow> holds_at (VStruct vs) (i # ix) x"

text \<open>What is wrong with the value of a field: an empty required one, and else, behind its pointers, a number outside
  a bound or a text that is none of the choices.\<close>

definition examined :: "string \<Rightarrow> rval \<Rightarrow> rval \<Rightarrow> bool" where
  "examined tag v u \<longleftrightarrow> \<not> (''required'' \<in> set (tokens tag) \<and> is_zero v) \<and> strip_ptr v = Some u"

definition tag_fault :: "number_ops \<Rightarrow> string \<Rightarrow> rval \<Rightarrow> violation_kind \<Rightarrow> bool" where
  "tag_fault ops tag v k =
     (case k of
        RequiredEmpty \<Rightarrow> ''required'' \<in> set (tokens tag) \<and> is_zero v
      | BelowMin x lo \<Rightarrow> (\<exists>u. examined tag v u \<and> numeric_as_float ops u = Some x) \<and> last_bound ops ''min='' tag = Some lo \<and> float_less x lo
      | AboveMax x hi \<Rightarrow> (\<exists>u. examined tag v u \<and> numeric_as_float ops u = Some x) \<and> last_bound ops ''max='' tag = Some hi \<and> float_less hi x
      | NotOneOf s opts \<Rightarrow> (\<exists>u. examined tag v u \<and> s = no_sprint ops u) \<and> last_choices tag = Some opts \<and> s \<notin> set opts)"

lemma last_opt_snoc [simp]: "last_opt [] = None" "last_opt (xs @ [x]) = Some x"
  by (simp_all add: last_opt_def)

lemma map_filter_snoc: "List.map_filter f (xs @ [x]) = List.map_filter f xs @ (case f x of None \<Rightarrow> [] | Some y \<Rightarrow> [y])"
  by (simp add: List.map_filter_def split: option.split)

lemma keyed_tokens:
  "has_prefix t ''min='' \<Longrightarrow> t \<noteq> '''' \<and> t \<noteq> ''required''"
  "has_prefix t ''max='' \<Longrightarrow> t \<noteq> '''' \<and> t \<noteq> ''required'' \<and> \<not> has_prefix t ''min=''"
  "has_prefix t ''oneof='' \<Longrightarrow> t \<noteq> '''' \<and> t \<noteq> ''required'' \<and> \<not> has_prefix t ''min='' \<and> \<not> has_prefix t ''max=''"
  by (auto simp: has_prefix_iff)

lemma trim_keys:
  "has_prefix t ''min='' \<Longrightarrow> trim_prefix t ''min='' = drop 4 t"
  "has_prefix t ''max='' \<Longrightarrow> trim_prefix t ''max='' = drop 4 t"
  "has_prefix t ''oneof='' \<Longrightarrow> trim_prefix t ''oneof='' = drop 6 t"
  "has_prefix t ''default='' \<Longrightarrow> trim_prefix t ''default='' = drop 8 t"
  by (auto simp: trim_prefix_def has_prefix_iff numeral_eq_Suc)

lemma token_fields:
  "fc_min (tag_token ops t fs) = (case (if has_prefix (trim_space t) ''min='' then no_parse_float ops 64 (drop 4 (trim_space t)) else None) of
      None \<Rightarrow> fc_min fs | Some b \<Rightarrow> Some b)"
  "fc_max (tag_token ops t fs) = (case (if has_prefix (trim_space t) ''max='' then no_parse_float ops 64 (drop 4 (trim_space t)) else None) of
      None \<Rightarrow> fc_max fs | Some b \<Rightarrow> Some b)"
  "fc_oneof (tag_token ops t fs) = (if has_prefix (trim_space t) ''oneof='' then split_char (CHR ''|'') (drop 6 (trim_space t)) else fc_oneof fs)"
  by (cases "has_prefix (trim_space t) ''min=''"; cases "has_prefix (trim_space t) ''max=''"; cases "has_prefix (trim_space t) ''oneof=''";
      use keyed_tokens [of "trim_space t"] in \<open>simp add: tag_token_def Let_def trim_keys split: option.split\<close>)+

lemma parse_bounds:
  "fc_min (fold (tag_token ops) ts no_constraint) =
     last_opt (List.map_filter (\<lambda>t. if has_prefix t ''min='' then no_parse_float ops 64 (drop 4 t) else None) (map trim_space ts))"
  "fc_max (fold (tag_token ops) ts no_constraint) =
     last_opt (List.map_filter (\<lambda>t. if has_prefix t ''max='' then no_parse_float ops 64 (drop 4 t) else None) (map trim_space ts))"
  "fc_oneof (fold (tag_token ops) ts no_constraint) =
     (case last_opt (filter (\<lambda>t. has_prefix t ''oneof='') (map trim_space ts)) of None \<Rightarrow> [] | Some t \<Rightarrow> split_char (CHR ''|'') (drop 6 t))"
proof (induction ts rule: rev_induct)
  case Nil
  { case 1 show ?case by (simp add: no_constraint_def List.map_filter_simps)
  next case 2 show ?case by (simp add: no_constraint_def List.map_filter_simps)
  next case 3 show ?case by (simp add: no_constraint_def) }
next
  case (snoc t ts)
  { case 1 show ?case using snoc(1) by (simp add: token_fields(1) map_filter_snoc split: option.split)
  next case 2 show ?case using snoc(2) by (simp add: token_fields(2) map_filter_snoc split: option.split)
  next case 3 show ?case using snoc(3) by (simp add: token_fields(3)) }
qed

lemma parsed_tag:
  "fc_required (parse_field_tag ops tag) \<longleftrightarrow> ''required'' \<in> set (tokens tag)"
  "fc_min (parse_field_tag ops tag) = last_bound ops ''min='' tag"
  "fc_max (parse_field_tag ops tag) = last_bound ops ''max='' tag"
  "fc_oneof (parse_field_tag ops tag) = (case last_choices tag of None \<Rightarrow> [] | Some cs \<Rightarrow> cs)"
  using required_in_tag [of ops tag]
  by (auto simp: parse_field_tag_def parse_bounds last_bound_def last_choices_def tokens_def split: option.split)

lemma choices_not_Nil: "last_choices tag = Some cs \<Longrightarrow> cs \<noteq> []"
  by (auto simp: last_choices_def)

lemma field_at_holds: "field_at v ix = Some x \<longleftrightarrow> holds_at v ix x"
proof
  show "field_at v ix = Some x \<Longrightarrow> holds_at v ix x"
  proof (induction ix arbitrary: v)
    case (Cons i ix)
    then obtain vs where vs: "strip_ptr v = Some (VStruct vs)" "i < length vs" "field_at (vs ! i) ix = Some x"
      unfolding field_at_Cons by blast
    have "strip_ptr w = Some (VStruct vs) \<Longrightarrow> holds_at w (i # ix) x" for w
      by (induction w rule: strip_ptr.induct) (use vs(2) Cons.IH [OF vs(3)] in \<open>auto intro: holds_at.intros\<close>)
    then show ?case using vs(1) by blast
  qed (auto intro: holds_here)
  show "holds_at v ix x \<Longrightarrow> field_at v ix = Some x"
  proof (induction rule: holds_at.induct)
    case (holds_ptr ix v x)
    then show ?case by (cases ix) auto
  qed auto
qed

lemma reported:
  "\<lparr>fv_path = p, fv_kind = k\<rparr> \<in> set (check_constraint ops target (parse_field_tag ops tag\<lparr>fc_path := q, fc_index := ix\<rparr>)) \<longleftrightarrow>
     p = q \<and> (\<exists>v. holds_at target ix v \<and> tag_fault ops tag v k)"
proof (cases "field_at target ix")
  case None
  then have "\<not> holds_at target ix v" for v using field_at_holds [of target ix v] by simp
  then show ?thesis using None by (simp add: check_constraint_def)
next
  case (Some v)
  have u: "(\<exists>v. holds_at target ix v \<and> P v) \<longleftrightarrow> P v" for P
    using Some field_at_holds [of target ix] by (metis option.inject)
  have "k \<in> set (if fc_required (parse_field_tag ops tag) \<and> is_zero v then [RequiredEmpty]
            else (case strip_ptr v of None \<Rightarrow> [] | Some u \<Rightarrow>
                    range_violations ops (parse_field_tag ops tag) u @ oneof_violations ops (parse_field_tag ops tag) u)) \<longleftrightarrow>
      tag_fault ops tag v k"
    using choices_not_Nil [of tag]
    by (cases k; cases "strip_ptr v")
      (auto simp: tag_fault_def examined_def parsed_tag range_violations_def oneof_violations_def split: option.splits)
  moreover have "range_violations ops (fc\<lparr>fc_path := a, fc_index := b\<rparr>) u = range_violations ops fc u"
    "oneof_violations ops (fc\<lparr>fc_path := a, fc_index := b\<rparr>) u = oneof_violations ops fc u" for fc a b u
    by (simp_all add: range_violations_def oneof_violations_def cong: option.case_cong)
  ultimately show ?thesis unfolding u by (auto simp: check_constraint_def Some)
qed

lemma quiet_tag: "\<not> constraining (parse_field_tag ops tag) \<Longrightarrow> \<not> tag_fault ops tag v k"
  using choices_not_Nil [of tag]
  by (cases k) (auto simp: constraining_def parsed_tag tag_fault_def split: option.splits)

lemma meta_field_deref [simp]: "meta_field env (deref t) ix f = meta_field env t ix f"
  by (simp add: meta_field_def)

section \<open>What a default denotes\<close>

text \<open>A decimal number by the places of its digits.\<close>

definition positional :: "string \<Rightarrow> int" where
  "positional ds = (\<Sum>i < length ds. digit_val (ds ! i) * 10 ^ (length ds - 1 - i))"

definition decimal :: "string \<Rightarrow> int \<Rightarrow> bool" where
  "decimal s n \<longleftrightarrow> (\<exists>ds. is_all_digits ds \<and>
     ((s = ds \<or> s = CHR ''+'' # ds) \<and> n = positional ds \<or> s = CHR ''-'' # ds \<and> n = - positional ds))"

text \<open>The value a default text denotes for a field that holds \<open>y\<close>.\<close>

definition denotes :: "number_ops \<Rightarrow> string \<Rightarrow> rval \<Rightarrow> rval \<Rightarrow> bool" where
  "denotes ops raw y x =
     (case y of
        VString s \<Rightarrow> x = VString raw
      | VBool b \<Rightarrow> raw \<in> {''1'', ''t'', ''T'', ''true'', ''TRUE'', ''True''} \<and> x = VBool True \<or>
                   raw \<in> {''0'', ''f'', ''F'', ''false'', ''FALSE'', ''False''} \<and> x = VBool False
      | VInt w m \<Rightarrow> (\<exists>n. decimal raw n \<and> - (2 ^ (w - 1)) \<le> n \<and> n < 2 ^ (w - 1) \<and> x = VInt w n)
      | VUint w m \<Rightarrow> is_all_digits raw \<and> positional raw < 2 ^ w \<and> x = VUint w (positional raw)
      | VFloat w g \<Rightarrow> (\<exists>f. no_parse_float ops w raw = Some f \<and> x = VFloat w f)
      | _ \<Rightarrow> False)"

lemma positional_val: "positional ds = digits_val ds"
proof (induction ds rule: rev_induct)
  case (snoc d ds)
  have "positional (ds @ [d]) = (\<Sum>i < length ds. digit_val (ds ! i) * 10 ^ (length ds - i)) + digit_val d"
    by (simp add: positional_def nth_append)
  also have "(\<Sum>i < length ds. digit_val (ds ! i) * 10 ^ (length ds - i)) = (\<Sum>i < length ds. 10 * (digit_val (ds ! i) * 10 ^ (length ds - 1 - i)))"
  proof (rule sum.cong [OF refl])
    fix i assume "i \<in> {..<length ds}"
    then have "length ds - i = Suc (length ds - 1 - i)" by simp
    then show "digit_val (ds ! i) * 10 ^ (length ds - i) = 10 * (digit_val (ds ! i) * 10 ^ (length ds - 1 - i))"
      by (simp only: power_Suc)
  qed
  also have "\<dots> = 10 * positional ds" by (simp add: positional_def sum_distrib_left)
  finally show ?case using snoc by (simp add: digits_val_def)
qed (simp add: positional_def digits_val_def)

lemma parse_decimal: "parse_int64 s = Some n \<Longrightarrow> decimal s n"
  unfolding decimal_def positional_val
  by (cases s) (auto simp: parse_int64_def is_all_digits_def Let_def split: if_splits)

lemma assign_denotes: "assign_from_tag ops raw y = Some x \<Longrightarrow> denotes ops raw y x"
proof (cases y)
  case (VBool b)
  moreover assume "assign_from_tag ops raw y = Some x"
  ultimately obtain c where "parse_bool raw = Some c" "x = VBool c" by (auto simp: assign_from_tag_def)
  then show ?thesis
    unfolding parse_bool_def list.set VBool denotes_def rval.case by (cases c) (simp_all split: if_split_asm)
qed (auto simp: assign_from_tag_def denotes_def parse_int_bits_def parse_uint_bits_def positional_val
    dest: parse_decimal split: if_splits option.splits)

lemma apply_defaults_keeps_scalar:
  "apply_defaults ops es v = Inr v' \<Longrightarrow> field_at v ix = Some y \<Longrightarrow> scalar y \<Longrightarrow>
   \<forall>e \<in> set es. df_settable e \<and> df_index e = ix \<longrightarrow> \<not> is_zero y \<Longrightarrow> field_at v' ix = Some y"
proof (induction es arbitrary: v)
  case (Cons e es)
  show ?case
  proof (cases "\<exists>fv. field_at v (df_index e) = Some fv \<and> df_settable e \<and> is_zero fv")
    case False
    then have "apply_defaults ops es v = Inr v'" using Cons.prems(1) by (auto split: option.splits if_splits)
    then show ?thesis using Cons by auto
  next
    case True
    then obtain fv where fv: "field_at v (df_index e) = Some fv" "df_settable e" "is_zero fv" by blast
    then obtain x where x: "assign_from_tag ops (df_raw e) fv = Some x" "apply_defaults ops es (set_field (df_index e) x v) = Inr v'"
      using Cons.prems(1) by (auto split: option.splits)
    have sc: "scalar fv" "scalar x" using assign_scalar [OF x(1)] by auto
    have "ix \<noteq> df_index e" using fv Cons.prems(2,4) by auto
    moreover have "\<not> strict_prefix ix (df_index e)" using no_field_below [OF Cons.prems(2,3)] fv(1) by auto
    ultimately have "field_at (set_field (df_index e) x v) ix = Some y"
      using field_at_set [OF fv(1) sc, of ix] Cons.prems(2) by simp
    then show ?thesis using Cons.IH [OF x(2) _ Cons.prems(3)] Cons.prems(4) by simp
  qed
qed simp

lemma apply_defaults_fills:
  "apply_defaults ops es v = Inr v' \<Longrightarrow> distinct (map df_index es) \<Longrightarrow> e \<in> set es \<Longrightarrow> df_settable e \<Longrightarrow>
   field_at v (df_index e) = Some y \<Longrightarrow> scalar y \<Longrightarrow> is_zero y \<Longrightarrow>
   \<exists>x. field_at v' (df_index e) = Some x \<and> denotes ops (df_raw e) y x"
proof (induction es arbitrary: v)
  case (Cons g es)
  show ?case
  proof (cases "\<exists>fv. field_at v (df_index g) = Some fv \<and> df_settable g \<and> is_zero fv")
    case False
    then have "apply_defaults ops es v = Inr v'" using Cons.prems(1) by (auto split: option.splits if_splits)
    moreover have "e \<in> set es" using False Cons.prems by auto
    ultimately show ?thesis using Cons by auto
  next
    case True
    then obtain fv where fv: "field_at v (df_index g) = Some fv" "df_settable g" "is_zero fv" by blast
    then obtain x where x: "assign_from_tag ops (df_raw g) fv = Some x" "apply_defaults ops es (set_field (df_index g) x v) = Inr v'"
      using Cons.prems(1) by (auto split: option.splits)
    have sc: "scalar fv" "scalar x" using assign_scalar [OF x(1)] by auto
    show ?thesis
    proof (cases "df_index e = df_index g")
      case True
      have "e = g"
      proof (rule ccontr)
        assume "e \<noteq> g"
        then have "e \<in> set es" using Cons.prems(3) by simp
        then have "df_index e \<in> df_index ` set es" by (rule imageI)
        then show False using Cons.prems(2) True by simp
      qed
      have "field_at (set_field (df_index g) x v) (df_index g) = Some x" using field_at_set [OF fv(1) sc, of "df_index g"] by simp
      moreover have "\<forall>h \<in> set es. df_settable h \<and> df_index h = df_index g \<longrightarrow> \<not> is_zero x"
        using Cons.prems(2) by (auto simp: image_iff)
      ultimately have "field_at v' (df_index g) = Some x" using apply_defaults_keeps_scalar [OF x(2) _ sc(2)] by blast
      moreover have "fv = y" using fv(1) Cons.prems(5) True by simp
      ultimately show ?thesis using assign_denotes [OF x(1)] \<open>e = g\<close> by auto
    next
      case False
      then have e: "e \<in> set es" using Cons.prems(3) by auto
      have "\<not> strict_prefix (df_index e) (df_index g)" using no_field_below [OF Cons.prems(5,6)] fv(1) by auto
      then have "field_at (set_field (df_index g) x v) (df_index e) = Some y"
        using field_at_set [OF fv(1) sc, of "df_index e"] Cons.prems(5) False by simp
      then show ?thesis using Cons.IH [OF x(2) _ e Cons.prems(4) _ Cons.prems(6,7)] Cons.prems(2) by simp
    qed
  qed
qed simp

lemma default_token: "default_tag_value tag = first_default tag"
proof -
  have "default_in ts = map_option (drop 8) (find (\<lambda>t. has_prefix t ''default='') (map trim_space ts))" for ts
    by (induction ts) (simp_all add: Let_def trim_keys)
  moreover have "first_default '''' = None" by code_simp
  ultimately show ?thesis by (simp add: default_tag_value_def first_default_def tokens_def)
qed

lemma defaults_plan_set:
  "e \<in> set (defaults_plan env t) \<longleftrightarrow>
     (\<exists>f. meta_field env t (df_index e) f \<and> first_default (tag_get f ''fc'') = Some (df_raw e) \<and> df_settable e = rf_exported f)"
proof -
  have "e \<in> set (defaults_plan env t) \<longleftrightarrow> (\<exists>p \<in> set (walk env (into_structs env) (deref t)). default_of p = Some e)"
    using walk_not_struct [of env t "into_structs env"] by (simp add: defaults_plan_def map_filter_set)
  also have "\<dots> \<longleftrightarrow> (\<exists>q ix f. (q, ix, f) \<in> set (walk env (into_structs env) (deref t)) \<and> default_of (q, ix, f) = Some e)" by auto
  also have "\<dots> \<longleftrightarrow> (\<exists>f. meta_field env t (df_index e) f \<and> first_default (tag_get f ''fc'') = Some (df_raw e) \<and> df_settable e = rf_exported f)"
    unfolding walk_set by (cases e) (auto simp: default_of_def default_token)
  finally show ?thesis .
qed

section \<open>Properties\<close>

text \<open>C30. Field constraints are enforced and nothing else is: \<open>CheckFieldMeta\<close> reports a fault under a path exactly when some
  field of the type, exported or an embedded struct, has that dotted path, the value holds a value there (through pointers that
  are not nil), and that value has this fault by the field's own \<open>fc\<close> tag: empty although a token is \<open>required\<close>, or else, behind
  its pointers, a number below the last \<open>min=\<close> or above the last \<open>max=\<close> token, or a printed form that is none of the
  last \<open>oneof=\<close> choices. The fields are those on paths of struct fields that enter no type twice and are at most 257 long:
  the code cuts recursive types there, and constraints below are not enforced.\<close>

theorem field_meta_exact:
  "\<lparr>fv_path = p, fv_kind = k\<rparr> \<in> set (check_field_meta ops env t target) \<longleftrightarrow>
     (\<exists>ix f v. meta_field env t ix f \<and> p = join_with ''.'' (path_names env t ix) \<and> holds_at target ix v \<and>
        tag_fault ops (tag_get f ''fc'') v k)"
proof -
  have "\<lparr>fv_path = p, fv_kind = k\<rparr> \<in> set (check_field_meta ops env t target) \<longleftrightarrow>
      (\<exists>q ix f spec. (q, ix, f) \<in> set (walk env (into_structs env) (deref t)) \<and> constraint_of ops (q, ix, f) = Some spec \<and>
        \<lparr>fv_path = p, fv_kind = k\<rparr> \<in> set (check_constraint ops target spec))"
  proof -
    have "\<lparr>fv_path = p, fv_kind = k\<rparr> \<in> set (check_field_meta ops env t target) \<longleftrightarrow>
        (\<exists>spec. spec \<in> set (field_meta_plan ops env t) \<and> \<lparr>fv_path = p, fv_kind = k\<rparr> \<in> set (check_constraint ops target spec))"
      by (auto simp: check_field_meta_def)
    then show ?thesis unfolding field_meta_plan_set Bex_def split_paired_Ex by blast
  qed
  also have "\<dots> \<longleftrightarrow> (\<exists>q ix f. (q, ix, f) \<in> set (walk env (into_structs env) (deref t)) \<and>
      p = q \<and> (\<exists>v. holds_at target ix v \<and> tag_fault ops (tag_get f ''fc'') v k))"
  proof -
    have "(\<exists>spec. constraint_of ops (q, ix, f) = Some spec \<and> \<lparr>fv_path = p, fv_kind = k\<rparr> \<in> set (check_constraint ops target spec)) \<longleftrightarrow>
        p = q \<and> (\<exists>v. holds_at target ix v \<and> tag_fault ops (tag_get f ''fc'') v k)" for q ix f
    proof (cases "tag_get f ''fc'' \<noteq> '''' \<and> constraining (parse_field_tag ops (tag_get f ''fc''))")
      case True
      then show ?thesis using reported by (simp add: constraint_of_def Let_def)
    next
      case False
      then have "\<not> constraining (parse_field_tag ops (tag_get f ''fc''))" using empty_tag [of ops] by auto
      then show ?thesis using False quiet_tag by (auto simp: constraint_of_def Let_def)
    qed
    then show ?thesis by (simp only: ex_simps)
  qed
  also have "\<dots> \<longleftrightarrow> (\<exists>ix f. (p, ix, f) \<in> set (walk env (into_structs env) (deref t)) \<and>
      (\<exists>v. holds_at target ix v \<and> tag_fault ops (tag_get f ''fc'') v k))"
    by simp
  finally show ?thesis unfolding walk_set meta_field_deref path_names_deref by blast
qed

text \<open>C31. Defaults fill what is empty and overwrite nothing: when \<open>ApplyStructDefaults\<close> succeeds, a scalar that was zero in an
  exported field whose tag has a default holds exactly what the text of its first \<open>default=\<close> token denotes for its kind (the
  text, the truth value, the decimal number if its width holds it); every other scalar of the value, zero or not, is
  unchanged. The fields are those of the constraints, recursive types cut as there.\<close>

theorem defaults_fill_only:
  assumes "apply_struct_defaults ops env t v = Inr v'" and "holds_at v ix y" and "scalar y"
  shows "(is_zero y \<and> (\<exists>f raw. meta_field env t ix f \<and> rf_exported f \<and> first_default (tag_get f ''fc'') = Some raw) \<longrightarrow>
       (\<exists>x f raw. holds_at v' ix x \<and> meta_field env t ix f \<and> first_default (tag_get f ''fc'') = Some raw \<and> denotes ops raw y x)) \<and>
    (\<not> (is_zero y \<and> (\<exists>f raw. meta_field env t ix f \<and> rf_exported f \<and> first_default (tag_get f ''fc'') = Some raw)) \<longrightarrow>
       holds_at v' ix y)"
proof (intro conjI impI)
  have run: "apply_defaults ops (defaults_plan env t) v = Inr v'" using assms(1) by (simp add: apply_struct_defaults_def)
  have y: "field_at v ix = Some y" using assms(2) field_at_holds by blast
  {
    assume "is_zero y \<and> (\<exists>f raw. meta_field env t ix f \<and> rf_exported f \<and> first_default (tag_get f ''fc'') = Some raw)"
    then obtain f raw where z: "is_zero y" and f: "meta_field env t ix f" "rf_exported f" "first_default (tag_get f ''fc'') = Some raw"
      by blast
    let ?e = "\<lparr>df_index = ix, df_raw = raw, df_settable = True\<rparr>"
    have "?e \<in> set (defaults_plan env t)" unfolding defaults_plan_set using f by auto
    from apply_defaults_fills [OF run defaults_plan_distinct this] y z assms(3)
    show "\<exists>x f raw. holds_at v' ix x \<and> meta_field env t ix f \<and> first_default (tag_get f ''fc'') = Some raw \<and> denotes ops raw y x"
      using f field_at_holds by auto
  next
    assume n: "\<not> (is_zero y \<and> (\<exists>f raw. meta_field env t ix f \<and> rf_exported f \<and> first_default (tag_get f ''fc'') = Some raw))"
    have "\<forall>e \<in> set (defaults_plan env t). df_settable e \<and> df_index e = ix \<longrightarrow> \<not> is_zero y"
      using n by (auto simp: defaults_plan_set)
    then show "holds_at v' ix y" using apply_defaults_keeps_scalar [OF run y assms(3)] field_at_holds by blast
  }
qed

text \<open>A service with a nested server, a port default and a required name.\<close>

definition demo_ops :: number_ops where
  "demo_ops = \<lparr>no_parse_float = (\<lambda>w s. map_option (\<lambda>n. FFin (of_int n)) (parse_int64 s)), no_round = (\<lambda>n. FFin (of_int n)),
     no_sprint = (\<lambda>v. case v of VString s \<Rightarrow> s | _ \<Rightarrow> '''')\<rparr>"

definition demo_field :: "string \<Rightarrow> string \<Rightarrow> rtype \<Rightarrow> rfield" where
  "demo_field n tag t = RField n True False [(''fc'', tag)] t"

definition demo_type :: rtype where
  "demo_type = RStruct [demo_field ''Name'' ''required'' (RPrim PString),
     demo_field ''Server'' '''' (RPtr (RStruct [demo_field ''Port'' ''default=8080,min=1024'' (RPrim (PInt 32))]))]"

definition demo_value :: "rval \<Rightarrow> rval" where
  "demo_value port = VPtr (Some (VStruct [VString ''x'', VPtr (Some (VStruct [port]))]))"

lemma demo_defaults: "apply_struct_defaults demo_ops [] demo_type (demo_value (VInt 32 0)) = Inr (demo_value (VInt 32 8080))"
  by code_simp


theorem defaults_fill_only_witness:
  "holds_at (demo_value (VInt 32 8080)) [0] (VString ''x'')"
proof -
  have "holds_at (demo_value (VInt 32 0)) [0] (VString ''x'')"
    by (simp add: field_at_holds [symmetric] demo_value_def)
  from defaults_fill_only [OF demo_defaults this] show ?thesis by (simp add: scalar_def)
qed

theorem field_meta_exact_witness:
  "\<exists>ix f v. meta_field [] demo_type ix f \<and> ''server.port'' = join_with ''.'' (path_names [] demo_type ix) \<and>
     holds_at (demo_value (VInt 32 80)) ix v \<and> tag_fault demo_ops (tag_get f ''fc'') v (BelowMin (FFin 80) (FFin 1024))"
proof -
  have "check_field_meta demo_ops [] demo_type (demo_value (VInt 32 80)) = [\<lparr>fv_path = ''server.port'', fv_kind = BelowMin (FFin 80) (FFin 1024)\<rparr>]"
    by code_simp
  then have "\<lparr>fv_path = ''server.port'', fv_kind = BelowMin (FFin 80) (FFin 1024)\<rparr> \<in>
      set (check_field_meta demo_ops [] demo_type (demo_value (VInt 32 80)))" by simp
  then show ?thesis unfolding field_meta_exact .
qed

end
