(* ===== verification/Patch.thy ===== *)
theory Patch
  imports Paths
begin

text \<open>
  \<open>confmap/patch.go\<close>: RFC 6902 JSON Patch on the merged document. A \<open>patchOp\<close> is the decoded JSON
  object of one operation: its members with the value each raw message decodes to, so a present
  \<open>null\<close> differs from a missing member. What \<open>json.Unmarshal\<close> makes of the patch bytes is the
  \<open>patch_doc\<close> argument of \<open>apply_patch\<close>. The shortest decimal form \<open>json.Marshal\<close> prints for a
  finite float is the parameter \<open>ff\<close>; integers and \<open>json.Number\<close> are printed by the model.

  The code edits maps of its private deep clone in place; no subtree is shared there (\<open>copy\<close> clones,
  \<open>move\<close> unlinks first), so the model returns the edited tree.
\<close>

section \<open>Definitions\<close>

type_synonym patch_op = "(string \<times> gval) list"

datatype patch_error =
    NotString string | Missing string | BadPointer string | BadEscape string
  | UnknownOp string | BadIndex string | IndexRange int | SegmentNotFound string
  | CannotIndex gval string | NullIndex string | CannotAdd string | CannotRemove string
  | MoveIntoChild | RemoveRoot | TestFailed
  | PatchDecode | PatchNotArray | RootNotObject
  | PatchPanic               \<comment> \<open>a run-time panic: a write to a nil map, an index out of range\<close>

text \<open>\<open>patchOp.str\<close>: absent, or a string, or an error.\<close>

definition op_str :: "patch_op \<Rightarrow> string \<Rightarrow> patch_error + string option" where
  "op_str op key =
     (case kv_get op key of
        None \<Rightarrow> Inr None
      | Some v \<Rightarrow> (case v of GLeaf (LStr s) \<Rightarrow> Inr (Some s) | _ \<Rightarrow> Inl (NotString key)))"

fun escapes_ok :: "string \<Rightarrow> bool" where
  "escapes_ok [] = True"
| "escapes_ok (c # r) =
     (if c = CHR ''~'' then
        (case r of [] \<Rightarrow> False
         | d # r' \<Rightarrow> (d = CHR ''0'' \<or> d = CHR ''1'') \<and> escapes_ok r')
      else escapes_ok r)"

text \<open>\<open>strings.ReplaceAll\<close> of a two-byte pattern by one byte.\<close>

fun replace_pair :: "char \<Rightarrow> char \<Rightarrow> char \<Rightarrow> string \<Rightarrow> string" where
  "replace_pair a b c (x # y # r) =
     (if x = a \<and> y = b then c # replace_pair a b c r else x # replace_pair a b c (y # r))"
| "replace_pair a b c s = s"

definition unescape :: "string \<Rightarrow> string" where
  "unescape t = replace_pair (CHR ''~'') (CHR ''0'') (CHR ''~'')
                  (replace_pair (CHR ''~'') (CHR ''1'') (CHR ''/'') t)"

definition parse_pointer :: "string \<Rightarrow> patch_error + string list" where
  "parse_pointer s =
     (case s of
        [] \<Rightarrow> Inr []
      | c # r \<Rightarrow>
          if c \<noteq> CHR ''/'' then Inl (BadPointer s)
          else if list_all escapes_ok (split_char (CHR ''/'') r)
          then Inr (map unescape (split_char (CHR ''/'') r))
          else Inl (BadEscape s))"

definition op_pointer :: "patch_op \<Rightarrow> string \<Rightarrow> patch_error + string list" where
  "op_pointer op key =
     rbind (op_str op key) (\<lambda>s. case s of None \<Rightarrow> Inl (Missing key) | Some p \<Rightarrow> parse_pointer p)"

definition is_prefix :: "string list \<Rightarrow> string list \<Rightarrow> bool" where
  "is_prefix pre path \<longleftrightarrow> length pre \<le> length path \<and> pre = take (length pre) path"

definition array_index :: "string \<Rightarrow> nat \<Rightarrow> bool \<Rightarrow> patch_error + int" where
  "array_index tok n for_add =
     (if tok = ''-'' \<and> for_add then Inr (int n)
      else (case parse_int64 tok of
              None \<Rightarrow> Inl (BadIndex tok)
            | Some i \<Rightarrow>
                if \<not> is_all_digits tok \<or> 1 < length tok \<and> hd tok = CHR ''0'' then Inl (BadIndex tok)
                else if i > int n \<or> i = int n \<and> \<not> for_add then Inl (IndexRange i)
                else Inr i))"

text \<open>Go's \<open>c[i]\<close>, \<open>c[i] = v\<close>, \<open>slices.Insert(c, i, v)\<close> and \<open>slices.Delete(c, i, i+1)\<close>: they panic when the index is out
  of range.\<close>

definition slice_get :: "gval list \<Rightarrow> int \<Rightarrow> patch_error + gval" where
  "slice_get c i = (if 0 \<le> i \<and> i < int (length c) then Inr (c ! nat i) else Inl PatchPanic)"

definition slice_put :: "gval list \<Rightarrow> int \<Rightarrow> gval \<Rightarrow> patch_error + gval" where
  "slice_put c i v = (if 0 \<le> i \<and> i < int (length c) then Inr (GSlice (c[nat i := v])) else Inl PatchPanic)"

definition slice_insert :: "gval list \<Rightarrow> int \<Rightarrow> gval \<Rightarrow> patch_error + gval" where
  "slice_insert c i v =
     (if 0 \<le> i \<and> i \<le> int (length c) then Inr (GSlice (take (nat i) c @ v # drop (nat i) c)) else Inl PatchPanic)"

definition slice_delete :: "gval list \<Rightarrow> int \<Rightarrow> patch_error + gval" where
  "slice_delete c i =
     (if 0 \<le> i \<and> i < int (length c) then Inr (GSlice (take (nat i) c @ drop (Suc (nat i)) c)) else Inl PatchPanic)"

text \<open>One step of \<open>getAt\<close>'s loop, and the loop.\<close>

definition child_at :: "gval \<Rightarrow> string \<Rightarrow> patch_error + gval" where
  "child_at node tok =
     (case as_map node of
        Some m \<Rightarrow> (case kv_get m tok of None \<Rightarrow> Inl (SegmentNotFound tok) | Some v \<Rightarrow> Inr v)
      | None \<Rightarrow>
          (case as_slice node of
             Some xs \<Rightarrow> rbind (array_index tok (length xs) False) (slice_get xs)
           | None \<Rightarrow> Inl (CannotIndex node tok)))"

fun get_node :: "gval \<Rightarrow> string list \<Rightarrow> patch_error + gval" where
  "get_node node [] = Inr node"
| "get_node node (tok # path) = rbind (child_at node tok) (\<lambda>v. get_node v path)"

fun patch_null :: "gval \<Rightarrow> bool" where
  "patch_null (GLeaf LNil) = True"
| "patch_null GNilMap = True"
| "patch_null GNilSlice = True"
| "patch_null _ = False"

type_synonym leaf_edit = "gval \<Rightarrow> string \<Rightarrow> patch_error + gval"

definition add_to :: "gval \<Rightarrow> leaf_edit" where
  "add_to value container tok =
     (case container of
        GLeaf l \<Rightarrow> if l = LNil then Inr value else Inl (CannotAdd tok)
      | GMap m \<Rightarrow> Inr (GMap (kv_set tok value m))
      | GNilMap \<Rightarrow> Inl PatchPanic
      | GSlice xs \<Rightarrow> rbind (array_index tok (length xs) True) (\<lambda>i. slice_insert xs i value)
      | GNilSlice \<Rightarrow> rbind (array_index tok 0 True) (\<lambda>i. slice_insert [] i value))"

definition remove_from :: leaf_edit where
  "remove_from container tok =
     (case container of
        GLeaf l \<Rightarrow> if l = LNil then Inr GNil else Inl (CannotRemove tok)
      | GMap m \<Rightarrow>
          (case kv_get m tok of
             None \<Rightarrow> Inl (SegmentNotFound tok)
           | Some _ \<Rightarrow> Inr (GMap (kv_del tok m)))
      | GNilMap \<Rightarrow> Inl (SegmentNotFound tok)
      | GSlice xs \<Rightarrow> rbind (array_index tok (length xs) False) (slice_delete xs)
      | GNilSlice \<Rightarrow> rbind (array_index tok 0 False) (slice_delete []))"

text \<open>Storing an edited child back into its parent: the index is parsed again and its error dropped, which leaves 0.\<close>

definition store_child :: "gval \<Rightarrow> string \<Rightarrow> gval \<Rightarrow> patch_error + gval" where
  "store_child node tok v =
     (let index = (\<lambda>n. case array_index tok n False of Inr i \<Rightarrow> i | Inl _ \<Rightarrow> 0)
      in case node of
        GMap m \<Rightarrow> Inr (GMap (kv_set tok v m))
      | GNilMap \<Rightarrow> Inl PatchPanic
      | GSlice xs \<Rightarrow> slice_put xs (index (length xs)) v
      | GNilSlice \<Rightarrow> slice_put [] (index 0) v
      | GLeaf l \<Rightarrow> Inr node)"

fun edit_at :: "gval \<Rightarrow> string list \<Rightarrow> leaf_edit \<Rightarrow> patch_error + gval" where
  "edit_at node [] edit = edit GNil ''''"
| "edit_at node [tok] edit = (if patch_null node then Inl (NullIndex tok) else edit node tok)"
| "edit_at node (tok # tok' # path) edit =
     (if patch_null node then Inl (NullIndex tok)
      else rbind (child_at node tok)
             (\<lambda>child. rbind (edit_at child (tok' # path) edit) (store_child node tok)))"

text \<open>\<open>json.Marshal\<close> of a number, and \<open>toNumber\<close>: sign, digits without leading or trailing zeros, and
  a decimal exponent.\<close>

definition skip_digits :: "string \<Rightarrow> string" where
  "skip_digits s = dropWhile is_digit s"

text \<open>\<open>encoding/json\<close>'s \<open>isValidNumber\<close>.\<close>

definition valid_exponent :: "string \<Rightarrow> bool" where
  "valid_exponent s =
     (case s of
        [] \<Rightarrow> True
      | c # r \<Rightarrow>
          (c = CHR ''e'' \<or> c = CHR ''E'') \<and>
          is_all_digits (case r of d # r' \<Rightarrow> if d = CHR ''+'' \<or> d = CHR ''-'' then r' else r | [] \<Rightarrow> r))"

definition valid_number :: "string \<Rightarrow> bool" where
  "valid_number s =
     (let u = trim_prefix s ''-'' in
      case u of
        [] \<Rightarrow> False
      | c # r \<Rightarrow>
          is_digit c \<and>
          (let rest = (if c = CHR ''0'' then r else skip_digits r) in
           case rest of
             d # e # f \<Rightarrow>
               if d = CHR ''.'' \<and> is_digit e then valid_exponent (skip_digits f) else valid_exponent rest
           | _ \<Rightarrow> valid_exponent rest))"

definition marshal_number :: "(gfloat \<Rightarrow> string option) \<Rightarrow> leaf \<Rightarrow> string option" where
  "marshal_number ff l =
     (case l of
        LInt _ n \<Rightarrow> Some (itoa n)
      | LFloat32 f \<Rightarrow> ff f
      | LFloat64 f \<Rightarrow> ff f
      | LNumber s \<Rightarrow> if s = '''' then Some ''0'' else if valid_number s then Some s else None
      | _ \<Rightarrow> None)"

definition big_int :: "string \<Rightarrow> int" where
  "big_int s =
     (case s of
        [] \<Rightarrow> 0
      | c # r \<Rightarrow> if c = CHR ''-'' then - digits_val r else if c = CHR ''+'' then digits_val r
                 else digits_val s)"

definition is_exp_char :: "char \<Rightarrow> bool" where
  "is_exp_char c \<longleftrightarrow> c = CHR ''e'' \<or> c = CHR ''E''"

definition split_exponent :: "string \<Rightarrow> string \<times> int" where
  "split_exponent s =
     (let m = takeWhile (\<lambda>c. \<not> is_exp_char c) s; r = dropWhile (\<lambda>c. \<not> is_exp_char c) s
      in (m, case r of [] \<Rightarrow> 0 | _ # e \<Rightarrow> big_int e))"

definition split_point :: "string \<Rightarrow> int \<Rightarrow> string \<times> int" where
  "split_point m e =
     (let a = takeWhile (\<lambda>c. c \<noteq> CHR ''.'') m; b = dropWhile (\<lambda>c. c \<noteq> CHR ''.'') m
      in (case b of [] \<Rightarrow> (m, e) | _ # f \<Rightarrow> (a @ f, e - int (length f))))"

definition normal_digits :: "bool \<Rightarrow> string \<Rightarrow> int \<Rightarrow> string" where
  "normal_digits neg ds e =
     (let s = dropWhile (\<lambda>c. c = CHR ''0'') ds in
      if s = '''' then ''0''
      else let co = rev (dropWhile (\<lambda>c. c = CHR ''0'') (rev s));
               x = e + int (length s - length co)
           in (if neg then ''-'' else '''') @ co @ ''e'' @ itoa x)"

definition normal_number :: "string \<Rightarrow> string" where
  "normal_number s =
     (let (m, e) = split_exponent s; neg = has_prefix m ''-'';
          (ds, e') = split_point (trim_prefix m ''-'') e
      in normal_digits neg ds e')"

definition to_number :: "(gfloat \<Rightarrow> string option) \<Rightarrow> gval \<Rightarrow> string option" where
  "to_number ff v =
     (case v of GLeaf l \<Rightarrow> map_option normal_number (marshal_number ff l) | _ \<Rightarrow> None)"

text \<open>\<open>reflect.DeepEqual\<close> on scalars: NaN differs from itself.\<close>

definition leaf_deep_equal :: "leaf \<Rightarrow> leaf \<Rightarrow> bool" where
  "leaf_deep_equal a b \<longleftrightarrow> a = b \<and> a \<noteq> LFloat32 FNaN \<and> a \<noteq> LFloat64 FNaN"

lemma size_in_map: "(k, v) \<in> set m \<Longrightarrow> size v < size (GMap m)"
  by (induction m) auto

lemma size_in_slice: "v \<in> set xs \<Longrightarrow> size v < size (GSlice xs)"
  by (induction xs) auto

function patch_equal :: "(gfloat \<Rightarrow> string option) \<Rightarrow> gval \<Rightarrow> gval \<Rightarrow> bool" where
  "patch_equal ff a b =
     (if patch_null a \<or> patch_null b then patch_null a \<and> patch_null b
      else if to_number ff a \<noteq> None \<or> to_number ff b \<noteq> None
      then to_number ff a \<noteq> None \<and> to_number ff a = to_number ff b
      else (case (a, b) of
              (GMap av, GMap bv) \<Rightarrow>
                length av = length bv \<and>
                list_all (\<lambda>p. case kv_get bv (fst p) of None \<Rightarrow> False | Some w \<Rightarrow> patch_equal ff (snd p) w) av
            | (GSlice xs, GSlice ys) \<Rightarrow>
                length xs = length ys \<and> list_all (\<lambda>p. patch_equal ff (fst p) (snd p)) (zip xs ys)
            | (GLeaf l, GLeaf l') \<Rightarrow> leaf_deep_equal l l'
            | _ \<Rightarrow> False))"
  by pat_completeness auto
termination
  by (relation "measure (\<lambda>(_, a, _). size a)")
    (auto dest!: size_in_map size_in_slice set_zip_leftD)

declare patch_equal.simps [simp del]

text \<open>The \<open>switch name\<close> of \<open>applyOp\<close>, and \<open>applyOp\<close>.\<close>

definition add_or_test :: "(gfloat \<Rightarrow> string option) \<Rightarrow> gval \<Rightarrow> string \<Rightarrow> string list \<Rightarrow> gval \<Rightarrow> patch_error + gval" where
  "add_or_test ff doc name path value =
     (if name = ''add'' then edit_at doc path (add_to value)
      else if name = ''replace'' then
        rbind (edit_at doc path remove_from) (\<lambda>doc'. edit_at doc' path (add_to value))
      else rbind (get_node doc path)
             (\<lambda>cur. if patch_equal ff cur value then Inr doc else Inl TestFailed))"

definition move_or_copy :: "gval \<Rightarrow> string \<Rightarrow> string list \<Rightarrow> string list \<Rightarrow> patch_error + gval" where
  "move_or_copy doc name path from =
     rbind (get_node doc from) (\<lambda>value.
       if name = ''copy'' then edit_at doc path (add_to value)
       else if length from = length path \<and> is_prefix from path then Inr doc
       else if is_prefix from path then Inl MoveIntoChild
       else rbind (edit_at doc from remove_from) (\<lambda>doc'. edit_at doc' path (add_to value)))"

definition run_op :: "(gfloat \<Rightarrow> string option) \<Rightarrow> gval \<Rightarrow> patch_op \<Rightarrow> string \<Rightarrow> string list \<Rightarrow> patch_error + gval" where
  "run_op ff doc op name path =
     (if name \<in> {''add'', ''replace'', ''test''} then
        (case kv_get op ''value'' of
           None \<Rightarrow> Inl (Missing ''value'')
         | Some value \<Rightarrow> add_or_test ff doc name path value)
      else if name \<in> {''move'', ''copy''} then
        rbind (op_pointer op ''from'') (move_or_copy doc name path)
      else if name = ''remove'' then
        if path = [] then Inl RemoveRoot else edit_at doc path remove_from
      else Inl (UnknownOp name))"

definition apply_op :: "(gfloat \<Rightarrow> string option) \<Rightarrow> gval \<Rightarrow> patch_op \<Rightarrow> patch_error + gval" where
  "apply_op ff doc op =
     rbind (op_str op ''op'') (\<lambda>nm.
     rbind (op_pointer op ''path'')
       (run_op ff doc op (case nm of None \<Rightarrow> '''' | Some s \<Rightarrow> s)))"

fun apply_ops :: "(gfloat \<Rightarrow> string option) \<Rightarrow> gval \<Rightarrow> patch_op list \<Rightarrow> patch_error + gval" where
  "apply_ops ff doc [] = Inr doc"
| "apply_ops ff doc (op # ops) = rbind (apply_op ff doc op) (\<lambda>doc'. apply_ops ff doc' ops)"

text \<open>What \<open>json.Unmarshal(patchJSON, &ops)\<close> yields for the patch bytes.\<close>

datatype patch_doc =
    EmptyPatch               \<comment> \<open>no bytes\<close>
  | BadPatch                 \<comment> \<open>not a JSON array of objects\<close>
  | NullPatch                \<comment> \<open>JSON \<open>null\<close>\<close>
  | PatchOps "patch_op list"

definition apply_patch :: "(gfloat \<Rightarrow> string option) \<Rightarrow> gmap option \<Rightarrow> patch_doc \<Rightarrow> patch_error + gmap option" where
  "apply_patch ff doc patch =
     (case patch of
        EmptyPatch \<Rightarrow> Inr doc
      | BadPatch \<Rightarrow> Inl PatchDecode
      | NullPatch \<Rightarrow> Inl PatchNotArray
      | PatchOps ops \<Rightarrow>
          rbind (apply_ops ff (case doc of None \<Rightarrow> GNilMap | Some m \<Rightarrow> GMap m) ops)
            (\<lambda>r. case r of GMap m \<Rightarrow> Inr (Some m) | GNilMap \<Rightarrow> Inr None | _ \<Rightarrow> Inl RootNotObject))"

text \<open>\<open>PatchPaths\<close>: the dotted destination of every operation, for provenance. Its input is the \<open>path\<close>
  member of each operation (\<open>''''\<close> when absent).\<close>

fun keep_until_index :: "string list \<Rightarrow> string list" where
  "keep_until_index [] = []"
| "keep_until_index (s # ss) =
     (if is_all_digits (unescape s) then [] else unescape s # keep_until_index ss)"

definition pointer_to_dotted :: "string \<Rightarrow> string" where
  "pointer_to_dotted ptr =
     (if ptr = '''' \<or> ptr = ''/'' then ''''
      else join_with ''.'' (keep_until_index (split_char (CHR ''/'') (trim_prefix ptr ''/''))))"

definition patch_paths :: "string list \<Rightarrow> string list" where
  "patch_paths ptrs = map pointer_to_dotted ptrs"

section \<open>Decimal strings\<close>

lemma digit_val_range: "is_digit c \<Longrightarrow> 0 \<le> digit_val c \<and> digit_val c \<le> 9"
proof -
  have "(of_char c :: int) = int (of_char c)"
    by (rule of_nat_of_char [symmetric])
  moreover assume "is_digit c"
  ultimately show ?thesis
    unfolding is_digit_def digit_val_def by linarith
qed

lemma digits_val_acc: "foldl (\<lambda>n c. 10 * n + digit_val c) a s = a * 10 ^ length s + digits_val s"
proof (induction s arbitrary: a)
  case (Cons c s)
  show ?case
    using Cons [of "10 * a + digit_val c"] Cons [of "digit_val c"] by (simp add: digits_val_def algebra_simps)
qed (simp add: digits_val_def)

lemma digits_val_Cons: "digits_val (c # s) = digit_val c * 10 ^ length s + digits_val s"
  using digits_val_acc [of "digit_val c" s] by (simp add: digits_val_def)

lemma digits_val_Nil [simp]: "digits_val [] = 0"
  by (simp add: digits_val_def)

lemma digits_val_append: "digits_val (s @ t) = digits_val s * 10 ^ length t + digits_val t"
  using digits_val_acc [of "digits_val s" t] by (simp add: digits_val_def)

lemma digits_val_nonneg: "list_all is_digit s \<Longrightarrow> 0 \<le> digits_val s"
  by (induction s) (auto simp: digits_val_Cons dest: digit_val_range)

lemma digits_val_less: "list_all is_digit s \<Longrightarrow> digits_val s < 10 ^ length s"
proof (induction s)
  case (Cons c s)
  then have "digit_val c * 10 ^ length s \<le> 9 * 10 ^ length s"
    using digit_val_range [of c] by (simp add: mult_right_mono)
  moreover have "digits_val s < 10 ^ length s"
    using Cons by simp
  ultimately show ?case unfolding digits_val_Cons length_Cons power_Suc by linarith
qed simp

lemma parse_int64_digits: "is_all_digits s \<Longrightarrow> parse_int64 s = Some n \<Longrightarrow> 0 \<le> n"
  by (auto simp: parse_int64_def is_all_digits_def is_digit_def Let_def digits_val_nonneg
      split: list.splits if_splits)

section \<open>Operations stay inside the document\<close>

lemma array_index_lt: "array_index tok n False = Inr i \<Longrightarrow> 0 \<le> i \<and> i < int n"
  using parse_int64_digits [of tok] by (auto simp: array_index_def split: if_splits option.splits)

lemma array_index_le: "array_index tok n True = Inr i \<Longrightarrow> 0 \<le> i \<and> i \<le> int n"
  using parse_int64_digits [of tok] by (auto simp: array_index_def split: if_splits option.splits)

lemma array_index_no_panic: "array_index tok n b \<noteq> Inl PatchPanic"
  by (auto simp: array_index_def split: option.splits)

text \<open>The index that \<open>arrayIndex\<close> returns is in the range of what uses it.\<close>

lemma at_index:
  "array_index tok (length xs) False = Inr i \<Longrightarrow>
     nat i < length xs \<and> slice_get xs i = Inr (xs ! nat i) \<and> slice_put xs i v = Inr (GSlice (xs[nat i := v])) \<and>
     slice_delete xs i = Inr (GSlice (take (nat i) xs @ drop (Suc (nat i)) xs))"
  using array_index_lt [of tok "length xs" i] by (auto simp: slice_get_def slice_put_def slice_delete_def)

lemma at_add_index:
  "array_index tok (length xs) True = Inr i \<Longrightarrow>
     nat i \<le> length xs \<and> slice_insert xs i v = Inr (GSlice (take (nat i) xs @ v # drop (nat i) xs))"
  using array_index_le [of tok "length xs" i] by (auto simp: slice_insert_def)

lemma child_at_simps [simp]:
  "child_at (GMap m) tok = (case kv_get m tok of None \<Rightarrow> Inl (SegmentNotFound tok) | Some v \<Rightarrow> Inr v)"
  "child_at GNilMap tok = Inl (SegmentNotFound tok)"
  "child_at (GSlice xs) tok = rbind (array_index tok (length xs) False) (slice_get xs)"
  "child_at GNilSlice tok = rbind (array_index tok 0 False) (slice_get [])"
  "child_at (GLeaf l) tok = Inl (CannotIndex (GLeaf l) tok)"
  by (simp_all add: child_at_def)

lemma child_at_cases:
  assumes "child_at node tok = Inr v"
  obtains (map) m where "node = GMap m" "kv_get m tok = Some v"
    | (slice) xs i where "node = GSlice xs" "array_index tok (length xs) False = Inr i" "nat i < length xs" "v = xs ! nat i"
proof (cases node)
  case (GSlice xs)
  then obtain i where "array_index tok (length xs) False = Inr i" "slice_get xs i = Inr v"
    using assms by (auto simp: rbind_Inr_iff)
  then show ?thesis using slice [OF GSlice, of i] at_index [of tok xs i] by simp
next
  case GNilSlice
  then show ?thesis using assms array_index_lt [of tok 0] by (auto simp: rbind_Inr_iff)
qed (use assms that in \<open>auto split: option.splits\<close>)

lemma wf_child_at: "wf_val node \<Longrightarrow> child_at node tok = Inr v \<Longrightarrow> wf_val v"
  by (erule child_at_cases) (auto intro: wf_map_get)

lemma wf_get_node: "wf_val node \<Longrightarrow> get_node node path = Inr v \<Longrightarrow> wf_val v"
  by (induction path arbitrary: node) (auto simp: rbind_Inr_iff dest: wf_child_at)

lemma wf_slice_within: "wf_val (GSlice xs) \<Longrightarrow> wf_val v \<Longrightarrow> set ys \<subseteq> insert v (set xs) \<Longrightarrow> wf_val (GSlice ys)"
  by auto

lemma wf_slice_sub: "wf_val (GSlice xs) \<Longrightarrow> set ys \<subseteq> set xs \<Longrightarrow> wf_val (GSlice ys)"
  by auto

lemma wf_add_to:
  assumes "wf_val value" and "wf_val node" and "add_to value node tok = Inr v"
  shows "wf_val v"
proof (cases node)
  case (GSlice xs)
  with assms show ?thesis
    by (auto simp: add_to_def slice_insert_def rbind_Inr_iff simp del: wf_val.simps split: if_splits
        intro!: wf_slice_within [of xs "value"] dest: in_set_takeD in_set_dropD)
qed (use assms in \<open>auto simp: add_to_def slice_insert_def rbind_Inr_iff intro: wf_map_set split: if_splits\<close>)

lemma wf_remove_from:
  assumes "wf_val node" and "remove_from node tok = Inr v"
  shows "wf_val v"
proof (cases node)
  case (GSlice xs)
  with assms show ?thesis
    by (auto simp: remove_from_def slice_delete_def rbind_Inr_iff simp del: wf_val.simps split: if_splits
        intro!: wf_slice_sub [of xs] dest: in_set_takeD in_set_dropD)
qed (use assms in \<open>auto simp: remove_from_def slice_delete_def rbind_Inr_iff intro: wf_map_del split: if_splits option.splits\<close>)

lemma wf_store_child:
  assumes "wf_val node" and "wf_val v" and "store_child node tok v = Inr r"
  shows "wf_val r"
proof (cases node)
  case (GSlice xs)
  with assms show ?thesis
    by (auto simp: store_child_def slice_put_def simp del: wf_val.simps intro: wf_slice_update split: if_splits)
qed (use assms in \<open>auto simp: store_child_def slice_put_def wf_map_set split: if_splits\<close>)

lemma wf_edit_at:
  assumes edit: "\<And>n t r. wf_val n \<Longrightarrow> edit n t = Inr r \<Longrightarrow> wf_val r"
  shows "wf_val node \<Longrightarrow> edit_at node path edit = Inr v \<Longrightarrow> wf_val v"
proof (induction path arbitrary: node v rule: induct_list012)
  case 1
  then show ?case using edit [of GNil] by simp
next
  case (2 tok)
  from 2(2) have "edit node tok = Inr v" by (simp split: if_splits)
  with 2(1) show ?case by (rule edit)
next
  case (3 tok tok' path)
  from 3(4) obtain child u where "child_at node tok = Inr child" "edit_at child (tok' # path) edit = Inr u"
    and v: "store_child node tok u = Inr v"
    by (auto simp: rbind_Inr_iff split: if_splits)
  then have "wf_val u"
    using 3(2) wf_child_at [OF 3(3)] by blast
  then show ?case using wf_store_child [OF 3(3) _ v] by blast
qed

lemma rbind_no_panic: "r \<noteq> Inl PatchPanic \<Longrightarrow> (\<And>x. r = Inr x \<Longrightarrow> f x \<noteq> Inl PatchPanic) \<Longrightarrow> rbind r f \<noteq> Inl PatchPanic"
  by (cases r) auto

lemma index_no_panic:
  "rbind (array_index tok (length xs) False) (slice_get xs) \<noteq> Inl PatchPanic"
  "rbind (array_index tok (length xs) True) (\<lambda>i. slice_insert xs i v) \<noteq> Inl PatchPanic"
  "rbind (array_index tok (length xs) False) (slice_delete xs) \<noteq> Inl PatchPanic"
  by (rule rbind_no_panic, rule array_index_no_panic, simp add: at_index at_add_index)+

lemmas index_no_panic_nil = index_no_panic [of _ "[]", unfolded list.size]

lemma child_at_no_panic: "child_at node tok \<noteq> Inl PatchPanic"
  by (cases node) (simp_all add: index_no_panic index_no_panic_nil split: option.split)

text \<open>A child that was found can be stored.\<close>

lemma store_found: "child_at node tok = Inr c \<Longrightarrow> \<exists>r. store_child node tok u = Inr r"
  by (erule child_at_cases) (auto simp: store_child_def at_index)

lemma edit_at_no_panic:
  assumes edit: "\<And>n t. n = GNil \<or> \<not> patch_null n \<Longrightarrow> edit n t \<noteq> Inl PatchPanic"
  shows "edit_at node path edit \<noteq> Inl PatchPanic"
proof (induction path arbitrary: node rule: induct_list012)
  case 1
  show ?case using edit [of GNil] by simp
next
  case (2 tok)
  show ?case using edit [of node tok] by simp
next
  case (3 tok tok' path)
  have "rbind (child_at node tok) (\<lambda>child. rbind (edit_at child (tok' # path) edit) (store_child node tok)) \<noteq> Inl PatchPanic"
  proof (intro rbind_no_panic child_at_no_panic 3)
    fix child u assume "child_at node tok = Inr child"
    then show "store_child node tok u \<noteq> Inl PatchPanic" using store_found [of node tok child u] by auto
  qed
  then show ?case by simp
qed

lemma add_to_no_panic: "n = GNil \<or> \<not> patch_null n \<Longrightarrow> add_to v n t \<noteq> Inl PatchPanic"
  by (cases n) (simp_all add: add_to_def index_no_panic index_no_panic_nil)

lemma remove_from_no_panic: "remove_from n t \<noteq> Inl PatchPanic"
  by (cases n) (simp_all add: remove_from_def index_no_panic index_no_panic_nil split: option.split)

lemma get_node_no_panic: "get_node n path \<noteq> Inl PatchPanic"
proof (induction path arbitrary: n)
  case (Cons tok path)
  then show ?case unfolding get_node.simps by (intro rbind_no_panic child_at_no_panic)
qed simp

lemma op_str_no_panic: "op_str op key \<noteq> Inl PatchPanic"
  by (auto simp: op_str_def split: option.splits gval.splits leaf.splits)

lemma op_pointer_no_panic: "op_pointer op key \<noteq> Inl PatchPanic"
  by (auto simp: op_pointer_def parse_pointer_def rbind_Inl_iff op_str_no_panic split: option.splits list.splits)

lemmas patch_no_panic = edit_at_no_panic [OF add_to_no_panic] edit_at_no_panic [OF remove_from_no_panic]
  get_node_no_panic op_str_no_panic op_pointer_no_panic

lemma apply_op_no_panic: "apply_op ff doc op \<noteq> Inl PatchPanic"
proof -
  have "add_or_test ff doc name path value \<noteq> Inl PatchPanic" for name path "value"
    by (auto simp: add_or_test_def patch_no_panic simp: rbind_Inl_iff)
  moreover have "move_or_copy doc name path from \<noteq> Inl PatchPanic" for name path "from"
    by (auto simp: move_or_copy_def patch_no_panic simp: rbind_Inl_iff)
  ultimately show ?thesis
    by (auto simp: apply_op_def run_op_def patch_no_panic simp: rbind_Inl_iff split: option.splits if_splits)
qed

definition wf_op :: "patch_op \<Rightarrow> bool" where
  "wf_op op \<longleftrightarrow> (\<forall>v. kv_get op ''value'' = Some v \<longrightarrow> wf_val v)"

lemma wf_add_at: "wf_val value \<Longrightarrow> wf_val doc \<Longrightarrow> edit_at doc path (add_to value) = Inr r \<Longrightarrow> wf_val r"
  by (rule wf_edit_at [of "add_to value" doc path]) (auto intro: wf_add_to)

lemma wf_remove_at: "wf_val doc \<Longrightarrow> edit_at doc path remove_from = Inr r \<Longrightarrow> wf_val r"
  by (rule wf_edit_at [of remove_from doc path]) (auto intro: wf_remove_from)

lemma wf_add_or_test:
  assumes "wf_val value" and "wf_val doc" and "add_or_test ff doc name path value = Inr r"
  shows "wf_val r"
proof (cases "name = ''replace''")
  case True
  with assms(3) obtain d where "edit_at doc path remove_from = Inr d" "edit_at d path (add_to value) = Inr r"
    by (auto simp: add_or_test_def rbind_Inr_iff)
  then show ?thesis using assms(1,2) wf_remove_at wf_add_at by blast
next
  case False
  then show ?thesis
    using assms wf_add_at [OF assms(1,2), of path r]
    by (cases "name = ''add''") (auto simp: add_or_test_def rbind_Inr_iff split: if_splits)
qed

lemma wf_move_or_copy:
  assumes "wf_val doc" and "move_or_copy doc name path from = Inr r"
  shows "wf_val r"
proof -
  from assms(2) obtain v where v: "get_node doc from = Inr v"
    and cases: "edit_at doc path (add_to v) = Inr r \<or> r = doc \<or>
      (\<exists>d. edit_at doc from remove_from = Inr d \<and> edit_at d path (add_to v) = Inr r)"
    by (auto simp: move_or_copy_def rbind_Inr_iff split: if_splits)
  from v assms(1) have "wf_val v" by (rule wf_get_node [rotated])
  with cases assms(1) show ?thesis
    using wf_remove_at wf_add_at by blast
qed

lemma wf_run_op:
  assumes "wf_op op" and "wf_val doc" and "run_op ff doc op name path = Inr r"
  shows "wf_val r"
proof -
  have "(\<exists>v. kv_get op ''value'' = Some v \<and> add_or_test ff doc name path v = Inr r) \<or>
      (\<exists>from. move_or_copy doc name path from = Inr r) \<or> edit_at doc path remove_from = Inr r"
  proof (cases "name \<in> {''add'', ''replace'', ''test''}")
    case True
    with assms(3) show ?thesis
      unfolding run_op_def if_P [OF True] by (simp split: option.splits)
  next
    case False
    from assms(3) show ?thesis
      unfolding run_op_def if_not_P [OF False]
      by (simp only: rbind_Inr_iff split: if_split_asm) auto
  qed
  then consider
      v where "kv_get op ''value'' = Some v" "add_or_test ff doc name path v = Inr r"
    | "from" where "move_or_copy doc name path from = Inr r"
    | "edit_at doc path remove_from = Inr r"
    by blast
  then show ?thesis
  proof cases
    case 1
    then show ?thesis
      using assms(1,2) wf_add_or_test [of v doc ff name path r] by (simp add: wf_op_def)
  next
    case 2
    then show ?thesis using assms(2) by (rule wf_move_or_copy [rotated])
  next
    case 3
    then show ?thesis using assms(2) by (rule wf_remove_at [rotated])
  qed
qed

lemma wf_apply_op: "wf_op op \<Longrightarrow> wf_val doc \<Longrightarrow> apply_op ff doc op = Inr r \<Longrightarrow> wf_val r"
  unfolding apply_op_def rbind_Inr_iff by (elim exE conjE) (rule wf_run_op)

lemma wf_apply_ops: "list_all wf_op ops \<Longrightarrow> wf_val doc \<Longrightarrow> apply_ops ff doc ops = Inr r \<Longrightarrow> wf_val r"
  by (induction ops arbitrary: doc) (auto simp: rbind_Inr_iff dest: wf_apply_op)

lemma apply_ops_no_panic: "apply_ops ff doc ops \<noteq> Inl PatchPanic"
  by (induction ops arbitrary: doc) (simp, simp add: rbind_Inl_iff apply_op_no_panic)

text \<open>Where a patch succeeds the result is again a well-formed document.\<close>

lemma patch_keeps_wf:
  assumes "\<forall>m. doc = Some m \<longrightarrow> wf_map m"
    and "\<forall>ops. patch = PatchOps ops \<longrightarrow> list_all wf_op ops"
    and m: "apply_patch ff doc patch = Inr (Some m)"
  shows "wf_map m"
proof (cases patch)
  case (PatchOps ops)
  let ?d = "case doc of None \<Rightarrow> GNilMap | Some m \<Rightarrow> GMap m"
  from m PatchOps obtain r where "apply_ops ff ?d ops = Inr r"
    and "(case r of GMap m \<Rightarrow> Inr (Some m) | GNilMap \<Rightarrow> Inr None | _ \<Rightarrow> Inl RootNotObject) = Inr (Some m)"
    by (auto simp: apply_patch_def rbind_Inr_iff)
  then have "apply_ops ff ?d ops = Inr (GMap m)"
    by (cases r) simp_all
  moreover have "wf_val ?d" using assms(1) by (cases doc) auto
  ultimately show ?thesis
    using wf_apply_ops [of ops ?d ff "GMap m"] assms(2) PatchOps by simp
qed (use m assms(1) in \<open>auto simp: apply_patch_def\<close>)

section \<open>Pointers\<close>

text \<open>RFC 6901's writer, which the code has no counterpart of: \<open>~\<close> and \<open>/\<close> inside a token are
  escaped.\<close>

definition escape_token :: "string \<Rightarrow> string" where
  "escape_token t = concat (map (\<lambda>c. if c = CHR ''~'' then ''~0'' else if c = CHR ''/'' then ''~1'' else [c]) t)"

definition encode_pointer :: "string list \<Rightarrow> string" where
  "encode_pointer toks = concat (map (\<lambda>t. CHR ''/'' # escape_token t) toks)"

lemma escape_token_simps [simp]:
  "escape_token [] = []"
  "escape_token (c # t) = (if c = CHR ''~'' then ''~0'' else if c = CHR ''/'' then ''~1'' else [c]) @ escape_token t"
  by (simp_all add: escape_token_def)

lemma replace_pair_skip: "x \<noteq> a \<Longrightarrow> replace_pair a b c (x # s) = x # replace_pair a b c s"
  by (cases s) auto

lemma unescape_Nil [simp]: "unescape [] = []"
  by (simp add: unescape_def)

lemma unescape_step [simp]:
  "unescape (CHR ''~'' # CHR ''0'' # t) = CHR ''~'' # unescape t"
  "unescape (CHR ''~'' # CHR ''1'' # t) = CHR ''/'' # unescape t"
  "c \<noteq> CHR ''~'' \<Longrightarrow> unescape (c # t) = c # unescape t"
  by (simp_all add: unescape_def replace_pair_skip)

lemma escapes_ok_escape [simp]: "escapes_ok (escape_token t)"
  by (induction t) auto

lemma unescape_escape [simp]: "unescape (escape_token t) = t"
  by (induction t) auto

lemma slash_escape [simp]: "CHR ''/'' \<notin> set (escape_token t)"
  by (induction t) auto

lemma escape_unescape: "escapes_ok t \<Longrightarrow> CHR ''/'' \<notin> set t \<Longrightarrow> escape_token (unescape t) = t"
  by (induction t rule: escapes_ok.induct) (auto split: if_splits list.splits)

lemma encode_pointer_join:
  "toks \<noteq> [] \<Longrightarrow> encode_pointer toks = CHR ''/'' # join_with ''/'' (map escape_token toks)"
  by (induction "''/''" toks rule: join_with.induct) (auto simp: encode_pointer_def)

lemma map_escape_unescape:
  assumes "list_all escapes_ok ws" and "\<forall>w \<in> set ws. CHR ''/'' \<notin> set w"
  shows "map escape_token (map unescape ws) = ws"
  using assms by (induction ws) (auto simp: escape_unescape)

lemma parse_pointer_encode: "parse_pointer (encode_pointer toks) = Inr toks"
proof (cases "toks = []")
  case True
  then show ?thesis by (simp add: encode_pointer_def parse_pointer_def)
next
  case False
  then have "split_char (CHR ''/'') (join_with ''/'' (map escape_token toks)) = map escape_token toks"
    by (intro split_join_char) auto
  moreover have "map unescape (map escape_token toks) = toks"
    by (simp add: comp_def)
  ultimately show ?thesis
    by (simp add: encode_pointer_join [OF False] parse_pointer_def list_all_iff del: map_map)
qed

lemma parse_pointer_inv:
  assumes "parse_pointer s = Inr toks"
  shows "s = encode_pointer toks"
proof (cases s)
  case Nil
  then show ?thesis using assms by (auto simp: parse_pointer_def encode_pointer_def)
next
  case (Cons c r)
  let ?ws = "split_char (CHR ''/'') r"
  from assms Cons have c: "c = CHR ''/''" and ok: "list_all escapes_ok ?ws" and t: "toks = map unescape ?ws"
    by (auto simp: parse_pointer_def split: if_splits)
  have "map escape_token toks = ?ws"
    unfolding t using ok by (rule map_escape_unescape) (blast dest: split_char_parts)
  moreover have "toks \<noteq> []" by (simp add: t)
  ultimately show ?thesis
    using Cons c by (simp add: encode_pointer_join)
qed

text \<open>Parsing is exactly the inverse of RFC 6901's pointer syntax: a pointer parses to a list of tokens
  if and only if it is the escaped spelling of that list. So every token list, with slashes, tildes and
  empty tokens in it, has one pointer that addresses it, and nothing else parses.\<close>

theorem pointer_roundtrip: "parse_pointer s = Inr toks \<longleftrightarrow> s = encode_pointer toks"
  using parse_pointer_inv parse_pointer_encode by blast

section \<open>Add, read back, remove\<close>

lemma array_index_grow: "tok \<noteq> ''-'' \<Longrightarrow> array_index tok n True = Inr i \<Longrightarrow> array_index tok (Suc n) False = Inr i"
  by (auto simp: array_index_def split: option.splits if_splits)

lemma array_index_add: "tok \<noteq> ''-'' \<Longrightarrow> array_index tok n False = Inr i \<Longrightarrow> array_index tok n True = Inr i"
  by (auto simp: array_index_def split: option.splits if_splits)

lemma kv_set_same: "kv_get m k = Some v \<Longrightarrow> kv_set k v m = m"
  by (induction m) auto

lemma kv_set_set: "kv_set k v (kv_set k w m) = kv_set k v m"
  by (induction m) auto

lemma kv_del_set: "kv_get m k = None \<Longrightarrow> kv_del k (kv_set k v m) = m"
  by (induction m) (auto split: if_splits)

lemma at_updated:
  "array_index tok (length xs) False = Inr i \<Longrightarrow>
     slice_get (xs[nat i := u]) i = Inr u \<and> slice_put (xs[nat i := u]) i v = Inr (GSlice (xs[nat i := v]))"
  using at_index [of tok "xs[nat i := u]" i v] at_index [of tok xs i] by simp

lemma stored_child:
  assumes "child_at node tok = Inr c" and "store_child node tok u = Inr r"
  shows "child_at r tok = Inr u \<and> store_child r tok c = Inr node \<and> \<not> patch_null r"
  using assms(1)
proof (cases rule: child_at_cases)
  case (map m)
  then have "r = GMap (kv_set tok u m)" using assms(2) by (simp add: store_child_def)
  then show ?thesis using map by (simp add: store_child_def kv_set_set kv_set_same)
next
  case (slice xs i)
  then have "r = GSlice (xs[nat i := u])" using assms(2) by (simp add: store_child_def at_index)
  then show ?thesis using slice by (simp add: store_child_def at_updated)
qed

lemma edit_at_stepE:
  assumes "edit_at node (tok # tok' # path) edit = Inr d"
  obtains child u where "\<not> patch_null node" "child_at node tok = Inr child"
    "edit_at child (tok' # path) edit = Inr u" "store_child node tok u = Inr d"
  using assms by (auto simp: rbind_Inr_iff split: if_splits)

lemma length_inserted: "i \<le> length xs \<Longrightarrow> length (take i xs @ v # drop i xs) = Suc (length xs)"
  by simp

lemma nth_inserted: "i \<le> length xs \<Longrightarrow> (take i xs @ v # drop i xs) ! i = v"
  by (simp add: nth_append)

lemma delete_inserted:
  "i \<le> length xs \<Longrightarrow>
   take i (take i xs @ v # drop i xs) @ drop (Suc i) (take i xs @ v # drop i xs) = xs"
  by simp

lemma add_toE:
  assumes "\<not> patch_null node" and "tok \<noteq> ''-''" and "add_to v node tok = Inr d"
  obtains (map) m where "node = GMap m" "d = GMap (kv_set tok v m)"
    | (slice) xs i where "node = GSlice xs" "nat i \<le> length xs" "d = GSlice (take (nat i) xs @ v # drop (nat i) xs)"
        "array_index tok (length (take (nat i) xs @ v # drop (nat i) xs)) False = Inr i"
proof (cases node)
  case (GSlice xs)
  with assms obtain i where i: "array_index tok (length xs) True = Inr i" "slice_insert xs i v = Inr d"
    by (auto simp: add_to_def rbind_Inr_iff)
  then have d: "nat i \<le> length xs" "d = GSlice (take (nat i) xs @ v # drop (nat i) xs)"
    using at_add_index [of tok xs i v] by auto
  show ?thesis
  proof (rule slice [OF GSlice d])
    show "array_index tok (length (take (nat i) xs @ v # drop (nat i) xs)) False = Inr i"
      unfolding length_inserted [OF d(1)] using assms(2) i(1) by (rule array_index_grow)
  qed
qed (use assms map in \<open>auto simp: add_to_def split: if_splits\<close>)

lemma child_of_added:
  assumes "\<not> patch_null node" and "tok \<noteq> ''-''" and "add_to v node tok = Inr d"
  shows "child_at d tok = Inr v"
  using assms by (rule add_toE) (simp_all add: at_index nth_inserted del: length_append)

lemma remove_of_added:
  assumes "\<not> patch_null node" and "tok \<noteq> ''-''" and "add_to v node tok = Inr d"
    and "\<And>m. node = GMap m \<Longrightarrow> kv_get m tok = None"
  shows "remove_from d tok = Inr node \<and> \<not> patch_null d"
  using assms(1-3)
proof (rule add_toE)
  fix m assume "node = GMap m" "d = GMap (kv_set tok v m)"
  with assms(4) show ?thesis by (simp add: remove_from_def kv_del_set)
next
  fix xs i
  assume "node = GSlice xs" "nat i \<le> length xs" "d = GSlice (take (nat i) xs @ v # drop (nat i) xs)"
    "array_index tok (length (take (nat i) xs @ v # drop (nat i) xs)) False = Inr i"
  then show ?thesis
    by (simp add: remove_from_def at_index delete_inserted del: length_append take_append drop_append)
qed

lemma get_added:
  "edit_at node path (add_to v) = Inr d \<Longrightarrow> path = [] \<or> last path \<noteq> ''-'' \<Longrightarrow> get_node d path = Inr v"
proof (induction path arbitrary: node d rule: induct_list012)
  case 1
  then show ?case by (simp add: add_to_def)
next
  case (2 tok)
  then show ?case by (auto simp: child_of_added split: if_splits)
next
  case (3 tok tok' path)
  from 3(3) show ?case
  proof (rule edit_at_stepE)
    fix child u
    assume c: "child_at node tok = Inr child" and u: "edit_at child (tok' # path) (add_to v) = Inr u"
      and d: "store_child node tok u = Inr d"
    have "get_node u (tok' # path) = Inr v" by (rule 3(2) [OF u]) (use 3(4) in simp)
    moreover have "child_at d tok = Inr u" using stored_child [OF c d] by blast
    ultimately show ?thesis by (simp only: get_node.simps rbind_simps)
  qed
qed

text \<open>A place that \<open>add\<close> creates: a new member of an object, or a position of an array.\<close>

definition fresh_at :: "gval \<Rightarrow> string list \<Rightarrow> bool" where
  "fresh_at doc path =
     (case get_node doc (butlast path) of
        Inr (GMap m) \<Rightarrow> kv_get m (last path) = None
      | Inr (GSlice _) \<Rightarrow> True
      | _ \<Rightarrow> False)"

lemma remove_added:
  "edit_at node path (add_to v) = Inr d \<Longrightarrow> path \<noteq> [] \<Longrightarrow> last path \<noteq> ''-'' \<Longrightarrow> fresh_at node path \<Longrightarrow>
   edit_at d path remove_from = Inr node"
proof (induction path arbitrary: node d rule: induct_list012)
  case (2 tok)
  then have "\<not> patch_null node" "add_to v node tok = Inr d" "tok \<noteq> ''-''"
      "\<And>m. node = GMap m \<Longrightarrow> kv_get m tok = None"
    by (auto simp: fresh_at_def split: if_splits)
  then show ?case using remove_of_added [of node tok v d] by simp
next
  case (3 tok tok' path)
  from 3(3) show ?case
  proof (rule edit_at_stepE)
    fix child u
    assume c: "child_at node tok = Inr child" and u: "edit_at child (tok' # path) (add_to v) = Inr u"
      and d: "store_child node tok u = Inr d"
    have bl: "butlast (tok # tok' # path) = tok # butlast (tok' # path)"
        "last (tok # tok' # path) = last (tok' # path)"
      by simp_all
    from 3(6) have "fresh_at child (tok' # path)"
      unfolding fresh_at_def bl get_node.simps c rbind_simps .
    with 3(2) [OF u] 3(5) have "edit_at u (tok' # path) remove_from = Inr child"
      by simp
    then show ?thesis
      by (simp add: stored_child [OF c d])
  qed
qed simp

definition add_op :: "string \<Rightarrow> gval \<Rightarrow> patch_op" where
  "add_op p v = [(''op'', GStr ''add''), (''path'', GStr p), (''value'', v)]"

definition remove_op :: "string \<Rightarrow> patch_op" where
  "remove_op p = [(''op'', GStr ''remove''), (''path'', GStr p)]"

lemma apply_add_op: "apply_op ff doc (add_op p v) = rbind (parse_pointer p) (\<lambda>path. edit_at doc path (add_to v))"
  by (cases "parse_pointer p")
    (simp_all add: apply_op_def add_op_def op_str_def op_pointer_def run_op_def add_or_test_def)

lemma apply_remove_op:
  "apply_op ff doc (remove_op p) =
     rbind (parse_pointer p) (\<lambda>path. if path = [] then Inl RemoveRoot else edit_at doc path remove_from)"
  by (cases "parse_pointer p")
    (simp_all add: apply_op_def remove_op_def op_str_def op_pointer_def run_op_def)

text \<open>After a successful \<open>add\<close> the pointer addresses exactly the value that was added, and when the add
  created the place (a new member or a list position) a \<open>remove\<close> at the same pointer gives back the very
  document it started from, entry order included.\<close>

theorem patch_add_remove:
  assumes "apply_op ff doc (add_op (encode_pointer path) v) = Inr d"
    and "path \<noteq> []" and "last path \<noteq> ''-''"
  shows "get_node d path = Inr v \<and>
    (fresh_at doc path \<longrightarrow> apply_op ff d (remove_op (encode_pointer path)) = Inr doc)"
proof -
  note p = parse_pointer_encode [of path]
  have e: "edit_at doc path (add_to v) = Inr d"
    using assms(1) by (simp add: apply_add_op p)
  show ?thesis
    using get_added [OF e] remove_added [OF e assms(2,3)] assms(2,3) by (simp add: apply_remove_op p)
qed

lemma patch_add_remove_witness:
  "apply_op (\<lambda>_. None) (GMap [(''a'', GSlice [GNil, GNil])])
     (add_op (encode_pointer [''a'', ''1'']) (GStr ''x'')) = Inr (GMap [(''a'', GSlice [GNil, GStr ''x'', GNil])]) \<and>
   get_node (GMap [(''a'', GSlice [GNil, GStr ''x'', GNil])]) [''a'', ''1''] = Inr (GStr ''x'')"
proof
  show *: "apply_op (\<lambda>_. None) (GMap [(''a'', GSlice [GNil, GNil])])
     (add_op (encode_pointer [''a'', ''1'']) (GStr ''x'')) = Inr (GMap [(''a'', GSlice [GNil, GStr ''x'', GNil])])"
    by code_simp
  show "get_node (GMap [(''a'', GSlice [GNil, GStr ''x'', GNil])]) [''a'', ''1''] = Inr (GStr ''x'')"
    using patch_add_remove [OF *] by simp
qed

section \<open>Numbers compare by value\<close>

lemma of_char_int: "(of_char c :: int) = int (of_char c)"
  by (rule of_nat_of_char [symmetric])

lemma digit_val_inj: "digit_val c = digit_val d \<Longrightarrow> c = d"
  by (simp add: digit_val_def of_char_int of_char_eq_iff)

lemma digits_val_snoc: "digits_val (s @ [c]) = 10 * digits_val s + digit_val c"
  by (simp add: digits_val_append digits_val_Cons)

lemma digits_val_inj_len:
  "length s = length t \<Longrightarrow> list_all is_digit s \<Longrightarrow> list_all is_digit t \<Longrightarrow> digits_val s = digits_val t \<Longrightarrow> s = t"
proof (induction s arbitrary: t rule: rev_induct)
  case (snoc c s)
  from snoc(2) obtain t' d where t: "t = t' @ [d]"
    by (cases t rule: rev_cases) auto
  have r: "0 \<le> digit_val c" "digit_val c \<le> 9" "0 \<le> digit_val d" "digit_val d \<le> 9"
    using snoc(3,4) t digit_val_range by auto
  have "10 * digits_val s + digit_val c = 10 * digits_val t' + digit_val d"
    using snoc(5) by (simp add: t digits_val_snoc)
  with r have "digits_val s = digits_val t'" "digit_val c = digit_val d"
    by presburger+
  with snoc t show ?case by (auto dest: digit_val_inj)
qed simp

lemma digits_val_hd:
  assumes "list_all is_digit (c # s)" and "c \<noteq> CHR ''0''"
  shows "10 ^ length s \<le> digits_val (c # s)"
proof -
  have "digit_val c \<noteq> digit_val (CHR ''0'')"
    using assms(2) digit_val_inj by blast
  then have "1 \<le> digit_val c"
    using assms(1) digit_val_range [of c] by (simp add: digit_val_def)
  then have "1 * 10 ^ length s \<le> digit_val c * 10 ^ length s"
    by (intro mult_right_mono) auto
  moreover have "0 \<le> digits_val s"
    using digits_val_nonneg [of s] assms(1) by simp
  ultimately show ?thesis
    unfolding digits_val_Cons by linarith
qed

definition plain_digits :: "string \<Rightarrow> bool" where
  "plain_digits s \<longleftrightarrow> list_all is_digit s \<and> s \<noteq> [] \<and> hd s \<noteq> CHR ''0''"

lemma plain_digits_bounds:
  assumes "plain_digits s"
  shows "10 ^ (length s - 1) \<le> digits_val s" "digits_val s < 10 ^ length s"
  using assms digits_val_hd [of "hd s" "tl s"] digits_val_less [of s] by (auto simp: plain_digits_def)

lemma plain_digits_inj:
  assumes s: "plain_digits s" and t: "plain_digits t" and eq: "digits_val s = digits_val t"
  shows "s = t"
proof -
  have "(10::int) ^ (length s - 1) < 10 ^ length t" "(10::int) ^ (length t - 1) < 10 ^ length s"
    using plain_digits_bounds [OF s] plain_digits_bounds [OF t] eq by linarith+
  then have "length s - 1 < length t" "length t - 1 < length s"
    by simp_all
  then have "length s = length t"
    using s t by (auto simp: plain_digits_def)
  then show ?thesis
    using s t eq by (auto simp: plain_digits_def intro: digits_val_inj_len)
qed

lemma char_digit:
  assumes "n < 10"
  shows "is_digit (char_of (48 + n :: nat))" "digit_val (char_of (48 + n :: nat)) = int n"
proof -
  have "of_char (char_of (48 + n :: nat) :: char) = (48 + n :: nat)"
    using assms by (simp add: of_char_of)
  then show "is_digit (char_of (48 + n :: nat))" "digit_val (char_of (48 + n :: nat)) = int n"
    using assms by (simp_all add: is_digit_def digit_val_def of_char_int)
qed

lemma nat_digits_props: "list_all is_digit (nat_digits n) \<and> digits_val (nat_digits n) = int n"
proof (induction n rule: nat_digits.induct)
  case (1 n)
  show ?case
  proof (cases "n < 10")
    case True
    then show ?thesis
      by (subst (1 2) nat_digits.simps) (simp add: char_digit digits_val_Cons)
  next
    case False
    then have "list_all is_digit (nat_digits (n div 10)) \<and> digits_val (nat_digits (n div 10)) = int (n div 10)"
      using 1 by simp
    moreover have "10 * int (n div 10) + int (n mod 10) = int n"
      by presburger
    ultimately show ?thesis
      using False char_digit [of "n mod 10"]
      by (subst (1 2) nat_digits.simps) (simp add: digits_val_snoc)
  qed
qed

lemma minus_not_digit: "\<not> is_digit (CHR ''-'')"
  by (simp add: is_digit_def)

lemma nat_digits_neq_Nil [simp]: "nat_digits n \<noteq> []"
  by (subst nat_digits.simps) simp

lemma nat_digits_hd: "hd (nat_digits n) \<noteq> CHR ''-''"
proof -
  have "is_digit (hd (nat_digits n))"
    using nat_digits_props [of n] by (cases "nat_digits n") auto
  then show ?thesis using minus_not_digit by metis
qed

lemma nat_digits_not_minus [simp]: "nat_digits n \<noteq> CHR ''-'' # s" "CHR ''-'' # s \<noteq> nat_digits n"
  using nat_digits_hd [of n] by (metis list.sel(1))+

lemma nat_digits_inj: "nat_digits j = nat_digits k \<Longrightarrow> j = k"
  by (metis nat_digits_props of_nat_eq_iff)

lemma itoa_neg: "n < 0 \<Longrightarrow> itoa n = CHR ''-'' # nat_digits (nat (- n))"
  and itoa_nonneg: "0 \<le> n \<Longrightarrow> itoa n = nat_digits (nat n)"
  by (simp_all add: itoa_def)

lemma itoa_inj:
  assumes eq: "itoa m = itoa n"
  shows "m = n"
proof -
  consider "m < 0" "n < 0" | "m < 0" "0 \<le> n" | "0 \<le> m" "n < 0" | "0 \<le> m" "0 \<le> n"
    by linarith
  then show ?thesis
  proof cases
    case 1
    then have "nat_digits (nat (- m)) = nat_digits (nat (- n))"
      using eq by (simp only: itoa_neg list.inject)
    from nat_digits_inj [OF this] 1 show ?thesis by linarith
  next
    case 4
    then have "nat_digits (nat m) = nat_digits (nat n)"
      using eq by (simp only: itoa_nonneg)
    from nat_digits_inj [OF this] 4 show ?thesis by linarith
  qed (use eq in \<open>simp_all only: itoa_neg itoa_nonneg nat_digits_not_minus\<close>)
qed

text \<open>The rational number a signed decimal stands for.\<close>

definition sval :: "bool \<Rightarrow> int \<Rightarrow> int \<Rightarrow> rat" where
  "sval neg d e = (if neg then - 1 else 1) * of_int d * 10 powi e"

lemma sval_shift: "sval neg (d * 10 ^ k) e = sval neg d (e + int k)"
  by (simp add: sval_def power_int_add)

lemma sval_0 [simp]: "sval neg 0 e = 0"
  by (simp add: sval_def)

lemma digits_val_strip: "digits_val (dropWhile (\<lambda>c. c = CHR ''0'') s) = digits_val s"
  by (induction s) (auto simp: digits_val_Cons digit_val_def)

lemma digits_val_zeros: "\<forall>c \<in> set z. c = CHR ''0'' \<Longrightarrow> digits_val z = 0"
  by (induction z) (auto simp: digits_val_Cons digit_val_def)

lemma plain_strip:
  assumes "list_all is_digit s" and "dropWhile (\<lambda>c. c = CHR ''0'') s \<noteq> []"
  shows "plain_digits (dropWhile (\<lambda>c. c = CHR ''0'') s)"
  using assms hd_dropWhile [OF assms(2)] by (auto simp: plain_digits_def list_all_iff dest: set_dropWhileD)

text \<open>A coefficient in normal form: no zero at either end.\<close>

definition coefficient :: "string \<Rightarrow> bool" where
  "coefficient co \<longleftrightarrow> plain_digits co \<and> last co \<noteq> CHR ''0''"

lemma split_zeros:
  assumes "plain_digits s" and co: "co = rev (dropWhile (\<lambda>c. c = CHR ''0'') (rev s))"
  shows "coefficient co \<and> digits_val s = digits_val co * 10 ^ (length s - length co)"
proof -
  let ?z = "rev (takeWhile (\<lambda>c. c = CHR ''0'') (rev s))"
  have s: "s = co @ ?z"
    unfolding co by (metis rev_append rev_rev_ident takeWhile_dropWhile_id)
  have z: "\<forall>c \<in> set ?z. c = CHR ''0''"
    using set_takeWhileD by fastforce
  have "co \<noteq> []"
  proof
    assume "co = []"
    with s z assms(1) have "hd s = CHR ''0''"
      by (metis append_Nil hd_in_set plain_digits_def)
    with assms(1) show False by (simp add: plain_digits_def)
  qed
  moreover from this have "last co \<noteq> CHR ''0''"
    unfolding co using hd_dropWhile [of "\<lambda>c. c = CHR ''0''" "rev s"] by (simp add: last_rev)
  moreover have "hd s = hd co" "list_all is_digit co"
    using s assms(1) \<open>co \<noteq> []\<close> by (auto simp: plain_digits_def) (metis hd_append2, metis list_all_append)
  moreover have "digits_val s = digits_val co * 10 ^ length ?z + digits_val ?z"
    by (subst s) (rule digits_val_append)
  moreover have "length s - length co = length ?z"
    using arg_cong [OF s, of length] by simp
  ultimately show ?thesis
    using assms(1) digits_val_zeros [OF z] by (simp add: coefficient_def plain_digits_def)
qed

lemma coefficient_pos: "coefficient co \<Longrightarrow> 0 < digits_val co"
  using plain_digits_bounds(1) [of co] by (auto simp: coefficient_def intro: less_le_trans [of 0 "10 ^ (length co - 1)"])

lemma coefficient_not_dvd:
  assumes "coefficient co"
  shows "\<not> 10 dvd digits_val co"
proof -
  from assms obtain s c where co: "co = s @ [c]" and c: "c \<noteq> CHR ''0''" "is_digit c"
    by (cases co rule: rev_cases) (auto simp: coefficient_def plain_digits_def)
  have "digit_val c \<noteq> digit_val (CHR ''0'')"
    using c digit_val_inj by blast
  then have "1 \<le> digit_val c" "digit_val c \<le> 9"
    using digit_val_range [OF c(2)] by (simp_all add: digit_val_def)
  then show ?thesis
    by (simp add: co digits_val_snoc) presburger
qed

lemma decimal_unique_le:
  fixes d d' :: int
  assumes "\<not> 10 dvd d" and "x \<le> x'" and eq: "of_int d * (10 :: rat) powi x = of_int d' * 10 powi x'"
  shows "x = x'"
proof (rule ccontr)
  assume "x \<noteq> x'"
  define k where "k = nat (x' - x)"
  with assms(2) \<open>x \<noteq> x'\<close> have x': "x' = x + int k" and "0 < k"
    by auto
  have "of_int d * (10 :: rat) powi x = of_int (d' * 10 ^ k) * 10 powi x"
    using eq by (simp add: x' power_int_add)
  then have "of_int d = (of_int (d' * 10 ^ k) :: rat)"
    by simp
  then have "d = d' * 10 ^ k"
    by (simp only: of_int_eq_iff)
  with \<open>0 < k\<close> assms(1) show False
    by (cases k) auto
qed

lemma decimal_unique:
  assumes co: "coefficient co" "coefficient co'" and eq: "sval neg (digits_val co) x = sval neg' (digits_val co') x'"
  shows "neg = neg' \<and> co = co' \<and> x = x'"
proof -
  let ?a = "of_int (digits_val co) * (10 :: rat) powi x" and ?b = "of_int (digits_val co') * (10 :: rat) powi x'"
  have pos: "0 < ?a" "0 < ?b"
    using coefficient_pos [OF co(1)] coefficient_pos [OF co(2)] by simp_all
  have e: "(if neg then - ?a else ?a) = (if neg' then - ?b else ?b)"
    using eq by (simp add: sval_def mult.assoc split: if_splits)
  then have n: "neg = neg'" and ab: "?a = ?b"
    using pos by (auto split: if_splits)
  have "x = x'"
    using decimal_unique_le [OF coefficient_not_dvd [OF co(1)] _ ab]
      decimal_unique_le [OF coefficient_not_dvd [OF co(2)] _ ab [symmetric]] by linarith
  moreover from this ab have "digits_val co = digits_val co'"
    by simp
  ultimately show ?thesis
    using n co plain_digits_inj by (auto simp: coefficient_def)
qed

lemma normal_digits_cases:
  assumes "list_all is_digit ds"
  shows "normal_digits neg ds e = ''0'' \<and> sval neg (digits_val ds) e = 0 \<or>
    (\<exists>co x. coefficient co \<and> sval neg (digits_val ds) e = sval neg (digits_val co) x \<and>
       normal_digits neg ds e = (if neg then ''-'' else '''') @ co @ CHR ''e'' # itoa x)"
proof -
  let ?s = "dropWhile (\<lambda>c. c = CHR ''0'') ds"
  let ?co = "rev (dropWhile (\<lambda>c. c = CHR ''0'') (rev ?s))"
  show ?thesis
  proof (cases "?s = []")
    case True
    then have "digits_val ds = 0"
      using digits_val_strip [of ds] by (simp only: digits_val_Nil)
    with True show ?thesis by (simp add: normal_digits_def)
  next
    case False
    have "coefficient ?co \<and> digits_val ?s = digits_val ?co * 10 ^ (length ?s - length ?co)"
      using plain_strip [OF assms False] refl by (rule split_zeros)
    moreover have "length ?co \<le> length ?s"
      using length_dropWhile_le [of "\<lambda>c. c = CHR ''0''" "rev ?s"] by simp
    then have "int (length ?s - length ?co) = int (length ?s) - int (length ?co)"
      by (simp add: of_nat_diff)
    ultimately show ?thesis
      using False digits_val_strip [of ds]
      by (auto simp: normal_digits_def Let_def sval_shift intro!: exI [of _ ?co] exI [of _ "e + (int (length ?s) - int (length ?co))"])
  qed
qed

text \<open>The value of a JSON number: sign, digits, fraction, exponent.\<close>

definition num_value :: "string \<Rightarrow> rat" where
  "num_value s =
     (let (m, e) = split_exponent s; u = trim_prefix m ''-'';
          a = takeWhile (\<lambda>c. c \<noteq> CHR ''.'') u; f = drop 1 (dropWhile (\<lambda>c. c \<noteq> CHR ''.'') u)
      in (if has_prefix m ''-'' then - 1 else 1)
           * (of_int (digits_val a) + of_int (digits_val f) / 10 ^ length f) * 10 powi e)"

lemma trim_minus: "\<exists>sg. s = sg @ trim_prefix s ''-'' \<and> (sg = [] \<or> sg = ''-'')"
  by (auto simp: trim_prefix_def has_prefix_iff)

lemma skip_digits_split: "\<exists>d. s = d @ skip_digits s \<and> list_all is_digit d"
  unfolding skip_digits_def
  by (rule exI [of _ "takeWhile is_digit s"]) (auto simp: list_all_iff dest: set_takeWhileD)

lemma valid_exponent_hd: "valid_exponent ex \<Longrightarrow> ex = [] \<or> is_exp_char (hd ex)"
  by (auto simp: valid_exponent_def is_exp_char_def split: list.splits)

lemma valid_number_shape:
  assumes "valid_number s"
  shows "\<exists>sg a fr ex. s = sg @ a @ fr @ ex \<and> (sg = [] \<or> sg = ''-'') \<and> is_all_digits a \<and>
    (fr = [] \<or> (\<exists>f. fr = CHR ''.'' # f \<and> list_all is_digit f)) \<and> (ex = [] \<or> is_exp_char (hd ex))"
proof -
  obtain sg where sg: "s = sg @ trim_prefix s ''-''" "sg = [] \<or> sg = ''-''"
    using trim_minus by blast
  from assms obtain c r where u: "trim_prefix s ''-'' = c # r" and c: "is_digit c"
    by (auto simp: valid_number_def Let_def split: list.splits)
  define rest where "rest = (if c = CHR ''0'' then r else skip_digits r)"
  obtain d where d: "r = d @ rest" "list_all is_digit d"
  proof (cases "c = CHR ''0''")
    case True
    then show ?thesis using that [of "[]"] by (simp add: rest_def)
  next
    case False
    obtain d where "r = d @ skip_digits r" "list_all is_digit d"
      using skip_digits_split by blast
    then show ?thesis using that [of d] False by (simp add: rest_def)
  qed
  have a: "is_all_digits (c # d)"
    using c d(2) by (simp add: is_all_digits_def)
  have v: "(case rest of x # y # f \<Rightarrow>
        if x = CHR ''.'' \<and> is_digit y then valid_exponent (skip_digits f) else valid_exponent rest
      | _ \<Rightarrow> valid_exponent rest)"
    using assms unfolding valid_number_def Let_def u list.case rest_def [symmetric] by (rule conjunct2)
  have "\<exists>fr ex. rest = fr @ ex \<and> (fr = [] \<or> (\<exists>f. fr = CHR ''.'' # f \<and> list_all is_digit f)) \<and>
      (ex = [] \<or> is_exp_char (hd ex))"
  proof (cases "\<exists>y f. rest = CHR ''.'' # y # f \<and> is_digit y")
    case True
    then obtain y f where f: "rest = CHR ''.'' # y # f" "is_digit y" by blast
    obtain g where g: "f = g @ skip_digits f" "list_all is_digit g"
      using skip_digits_split by blast
    from v f have "valid_exponent (skip_digits f)" by simp
    moreover have "rest = (CHR ''.'' # y # g) @ skip_digits f" using f g by simp
    ultimately show ?thesis
      using f g valid_exponent_hd
      by (intro exI [of _ "CHR ''.'' # y # g"] exI [of _ "skip_digits f"]) simp
  next
    case False
    then have "valid_exponent rest"
      using v by (auto split: list.splits if_splits)
    then show ?thesis using valid_exponent_hd by (metis append_Nil)
  qed
  then obtain fr ex where "rest = fr @ ex" "fr = [] \<or> (\<exists>f. fr = CHR ''.'' # f \<and> list_all is_digit f)"
      "ex = [] \<or> is_exp_char (hd ex)"
    by blast
  moreover from this have "s = sg @ (c # d) @ fr @ ex"
    using sg(1) u d(1) by simp
  ultimately show ?thesis using sg(2) a by blast
qed

lemma digit_chars: "is_digit c \<Longrightarrow> \<not> is_exp_char c \<and> c \<noteq> CHR ''.'' \<and> c \<noteq> CHR ''-''"
  by (auto simp: is_exp_char_def is_digit_def)

lemma minus_not_exp: "\<not> is_exp_char (CHR ''-'')"
  and dot_not_exp: "\<not> is_exp_char (CHR ''.'')"
  by (simp_all add: is_exp_char_def)

lemma split_exponent_shape:
  assumes "\<forall>c \<in> set m. \<not> is_exp_char c" and "ex = [] \<or> is_exp_char (hd ex)"
  shows "fst (split_exponent (m @ ex)) = m"
  using assms by (cases ex) (auto simp: split_exponent_def takeWhile_append2)

lemma split_point_shape:
  assumes "list_all is_digit a"
  shows "split_point a e = (a, e)"
    and "split_point (a @ CHR ''.'' # f) e = (a @ f, e - int (length f))"
proof -
  have "\<forall>c \<in> set a. c \<noteq> CHR ''.''"
    using assms digit_chars by (auto simp: list_all_iff)
  then show "split_point a e = (a, e)" "split_point (a @ CHR ''.'' # f) e = (a @ f, e - int (length f))"
    by (simp_all add: split_point_def Let_def takeWhile_append2 dropWhile_append2 takeWhile_eq_all_conv [THEN iffD2]
        dropWhile_eq_Nil_conv [THEN iffD2])
qed

lemma value_fraction:
  "sval neg (digits_val (a @ f)) (e - int (length f)) =
   (if neg then - 1 else 1) * (of_int (digits_val a) + of_int (digits_val f) / 10 ^ length f) * 10 powi e"
  by (simp add: sval_def digits_val_append power_int_diff field_simps)

lemma normal_number_value:
  assumes "valid_number s"
  shows "\<exists>neg ds e. list_all is_digit ds \<and> normal_number s = normal_digits neg ds e \<and>
    num_value s = sval neg (digits_val ds) e"
proof -
  obtain sg a fr ex where s: "s = sg @ a @ fr @ ex" and sg: "sg = [] \<or> sg = ''-''" and a: "is_all_digits a"
    and fr: "fr = [] \<or> (\<exists>f. fr = CHR ''.'' # f \<and> list_all is_digit f)" and ex: "ex = [] \<or> is_exp_char (hd ex)"
    using valid_number_shape [OF assms] by blast
  have da: "list_all is_digit a" and a0: "a \<noteq> []"
    using a by (simp_all add: is_all_digits_def)
  have ha: "hd a \<noteq> CHR ''-''"
    using da a0 digit_chars [of "hd a"] by (cases a) simp_all
  have "\<forall>c \<in> set (sg @ a @ fr). \<not> is_exp_char c"
    using sg da fr by (auto simp: list_all_iff digit_chars minus_not_exp dot_not_exp)
  then have m: "fst (split_exponent s) = sg @ a @ fr"
    using split_exponent_shape [of "sg @ a @ fr" ex] ex s by simp
  obtain e where e: "split_exponent s = (sg @ a @ fr, e)"
    using m by (cases "split_exponent s") simp
  have neg: "has_prefix (sg @ a @ fr) ''-'' = (sg = ''-'')"
    using sg a0 ha by (cases a) (elim disjE; simp add: has_prefix_def)+
  have u: "trim_prefix (sg @ a @ fr) ''-'' = a @ fr"
    using sg neg by (elim disjE) (simp_all add: trim_prefix_def)
  have dot: "\<forall>c \<in> set a. c \<noteq> CHR ''.''"
    using da digit_chars by (auto simp: list_all_iff)
  have nv: "num_value s = (if sg = ''-'' then - 1 else 1)
       * (of_int (digits_val (takeWhile (\<lambda>c. c \<noteq> CHR ''.'') (a @ fr)))
          + of_int (digits_val (drop 1 (dropWhile (\<lambda>c. c \<noteq> CHR ''.'') (a @ fr))))
            / 10 ^ length (drop 1 (dropWhile (\<lambda>c. c \<noteq> CHR ''.'') (a @ fr)))) * 10 powi e"
    unfolding num_value_def e Let_def prod.case neg u by (rule refl)
  have nn: "normal_number s = (case split_point (a @ fr) e of (ds, e') \<Rightarrow> normal_digits (sg = ''-'') ds e')"
    unfolding normal_number_def e Let_def prod.case neg u by (rule refl)
  from fr show ?thesis
  proof
    assume [simp]: "fr = []"
    have tw: "takeWhile (\<lambda>c. c \<noteq> CHR ''.'') a = a" "dropWhile (\<lambda>c. c \<noteq> CHR ''.'') a = []"
      using dot by (simp_all add: takeWhile_eq_all_conv dropWhile_eq_Nil_conv)
    have "num_value s = sval (sg = ''-'') (digits_val a) e"
      by (simp add: nv sval_def tw)
    moreover have "normal_number s = normal_digits (sg = ''-'') a e"
      by (simp add: nn split_point_shape(1) [OF da])
    ultimately show ?thesis using da by auto
  next
    assume "\<exists>f. fr = CHR ''.'' # f \<and> list_all is_digit f"
    then obtain f where f: "fr = CHR ''.'' # f" "list_all is_digit f" by blast
    have "takeWhile (\<lambda>c. c \<noteq> CHR ''.'') (a @ fr) = a" "dropWhile (\<lambda>c. c \<noteq> CHR ''.'') (a @ fr) = fr"
      using dot f by (simp_all add: takeWhile_append2 dropWhile_append2)
    then have "num_value s = sval (sg = ''-'') (digits_val (a @ f)) (e - int (length f))"
      unfolding value_fraction by (simp only: nv f(1) drop_Suc_Cons drop_0 One_nat_def)
    moreover have "normal_number s = normal_digits (sg = ''-'') (a @ f) (e - int (length f))"
      unfolding nn f(1) split_point_shape(2) [OF da] by simp
    moreover have "list_all is_digit (a @ f)" using da f by simp
    ultimately show ?thesis by blast
  qed
qed

text \<open>The normal form separates values: the text \<open>toNumber\<close> returns determines the number and is
  determined by it.\<close>

lemma append_sep_eq: "c \<notin> set a \<Longrightarrow> c \<notin> set b \<Longrightarrow> a @ c # x = b @ c # y \<longleftrightarrow> a = b \<and> x = y"
proof (induction a arbitrary: b)
  case Nil
  then show ?case by (cases b) auto
next
  case (Cons z a)
  then show ?case by (cases b) auto
qed

lemma coefficient_chars: "coefficient co \<Longrightarrow> CHR ''e'' \<notin> set co \<and> CHR ''-'' \<notin> set co \<and> co \<noteq> []"
  by (auto simp: coefficient_def plain_digits_def list_all_iff is_digit_def)

lemma signed_text_eq:
  assumes co: "coefficient co" "coefficient co'"
    and eq: "(if neg then ''-'' else '''') @ co @ CHR ''e'' # itoa x =
      (if neg' then ''-'' else '''') @ co' @ CHR ''e'' # itoa x'"
  shows "neg = neg' \<and> co = co' \<and> x = x'"
proof -
  have e: "CHR ''e'' \<notin> set co" "CHR ''e'' \<notin> set co'"
    using coefficient_chars [OF co(1)] coefficient_chars [OF co(2)] by simp_all
  obtain a b where c: "co = a # b" "a \<noteq> CHR ''-''"
    using coefficient_chars [OF co(1)] by (cases co) auto
  obtain a' b' where c': "co' = a' # b'" "a' \<noteq> CHR ''-''"
    using coefficient_chars [OF co(2)] by (cases co') auto
  have n: "neg = neg'"
    using eq c(2) c'(2) unfolding c(1) c'(1) by (cases neg; cases neg') simp_all
  with eq have "co @ CHR ''e'' # itoa x = co' @ CHR ''e'' # itoa x'"
    by (simp only: same_append_eq)
  then have "co = co' \<and> itoa x = itoa x'"
    unfolding append_sep_eq [OF e] .
  with n itoa_inj show ?thesis by blast
qed

lemma coefficient_text: "coefficient co \<Longrightarrow> (if n then ''-'' else '''') @ co @ CHR ''e'' # t \<noteq> ''0''"
  using coefficient_chars [of co] by (cases co; cases n) auto

lemma coefficient_nonzero: "coefficient co \<Longrightarrow> sval n (digits_val co) x \<noteq> 0"
  using coefficient_pos [of co] by (simp add: sval_def)

lemma normal_digits_eq_iff:
  assumes "list_all is_digit ds" and "list_all is_digit ds'"
  shows "normal_digits neg ds e = normal_digits neg' ds' e' \<longleftrightarrow>
    sval neg (digits_val ds) e = sval neg' (digits_val ds') e'"
  using normal_digits_cases [OF assms(1), of neg e] normal_digits_cases [OF assms(2), of neg' e']
proof (elim disjE exE conjE, goal_cases)
  case 1
  then show ?case by simp
next
  case (2 co x)
  show ?case
    unfolding 2(1,2,4,5) using coefficient_text [OF 2(3)] coefficient_nonzero [OF 2(3)] by metis
next
  case (3 co x)
  show ?case
    unfolding 3(1,2,4,5) using coefficient_text [OF 3(3)] coefficient_nonzero [OF 3(3)] by metis
next
  case (4 co co' x x')
  show ?case
    unfolding 4(3-6) using signed_text_eq [OF 4(1,2)] decimal_unique [OF 4(1,2)] by blast
qed

lemma normal_number_eq_iff:
  assumes "valid_number s" and "valid_number t"
  shows "normal_number s = normal_number t \<longleftrightarrow> num_value s = num_value t"
  using normal_number_value [OF assms(1)] normal_number_value [OF assms(2)]
  by (elim exE conjE) (simp only: normal_digits_eq_iff)

text \<open>\<open>test\<close> compares numbers by their mathematical value: for two scalars that print as JSON numbers,
  whatever their Go types (\<open>int64\<close> against \<open>json.Number\<close>, \<open>1e2\<close> against \<open>100.0\<close>), the comparison succeeds
  exactly when the rational numbers they denote are equal. No digit is rounded away.\<close>

theorem patch_test_numbers:
  assumes "marshal_number ff l = Some s" and "marshal_number ff l' = Some t"
    and "valid_number s" and "valid_number t"
  shows "patch_equal ff (GLeaf l) (GLeaf l') \<longleftrightarrow> num_value s = num_value t"
proof -
  have "\<not> patch_null (GLeaf l)" "\<not> patch_null (GLeaf l')"
    using assms(1,2) by (auto simp: marshal_number_def split: leaf.splits)
  then show ?thesis
    using assms by (simp add: patch_equal.simps to_number_def normal_number_eq_iff)
qed

lemma patch_test_numbers_witness:
  "patch_equal (\<lambda>_. None) (GInt KInt64 100) (GNumber ''1.00e2'')"
proof -
  have "num_value (itoa 100) = num_value ''1.00e2''"
    by code_simp
  moreover have "valid_number (itoa 100) \<and> valid_number ''1.00e2''"
    by code_simp
  ultimately show ?thesis
    using patch_test_numbers [of "\<lambda>_. None" "LInt KInt64 100" "itoa 100" "LNumber ''1.00e2''" "''1.00e2''"]
    by (simp add: marshal_number_def)
qed

section \<open>Array positions\<close>

lemma nat_digits_plain: "0 < n \<Longrightarrow> plain_digits (nat_digits n)"
proof (induction n rule: nat_digits.induct)
  case (1 n)
  show ?case
  proof (cases "n < 10")
    case True
    have "digit_val (CHR ''0'') = 0" by (simp add: digit_val_def)
    then have "char_of (48 + n :: nat) \<noteq> CHR ''0''" using 1(2) char_digit(2) [OF True] by auto
    then show ?thesis using True char_digit(1) [OF True] by (subst nat_digits.simps) (simp add: plain_digits_def)
  next
    case False
    then have "plain_digits (nat_digits (n div 10))" using 1 by simp
    then show ?thesis
      using False char_digit(1) [of "n mod 10"] by (subst nat_digits.simps) (auto simp: plain_digits_def)
  qed
qed

lemma canonical_itoa:
  assumes "is_all_digits tok" and "length tok \<le> 1 \<or> hd tok \<noteq> CHR ''0''"
  shows "tok = itoa (digits_val tok)"
proof (cases "hd tok = CHR ''0''")
  case True
  then have "tok = ''0''" using assms by (cases tok) (auto simp: is_all_digits_def)
  moreover have "itoa 0 = ''0''" "digits_val ''0'' = 0" by code_simp+
  ultimately show ?thesis by simp
next
  case False
  then have p: "plain_digits tok" using assms(1) by (simp add: plain_digits_def is_all_digits_def)
  have "0 < digits_val tok" using plain_digits_bounds(1) [OF p] by (auto intro: less_le_trans [rotated])
  then show ?thesis
    using nat_digits_plain [of "nat (digits_val tok)"] nat_digits_props [of "nat (digits_val tok)"] p
    by (auto simp: itoa_nonneg intro: plain_digits_inj)
qed

lemma itoa_canonical:
  assumes "0 \<le> i"
  shows "is_all_digits (itoa i) \<and> \<not> (1 < length (itoa i) \<and> hd (itoa i) = CHR ''0'') \<and> digits_val (itoa i) = i \<and> itoa i \<noteq> ''-''"
proof (cases "i = 0")
  case True
  have "itoa 0 = ''0''" "is_all_digits ''0''" "digits_val ''0'' = 0" by code_simp+
  then show ?thesis using True by simp
next
  case False
  then have "plain_digits (nat_digits (nat i))" using assms by (intro nat_digits_plain) simp
  then show ?thesis
    using assms nat_digits_props [of "nat i"] minus_not_digit
    by (auto simp: itoa_nonneg plain_digits_def is_all_digits_def)
qed

lemma parse_digits:
  assumes "is_all_digits tok"
  shows "parse_int64 tok = (if digits_val tok \<le> max_int64 then Some (digits_val tok) else None)"
proof -
  have "hd tok \<noteq> CHR ''-''" "hd tok \<noteq> CHR ''+''" "0 \<le> digits_val tok"
    using assms digits_val_nonneg [of tok] by (auto simp: is_all_digits_def is_digit_def neq_Nil_conv)
  then show ?thesis using assms by (cases tok) (auto simp: parse_int64_def min_int64_def is_all_digits_def)
qed

text \<open>\<open>arrayIndex\<close> accepts the decimal form of a position in range and, for \<open>add\<close>, the dash.\<close>

lemma array_index_iff:
  assumes "int n \<le> max_int64"
  shows "array_index tok n b = Inr i \<longleftrightarrow>
    tok = itoa i \<and> 0 \<le> i \<and> (i < int n \<or> b \<and> i = int n) \<or> tok = ''-'' \<and> b \<and> i = int n"
proof (cases "is_all_digits tok")
  case True
  have dash: "tok \<noteq> ''-''" using True minus_not_digit by (auto simp: is_all_digits_def)
  show ?thesis
  proof
    assume l: "array_index tok n b = Inr i"
    then have "\<not> (1 < length tok \<and> hd tok = CHR ''0'')" "i = digits_val tok" "i < int n \<or> b \<and> i = int n"
      using dash True by (auto simp: array_index_def parse_digits split: if_splits)
    moreover from this(1) have "tok = itoa (digits_val tok)" by (intro canonical_itoa [OF True]) linarith
    with \<open>i = digits_val tok\<close> have "tok = itoa i" by (simp only:)
    moreover have "0 \<le> digits_val tok" using True digits_val_nonneg by (simp add: is_all_digits_def)
    ultimately show "tok = itoa i \<and> 0 \<le> i \<and> (i < int n \<or> b \<and> i = int n) \<or> tok = ''-'' \<and> b \<and> i = int n" by blast
  next
    assume "tok = itoa i \<and> 0 \<le> i \<and> (i < int n \<or> b \<and> i = int n) \<or> tok = ''-'' \<and> b \<and> i = int n"
    then have i: "tok = itoa i" "0 \<le> i" "i < int n \<or> b \<and> i = int n" using dash by auto
    note c = itoa_canonical [OF i(2)]
    then have "parse_int64 (itoa i) = Some i" using i(2,3) assms by (auto simp: parse_digits)
    then show "array_index tok n b = Inr i"
      using c i(3) unfolding i(1) array_index_def by auto
  qed
next
  case False
  then have "tok \<noteq> itoa i" if "0 \<le> i" using itoa_canonical [OF that] by auto
  then show ?thesis using False by (auto simp: array_index_def split: option.splits)
qed

lemma split_at: "nat i < length xs \<Longrightarrow> xs = take (nat i) xs @ xs ! nat i # drop (Suc (nat i)) xs"
  by (simp add: id_take_nth_drop)

text \<open>C33. No patch panics, whatever the document (nil maps and slices in it included) and the operations: each index
  that reaches \<open>c[i]\<close>, \<open>slices.Insert\<close> or \<open>slices.Delete\<close> is in range and no nil map is written. The checks are exact
  too: in an array that a machine can hold, \<open>add\<close> succeeds at the decimal form (no sign, no leading zero) of a position
  up to its length, or at the dash for its end, and inserts the value there and changes nothing else; \<open>remove\<close> and a
  read succeed at the decimal form of a position below its length and take out, or give, the element there.\<close>

theorem patch_safe:
  assumes "int (length xs) \<le> max_int64"
  shows "apply_patch ff doc patch \<noteq> Inl PatchPanic \<and>
    (add_to v (GSlice xs) tok = Inr d \<longleftrightarrow>
       (\<exists>ys zs. xs = ys @ zs \<and> d = GSlice (ys @ v # zs) \<and> (tok = itoa (int (length ys)) \<or> tok = ''-'' \<and> zs = []))) \<and>
    (remove_from (GSlice xs) tok = Inr d \<longleftrightarrow>
       (\<exists>ys x zs. xs = ys @ x # zs \<and> d = GSlice (ys @ zs) \<and> tok = itoa (int (length ys)))) \<and>
    (child_at (GSlice xs) tok = Inr d \<longleftrightarrow> (\<exists>ys zs. xs = ys @ d # zs \<and> tok = itoa (int (length ys))))"
proof (intro conjI iffI)
  show "apply_patch ff doc patch \<noteq> Inl PatchPanic"
    unfolding apply_patch_def
    by (auto split: patch_doc.splits gval.splits simp: rbind_Inl_iff apply_ops_no_panic)
next
  assume "add_to v (GSlice xs) tok = Inr d"
  then obtain i where i: "array_index tok (length xs) True = Inr i" "slice_insert xs i v = Inr d"
    by (auto simp: add_to_def rbind_Inr_iff)
  then have d: "nat i \<le> length xs" "d = GSlice (take (nat i) xs @ v # drop (nat i) xs)"
    using at_add_index [of tok xs i v] by auto
  then show "\<exists>ys zs. xs = ys @ zs \<and> d = GSlice (ys @ v # zs) \<and> (tok = itoa (int (length ys)) \<or> tok = ''-'' \<and> zs = [])"
    using i(1) unfolding array_index_iff [OF assms]
    by (intro exI [of _ "take (nat i) xs"] exI [of _ "drop (nat i) xs"]) auto
next
  assume "\<exists>ys zs. xs = ys @ zs \<and> d = GSlice (ys @ v # zs) \<and> (tok = itoa (int (length ys)) \<or> tok = ''-'' \<and> zs = [])"
  then obtain ys zs where y: "xs = ys @ zs" "d = GSlice (ys @ v # zs)" "tok = itoa (int (length ys)) \<or> tok = ''-'' \<and> zs = []"
    by blast
  then have "array_index tok (length xs) True = Inr (int (length ys))" unfolding array_index_iff [OF assms] by auto
  then show "add_to v (GSlice xs) tok = Inr d" using y(1,2) by (simp add: add_to_def slice_insert_def)
next
  assume "remove_from (GSlice xs) tok = Inr d"
  then obtain i where i: "array_index tok (length xs) False = Inr i" "slice_delete xs i = Inr d"
    by (auto simp: remove_from_def rbind_Inr_iff)
  then have d: "nat i < length xs" "d = GSlice (take (nat i) xs @ drop (Suc (nat i)) xs)"
    using at_index [of tok xs i v] by auto
  then show "\<exists>ys x zs. xs = ys @ x # zs \<and> d = GSlice (ys @ zs) \<and> tok = itoa (int (length ys))"
    using i(1) split_at [OF d(1)] unfolding array_index_iff [OF assms]
    by (intro exI [of _ "take (nat i) xs"] exI [of _ "xs ! nat i"] exI [of _ "drop (Suc (nat i)) xs"]) auto
next
  assume "\<exists>ys x zs. xs = ys @ x # zs \<and> d = GSlice (ys @ zs) \<and> tok = itoa (int (length ys))"
  then obtain ys x zs where y: "xs = ys @ x # zs" "d = GSlice (ys @ zs)" "tok = itoa (int (length ys))" by blast
  then have "array_index tok (length xs) False = Inr (int (length ys))" unfolding array_index_iff [OF assms] by auto
  then show "remove_from (GSlice xs) tok = Inr d" using y(1,2) by (simp add: remove_from_def slice_delete_def)
next
  assume "child_at (GSlice xs) tok = Inr d"
  then obtain i where i: "array_index tok (length xs) False = Inr i" "slice_get xs i = Inr d"
    by (auto simp: rbind_Inr_iff)
  then have d: "nat i < length xs" "d = xs ! nat i" using at_index [of tok xs i v] by auto
  then show "\<exists>ys zs. xs = ys @ d # zs \<and> tok = itoa (int (length ys))"
    using i(1) split_at [OF d(1)] unfolding array_index_iff [OF assms]
    by (intro exI [of _ "take (nat i) xs"] exI [of _ "drop (Suc (nat i)) xs"]) auto
next
  assume "\<exists>ys zs. xs = ys @ d # zs \<and> tok = itoa (int (length ys))"
  then obtain ys zs where y: "xs = ys @ d # zs" "tok = itoa (int (length ys))" by blast
  then have "array_index tok (length xs) False = Inr (int (length ys))" unfolding array_index_iff [OF assms] by auto
  then show "child_at (GSlice xs) tok = Inr d" using y(1) by (simp add: slice_get_def)
qed

lemma patch_safe_witness:
  "apply_patch (\<lambda>_. None) (Some [(''a'', GNilMap)])
      (PatchOps [[(''op'', GStr ''add''), (''path'', GStr ''/a/b''), (''value'', GNil)]]) \<noteq> Inl PatchPanic \<and>
   add_to (GStr ''x'') (GSlice [GNil, GNil]) ''1'' = Inr (GSlice [GNil, GStr ''x'', GNil])"
proof -
  have "(1 :: int) = int (length [GNil])" by simp
  moreover have "itoa 1 = ''1''" by code_simp
  moreover have "int (length [GNil, GNil]) \<le> max_int64" by (simp add: max_int64_def)
  ultimately show ?thesis
    using patch_safe [of "[GNil, GNil]" "\<lambda>_. None" "Some [(''a'', GNilMap)]"
        "PatchOps [[(''op'', GStr ''add''), (''path'', GStr ''/a/b''), (''value'', GNil)]]" "GStr ''x''" "''1''"
        "GSlice [GNil, GStr ''x'', GNil]"]
    by (metis append_Cons append_Nil)
qed

end
