(* ===== verification/Hooks.thy ===== *)
theory Hooks
  imports FieldMeta Patch
begin

text \<open>
  \<open>codec/typed_hooks.go\<close> and \<open>typed_hooks_defaults.go\<close>: the plan that finds the fields hooks convert, its application
  to the merged map before decoding, and the assignment of results after it. The plan is a graph with one node per
  type, so it is kept as a table of shapes keyed by type. Durations, addresses, URLs and regular expressions are
  parsed by arguments.
\<close>

section \<open>Trees and hooks\<close>

text \<open>A document during decoding: beside JSON-shaped values it holds values of other Go types, \<open>HTyped\<close>, and the wrapper
  \<open>assignedValue\<close>.\<close>

datatype hval =
    HLeaf leaf
  | HTyped rtype rval
  | HAssigned rtype rval
  | HNilMap
  | HMap "(string \<times> hval) list"
  | HNilSlice
  | HSlice "hval list"

type_synonym hmap = "(string \<times> hval) list"

text \<open>A conversion returns a value and the text of an error, if any; both are used.\<close>

record typed_hook =
  th_match :: "rtype \<Rightarrow> bool"
  th_convert :: "hval \<Rightarrow> hval \<times> string option"
  th_convert_target :: "(hval \<Rightarrow> rtype \<Rightarrow> hval \<times> string option) option"

datatype plan_ref = HookRef typed_hook rtype | ShapeRef rtype

record hook_field =
  hf_aliases :: "string list"
  hf_index :: "nat list"
  hf_plan :: plan_ref

record shape =
  sh_fields :: "hook_field list"
  sh_elem :: "plan_ref option"

text \<open>\<open>pb_iface\<close> tells the interfaces among the types without structure.\<close>

record plan_builder =
  pb_env :: tenv
  pb_hooks :: "typed_hook list"
  pb_yaml :: bool
  pb_iface :: "rtype \<Rightarrow> bool"

section \<open>Building the plan\<close>

definition direct_target :: "plan_builder \<Rightarrow> rtype \<Rightarrow> bool" where
  "direct_target b t =
     (case under (pb_env b) t of RStruct fs \<Rightarrow> True | RPtr u \<Rightarrow> True | RPrim POther \<Rightarrow> pb_iface b t | _ \<Rightarrow> False)"

definition hook_applies :: "rtype \<Rightarrow> typed_hook \<Rightarrow> bool" where
  "hook_applies t h \<longleftrightarrow> th_match h t \<or> deref t \<noteq> t \<and> th_match h (deref t)"

definition plan_for :: "plan_builder \<Rightarrow> rtype \<Rightarrow> plan_ref" where
  "plan_for b t =
     (case find (hook_applies t) (pb_hooks b) of
        Some h \<Rightarrow> HookRef h (if th_match h t then t else deref t)
      | None \<Rightarrow> ShapeRef (deref t))"

definition add_field :: "plan_builder \<Rightarrow> rfield \<times> nat list \<Rightarrow> hook_field option" where
  "add_field b p =
     (let aliases = fn_aliases (field_names_of (fst p)) in
      if aliases = [] then None
      else Some \<lparr>hf_aliases = aliases, hf_index = snd p, hf_plan = plan_for b (rf_type (fst p))\<rparr>)"

definition hook_fields :: "plan_builder \<Rightarrow> rtype \<Rightarrow> (rfield \<times> nat list) list" where
  "hook_fields b t =
     (if pb_yaml b
      then filter (\<lambda>p. \<not> yaml_inline (tag_get (fst p) ''yaml'')) (struct_fields (pb_env b) \<lparr>em_json = False, em_yaml = True\<rparr> t)
      else map (\<lambda>f. (jf_field f, jf_index f)) (json_fields (pb_env b) t))"

text \<open>The node \<open>shapeFor\<close> makes for a type; it depends on the type only.\<close>

definition shape_of :: "plan_builder \<Rightarrow> rtype \<Rightarrow> shape" where
  "shape_of b t =
     (case under (pb_env b) t of
        RStruct fs \<Rightarrow> \<lparr>sh_fields = List.map_filter (add_field b) (hook_fields b t), sh_elem = None\<rparr>
      | RSlice u \<Rightarrow> \<lparr>sh_fields = [], sh_elem = Some (plan_for b u)\<rparr>
      | RArray n u \<Rightarrow> \<lparr>sh_fields = [], sh_elem = Some (plan_for b u)\<rparr>
      | RMap k u \<Rightarrow> \<lparr>sh_fields = [], sh_elem = Some (plan_for b u)\<rparr>
      | _ \<Rightarrow> \<lparr>sh_fields = [], sh_elem = None\<rparr>)"

definition shape_refs :: "shape \<Rightarrow> plan_ref list" where
  "shape_refs s = map hf_plan (sh_fields s) @ (case sh_elem s of None \<Rightarrow> [] | Some r \<Rightarrow> [r])"

fun ref_shape :: "plan_ref \<Rightarrow> rtype option" where
  "ref_shape (ShapeRef t) = Some t"
| "ref_shape (HookRef h t) = None"

lemma ref_shape_iff: "ref_shape r = Some t \<longleftrightarrow> r = ShapeRef t"
  by (cases r) auto

definition shape_kids :: "plan_builder \<Rightarrow> rtype \<Rightarrow> rtype list" where
  "shape_kids b t = List.map_filter ref_shape (shape_refs (shape_of b t))"

text \<open>\<open>b.all\<close>: every type \<open>shapeFor\<close> meets, the memo table being the list of types seen, in the order of their creation.\<close>

definition all_shapes :: "plan_builder \<Rightarrow> plan_ref \<Rightarrow> rtype list" where
  "all_shapes b r =
     (case r of
        HookRef h t \<Rightarrow> []
      | ShapeRef t \<Rightarrow> rev (snd (reach_visit (shape_kids b) (\<lambda>_. False) (card (universe (pb_env b) {t}) + 1) t [])))"

text \<open>The flags of the nodes: the types whose node is \<open>live\<close>, and those whose node \<open>assigns\<close>.\<close>

record plan_flags =
  pf_live :: "rtype list"
  pf_assigns :: "rtype list"

fun ref_live :: "plan_flags \<Rightarrow> plan_ref \<Rightarrow> bool" where
  "ref_live fl (HookRef h t) = True"
| "ref_live fl (ShapeRef t) = (t \<in> set (pf_live fl))"

fun ref_assigns :: "plan_builder \<Rightarrow> plan_flags \<Rightarrow> plan_ref \<Rightarrow> bool" where
  "ref_assigns b fl (HookRef h t) = direct_target b t"
| "ref_assigns b fl (ShapeRef t) = (t \<in> set (pf_assigns fl))"

definition mark_shape :: "plan_builder \<Rightarrow> rtype \<Rightarrow> plan_flags \<Rightarrow> plan_flags" where
  "mark_shape b t fl =
     (let refs = shape_refs (shape_of b t)
      in \<lparr>pf_live = (if list_ex (ref_live fl) refs then List.insert t (pf_live fl) else pf_live fl),
          pf_assigns = (if list_ex (ref_assigns b fl) refs then List.insert t (pf_assigns fl) else pf_assigns fl)\<rparr>)"

definition propagate_pass :: "plan_builder \<Rightarrow> rtype list \<Rightarrow> plan_flags \<Rightarrow> plan_flags" where
  "propagate_pass b ts fl = fold (mark_shape b) ts fl"

lemma mark_length:
  "set (pf_live fl) \<subseteq> set (pf_live (mark_shape b t fl)) \<and> set (pf_assigns fl) \<subseteq> set (pf_assigns (mark_shape b t fl)) \<and>
   set (pf_live (mark_shape b t fl)) \<subseteq> insert t (set (pf_live fl)) \<and>
   set (pf_assigns (mark_shape b t fl)) \<subseteq> insert t (set (pf_assigns fl)) \<and>
   (set (pf_live (mark_shape b t fl)) = set (pf_live fl) \<and> set (pf_assigns (mark_shape b t fl)) = set (pf_assigns fl) \<longrightarrow>
      mark_shape b t fl = fl)"
  by (cases fl) (auto simp: mark_shape_def Let_def List.insert_def)

lemma pass_length:
  "set (pf_live fl) \<subseteq> set (pf_live (propagate_pass b ts fl)) \<and> set (pf_assigns fl) \<subseteq> set (pf_assigns (propagate_pass b ts fl)) \<and>
   set (pf_live (propagate_pass b ts fl)) \<subseteq> set ts \<union> set (pf_live fl) \<and>
   set (pf_assigns (propagate_pass b ts fl)) \<subseteq> set ts \<union> set (pf_assigns fl) \<and>
   (set (pf_live (propagate_pass b ts fl)) = set (pf_live fl) \<and> set (pf_assigns (propagate_pass b ts fl)) = set (pf_assigns fl) \<longrightarrow>
      propagate_pass b ts fl = fl)"
proof (induction ts arbitrary: fl)
  case Nil
  then show ?case by (simp add: propagate_pass_def)
next
  case (Cons t ts)
  have step: "propagate_pass b (t # ts) fl = propagate_pass b ts (mark_shape b t fl)" by (simp add: propagate_pass_def)
  show ?case using Cons [of "mark_shape b t fl"] mark_length [of fl b t] unfolding step by auto
qed

text \<open>\<open>propagate\<close>, the loop: it runs until a pass changes nothing.\<close>

function propagate :: "plan_builder \<Rightarrow> rtype list \<Rightarrow> plan_flags \<Rightarrow> plan_flags" where
  "propagate b ts fl = (if propagate_pass b ts fl = fl then fl else propagate b ts (propagate_pass b ts fl))"
  by pat_completeness auto
termination
proof (relation "measure (\<lambda>(b, ts, fl). card (set ts - set (pf_live fl)) + card (set ts - set (pf_assigns fl)))", simp_all, goal_cases)
  case (1 b ts fl)
  let ?p = "propagate_pass b ts fl"
  note p = pass_length [of fl b ts]
  have le: "card (set ts - set (pf_live ?p)) \<le> card (set ts - set (pf_live fl))"
    "card (set ts - set (pf_assigns ?p)) \<le> card (set ts - set (pf_assigns fl))"
    using p by (auto intro!: card_mono)
  from 1 p have "set (pf_live ?p) \<noteq> set (pf_live fl) \<or> set (pf_assigns ?p) \<noteq> set (pf_assigns fl)" by blast
  then show ?case
  proof
    assume "set (pf_live ?p) \<noteq> set (pf_live fl)"
    then have "set ts - set (pf_live ?p) \<subset> set ts - set (pf_live fl)" using p by blast
    then have "card (set ts - set (pf_live ?p)) < card (set ts - set (pf_live fl))" by (simp add: psubset_card_mono)
    then show ?thesis using le by linarith
  next
    assume "set (pf_assigns ?p) \<noteq> set (pf_assigns fl)"
    then have "set ts - set (pf_assigns ?p) \<subset> set ts - set (pf_assigns fl)" using p by blast
    then have "card (set ts - set (pf_assigns ?p)) < card (set ts - set (pf_assigns fl))" by (simp add: psubset_card_mono)
    then show ?thesis using le by linarith
  qed
qed

declare propagate.simps [simp del]

text \<open>The second loop of \<open>propagate\<close>: subtrees without a hook are dropped.\<close>

definition prune_shape :: "plan_flags \<Rightarrow> shape \<Rightarrow> shape" where
  "prune_shape fl s =
     \<lparr>sh_fields = filter (\<lambda>f. ref_live fl (hf_plan f)) (sh_fields s),
      sh_elem = (case sh_elem s of Some r \<Rightarrow> if ref_live fl r then Some r else None | None \<Rightarrow> None)\<rparr>"

definition empty_shape :: shape where "empty_shape = \<lparr>sh_fields = [], sh_elem = None\<rparr>"

record hook_plan =
  hp_root :: "plan_ref option"
  hp_shapes :: "(rtype \<times> shape) list"
  hp_flags :: plan_flags

definition no_plan :: hook_plan where
  "no_plan = \<lparr>hp_root = None, hp_shapes = [], hp_flags = \<lparr>pf_live = [], pf_assigns = []\<rparr>\<rparr>"

definition build_typed_hook_plan :: "plan_builder \<Rightarrow> rtype \<Rightarrow> hook_plan" where
  "build_typed_hook_plan b t =
     (if pb_hooks b = [] then no_plan
      else
        (let root = plan_for b t; ts = all_shapes b root;
             fl = propagate b ts \<lparr>pf_live = [], pf_assigns = []\<rparr>
         in if ref_live fl root
            then \<lparr>hp_root = Some root, hp_shapes = map (\<lambda>t. (t, prune_shape fl (shape_of b t))) ts, hp_flags = fl\<rparr>
            else no_plan))"

definition shape_at :: "hook_plan \<Rightarrow> rtype \<Rightarrow> shape" where
  "shape_at p t = (case kv_get (hp_shapes p) t of Some s \<Rightarrow> s | None \<Rightarrow> empty_shape)"

section \<open>Applying the plan\<close>

fun pick_alias :: "('k \<times> 'v) list \<Rightarrow> 'k list \<Rightarrow> 'k option" where
  "pick_alias node [] = None"
| "pick_alias node (a # as) = (if kv_get node a \<noteq> None then Some a else pick_alias node as)"

fun dyn_type :: "hval \<Rightarrow> rtype option" where
  "dyn_type (HTyped t x) = Some t"
| "dyn_type _ = None"

text \<open>The branch of \<open>apply\<close> for a hook. A document value of the JSON-shaped kinds is never of a type that is assigned
  directly.\<close>

definition convert_with :: "typed_hook \<Rightarrow> rtype \<Rightarrow> hval \<Rightarrow> hval \<times> string option" where
  "convert_with h t v = (case th_convert_target h of Some c \<Rightarrow> c v t | None \<Rightarrow> th_convert h v)"

definition apply_hook :: "plan_builder \<Rightarrow> typed_hook \<Rightarrow> rtype \<Rightarrow> hval \<Rightarrow> hval \<times> string option" where
  "apply_hook b h t v =
     (case convert_with h t v of
        (HTyped u x, None) \<Rightarrow> (if direct_target b t \<and> u = t then HAssigned u x else HTyped u x, None)
      | r \<Rightarrow> r)"

definition keep_err :: "string option \<Rightarrow> string option \<Rightarrow> string option" where
  "keep_err first e = (if first = None then e else first)"

text \<open>The three loops of \<open>apply\<close>, over a function \<open>f\<close> for the parts that may run out of fuel.\<close>

fun apply_items :: "('v \<Rightarrow> ('v \<times> string option) option) \<Rightarrow> string option \<Rightarrow> 'v list \<Rightarrow> ('v list \<times> string option) option" where
  "apply_items f err [] = Some ([], err)"
| "apply_items f err (x # xs) =
     Option.bind (f x) (\<lambda>(y, e). map_option (\<lambda>(ys, err'). (y # ys, err')) (apply_items f (keep_err err e) xs))"

fun apply_entries :: "('v \<Rightarrow> ('v \<times> string option) option) \<Rightarrow> string option \<Rightarrow> (string \<times> 'v) list \<Rightarrow>
    ((string \<times> 'v) list \<times> string option) option" where
  "apply_entries f err [] = Some ([], err)"
| "apply_entries f err ((k, x) # m) =
     Option.bind (f x) (\<lambda>(y, e). map_option (\<lambda>(m', err'). ((k, y) # m', err')) (apply_entries f (keep_err err e) m))"

fun apply_fields :: "(plan_ref \<Rightarrow> 'v \<Rightarrow> ('v \<times> string option) option) \<Rightarrow> string option \<Rightarrow> hook_field list \<Rightarrow>
    (string \<times> 'v) list \<Rightarrow> ((string \<times> 'v) list \<times> string option) option" where
  "apply_fields f err [] m = Some (m, err)"
| "apply_fields f err (p # ps) m =
     (case pick_alias m (hf_aliases p) of
        None \<Rightarrow> apply_fields f err ps m
      | Some key \<Rightarrow>
          (case kv_get m key of
             None \<Rightarrow> apply_fields f err ps m
           | Some x \<Rightarrow> Option.bind (f (hf_plan p) x) (\<lambda>(y, e). apply_fields f (keep_err err e) ps (kv_set key y m))))"

text \<open>\<open>typePlan.apply\<close> with the shapes \<open>sh\<close>; one unit of fuel per nested call.\<close>

fun apply_ref :: "plan_builder \<Rightarrow> (rtype \<Rightarrow> shape) \<Rightarrow> nat \<Rightarrow> plan_ref \<Rightarrow> hval \<Rightarrow> (hval \<times> string option) option" where
  "apply_ref b sh 0 r v = None"
| "apply_ref b sh (Suc n) (HookRef h t) v = Some (apply_hook b h t v)"
| "apply_ref b sh (Suc n) (ShapeRef t) v =
     (case v of
        HMap m \<Rightarrow>
          (case sh_elem (sh t) of
             Some e \<Rightarrow> map_option (\<lambda>(m', err). (HMap m', err)) (apply_entries (apply_ref b sh n e) None m)
           | None \<Rightarrow> map_option (\<lambda>(m', err). (HMap m', err)) (apply_fields (apply_ref b sh n) None (sh_fields (sh t)) m))
      | HSlice xs \<Rightarrow>
          (case sh_elem (sh t) of
             Some e \<Rightarrow> map_option (\<lambda>(ys, err). (HSlice ys, err)) (apply_items (apply_ref b sh n e) None xs)
           | None \<Rightarrow> Some (v, None))
      | _ \<Rightarrow> Some (v, None))"

text \<open>The height of a tree bounds the depth of the calls when no hook returns a higher tree than it was given.\<close>

fun height :: "hval \<Rightarrow> nat" where
  "height (HMap m) = Suc (foldr max (map (\<lambda>p. height (snd p)) m) 0)"
| "height (HSlice xs) = Suc (foldr max (map height xs) 0)"
| "height _ = 0"

definition max_height :: "hval list \<Rightarrow> nat" where
  "max_height xs = foldr max (map height xs) 0"

text \<open>\<open>TypedHookPlan.Apply\<close>: the document, rewritten, and the first error.\<close>

definition apply_plan :: "plan_builder \<Rightarrow> hook_plan \<Rightarrow> hmap \<Rightarrow> (hval \<times> string option) option" where
  "apply_plan b p m =
     (case hp_root p of
        None \<Rightarrow> Some (HMap m, None)
      | Some r \<Rightarrow> apply_ref b (shape_at p) (height (HMap m) + 1) r (HMap m))"

section \<open>The plan is an optimisation\<close>

text \<open>The reference: every value is rewritten along its type, with no table of nodes and nothing dropped.\<close>

definition rewrite_typed :: "plan_builder \<Rightarrow> rtype \<Rightarrow> hmap \<Rightarrow> (hval \<times> string option) option" where
  "rewrite_typed b t m = apply_ref b (shape_of b) (height (HMap m) + 1) (plan_for b t) (HMap m)"

text \<open>A hook that makes no tree higher.\<close>

definition flat_hook :: "typed_hook \<Rightarrow> bool" where
  "flat_hook h \<longleftrightarrow> (\<forall>t v. height (fst (convert_with h t v)) \<le> height v)"

lemma max_height_simps [simp]: "max_height [] = 0" "max_height (x # xs) = max (height x) (max_height xs)"
  by (simp_all add: max_height_def)

lemma height_map [simp]: "height (HMap m) = Suc (max_height (map snd m))"
  by (simp add: max_height_def comp_def)

lemma height_slice [simp]: "height (HSlice xs) = Suc (max_height xs)"
  by (simp add: max_height_def)

declare height.simps(1,2) [simp del]

lemma max_height_le: "max_height xs \<le> n \<longleftrightarrow> (\<forall>x \<in> set xs. height x \<le> n)"
  by (induction xs) auto

lemma max_height_less: "max_height xs < n \<longleftrightarrow> 0 < n \<and> (\<forall>x \<in> set xs. height x < n)"
  by (induction xs) auto

lemma set_kv_set_snd: "x \<in> snd ` set (kv_set k v m) \<Longrightarrow> x = v \<or> x \<in> snd ` set m"
  using set_kv_set_cases by fastforce

lemma kv_get_snd: "kv_get m k = Some x \<Longrightarrow> x \<in> set (map snd m)"
  by (metis image_set map_of_SomeD imageI snd_conv)

lemma apply_hook_height: "flat_hook h \<Longrightarrow> height (fst (apply_hook b h t v)) \<le> height v"
proof -
  assume "flat_hook h"
  then have le: "height (fst (convert_with h t v)) \<le> height v" by (simp add: flat_hook_def)
  obtain y e where c: "convert_with h t v = (y, e)" by (cases "convert_with h t v")
  show ?thesis using le unfolding apply_hook_def c by (cases y; cases e) auto
qed

fun ref_flat :: "plan_ref \<Rightarrow> bool" where
  "ref_flat (HookRef h t) = flat_hook h"
| "ref_flat (ShapeRef t) = True"

definition flat_shapes :: "(rtype \<Rightarrow> shape) \<Rightarrow> bool" where
  "flat_shapes sh \<longleftrightarrow> (\<forall>t. list_all ref_flat (shape_refs (sh t)))"

lemma plan_for_flat: "list_all flat_hook (pb_hooks b) \<Longrightarrow> ref_flat (plan_for b t)"
  by (auto simp: plan_for_def find_Some_iff list_all_length split: option.split)

lemma map_filter_in: "y \<in> set (List.map_filter f xs) \<longleftrightarrow> (\<exists>x \<in> set xs. f x = Some y)"
  by (induction xs) (auto simp: List.map_filter_simps split: option.split)

lemma add_field_plan: "add_field b p = Some f \<Longrightarrow> hf_plan f = plan_for b (rf_type (fst p))"
  by (auto simp: add_field_def Let_def split: if_splits)

lemma shape_ref_cases:
  assumes "r \<in> set (shape_refs (shape_of b t))"
  obtains u where "r = plan_for b u"
proof -
  have "\<exists>u. r = plan_for b u"
    using assms
    by (auto simp: shape_refs_def shape_of_def map_filter_in split: rtype.splits dest!: add_field_plan)
  then show thesis using that by blast
qed

lemma shape_of_flat: "list_all flat_hook (pb_hooks b) \<Longrightarrow> flat_shapes (shape_of b)"
  unfolding flat_shapes_def list_all_iff by (metis shape_ref_cases plan_for_flat list_all_iff)

subsection \<open>Every call returns\<close>

definition returns_flat :: "nat \<Rightarrow> (hval \<Rightarrow> (hval \<times> string option) option) \<Rightarrow> bool" where
  "returns_flat n f \<longleftrightarrow> (\<forall>x. height x < n \<longrightarrow> (\<exists>y e. f x = Some (y, e) \<and> height y \<le> height x))"

lemma returns_flatD: "returns_flat n f \<Longrightarrow> height x < n \<Longrightarrow> \<exists>y e. f x = Some (y, e) \<and> height y \<le> height x"
  by (simp add: returns_flat_def)

lemma apply_items_flat:
  "returns_flat n f \<Longrightarrow> \<forall>x \<in> set xs. height x < n \<Longrightarrow>
   \<exists>ys e. apply_items f err xs = Some (ys, e) \<and> max_height ys \<le> max_height xs"
proof (induction xs arbitrary: err)
  case (Cons x xs)
  obtain y e where y: "f x = Some (y, e)" "height y \<le> height x" using returns_flatD [OF Cons(2)] Cons(3) by fastforce
  obtain ys e' where "apply_items f (keep_err err e) xs = Some (ys, e')" "max_height ys \<le> max_height xs"
    using Cons by fastforce
  then show ?case using y by (auto simp: max.coboundedI1 max.coboundedI2)
qed simp

lemma apply_entries_flat:
  "returns_flat n f \<Longrightarrow> \<forall>x \<in> set (map snd m). height x < n \<Longrightarrow>
   \<exists>m' e. apply_entries f err m = Some (m', e) \<and> max_height (map snd m') \<le> max_height (map snd m)"
proof (induction m arbitrary: err)
  case (Cons p m)
  obtain k x where p: "p = (k, x)" by (cases p)
  obtain y e where y: "f x = Some (y, e)" "height y \<le> height x" using returns_flatD [OF Cons(2)] Cons(3) p by fastforce
  obtain m' e' where "apply_entries f (keep_err err e) m = Some (m', e')" "max_height (map snd m') \<le> max_height (map snd m)"
    using Cons by fastforce
  then show ?case using y p by (auto simp: max.coboundedI1 max.coboundedI2)
qed simp

lemma max_height_set: "height y \<le> max_height (map snd m) \<Longrightarrow> max_height (map snd (kv_set k y m)) \<le> max_height (map snd m)"
  unfolding max_height_le [of "map snd (kv_set k y m)"]
proof
  fix x assume y: "height y \<le> max_height (map snd m)" and "x \<in> set (map snd (kv_set k y m))"
  then have "x = y \<or> x \<in> snd ` set m" using set_kv_set_snd [of x k y m] by simp
  then show "height x \<le> max_height (map snd m)" using y max_height_le [of "map snd m" "max_height (map snd m)"] by auto
qed

lemma apply_fields_flat:
  "\<forall>p \<in> set ps. returns_flat n (f (hf_plan p)) \<Longrightarrow> \<forall>x \<in> set (map snd m). height x < n \<Longrightarrow>
   \<exists>m' e. apply_fields f err ps m = Some (m', e) \<and> max_height (map snd m') \<le> max_height (map snd m)"
proof (induction ps arbitrary: err m)
  case (Cons p ps)
  show ?case
  proof (cases "\<exists>key x. pick_alias m (hf_aliases p) = Some key \<and> kv_get m key = Some x")
    case False
    have "apply_fields f err (p # ps) m = apply_fields f err ps m" using False by (auto split: option.splits)
    then show ?thesis using Cons by simp
  next
    case True
    then obtain key x where k: "pick_alias m (hf_aliases p) = Some key" "kv_get m key = Some x" by blast
    have x: "x \<in> set (map snd m)" using kv_get_snd [OF k(2)] .
    obtain y e where y: "f (hf_plan p) x = Some (y, e)" "height y \<le> height x"
      using returns_flatD Cons.prems x by (metis list.set_intros(1))
    have "height x \<le> max_height (map snd m)" using x max_height_le by blast
    then have m: "max_height (map snd (kv_set key y m)) \<le> max_height (map snd m)" using y(2) max_height_set [of y m key] by (meson le_trans)
    have small: "\<forall>z \<in> set (map snd (kv_set key y m)). height z < n"
    proof
      fix z assume "z \<in> set (map snd (kv_set key y m))"
      then have "z = y \<or> z \<in> set (map snd m)" using set_kv_set_snd [of z key y m] by simp
      then show "height z < n" using Cons.prems(2) x y(2) le_less_trans by blast
    qed
    have "\<exists>m' e'. apply_fields f (keep_err err e) ps (kv_set key y m) = Some (m', e') \<and>
        max_height (map snd m') \<le> max_height (map snd (kv_set key y m))"
      by (rule Cons.IH [OF _ small]) (use Cons.prems(1) in simp)
    then obtain m' e' where "apply_fields f (keep_err err e) ps (kv_set key y m) = Some (m', e')"
        "max_height (map snd m') \<le> max_height (map snd m)" using m by (meson le_trans)
    then show ?thesis using k y by simp
  qed
qed simp

lemma apply_ref_flat: "flat_shapes sh \<Longrightarrow> ref_flat r \<Longrightarrow> returns_flat n (apply_ref b sh n r)"
proof (induction n arbitrary: r)
  case 0
  then show ?case by (simp add: returns_flat_def)
next
  case (Suc n)
  show ?case
  proof (cases r)
    case (HookRef h t)
    then show ?thesis using Suc(3) apply_hook_height [of h b t] by (auto simp: returns_flat_def) (metis prod.collapse)
  next
    case (ShapeRef t)
    have refs: "r' \<in> set (shape_refs (sh t)) \<Longrightarrow> returns_flat n (apply_ref b sh n r')" for r'
      using Suc by (simp add: flat_shapes_def list_all_iff)
    have elem: "sh_elem (sh t) = Some e \<Longrightarrow> returns_flat n (apply_ref b sh n e)" for e
      using refs [of e] by (simp add: shape_refs_def)
    have fields: "\<forall>p \<in> set (sh_fields (sh t)). returns_flat n (apply_ref b sh n (hf_plan p))"
      using refs by (simp add: shape_refs_def)
    have "\<exists>y e. apply_ref b sh (Suc n) r v = Some (y, e) \<and> height y \<le> height v" if v: "height v < Suc n" for v
    proof (cases v)
      case (HMap m)
      then have m: "\<forall>x \<in> set (map snd m). height x < n" using v max_height_less [of "map snd m" n] by simp
      show ?thesis
        using apply_entries_flat [OF elem m, of _ None] apply_fields_flat [OF fields m, of None] HMap ShapeRef
        by (cases "sh_elem (sh t)") auto
    next
      case (HSlice xs)
      then have xs: "\<forall>x \<in> set xs. height x < n" using v max_height_less [of xs n] by simp
      show ?thesis
        using apply_items_flat [OF elem xs, of _ None] HSlice ShapeRef by (cases "sh_elem (sh t)") auto
    qed (simp_all add: ShapeRef)
    then show ?thesis by (simp add: returns_flat_def)
  qed
qed

subsection \<open>The nodes of the plan\<close>

lemma visit_types:
  "(f, p) \<in> set (visit_struct env em st idx t) \<Longrightarrow> t \<in> universe env ts \<Longrightarrow> rf_type f \<in> universe env ts"
  "(f, p) \<in> set (visit_fields env em st idx i fs) \<Longrightarrow> rf_type ` set fs \<subseteq> universe env ts \<Longrightarrow> rf_type f \<in> universe env ts"
proof (induction env em st idx t and env em st idx i fs rule: visit_struct_visit_fields.induct)
  case (1 env em st idx t)
  then obtain fs where fs: "(f, p) \<in> set (visit_fields env em (deref t # st) idx 0 fs)" "struct_of env (deref t) = Some fs"
      "deref t \<notin> set st"
    by (auto simp: visit_struct.simps [of env em st idx t] split: option.splits if_splits)
  have "rf_type ` set fs \<subseteq> universe env ts" using struct_universe [OF deref_universe [OF 1(3)] fs(2)] by auto
  then show ?case using "1.IH" [OF fs(2,3,1)] by simp
next
  case (3 env em st idx i f' fs)
  have ty: "rf_type f' \<in> universe env ts" "rf_type ` set fs \<subseteq> universe env ts" using 3(4) by auto
  show ?case
  proof (cases "(f, p) \<in> set (visit_fields env em st idx (i + 1) fs)")
    case True
    then show ?thesis using "3.IH"(2) ty(2) by blast
  next
    case False
    then show ?thesis using 3(1,3) ty(1) deref_universe [OF ty(1)] by (auto split: if_splits)
  qed
qed simp

lemma hook_fields_types: "p \<in> set (hook_fields b t) \<Longrightarrow> t \<in> universe (pb_env b) ts \<Longrightarrow> rf_type (fst p) \<in> universe (pb_env b) ts"
proof -
  assume p: "p \<in> set (hook_fields b t)" and t: "t \<in> universe (pb_env b) ts"
  have "\<exists>em q. (fst p, q) \<in> set (struct_fields (pb_env b) em t)"
  proof (cases "pb_yaml b")
    case True
    then show ?thesis using p by (cases p) (auto simp: hook_fields_def)
  next
    case False
    then obtain f where f: "f \<in> set (json_fields (pb_env b) t)" "fst p = jf_field f" using p by (auto simp: hook_fields_def)
    then have "f \<in> set (json_candidates (pb_env b) t)" using dominant_subset by (fastforce simp: json_fields_def)
    then obtain q where "q \<in> set (struct_fields (pb_env b) \<lparr>em_json = True, em_yaml = False\<rparr> t)" "json_candidate q = Some f"
      by (auto simp: json_candidates_def map_filter_in)
    moreover from this have "fst q = jf_field f" by (auto simp: json_candidate_def Let_def split: if_splits)
    ultimately show ?thesis using f(2) by (metis prod.collapse)
  qed
  then show ?thesis using t visit_types(1) by (auto simp: struct_fields_def)
qed

lemma plan_for_shape: "plan_for b u = ShapeRef t \<Longrightarrow> t = deref u"
  by (auto simp: plan_for_def split: option.splits)

lemma shape_kids_universe:
  assumes "t \<in> universe (pb_env b) ts" and "u \<in> set (shape_kids b t)"
  shows "u \<in> universe (pb_env b) ts"
proof -
  have r: "ShapeRef u \<in> set (shape_refs (shape_of b t))"
  proof -
    obtain r where r: "r \<in> set (shape_refs (shape_of b t))" "ref_shape r = Some u"
      using assms(2) by (auto simp: shape_kids_def map_filter_in)
    then show ?thesis by (simp add: ref_shape_iff)
  qed
  have un: "under (pb_env b) t = RPrim POther \<or> under (pb_env b) t \<in> universe (pb_env b) ts" by (rule under_universe [OF assms(1)])
  have part: "under (pb_env b) t \<noteq> RPrim POther \<Longrightarrow> w \<in> parts (under (pb_env b) t) \<Longrightarrow> w \<in> universe (pb_env b) ts" for w
    using un universe_part by blast
  have "\<exists>w. w \<in> universe (pb_env b) ts \<and> plan_for b w = ShapeRef u"
  proof (cases "under (pb_env b) t")
    case (RStruct fs)
    then obtain p where p: "p \<in> set (hook_fields b t)" "plan_for b (rf_type (fst p)) = ShapeRef u"
      using r by (auto simp: shape_refs_def shape_of_def map_filter_in dest!: add_field_plan)
    then show ?thesis using hook_fields_types [OF p(1) assms(1)] by blast
  next
    case (RSlice w)
    then show ?thesis using r part [of w] by (auto simp: shape_refs_def shape_of_def)
  next
    case (RArray n w)
    then show ?thesis using r part [of w] by (auto simp: shape_refs_def shape_of_def)
  next
    case (RMap k w)
    then show ?thesis using r part [of w] by (auto simp: shape_refs_def shape_of_def)
  qed (use r in \<open>simp_all add: shape_refs_def shape_of_def\<close>)
  then show ?thesis using deref_universe plan_for_shape by metis
qed

lemma all_shapes_closed:
  assumes "all_shapes b (ShapeRef t) = ts"
  shows "t \<in> set ts" and "u \<in> set ts \<Longrightarrow> set (shape_kids b u) \<subseteq> set ts"
proof -
  let ?U = "universe (pb_env b) {t}"
  obtain f seen where run: "reach_visit (shape_kids b) (\<lambda>_. False) (card ?U + 1) t [] = (f, seen)"
    by (cases "reach_visit (shape_kids b) (\<lambda>_. False) (card ?U + 1) t []")
  have "if f then \<exists>u. (kid (shape_kids b))\<^sup>*\<^sup>* t u \<and> False else t \<in> set seen \<and> explored (shape_kids b) (\<lambda>_. False) [] seen"
    using reach_invariant(1) [of ?U "shape_kids b" t "[]" "card ?U + 1" "\<lambda>_. False" f seen, OF _ _ _ _ _ run]
      shape_kids_universe [of _ b "{t}"] by (fastforce simp: subset_iff)
  then have s: "t \<in> set seen" "explored (shape_kids b) (\<lambda>_. False) [] seen" by (auto split: if_splits)
  have ts: "set ts = set seen" using assms run by (auto simp: all_shapes_def)
  show "t \<in> set ts" using s(1) ts by simp
  show "u \<in> set ts \<Longrightarrow> set (shape_kids b u) \<subseteq> set ts" using s(2) ts by (simp add: explored_def)
qed

text \<open>The meaning of a flag: a hook with the property \<open>P\<close> can be reached from the node of a type.\<close>

definition reaches_hook :: "plan_builder \<Rightarrow> (rtype \<Rightarrow> bool) \<Rightarrow> plan_ref \<Rightarrow> bool" where
  "reaches_hook b P r \<longleftrightarrow>
     (case r of
        HookRef h t \<Rightarrow> P t
      | ShapeRef t \<Rightarrow> \<exists>u h v. (kid (shape_kids b))\<^sup>*\<^sup>* t u \<and> HookRef h v \<in> set (shape_refs (shape_of b u)) \<and> P v)"

lemma shape_kid: "ShapeRef u \<in> set (shape_refs (shape_of b t)) \<Longrightarrow> u \<in> set (shape_kids b t)"
  by (auto simp: shape_kids_def map_filter_in intro!: bexI [of _ "ShapeRef u"])

lemma reaches_step: "r \<in> set (shape_refs (shape_of b t)) \<Longrightarrow> reaches_hook b P r \<Longrightarrow> reaches_hook b P (ShapeRef t)"
proof (cases r)
  case (HookRef h v)
  assume "r \<in> set (shape_refs (shape_of b t))" "reaches_hook b P r"
  then show ?thesis using HookRef by (auto simp: reaches_hook_def)
next
  case (ShapeRef u)
  assume r: "r \<in> set (shape_refs (shape_of b t))" "reaches_hook b P r"
  then have "u \<in> set (shape_kids b t)" using ShapeRef shape_kid by blast
  then show ?thesis using r(2) ShapeRef by (auto simp: reaches_hook_def intro: converse_rtranclp_into_rtranclp)
qed

definition flags_sound :: "plan_builder \<Rightarrow> plan_flags \<Rightarrow> bool" where
  "flags_sound b fl \<longleftrightarrow>
     (\<forall>t \<in> set (pf_live fl). reaches_hook b (\<lambda>_. True) (ShapeRef t)) \<and>
     (\<forall>t \<in> set (pf_assigns fl). reaches_hook b (direct_target b) (ShapeRef t))"

lemma flags_soundD:
  assumes "flags_sound b fl"
  shows "ref_live fl r \<Longrightarrow> reaches_hook b (\<lambda>_. True) r" and "ref_assigns b fl r \<Longrightarrow> reaches_hook b (direct_target b) r"
  using assms by (cases r; simp add: flags_sound_def reaches_hook_def)+

lemma mark_sound: "flags_sound b fl \<Longrightarrow> flags_sound b (mark_shape b t fl)"
proof -
  assume fl: "flags_sound b fl"
  have "list_ex (ref_live fl) (shape_refs (shape_of b t)) \<Longrightarrow> reaches_hook b (\<lambda>_. True) (ShapeRef t)"
    using flags_soundD(1) [OF fl] reaches_step by (auto simp: list_ex_iff)
  moreover have "list_ex (ref_assigns b fl) (shape_refs (shape_of b t)) \<Longrightarrow> reaches_hook b (direct_target b) (ShapeRef t)"
    using flags_soundD(2) [OF fl] reaches_step by (auto simp: list_ex_iff)
  ultimately show ?thesis using fl by (auto simp: flags_sound_def mark_shape_def Let_def)
qed

lemma pass_sound: "flags_sound b fl \<Longrightarrow> flags_sound b (propagate_pass b ts fl)"
  by (induction ts arbitrary: fl) (simp_all add: propagate_pass_def mark_sound)

lemma pass_fixed: "propagate_pass b ts fl = fl \<Longrightarrow> t \<in> set ts \<Longrightarrow> mark_shape b t fl = fl"
proof (induction ts arbitrary: fl)
  case (Cons u ts)
  have step: "propagate_pass b (u # ts) fl = propagate_pass b ts (mark_shape b u fl)" by (simp add: propagate_pass_def)
  have "mark_shape b u fl = fl"
    using mark_length [of fl b u] pass_length [of "mark_shape b u fl" b ts] Cons(2) unfolding step by auto
  then show ?case using Cons step by auto
qed simp

lemma propagate_fixed: "propagate_pass b ts (propagate b ts fl) = propagate b ts fl"
proof (induction b ts fl rule: propagate.induct)
  case (1 b ts fl)
  then show ?case unfolding propagate.simps [of b ts fl] by simp
qed

lemma propagate_sound: "flags_sound b fl \<Longrightarrow> flags_sound b (propagate b ts fl)"
proof (induction b ts fl rule: propagate.induct)
  case (1 b ts fl)
  then show ?case using pass_sound [of b fl ts] unfolding propagate.simps [of b ts fl] by simp
qed

lemma insert_same: "List.insert t xs = xs \<Longrightarrow> t \<in> set xs"
  by (metis in_set_insert insertI1 set_insert)

lemma mark_fixed:
  assumes "mark_shape b t fl = fl" and "r \<in> set (shape_refs (shape_of b t))"
  shows "ref_live fl r \<Longrightarrow> t \<in> set (pf_live fl)" and "ref_assigns b fl r \<Longrightarrow> t \<in> set (pf_assigns fl)"
proof -
  have "pf_live (mark_shape b t fl) = pf_live fl" "pf_assigns (mark_shape b t fl) = pf_assigns fl" using assms(1) by simp_all
  then show "ref_live fl r \<Longrightarrow> t \<in> set (pf_live fl)" "ref_assigns b fl r \<Longrightarrow> t \<in> set (pf_assigns fl)"
    using assms(2) by (auto simp: mark_shape_def Let_def list_ex_iff dest: insert_same split: if_splits)
qed

text \<open>The flags after the loop say exactly what can be reached.\<close>

lemma propagate_exact:
  assumes ts: "\<forall>u \<in> set ts. set (shape_kids b u) \<subseteq> set ts" and t: "t \<in> set ts"
  defines "fl \<equiv> propagate b ts \<lparr>pf_live = [], pf_assigns = []\<rparr>"
  shows "ref_live fl (ShapeRef t) \<longleftrightarrow> reaches_hook b (\<lambda>_. True) (ShapeRef t)"
    and "ref_assigns b fl (ShapeRef t) \<longleftrightarrow> reaches_hook b (direct_target b) (ShapeRef t)"
proof -
  have sound: "flags_sound b fl" unfolding fl_def by (rule propagate_sound) (simp add: flags_sound_def)
  have mark: "u \<in> set ts \<Longrightarrow> mark_shape b u fl = fl" for u
    using pass_fixed propagate_fixed unfolding fl_def by blast
  have live: "(kid (shape_kids b))\<^sup>*\<^sup>* t u \<Longrightarrow> HookRef h v \<in> set (shape_refs (shape_of b u)) \<Longrightarrow>
      t \<in> set ts \<Longrightarrow> t \<in> set (pf_live fl) \<and> (direct_target b v \<longrightarrow> t \<in> set (pf_assigns fl))" for t u h v
  proof (induction rule: converse_rtranclp_induct)
    case base
    then show ?case using mark_fixed [OF mark [OF base(2)] base(1)] by auto
  next
    case (step t t')
    then have t': "t' \<in> set ts" using ts by blast
    obtain r where r: "r \<in> set (shape_refs (shape_of b t))" "ref_shape r = Some t'"
      using step(1) by (auto simp: shape_kids_def map_filter_in)
    then have "r = ShapeRef t'" by (simp add: ref_shape_iff)
    then show ?case using step(3) [OF step(4) t'] mark_fixed [OF mark [OF step(5)] r(1)] by auto
  qed
  show "ref_live fl (ShapeRef t) \<longleftrightarrow> reaches_hook b (\<lambda>_. True) (ShapeRef t)"
    using flags_soundD(1) [OF sound, of "ShapeRef t"] live t by (auto simp: reaches_hook_def)
  show "ref_assigns b fl (ShapeRef t) \<longleftrightarrow> reaches_hook b (direct_target b) (ShapeRef t)"
    using flags_soundD(2) [OF sound, of "ShapeRef t"] live t by (auto simp: reaches_hook_def)
qed

subsection \<open>Dropping dead subtrees changes nothing\<close>

lemma dead_kids:
  "\<not> reaches_hook b (\<lambda>_. True) (ShapeRef t) \<Longrightarrow> r \<in> set (shape_refs (shape_of b t)) \<Longrightarrow> \<not> reaches_hook b (\<lambda>_. True) r"
  using reaches_step by blast

lemma apply_items_id: "\<forall>x \<in> set xs. f x = Some (x, None) \<Longrightarrow> apply_items f err xs = Some (xs, err)"
  by (induction xs arbitrary: err) (auto simp: keep_err_def)

lemma apply_entries_id: "\<forall>x \<in> set (map snd m). f x = Some (x, None) \<Longrightarrow> apply_entries f err m = Some (m, err)"
  by (induction m arbitrary: err) (auto simp: keep_err_def)

lemma keep_err_None [simp]: "keep_err err None = err"
  by (simp add: keep_err_def)

lemma apply_field_id:
  "\<forall>x \<in> set (map snd m). f (hf_plan p) x = Some (x, None) \<Longrightarrow> apply_fields f err (p # ps) m = apply_fields f err ps m"
  using kv_get_snd by (fastforce simp: kv_set_same split: option.splits)

lemma apply_fields_id:
  "\<forall>p \<in> set ps. \<forall>x \<in> set (map snd m). f (hf_plan p) x = Some (x, None) \<Longrightarrow> apply_fields f err ps m = Some (m, err)"
proof (induction ps)
  case (Cons p ps)
  then show ?case using apply_field_id [of m f p err ps] by (simp del: apply_fields.simps(2))
qed simp

lemma dead_apply: "\<not> reaches_hook b (\<lambda>_. True) r \<Longrightarrow> height v < n \<Longrightarrow> apply_ref b (shape_of b) n r v = Some (v, None)"
proof (induction n arbitrary: r v)
  case (Suc n)
  then obtain t where r: "r = ShapeRef t" by (cases r) (auto simp: reaches_hook_def)
  have kids: "r' \<in> set (shape_refs (shape_of b t)) \<Longrightarrow> height x < n \<Longrightarrow> apply_ref b (shape_of b) n r' x = Some (x, None)" for r' x
    using Suc dead_kids r by blast
  have elem: "sh_elem (shape_of b t) = Some e \<Longrightarrow> height x < n \<Longrightarrow> apply_ref b (shape_of b) n e x = Some (x, None)" for e x
    using kids [of e x] by (simp add: shape_refs_def)
  have field: "p \<in> set (sh_fields (shape_of b t)) \<Longrightarrow> height x < n \<Longrightarrow> apply_ref b (shape_of b) n (hf_plan p) x = Some (x, None)" for p x
    using kids [of "hf_plan p" x] by (simp add: shape_refs_def)
  show ?case
  proof (cases v)
    case (HMap m)
    then have m: "\<forall>x \<in> set (map snd m). height x < n" using Suc(3) max_height_less [of "map snd m" n] by simp
    then show ?thesis
      using r HMap apply_entries_id [of m "apply_ref b (shape_of b) n _" None] apply_fields_id [of "sh_fields (shape_of b t)" m _ None]
      by (cases "sh_elem (shape_of b t)") (simp_all add: elem field)
  next
    case (HSlice xs)
    then have "\<forall>x \<in> set xs. height x < n" using Suc(3) max_height_less [of xs n] by simp
    then show ?thesis
      using r HSlice by (cases "sh_elem (shape_of b t)") (simp_all add: elem apply_items_id)
  qed (simp_all add: r)
qed simp

lemma apply_items_cong: "\<forall>x \<in> set xs. f x = g x \<Longrightarrow> apply_items f err xs = apply_items g err xs"
  by (induction xs arbitrary: err) auto

lemma apply_entries_cong: "\<forall>x \<in> set (map snd m). f x = g x \<Longrightarrow> apply_entries f err m = apply_entries g err m"
  by (induction m arbitrary: err) auto

text \<open>Fields that leave everything alone can be filtered out, as long as the others keep the values small.\<close>

lemma apply_fields_filter:
  assumes "\<forall>p \<in> set ps. returns_flat n (g (hf_plan p))"
    and "\<forall>p \<in> set ps. \<not> keep p \<longrightarrow> (\<forall>x. height x < n \<longrightarrow> g (hf_plan p) x = Some (x, None))"
    and "\<forall>p \<in> set ps. keep p \<longrightarrow> (\<forall>x. height x < n \<longrightarrow> f (hf_plan p) x = g (hf_plan p) x)"
    and "\<forall>x \<in> set (map snd m). height x < n"
  shows "apply_fields f err (filter keep ps) m = apply_fields g err ps m"
  using assms
proof (induction ps arbitrary: err m)
  case (Cons p ps)
  show ?case
  proof (cases "keep p")
    case False
    then have "apply_fields g err (p # ps) m = apply_fields g err ps m"
      using Cons.prems(2,4) by (intro apply_field_id) auto
    then show ?thesis using False Cons by simp
  next
    case True
    show ?thesis
    proof (cases "\<exists>key x. pick_alias m (hf_aliases p) = Some key \<and> kv_get m key = Some x")
      case none: False
      then have "apply_fields g err (p # ps) m = apply_fields g err ps m"
        "apply_fields f err (p # filter keep ps) m = apply_fields f err (filter keep ps) m"
        by (auto split: option.splits)
      then show ?thesis using True Cons by simp
    next
      case some: True
      then obtain key x where k: "pick_alias m (hf_aliases p) = Some key" "kv_get m key = Some x" by blast
      have x: "height x < n" using kv_get_snd [OF k(2)] Cons.prems(4) by blast
      obtain y e where y: "g (hf_plan p) x = Some (y, e)" "height y \<le> height x"
        using returns_flatD Cons.prems(1) x by (metis list.set_intros(1))
      have small: "\<forall>z \<in> set (map snd (kv_set key y m)). height z < n"
      proof
        fix z assume "z \<in> set (map snd (kv_set key y m))"
        then have "z = y \<or> z \<in> set (map snd m)" using set_kv_set_snd [of z key y m] by simp
        then show "height z < n" using Cons.prems(4) x y(2) le_less_trans by blast
      qed
      have "apply_fields f (keep_err err e) (filter keep ps) (kv_set key y m) = apply_fields g (keep_err err e) ps (kv_set key y m)"
        by (rule Cons.IH) (use Cons.prems small in auto)
      moreover have "f (hf_plan p) x = Some (y, e)" using Cons.prems(3) True x y(1) by simp
      ultimately show ?thesis using True k y by simp
    qed
  qed
qed simp

lemma apply_pruned:
  assumes flat: "flat_shapes (shape_of b)"
    and closed: "\<forall>t \<in> set ts. set (shape_kids b t) \<subseteq> set ts"
    and live: "\<forall>t \<in> set ts. ref_live fl (ShapeRef t) \<longleftrightarrow> reaches_hook b (\<lambda>_. True) (ShapeRef t)"
    and sh: "\<forall>t \<in> set ts. sh t = prune_shape fl (shape_of b t)"
  shows "ref_flat r \<Longrightarrow> \<forall>t. r = ShapeRef t \<longrightarrow> t \<in> set ts \<Longrightarrow> height v < n \<Longrightarrow>
    apply_ref b sh n r v = apply_ref b (shape_of b) n r v"
proof (induction n arbitrary: r v)
  case (Suc n)
  show ?case
  proof (cases r)
    case (ShapeRef t)
    then have t: "t \<in> set ts" using Suc(3) by simp
    note sh_t = bspec [OF sh t]
    have refs: "returns_flat n (apply_ref b (shape_of b) n r')" "height x < n \<Longrightarrow> apply_ref b sh n r' x = apply_ref b (shape_of b) n r' x"
      "\<not> ref_live fl r' \<Longrightarrow> height x < n \<Longrightarrow> apply_ref b (shape_of b) n r' x = Some (x, None)"
      if r': "r' \<in> set (shape_refs (shape_of b t))" for r' x
    proof -
      have f: "ref_flat r'" using flat r' by (simp add: flat_shapes_def list_all_iff)
      have c: "\<forall>u. r' = ShapeRef u \<longrightarrow> u \<in> set ts" using closed t r' shape_kid by blast
      show "returns_flat n (apply_ref b (shape_of b) n r')" by (rule apply_ref_flat [OF flat f])
      show "height x < n \<Longrightarrow> apply_ref b sh n r' x = apply_ref b (shape_of b) n r' x" by (rule Suc.IH [OF f c])
      show "\<not> ref_live fl r' \<Longrightarrow> height x < n \<Longrightarrow> apply_ref b (shape_of b) n r' x = Some (x, None)"
        using live c by (cases r') (auto intro!: dead_apply)
    qed
    have elem: "sh_elem (shape_of b t) = Some e \<Longrightarrow> e \<in> set (shape_refs (shape_of b t))" for e
      by (simp add: shape_refs_def)
    have no_elem: "sh_elem (shape_of b t) = Some e \<Longrightarrow> sh_fields (shape_of b t) = []" for e
      by (auto simp: shape_of_def split: rtype.splits)
    have field: "p \<in> set (sh_fields (shape_of b t)) \<Longrightarrow> hf_plan p \<in> set (shape_refs (shape_of b t))" for p
      by (simp add: shape_refs_def)
    show ?thesis
    proof (cases v)
      case (HMap m)
      then have m: "\<forall>x \<in> set (map snd m). height x < n" using Suc(4) max_height_less [of "map snd m" n] by simp
      show ?thesis
      proof (cases "sh_elem (shape_of b t)")
        case None
        have "apply_fields (apply_ref b sh n) None (filter (\<lambda>f. ref_live fl (hf_plan f)) (sh_fields (shape_of b t))) m =
            apply_fields (apply_ref b (shape_of b) n) None (sh_fields (shape_of b t)) m"
          by (rule apply_fields_filter [where n = n]) (use field refs m in blast)+
        then show ?thesis using ShapeRef HMap None sh_t by (simp add: prune_shape_def)
      next
        case (Some e)
        have "apply_entries (apply_ref b sh n e) None m = apply_entries (apply_ref b (shape_of b) n e) None m"
          by (rule apply_entries_cong) (use refs(2) [OF elem [OF Some]] m in blast)
        moreover have "\<not> ref_live fl e \<Longrightarrow> apply_entries (apply_ref b (shape_of b) n e) None m = Some (m, None)"
          by (rule apply_entries_id) (use refs(3) [OF elem [OF Some]] m in blast)
        ultimately show ?thesis using ShapeRef HMap Some sh_t no_elem [OF Some] by (simp add: prune_shape_def)
      qed
    next
      case (HSlice xs)
      then have xs: "\<forall>x \<in> set xs. height x < n" using Suc(4) max_height_less [of xs n] by simp
      show ?thesis
      proof (cases "sh_elem (shape_of b t)")
        case None
        then show ?thesis using ShapeRef HSlice sh_t by (simp add: prune_shape_def)
      next
        case (Some e)
        have "apply_items (apply_ref b sh n e) None xs = apply_items (apply_ref b (shape_of b) n e) None xs"
          by (rule apply_items_cong) (use refs(2) [OF elem [OF Some]] xs in blast)
        moreover have "\<not> ref_live fl e \<Longrightarrow> apply_items (apply_ref b (shape_of b) n e) None xs = Some (xs, None)"
          by (rule apply_items_id) (use refs(3) [OF elem [OF Some]] xs in blast)
        ultimately show ?thesis using ShapeRef HSlice Some sh_t by (simp add: prune_shape_def)
      qed
    qed (simp_all add: ShapeRef)
  qed simp
qed simp

lemma shape_at_build:
  assumes "hp_root p = Some r" and "p = build_typed_hook_plan b t"
  shows "r = plan_for b t \<and> (\<forall>u \<in> set (all_shapes b r). shape_at p u = prune_shape (hp_flags p) (shape_of b u)) \<and>
    hp_flags p = propagate b (all_shapes b r) \<lparr>pf_live = [], pf_assigns = []\<rparr>"
proof -
  have g: "kv_get (map (\<lambda>t. (t, g t)) ts) u = Some (g u)" if "u \<in> set ts" for g :: "rtype \<Rightarrow> shape" and ts u
    using that by (induction ts) auto
  show ?thesis
    using assms by (auto simp: build_typed_hook_plan_def no_plan_def Let_def shape_at_def g split: if_splits)
qed

lemma plan_root_live:
  assumes "pb_hooks b \<noteq> []" and p_def: "p = build_typed_hook_plan b t"
  shows "hp_root p = (if reaches_hook b (\<lambda>_. True) (plan_for b t) then Some (plan_for b t) else None)"
    and "hp_root p = Some r \<Longrightarrow> ref_assigns b (hp_flags p) r \<longleftrightarrow> reaches_hook b (direct_target b) r"
proof -
  let ?ts = "all_shapes b (plan_for b t)" and ?fl = "propagate b (all_shapes b (plan_for b t)) \<lparr>pf_live = [], pf_assigns = []\<rparr>"
  have exact: "ref_live ?fl (plan_for b t) \<longleftrightarrow> reaches_hook b (\<lambda>_. True) (plan_for b t)"
      "ref_assigns b ?fl (plan_for b t) \<longleftrightarrow> reaches_hook b (direct_target b) (plan_for b t)"
  proof -
    have "(ref_live ?fl (plan_for b t) \<longleftrightarrow> reaches_hook b (\<lambda>_. True) (plan_for b t)) \<and>
      (ref_assigns b ?fl (plan_for b t) \<longleftrightarrow> reaches_hook b (direct_target b) (plan_for b t))"
    proof (cases "plan_for b t")
      case (HookRef h u)
      then show ?thesis by (simp add: reaches_hook_def)
    next
      case (ShapeRef u)
      show ?thesis
        unfolding ShapeRef
        using propagate_exact [of "all_shapes b (ShapeRef u)" b u] all_shapes_closed [of b u] by blast
    qed
    then show "ref_live ?fl (plan_for b t) \<longleftrightarrow> reaches_hook b (\<lambda>_. True) (plan_for b t)"
      "ref_assigns b ?fl (plan_for b t) \<longleftrightarrow> reaches_hook b (direct_target b) (plan_for b t)" by auto
  qed
  show root: "hp_root p = (if reaches_hook b (\<lambda>_. True) (plan_for b t) then Some (plan_for b t) else None)"
    using assms(1) exact by (simp add: p_def build_typed_hook_plan_def no_plan_def Let_def)
  show "hp_root p = Some r \<Longrightarrow> ref_assigns b (hp_flags p) r \<longleftrightarrow> reaches_hook b (direct_target b) r"
    using shape_at_build [of p r b t] exact unfolding p_def by auto
qed

lemma no_hooks_dead: "pb_hooks b = [] \<Longrightarrow> \<not> reaches_hook b P (plan_for b t)"
proof -
  assume "pb_hooks b = []"
  then have p: "plan_for b u = ShapeRef (deref u)" for u by (simp add: plan_for_def)
  then have "HookRef h v \<notin> set (shape_refs (shape_of b u))" for h v u
    by (metis shape_ref_cases plan_ref.distinct(1))
  then show ?thesis by (simp add: p reaches_hook_def)
qed

lemma apply_plan_reference:
  assumes "list_all flat_hook (pb_hooks b)"
  shows "apply_plan b (build_typed_hook_plan b t) m = rewrite_typed b t m"
proof -
  let ?p = "build_typed_hook_plan b t"
  note flat = shape_of_flat [OF assms]
  show ?thesis
  proof (cases "reaches_hook b (\<lambda>_. True) (plan_for b t)")
    case False
    then have "hp_root ?p = None"
      using plan_root_live(1) [OF _ refl, of b t] by (cases "pb_hooks b = []") (simp_all add: build_typed_hook_plan_def no_plan_def)
    then show ?thesis using dead_apply [OF False, of "HMap m"] by (simp add: apply_plan_def rewrite_typed_def)
  next
    case True
    then have root: "hp_root ?p = Some (plan_for b t)" using plan_root_live(1) [OF _ refl, of b t] no_hooks_dead by force
    note sh = shape_at_build [OF root refl]
    have eq: "apply_ref b (shape_at ?p) (Suc (height (HMap m))) (plan_for b t) (HMap m) =
        apply_ref b (shape_of b) (Suc (height (HMap m))) (plan_for b t) (HMap m)"
    proof (cases "plan_for b t")
      case (ShapeRef u)
      have c: "\<forall>v \<in> set (all_shapes b (ShapeRef u)). set (shape_kids b v) \<subseteq> set (all_shapes b (ShapeRef u))"
        using all_shapes_closed(2) [OF refl] by blast
      show ?thesis
        by (rule apply_pruned [OF flat, of "all_shapes b (ShapeRef u)" "hp_flags ?p"])
          (use sh c propagate_exact(1) [OF c] all_shapes_closed(1) [OF refl] plan_for_flat [OF assms] in
            \<open>simp_all add: ShapeRef del: ref_live.simps height_map\<close>)
    qed simp
    then show ?thesis using root by (simp add: apply_plan_def rewrite_typed_def)
  qed
qed

section \<open>Assigning results\<close>

text \<open>The zero value of a type; named types unfold at most as deep as there are declarations.\<close>

lemma size_field_type [termination_simp]: "f \<in> set fs \<Longrightarrow> size (rf_type f) < Suc (size_list size fs)"
proof (induction fs)
  case (Cons g fs)
  have "size (rf_type g) < size g" by (cases g) simp
  then show ?case using Cons by auto
qed simp

function (sequential) zero_val :: "plan_builder \<Rightarrow> nat \<Rightarrow> rtype \<Rightarrow> rval" where
  "zero_val b n (RNamed k) =
     (if pb_iface b (RNamed k) then VIface None
      else case n of 0 \<Rightarrow> VOther True
           | Suc n' \<Rightarrow> if k < length (pb_env b) then zero_val b n' (de_under (pb_env b ! k)) else VOther True)"
| "zero_val b n (RPtr t) = VPtr None"
| "zero_val b n (RSlice t) = VSlice None"
| "zero_val b n (RArray m t) = VArray (replicate m (zero_val b n t))"
| "zero_val b n (RMap k t) = VMap None"
| "zero_val b n (RPrim PBool) = VBool False"
| "zero_val b n (RPrim (PInt w)) = VInt w 0"
| "zero_val b n (RPrim (PUint w)) = VUint w 0"
| "zero_val b n (RPrim (PFloat w)) = VFloat w (FFin 0)"
| "zero_val b n (RPrim PString) = VString ''''"
| "zero_val b n (RPrim POther) = (if pb_iface b (RPrim POther) then VIface None else VOther True)"
| "zero_val b n (RStruct fs) = VStruct (map (\<lambda>f. zero_val b n (rf_type f)) fs)"
  by pat_completeness auto
termination by (relation "measures [\<lambda>(b, n, t). n, \<lambda>(b, n, t). size t]") (auto simp: size_field_type)

text \<open>\<open>settle\<close>, then \<open>g\<close> on the type and value it arrives at. \<open>ro\<close>: the location was reached through an unexported
  field, so reflection may not set it; a pointer passes the flag on to what it points to.\<close>

fun settle_then :: "plan_builder \<Rightarrow> rtype option \<Rightarrow> bool \<Rightarrow> (rtype \<Rightarrow> rval \<Rightarrow> rval) \<Rightarrow> rtype \<Rightarrow> rval \<Rightarrow> rval" where
  "settle_then b want ro g (RPtr u) v =
     (if want = Some (RPtr u) then (if ro then v else g (RPtr u) v)
      else case v of
             VPtr (Some w) \<Rightarrow> VPtr (Some (settle_then b want ro g u w))
           | VPtr None \<Rightarrow> if ro then v else VPtr (Some (settle_then b want ro g u (zero_val b (length (pb_env b)) u)))
           | _ \<Rightarrow> v)"
| "settle_then b want ro g t v = (if ro \<or> want \<noteq> None \<and> want \<noteq> Some t then v else g t v)"

text \<open>\<open>fieldAt\<close>, then \<open>g\<close> on the flag, type and value of the field.\<close>

fun field_then :: "plan_builder \<Rightarrow> (bool \<Rightarrow> rtype \<Rightarrow> rval \<Rightarrow> rval) \<Rightarrow> nat list \<Rightarrow> rtype \<Rightarrow> rval \<Rightarrow> rval" where
  "field_then b g [] t v = g False t v"
| "field_then b g (i # is) t v =
     (case (struct_of (pb_env b) t, v) of
        (Some fs, VStruct vs) \<Rightarrow>
          if i < length fs \<and> i < length vs
          then VStruct (vs[i :=
                 (if is = [] then g (\<not> rf_exported (fs ! i)) (rf_type (fs ! i)) (vs ! i)
                  else settle_then b None (\<not> rf_exported (fs ! i)) (field_then b g is) (rf_type (fs ! i)) (vs ! i))])
          else v
      | _ \<Rightarrow> v)"

type_synonym assigner = "plan_ref \<Rightarrow> bool \<Rightarrow> rtype \<Rightarrow> rval \<Rightarrow> rval"

definition assign_entry :: "plan_ref \<Rightarrow> rtype \<Rightarrow> string \<times> assigner \<Rightarrow> (rval \<times> rval) list \<Rightarrow> (rval \<times> rval) list" where
  "assign_entry e u p kvs =
     (case kv_get kvs (VString (fst p)) of
        None \<Rightarrow> kvs
      | Some cur \<Rightarrow> kv_set (VString (fst p)) (snd p e False u cur) kvs)"

definition assign_field :: "plan_builder \<Rightarrow> (string \<times> assigner) list \<Rightarrow> rtype \<Rightarrow> hook_field \<Rightarrow> rval \<Rightarrow> rval" where
  "assign_field b node t f w =
     (case pick_alias node (hf_aliases f) of
        None \<Rightarrow> w
      | Some key \<Rightarrow>
          (case kv_get node key of None \<Rightarrow> w | Some a \<Rightarrow> field_then b (a (hf_plan f)) (hf_index f) t w))"

definition assign_map :: "plan_builder \<Rightarrow> shape \<Rightarrow> (string \<times> assigner) list \<Rightarrow> rtype \<Rightarrow> rval \<Rightarrow> rval" where
  "assign_map b s node t w =
     (case (under (pb_env b) t, sh_elem s) of
        (RMap k u, Some e) \<Rightarrow>
          (case w of
             VMap (Some kvs) \<Rightarrow>
               if under (pb_env b) k = RPrim PString then VMap (Some (fold (assign_entry e u) node kvs)) else w
           | _ \<Rightarrow> w)
      | (RStruct fs, _) \<Rightarrow> fold (assign_field b node t) (sh_fields s) w
      | _ \<Rightarrow> w)"

definition assign_items :: "plan_ref \<Rightarrow> rtype \<Rightarrow> assigner list \<Rightarrow> rval list \<Rightarrow> rval list" where
  "assign_items e u as ws = map (\<lambda>(a, x). a e False u x) (zip as ws) @ drop (length as) ws"

definition assign_slice :: "plan_builder \<Rightarrow> shape \<Rightarrow> assigner list \<Rightarrow> rtype \<Rightarrow> rval \<Rightarrow> rval" where
  "assign_slice b s as t w =
     (case (under (pb_env b) t, sh_elem s, w) of
        (RSlice u, Some e, VSlice (Some ws)) \<Rightarrow> VSlice (Some (assign_items e u as ws))
      | (RArray n u, Some e, VArray ws) \<Rightarrow> VArray (assign_items e u as ws)
      | _ \<Rightarrow> w)"

text \<open>The frame of \<open>assign\<close>: what a hook node stores, and what a container does once the destination is settled.\<close>

definition assign_node :: "plan_builder \<Rightarrow> hook_plan \<Rightarrow> (rtype \<times> rval) option \<Rightarrow> (shape \<Rightarrow> rtype \<Rightarrow> rval \<Rightarrow> rval) \<Rightarrow> assigner" where
  "assign_node b p stored body r ro t v =
     (if \<not> ref_assigns b (hp_flags p) r then v
      else case r of
             HookRef h target \<Rightarrow>
               (case stored of None \<Rightarrow> v | Some (u, x) \<Rightarrow> settle_then b (Some target) ro (\<lambda>_ _. x) t v)
           | ShapeRef s \<Rightarrow> settle_then b None ro (body (shape_at p s)) t v)"

primrec assign_val :: "plan_builder \<Rightarrow> hook_plan \<Rightarrow> hval \<Rightarrow> assigner" where
  "assign_val b p (HLeaf l) = (if l = LNil then (\<lambda>r ro t v. v) else assign_node b p None (\<lambda>s t w. w))"
| "assign_val b p (HTyped u x) = assign_node b p None (\<lambda>s t w. w)"
| "assign_val b p (HAssigned u x) = assign_node b p (Some (u, x)) (\<lambda>s t w. w)"
| "assign_val b p HNilMap = assign_node b p None (\<lambda>s. assign_map b s [])"
| "assign_val b p (HMap m) = assign_node b p None (\<lambda>s. assign_map b s (map (map_prod id (assign_val b p)) m))"
| "assign_val b p HNilSlice = assign_node b p None (\<lambda>s. assign_slice b s [])"
| "assign_val b p (HSlice xs) = assign_node b p None (\<lambda>s. assign_slice b s (map (assign_val b p) xs))"

text \<open>\<open>TypedHookPlan.Assign\<close> into a value of type \<open>t\<close> behind a pointer.\<close>

definition assign_plan :: "plan_builder \<Rightarrow> hook_plan \<Rightarrow> hval \<Rightarrow> rtype \<Rightarrow> rval \<Rightarrow> rval" where
  "assign_plan b p merged t v = (case hp_root p of None \<Rightarrow> v | Some r \<Rightarrow> assign_val b p merged r False t v)"

section \<open>The hooks the library provides\<close>

text \<open>The types the hooks match, and the parsers of the standard library they call.\<close>

record hook_lib =
  hl_duration :: rtype
  hl_parse_duration :: "string \<Rightarrow> int option"
  hl_ip :: rtype
  hl_parse_ip :: "string \<Rightarrow> string option"
  hl_url :: rtype
  hl_parse_url :: "string \<Rightarrow> rval option"
  hl_regexp :: rtype
  hl_compile :: "string \<Rightarrow> bool"
  hl_parse_float :: "string \<Rightarrow> gfloat option"

definition hook_string :: "(string \<Rightarrow> (hval, string) sum) \<Rightarrow> hval \<Rightarrow> hval \<times> string option" where
  "hook_string f raw =
     (case raw of
        HLeaf (LStr s) \<Rightarrow> (case f s of Inl v \<Rightarrow> (v, None) | Inr e \<Rightarrow> (raw, Some e))
      | _ \<Rightarrow> (raw, None))"

definition duration_hook :: "hook_lib \<Rightarrow> typed_hook" where
  "duration_hook l =
     \<lparr>th_match = (\<lambda>t. t = hl_duration l),
      th_convert = hook_string (\<lambda>s. case hl_parse_duration l s of
        Some d \<Rightarrow> Inl (HTyped (hl_duration l) (VInt 64 d)) | None \<Rightarrow> Inr ''duration hook''),
      th_convert_target = None\<rparr>"

definition ip_hook :: "hook_lib \<Rightarrow> typed_hook" where
  "ip_hook l =
     \<lparr>th_match = (\<lambda>t. t = hl_ip l),
      th_convert = hook_string (\<lambda>s. case hl_parse_ip l s of Some ip \<Rightarrow> Inl (HLeaf (LStr ip)) | None \<Rightarrow> Inr ''ip hook''),
      th_convert_target = None\<rparr>"

definition url_hook :: "hook_lib \<Rightarrow> typed_hook" where
  "url_hook l =
     (let convert = (\<lambda>raw target. hook_string (\<lambda>s. case hl_parse_url l s of
            Some u \<Rightarrow> Inl (if target = hl_url l then HTyped (hl_url l) u else HTyped (RPtr (hl_url l)) (VPtr (Some u)))
          | None \<Rightarrow> Inr ''url hook'') raw)
      in \<lparr>th_match = (\<lambda>t. t = RPtr (hl_url l) \<or> t = hl_url l), th_convert = (\<lambda>raw. convert raw (RPtr (hl_url l))),
          th_convert_target = Some convert\<rparr>)"

definition regex_hook :: "hook_lib \<Rightarrow> typed_hook" where
  "regex_hook l =
     \<lparr>th_match = (\<lambda>t. t = RPtr (hl_regexp l)),
      th_convert = hook_string (\<lambda>s. if hl_compile l s then Inl (HLeaf (LStr s)) else Inr ''regex hook''),
      th_convert_target = None\<rparr>"

definition type_package :: "tenv \<Rightarrow> rtype \<Rightarrow> string" where
  "type_package env t = (case t of RNamed n \<Rightarrow> if n < length env then de_package (env ! n) else '''' | _ \<Rightarrow> '''')"

definition string_primitive_match :: "tenv \<Rightarrow> rtype \<Rightarrow> bool" where
  "string_primitive_match env t \<longleftrightarrow>
     type_package env t = '''' \<and>
     (case under env t of RPrim PBool \<Rightarrow> True | RPrim (PInt w) \<Rightarrow> True | RPrim (PUint w) \<Rightarrow> True | RPrim (PFloat w) \<Rightarrow> True
      | _ \<Rightarrow> False)"

definition parse_truth :: "string \<Rightarrow> bool option" where
  "parse_truth s =
     (let w = to_lower (trim_space s) in
      if w \<in> set [''true'', ''1'', ''yes'', ''on''] then Some True
      else if w \<in> set [''false'', ''0'', ''no'', ''off'', ''''] then Some False
      else None)"

definition string_primitive_convert :: "tenv \<Rightarrow> hook_lib \<Rightarrow> hval \<Rightarrow> rtype \<Rightarrow> hval \<times> string option" where
  "string_primitive_convert env l raw target =
     hook_string (\<lambda>s.
       case under env target of
         RPrim PBool \<Rightarrow> (case parse_truth s of Some c \<Rightarrow> Inl (HLeaf (LBool c)) | None \<Rightarrow> Inr ''string-primitive hook: bool'')
       | RPrim (PInt w) \<Rightarrow>
           (case parse_int64 (trim_space s) of Some n \<Rightarrow> Inl (HLeaf (LInt KInt64 n)) | None \<Rightarrow> Inr ''string-primitive hook: parse int'')
       | RPrim (PUint w) \<Rightarrow>
           (case parse_uint_bits 64 (trim_space s) of
              Some n \<Rightarrow> Inl (HLeaf (LInt KUint64 n)) | None \<Rightarrow> Inr ''string-primitive hook: parse uint'')
       | RPrim (PFloat w) \<Rightarrow>
           (case hl_parse_float l (trim_space s) of
              Some f \<Rightarrow> Inl (HLeaf (LFloat64 f)) | None \<Rightarrow> Inr ''string-primitive hook: parse float'')
       | _ \<Rightarrow> Inl raw) raw"

definition string_primitive_hook :: "tenv \<Rightarrow> hook_lib \<Rightarrow> typed_hook" where
  "string_primitive_hook env l =
     \<lparr>th_match = string_primitive_match env, th_convert = (\<lambda>raw. (raw, None)),
      th_convert_target = Some (string_primitive_convert env l)\<rparr>"

definition default_typed_hooks :: "tenv \<Rightarrow> hook_lib \<Rightarrow> typed_hook list" where
  "default_typed_hooks env l = [duration_hook l, string_primitive_hook env l]"

text \<open>\<open>buildTypedHookPlan\<close> of \<open>options_resolve.go\<close>.\<close>

definition manager_hook_plan ::
  "tenv \<Rightarrow> (rtype \<Rightarrow> bool) \<Rightarrow> hook_lib \<Rightarrow> bool \<Rightarrow> typed_hook list \<Rightarrow> bool \<Rightarrow> rtype \<Rightarrow> hook_plan option" where
  "manager_hook_plan env iface l off custom yaml t =
     (let hooks = (if off then [] else default_typed_hooks env l) @ custom
      in if hooks = [] then None
         else Some (build_typed_hook_plan \<lparr>pb_env = env, pb_hooks = hooks, pb_yaml = yaml, pb_iface = iface\<rparr> t))"


subsection \<open>Where results are stored\<close>

fun exported_path :: "tenv \<Rightarrow> rtype \<Rightarrow> nat list \<Rightarrow> bool" where
  "exported_path env t [] = True"
| "exported_path env t (i # is) =
     (case struct_of env (deref t) of
        Some fs \<Rightarrow> i < length fs \<and> rf_exported (fs ! i) \<and> exported_path env (rf_type (fs ! i)) is
      | None \<Rightarrow> False)"

text \<open>A value that has every struct on the path of an index, behind no nil pointer.\<close>

fun inside_ptr :: "rtype \<Rightarrow> rval \<Rightarrow> rval option" where
  "inside_ptr (RPtr t) v = (case v of VPtr (Some w) \<Rightarrow> inside_ptr t w | _ \<Rightarrow> None)"
| "inside_ptr t v = Some v"

fun has_path :: "tenv \<Rightarrow> rtype \<Rightarrow> rval \<Rightarrow> nat list \<Rightarrow> bool" where
  "has_path env t v [] = True"
| "has_path env t v (i # is) =
     (case (inside_ptr t v, struct_of env (deref t)) of
        (Some (VStruct vs), Some fs) \<Rightarrow> i < length fs \<and> i < length vs \<and> has_path env (rf_type (fs ! i)) (vs ! i) is
      | _ \<Rightarrow> False)"

lemma settle_ro [simp]: "settle_then b want True g t v = v"
  by (induction b want "True" g t v rule: settle_then.induct) (auto split: rval.splits option.splits)

lemma settle_inside:
  "inside_ptr t v = Some w \<Longrightarrow> struct_of env (deref t) \<noteq> None \<Longrightarrow>
   strip_ptr w = Some w \<Longrightarrow> strip_ptr (g (deref t) w) = Some (g (deref t) w) \<Longrightarrow>
   strip_ptr v = Some w \<and> strip_ptr (settle_then b None False g t v) = Some (g (deref t) w)"
proof (induction b "None :: rtype option" False g t v rule: settle_then.induct)
  case (1 b g u v)
  then show ?case by (auto split: rval.splits option.splits)
qed (auto)

lemma struct_of_ptr [simp]: "struct_of env (RPtr t) = None"
  by (simp add: struct_of_def under_def)

lemma field_at_strip: "strip_ptr v = Some w \<Longrightarrow> strip_ptr w = Some w \<Longrightarrow> is \<noteq> [] \<Longrightarrow> field_at v is = field_at w is"
  by (cases "is") simp_all

lemma has_path_inside:
  "has_path env t v (i # is) \<Longrightarrow> \<exists>vs fs. inside_ptr t v = Some (VStruct vs) \<and> struct_of env (deref t) = Some fs \<and>
     has_path env (deref t) (VStruct vs) (i # is)"
proof -
  assume a: "has_path env t v (i # is)"
  have "deref t \<noteq> RPtr u" for u by (induction t) auto
  then have "inside_ptr (deref t) w = Some w" for w by (cases "deref t") auto
  then show ?thesis using a by (auto split: option.splits rval.splits)
qed

lemma exported_path_deref [simp]: "exported_path env (deref t) is = exported_path env t is"
  by (cases "is") simp_all

lemma field_then_struct: "\<exists>vs. field_then b g (i # is) t (VStruct ws) = VStruct vs"
  by (auto split: option.split)

lemma field_then_stores:
  assumes "has_path (pb_env b) t v idx" and "idx \<noteq> []" and "deref t = t"
    and "field_by_index (pb_env b) t idx = Some f" and "rf_type f = u"
  shows "field_at (field_then b (\<lambda>ro. settle_then b (Some u) ro (\<lambda>_ _. x)) idx t v) idx =
    (if exported_path (pb_env b) t idx then Some x else field_at v idx)"
  using assms
proof (induction idx arbitrary: t v)
  case (Cons i idx)
  then obtain fs vs where s: "struct_of (pb_env b) t = Some fs" "v = VStruct vs" "i < length fs" "i < length vs"
      "has_path (pb_env b) (rf_type (fs ! i)) (vs ! i) idx"
    by (cases t) (auto split: option.splits rval.splits)
  let ?g = "\<lambda>ro. settle_then b (Some u) ro (\<lambda>_ _. x)"
  show ?case
  proof (cases "idx = []")
    case Nil: True
    then have "rf_type (fs ! i) = u" using Cons.prems(3-5) s by simp
    then have "?g False (rf_type (fs ! i)) (vs ! i) = x" by (cases u) simp_all
    then show ?thesis using s Nil Cons.prems(3) \<open>rf_type (fs ! i) = u\<close> by simp
  next
    case ne: False
    let ?t = "rf_type (fs ! i)" and ?v = "vs ! i"
    show ?thesis
    proof (cases "rf_exported (fs ! i)")
      case False
      then show ?thesis using s ne Cons.prems(3) by simp
    next
      case True
      obtain ws gs where w: "inside_ptr ?t ?v = Some (VStruct ws)" "struct_of (pb_env b) (deref ?t) = Some gs"
          "has_path (pb_env b) (deref ?t) (VStruct ws) idx"
        using has_path_inside s(5) ne by (metis neq_Nil_conv)
      let ?h = "\<lambda>t v. field_then b ?g idx t v"
      obtain us where us: "?h (deref ?t) (VStruct ws) = VStruct us" using field_then_struct ne by (metis neq_Nil_conv)
      have strip: "strip_ptr ?v = Some (VStruct ws)" "strip_ptr (settle_then b None False ?h ?t ?v) = Some (?h (deref ?t) (VStruct ws))"
        using settle_inside [OF w(1), of "pb_env b" ?h b] w(2) us by simp_all
      have "field_at (?h (deref ?t) (VStruct ws)) idx =
          (if exported_path (pb_env b) (deref ?t) idx then Some x else field_at (VStruct ws) idx)"
        by (rule Cons.IH [OF w(3)]) (use ne Cons.prems s in auto)
      moreover have "field_at ?v idx = field_at (VStruct ws) idx"
        "field_at (settle_then b None False ?h ?t ?v) idx = field_at (?h (deref ?t) (VStruct ws)) idx"
        by (rule field_at_strip [OF strip(1) _ ne], simp) (rule field_at_strip [OF strip(2) _ ne], simp add: us)
      ultimately show ?thesis using s ne True Cons.prems(3) by simp
    qed
  qed
qed simp

section \<open>A run\<close>

text \<open>Type 0 is \<open>time.Duration\<close>, 1 is \<open>url.URL\<close>, 2 an unexported struct with a URL, 3 embeds it, 4 is the example of the
  rewriting.\<close>

definition hooked_field :: "string \<Rightarrow> bool \<Rightarrow> rtype \<Rightarrow> rfield" where
  "hooked_field name anon t = RField name (\<not> anon) anon [] t"

definition hooked_types :: tenv where
  "hooked_types =
     [\<lparr>de_package = ''time'', de_under = RPrim (PInt 64)\<rparr>,
      \<lparr>de_package = ''url'', de_under = RStruct []\<rparr>,
      \<lparr>de_package = ''main'', de_under = RStruct [hooked_field ''U'' False (RNamed 1)]\<rparr>,
      \<lparr>de_package = ''main'', de_under = RStruct [hooked_field ''base'' True (RNamed 2)]\<rparr>,
      \<lparr>de_package = ''main'', de_under = RStruct [hooked_field ''Wait'' False (RNamed 0),
         hooked_field ''Ports'' False (RSlice (RPrim (PInt 64))), hooked_field ''Next'' False (RPtr (RNamed 4))]\<rparr>]"

definition hooked_lib :: hook_lib where
  "hooked_lib =
     \<lparr>hl_duration = RNamed 0, hl_parse_duration = (\<lambda>s. if s = ''1s'' then Some 1000000000 else None),
      hl_ip = RPrim POther, hl_parse_ip = (\<lambda>_. None),
      hl_url = RNamed 1, hl_parse_url = (\<lambda>s. Some (VStruct [])),
      hl_regexp = RPrim POther, hl_compile = (\<lambda>_. True), hl_parse_float = (\<lambda>_. None)\<rparr>"

definition hooked_builder :: plan_builder where
  "hooked_builder = \<lparr>pb_env = hooked_types, pb_hooks = default_typed_hooks hooked_types hooked_lib @ [url_hook hooked_lib], pb_yaml = False,
     pb_iface = (\<lambda>_. False)\<rparr>"


section \<open>Properties\<close>

lemma dropWhile_solid: "list_all (\<lambda>c. \<not> is_space c) xs \<Longrightarrow> dropWhile is_space xs = xs"
  by (cases xs) auto

lemma dropWhile_spaces: "list_all is_space l \<Longrightarrow> dropWhile is_space (l @ xs) = dropWhile is_space xs"
  by (induction l) auto

lemma trim_space_solid:
  assumes "list_all is_space l" and "list_all is_space r" and "list_all (\<lambda>c. \<not> is_space c) s" and "s \<noteq> []"
  shows "trim_space (l @ s @ r) = s"
proof -
  have "dropWhile is_space (l @ s @ r) = s @ r" using assms by (cases s) (auto simp: dropWhile_spaces)
  moreover have "dropWhile is_space (rev (s @ r)) = rev s"
    using assms(2,3) by (simp add: dropWhile_spaces dropWhile_solid list_all_iff)
  ultimately show ?thesis by (simp add: trim_space_def)
qed

lemma itoa_solid: "list_all (\<lambda>c. \<not> is_space c) (itoa n)"
proof -
  have "is_digit c \<Longrightarrow> \<not> is_space c" for c by (auto simp: ascii_defs)
  moreover have "\<not> is_space (CHR ''-'')" by (simp add: ascii_defs)
  ultimately show ?thesis using nat_digits_props by (auto simp: itoa_def list_all_iff)
qed

lemma digits_all [simp]: "is_all_digits (nat_digits n)" "digits_val (nat_digits n) = int n"
  using nat_digits_props [of n] by (simp_all add: is_all_digits_def)

lemma nat_digits_sign: "nat_digits n = c # s \<Longrightarrow> c \<noteq> CHR ''-'' \<and> c \<noteq> CHR ''+''"
  using nat_digits_props [of n] by (auto simp: is_digit_def)

lemma parse_itoa: "min_int64 \<le> n \<Longrightarrow> n \<le> max_int64 \<Longrightarrow> parse_int64 (itoa n) = Some n"
proof (cases "n < 0")
  case True
  assume "min_int64 \<le> n" "n \<le> max_int64"
  then show ?thesis using True by (simp add: parse_int64_def itoa_neg)
next
  case False
  assume "min_int64 \<le> n" "n \<le> max_int64"
  then show ?thesis
    using False nat_digits_sign [of "nat n"] digits_all [of "nat n"]
    by (cases "nat_digits (nat n)") (simp_all add: parse_int64_def itoa_nonneg)
qed

lemma itoa_digits: "0 \<le> n \<Longrightarrow> is_all_digits (itoa n) \<and> digits_val (itoa n) = n"
  by (simp add: itoa_nonneg)

lemma not_number:
  assumes "x = '''' \<or> (\<exists>c \<in> set x. \<not> is_digit c \<and> c \<noteq> CHR ''-'' \<and> c \<noteq> CHR ''+'')"
  shows "parse_int64 x = None \<and> parse_uint_bits 64 x = None"
proof -
  have "\<not> is_all_digits x" using assms by (auto simp: is_all_digits_def list_all_iff)
  moreover have "\<not> is_all_digits r" if "x = c # r" "c = CHR ''-'' \<or> c = CHR ''+''" for c r
    using assms that by (auto simp: is_all_digits_def list_all_iff)
  ultimately show ?thesis
    by (cases x) (simp_all add: parse_int64_def parse_uint_bits_def is_all_digits_def [of "[]"])
qed

lemma convert_integers:
  assumes "under env t = RPrim (PInt w)" and "under env u = RPrim (PUint w')"
  shows "string_primitive_convert env lib (HLeaf (LStr s)) t =
      (case parse_int64 (trim_space s) of Some n \<Rightarrow> (HLeaf (LInt KInt64 n), None)
        | None \<Rightarrow> (HLeaf (LStr s), Some ''string-primitive hook: parse int''))"
    and "string_primitive_convert env lib (HLeaf (LStr s)) u =
      (case parse_uint_bits 64 (trim_space s) of Some n \<Rightarrow> (HLeaf (LInt KUint64 n), None)
        | None \<Rightarrow> (HLeaf (LStr s), Some ''string-primitive hook: parse uint''))"
  by (simp_all add: string_primitive_convert_def hook_string_def assms split: option.splits)

text \<open>C32. The integer hook inverts printing: the decimal text of an integer, with any spaces around it, becomes that
  integer for every signed kind exactly when 64 signed bits hold it and for every unsigned kind exactly when 64
  unsigned bits do; out of range the text stays and an error is reported, for both kinds. Text that is blank, or holds
  anything but digits and signs once the spaces around it are dropped, stays with the same error; other values pass
  through.\<close>

theorem string_primitive_integers:
  assumes "under env t = RPrim (PInt w)" and "under env u = RPrim (PUint w')"
    and "list_all is_space l" and "list_all is_space r"
  shows "string_primitive_convert env lib (HLeaf (LStr (l @ itoa n @ r))) t =
       (if min_int64 \<le> n \<and> n \<le> max_int64 then (HLeaf (LInt KInt64 n), None)
        else (HLeaf (LStr (l @ itoa n @ r)), Some ''string-primitive hook: parse int'')) \<and>
    string_primitive_convert env lib (HLeaf (LStr (l @ itoa n @ r))) u =
       (if 0 \<le> n \<and> n < 2 ^ 64 then (HLeaf (LInt KUint64 n), None)
        else (HLeaf (LStr (l @ itoa n @ r)), Some ''string-primitive hook: parse uint'')) \<and>
    (trim_space s = '''' \<or> (\<exists>c \<in> set (trim_space s). \<not> is_digit c \<and> c \<noteq> CHR ''-'' \<and> c \<noteq> CHR ''+'') \<longrightarrow>
       string_primitive_convert env lib (HLeaf (LStr s)) t = (HLeaf (LStr s), Some ''string-primitive hook: parse int'') \<and>
       string_primitive_convert env lib (HLeaf (LStr s)) u = (HLeaf (LStr s), Some ''string-primitive hook: parse uint'')) \<and>
    (\<forall>v. (\<forall>s. v \<noteq> HLeaf (LStr s)) \<longrightarrow>
       string_primitive_convert env lib v t = (v, None) \<and> string_primitive_convert env lib v u = (v, None))"
proof -
  have "itoa n \<noteq> []" by (simp add: itoa_def)
  then have trim: "trim_space (l @ itoa n @ r) = itoa n" by (rule trim_space_solid [OF assms(3,4) itoa_solid])
  have parse: "parse_int64 (itoa n) = (if min_int64 \<le> n \<and> n \<le> max_int64 then Some n else None)"
  proof (cases "min_int64 \<le> n \<and> n \<le> max_int64")
    case False
    then show ?thesis
      by (cases "n < 0"; cases "nat_digits (nat n)")
        (use nat_digits_sign [of "nat n"] digits_all [of "nat n"] in \<open>auto simp: parse_int64_def itoa_neg itoa_nonneg\<close>)
  qed (simp add: parse_itoa)
  have uint: "parse_uint_bits 64 (itoa n) = (if 0 \<le> n \<and> n < 2 ^ 64 then Some n else None)"
    using itoa_digits [of n] by (cases "n < 0") (auto simp: parse_uint_bits_def itoa_neg is_all_digits_def is_digit_def)
  have other: "hook_string f v = (v, None)" if "\<forall>s. v \<noteq> HLeaf (LStr s)" for f v
    using that by (auto simp: hook_string_def split: hval.splits leaf.splits)
  show ?thesis
  proof (intro conjI impI allI)
    assume junk: "trim_space s = '''' \<or> (\<exists>c \<in> set (trim_space s). \<not> is_digit c \<and> c \<noteq> CHR ''-'' \<and> c \<noteq> CHR ''+'')"
    show "string_primitive_convert env lib (HLeaf (LStr s)) t = (HLeaf (LStr s), Some ''string-primitive hook: parse int'')"
      and "string_primitive_convert env lib (HLeaf (LStr s)) u = (HLeaf (LStr s), Some ''string-primitive hook: parse uint'')"
      by (simp_all add: convert_integers [OF assms(1,2)] not_number [OF junk])
  next
    fix v :: hval
    assume "\<forall>s. v \<noteq> HLeaf (LStr s)"
    then show "string_primitive_convert env lib v t = (v, None)" and "string_primitive_convert env lib v u = (v, None)"
      by (simp_all add: string_primitive_convert_def other)
  qed (simp_all add: convert_integers [OF assms(1,2)] trim parse uint)
qed

text \<open>C22. The plan is only an optimisation, in recursive types too: when no hook returns a higher tree than it was given,
  \<open>Apply\<close> returns, and with exactly the document and first error of the plain rewriting of the document along its type,
  which has no table of nodes and drops nothing; and the plan keeps a root exactly when a hook can be reached.\<close>

theorem hook_plan_exact:
  assumes "list_all flat_hook (pb_hooks b)"
  shows "apply_plan b (build_typed_hook_plan b t) m = rewrite_typed b t m \<and> rewrite_typed b t m \<noteq> None \<and>
    (hp_root (build_typed_hook_plan b t) \<noteq> None \<longleftrightarrow> reaches_hook b (\<lambda>_. True) (plan_for b t))"
proof -
  have "returns_flat (height (HMap m) + 1) (apply_ref b (shape_of b) (height (HMap m) + 1) (plan_for b t))"
    by (rule apply_ref_flat [OF shape_of_flat [OF assms] plan_for_flat [OF assms]])
  then have "rewrite_typed b t m \<noteq> None"
    using returns_flatD [of "height (HMap m) + 1" _ "HMap m"] unfolding rewrite_typed_def by fastforce
  moreover have "hp_root (build_typed_hook_plan b t) \<noteq> None \<longleftrightarrow> reaches_hook b (\<lambda>_. True) (plan_for b t)"
    using plan_root_live(1) [OF _ refl, of b t] no_hooks_dead [of b "\<lambda>_. True" t]
    by (cases "pb_hooks b = []") (simp_all add: build_typed_hook_plan_def no_plan_def)
  ultimately show ?thesis using apply_plan_reference [OF assms] by simp
qed

lemma fold_others: "\<forall>f \<in> set fs. pick_alias m (hf_aliases f) = None \<Longrightarrow> fold (assign_field b m t) fs w = w"
  by (induction fs) (simp_all add: assign_field_def)

lemma kv_get_map_prod: "kv_get (map (map_prod id g) m) k = map_option g (kv_get m k)"
  by (induction m) auto

lemma pick_alias_map: "pick_alias (map (map_prod id g) m) as = pick_alias m as"
  by (induction "as") (simp_all add: kv_get_map_prod del: map_prod_simp id_apply)

text \<open>After decoding, a result that the JSON bridge cannot carry (such as a URL) is stored into its field, whatever was
  decoded there, exactly when every field on the way to it is exported; below an embedded struct of an unexported type
  the field keeps what was decoded and the result is lost.\<close>

theorem hook_result_stored:
  assumes "p = build_typed_hook_plan b t" and "hp_root p = Some (ShapeRef t)" and "struct_of (pb_env b) t \<noteq> None"
    and "sh_fields (shape_at p t) = before @ f # after" and "hf_plan f = HookRef h u" and "direct_target b u"
    and "list_all (\<lambda>g. pick_alias m (hf_aliases g) = None) (before @ after)"
    and "pick_alias m (hf_aliases f) = Some key" and "kv_get m key = Some (HAssigned u x)"
    and "has_path (pb_env b) t v (hf_index f)" and "hf_index f \<noteq> []"
    and "field_by_index (pb_env b) t (hf_index f) = Some rf" and "rf_type rf = u"
  shows "field_at (assign_plan b p (HMap m) t v) (hf_index f) =
    (if exported_path (pb_env b) t (hf_index f) then Some x else field_at v (hf_index f))"
proof -
  note sh = shape_at_build [OF assms(2,1)]
  obtain fs where fs: "struct_of (pb_env b) t = Some fs" using assms(3) by blast
  have t: "deref t = t" using fs by (cases t) simp_all
  have "t \<in> set (all_shapes b (ShapeRef t))" by (rule all_shapes_closed(1) [OF refl])
  then have "f \<in> set (sh_fields (prune_shape (hp_flags p) (shape_of b t)))" using sh assms(4) by (metis in_set_conv_decomp)
  then have "HookRef h u \<in> set (shape_refs (shape_of b t))"
    using assms(5) by (auto simp: prune_shape_def shape_refs_def image_iff intro!: bexI [of _ f])
  then have "reaches_hook b (direct_target b) (ShapeRef t)" using assms(6) by (auto simp: reaches_hook_def)
  then have flag: "ref_assigns b (hp_flags p) (ShapeRef t)"
    using plan_root_live(2) [OF _ assms(1,2)] no_hooks_dead [of b "direct_target b" t] sh by metis
  let ?m = "map (map_prod id (assign_val b p)) m"
  let ?g = "\<lambda>ro. settle_then b (Some u) ro (\<lambda>_ _. x)"
  have hook: "assign_node b p (Some (u, x)) (\<lambda>s t w. w) (HookRef h u) = ?g"
    using assms(6) by (simp add: assign_node_def fun_eq_iff)
  have field: "assign_field b ?m t f w = field_then b ?g (hf_index f) t w" for w
    using assms(5,8,9) hook by (simp add: assign_field_def pick_alias_map kv_get_map_prod)
  have none: "\<forall>g \<in> set before. pick_alias ?m (hf_aliases g) = None" "\<forall>g \<in> set after. pick_alias ?m (hf_aliases g) = None"
    using assms(7) by (simp_all add: list_all_iff pick_alias_map)
  have under: "under (pb_env b) t = RStruct fs" using fs by (simp add: struct_of_def split: rtype.splits)
  have map: "assign_map b (shape_at p t) ?m t v = field_then b ?g (hf_index f) t v"
    using under assms(4) by (simp add: assign_map_def fold_others [OF none(1)] fold_others [OF none(2)] field)
  have "settle_then b None False (assign_map b (shape_at p t) ?m) t v = assign_map b (shape_at p t) ?m t v"
    using fs by (cases t) simp_all
  then have "assign_plan b p (HMap m) t v = field_then b ?g (hf_index f) t v"
    using assms(2) flag map by (simp add: assign_plan_def assign_node_def del: ref_assigns.simps)
  then show ?thesis using field_then_stores [OF assms(10,11) t assms(12,13)] by simp
qed

text \<open>Runs. A service with a wait, a list of ports and a following service; and a URL below an unexported struct.\<close>

lemma hook_string_height:
  "\<forall>s v. raw = HLeaf (LStr s) \<and> f s = Inl v \<longrightarrow> height v = 0 \<Longrightarrow> height (fst (hook_string f raw)) \<le> height raw"
  by (cases raw) (auto simp: hook_string_def split: leaf.split sum.split)

lemma hooked_flat: "list_all flat_hook (pb_hooks hooked_builder)"
proof -
  have "flat_hook (duration_hook hooked_lib)"
    unfolding flat_hook_def duration_hook_def convert_with_def
    by (auto intro!: hook_string_height split: option.splits)
  moreover have "flat_hook (url_hook hooked_lib)"
    unfolding flat_hook_def url_hook_def convert_with_def Let_def
    by (auto intro!: hook_string_height split: option.splits)
  moreover have "flat_hook (string_primitive_hook hooked_types hooked_lib)"
    unfolding flat_hook_def string_primitive_hook_def convert_with_def string_primitive_convert_def
    by (auto intro!: hook_string_height split: option.splits rtype.splits prim.splits)
  ultimately show ?thesis by (simp add: hooked_builder_def default_typed_hooks_def)
qed

definition hooked_doc :: hmap where
  "hooked_doc = [(''wait'', HLeaf (LStr ''1s'')), (''Ports'', HSlice [HLeaf (LStr ''80''), HLeaf (LStr ''x'')]),
     (''next'', HMap [(''Ports'', HSlice [HLeaf (LStr '' 443'')])])]"

lemma hooked_rewrite:
  "rewrite_typed hooked_builder (RNamed 4) hooked_doc =
    Some (HMap [(''wait'', HTyped (RNamed 0) (VInt 64 1000000000)),
       (''Ports'', HSlice [HLeaf (LInt KInt64 80), HLeaf (LStr ''x'')]),
       (''next'', HMap [(''Ports'', HSlice [HLeaf (LInt KInt64 443)])])], Some ''string-primitive hook: parse int'')"
  by code_simp

theorem hook_plan_exact_witness:
  "apply_plan hooked_builder (build_typed_hook_plan hooked_builder (RNamed 4)) hooked_doc =
    Some (HMap [(''wait'', HTyped (RNamed 0) (VInt 64 1000000000)),
       (''Ports'', HSlice [HLeaf (LInt KInt64 80), HLeaf (LStr ''x'')]),
       (''next'', HMap [(''Ports'', HSlice [HLeaf (LInt KInt64 443)])])], Some ''string-primitive hook: parse int'')"
  using hook_plan_exact [OF hooked_flat, of "RNamed 4" hooked_doc] hooked_rewrite by simp

theorem string_primitive_integers_witness:
  "string_primitive_convert [] hooked_lib (HLeaf (LStr ('' '' @ itoa 42 @ ''''))) (RPrim (PUint 8)) = (HLeaf (LInt KUint64 42), None) \<and>
   string_primitive_convert [] hooked_lib (HLeaf (LStr ''4x'')) (RPrim (PInt 8)) =
     (HLeaf (LStr ''4x''), Some ''string-primitive hook: parse int'')"
proof -
  have "trim_space ''4x'' = ''4x''" by code_simp
  then show ?thesis
    using string_primitive_integers [of "[]" "RPrim (PInt 8)" 8 "RPrim (PUint 8)" 8 "'' ''" "''''" hooked_lib 42 "''4x''"]
    by (simp add: under_def is_space_def ascii_defs)
qed

definition hook_target :: "plan_ref \<Rightarrow> rtype option" where
  "hook_target r = (case r of HookRef h t \<Rightarrow> Some t | ShapeRef t \<Rightarrow> None)"

lemma lost_plan:
  "map_option ref_shape (hp_root (build_typed_hook_plan hooked_builder (RNamed 3))) = Some (Some (RNamed 3))"
  "map (\<lambda>f. (hf_aliases f, hf_index f, hook_target (hf_plan f)))
     (sh_fields (shape_at (build_typed_hook_plan hooked_builder (RNamed 3)) (RNamed 3))) =
   [([''u'', ''U''], [0, 0], Some (RNamed 1))]"
  by code_simp+

text \<open>The embedded struct of type 3 is unexported: its URL, decoded from the null the JSON bridge wrote, stays empty.\<close>

theorem hook_result_stored_witness:
  "field_at (assign_plan hooked_builder (build_typed_hook_plan hooked_builder (RNamed 3))
       (HMap [(''U'', HAssigned (RNamed 1) (VStruct [VBool True]))]) (RNamed 3) (VStruct [VStruct [VStruct []]])) [0, 0] =
     Some (VStruct [])"
proof -
  let ?p = "build_typed_hook_plan hooked_builder (RNamed 3)"
  obtain f h where f: "sh_fields (shape_at ?p (RNamed 3)) = [] @ f # []" "hf_aliases f = [''u'', ''U'']" "hf_index f = [0, 0]"
      "hf_plan f = HookRef h (RNamed 1)"
    using lost_plan(2) by (auto simp: hook_target_def split: plan_ref.splits)
  have root: "hp_root ?p = Some (ShapeRef (RNamed 3))" using lost_plan(1) by (auto simp: ref_shape_iff)
  show ?thesis
    using hook_result_stored [OF refl root _ f(1,4), of "[(''U'', HAssigned (RNamed 1) (VStruct [VBool True]))]" "''U''"
        "VStruct [VBool True]" "VStruct [VStruct [VStruct []]]" "hooked_field ''U'' False (RNamed 1)"]
    by (simp add: f(2,3) hooked_builder_def hooked_types_def hooked_field_def direct_target_def struct_of_def under_def)
qed

end
