(* ===== verification/Sources.thy ===== *)
theory Sources
  imports Envs Scan
begin

text \<open>
  Providers that read what is on the machine: \<open>providers/k8s/downward.go\<close> (the label and annotation files of the
  Kubernetes Downward API), \<open>providers/source\<close> (one document from memory, a file or an \<open>fs.FS\<close>) and
  \<open>providers/cliflag\<close>. Reading a path is an argument; a hash of bytes is one too.
\<close>

section \<open>Kubernetes metadata\<close>

datatype metadata_mode = MetadataRaw | MetadataExpanded

record downward_opts =
  dw_name :: string
  dw_priority :: int
  dw_labels_path :: string
  dw_annotations_path :: string
  dw_separators :: "string list"
  dw_labels_mode :: metadata_mode
  dw_annotations_mode :: metadata_mode
  dw_at :: string
  dw_must_exist :: bool

record downward =
  dp_opts :: downward_opts
  dp_root :: "string list"

definition priority_k8s :: int where "priority_k8s = 40"
definition priority_static :: int where "priority_static = 10"
definition priority_cli :: int where "priority_cli = 60"

definition zero_downward :: downward_opts where
  "zero_downward =
     \<lparr>dw_name = '''', dw_priority = 0, dw_labels_path = '''', dw_annotations_path = '''', dw_separators = [],
      dw_labels_mode = MetadataRaw, dw_annotations_mode = MetadataRaw, dw_at = '''', dw_must_exist = False\<rparr>"

definition new_downward :: "downward_opts \<Rightarrow> downward" where
  "new_downward oo =
     \<lparr>dp_opts = oo\<lparr>dw_name := (if dw_name oo = '''' then ''k8s-downward'' else dw_name oo),
        dw_priority := (if dw_priority oo = 0 then priority_k8s else dw_priority oo),
        dw_separators := (if dw_separators oo = [] then [''/'', ''.''] else dw_separators oo)\<rparr>,
      dp_root = split_path (dw_at oo)\<rparr>"

definition default_labels_path :: string where "default_labels_path = ''/etc/podinfo/labels''"
definition default_annotations_path :: string where "default_annotations_path = ''/etc/podinfo/annotations''"

definition new_default_downward :: downward where
  "new_default_downward =
     new_downward (zero_downward\<lparr>dw_labels_path := default_labels_path, dw_annotations_path := default_annotations_path,
       dw_at := ''k8s.metadata''\<rparr>)"

definition new_expanded_downward :: downward where
  "new_expanded_downward =
     new_downward (zero_downward\<lparr>dw_labels_path := default_labels_path, dw_annotations_path := default_annotations_path,
       dw_labels_mode := MetadataExpanded, dw_annotations_mode := MetadataExpanded\<rparr>)"

definition escaped_byte :: "char \<Rightarrow> string" where
  "escaped_byte c =
     (if c = CHR ''n'' then [CHR 0x0A]
      else if c = CHR ''t'' then [CHR 0x09]
      else if c = CHR ''r'' then [CHR 0x0D]
      else if c = CHR 0x22 then [CHR 0x22]
      else if c = CHR 0x5C then [CHR 0x5C]
      else [CHR 0x5C, c])"

text \<open>\<open>None\<close>: the closing quote is missing.\<close>

fun parse_quoted_body :: "string \<Rightarrow> string option" where
  "parse_quoted_body [] = None"
| "parse_quoted_body (c # s) =
     (if c = CHR 0x22 then Some []
      else if c = CHR 0x5C then
        (case s of
           d # r \<Rightarrow> map_option (\<lambda>v. escaped_byte d @ v) (parse_quoted_body r)
         | [] \<Rightarrow> map_option (\<lambda>v. c # v) (parse_quoted_body s))
      else map_option (\<lambda>v. c # v) (parse_quoted_body s))"

datatype downward_fault = MissingEquals | EmptyKey | NotQuoted | Unterminated

text \<open>One line: nothing, an assignment, or a fault.\<close>

definition downward_line :: "string \<Rightarrow> downward_fault + label_pair option" where
  "downward_line raw =
     (let line = trim_space raw in
      if line = '''' \<or> has_prefix line ''#'' then Inr None
      else (case cut_eq line of
              None \<Rightarrow> Inl MissingEquals
            | Some (k, rest) \<Rightarrow>
                (let key = trim_space k in
                 if key = '''' then Inl EmptyKey
                 else (case rest of
                         q # body \<Rightarrow>
                           if q \<noteq> CHR 0x22 then Inl NotQuoted
                           else (case parse_quoted_body body of None \<Rightarrow> Inl Unterminated | Some v \<Rightarrow> Inr (Some (key, v)))
                       | [] \<Rightarrow> Inl NotQuoted))))"

text \<open>The loop, with the number of the line; a later line replaces the value of its key.\<close>

fun downward_lines :: "nat \<Rightarrow> string list \<Rightarrow> label_pair list \<Rightarrow> (nat \<times> downward_fault) + label_pair list" where
  "downward_lines n [] out = Inr out"
| "downward_lines n (l # ls) out =
     (case downward_line l of
        Inl e \<Rightarrow> Inl (n, e)
      | Inr None \<Rightarrow> downward_lines (n + 1) ls out
      | Inr (Some (k, v)) \<Rightarrow> downward_lines (n + 1) ls (kv_set k v out))"

definition parse_downward :: "string \<Rightarrow> (nat \<times> downward_fault) + label_pair list" where
  "parse_downward data = downward_lines 1 (split_char (CHR 0x0A) data) []"

text \<open>What reading a path gives.\<close>

datatype path_read = PathMissing | PathFailed string | PathBytes string

datatype bucket_error = BucketRead string string | BucketMissing string | BucketParse string nat downward_fault

definition load_bucket ::
  "(string \<Rightarrow> gfloat option) \<Rightarrow> (string \<Rightarrow> path_read) \<Rightarrow> downward \<Rightarrow> string \<Rightarrow> metadata_mode \<Rightarrow> bucket_error + gmap option" where
  "load_bucket pf rd p path mode =
     (case rd path of
        PathMissing \<Rightarrow> if dw_must_exist (dp_opts p) then Inl (BucketMissing path) else Inr None
      | PathFailed e \<Rightarrow> Inl (BucketRead path e)
      | PathBytes data \<Rightarrow>
          (case parse_downward data of
             Inl (n, e) \<Rightarrow> Inl (BucketParse path n e)
           | Inr pairs \<Rightarrow>
               Inr (Some
                 (if pairs = [] then []
                  else if mode = MetadataRaw then map (\<lambda>(k, v). (k, GStr v)) pairs
                  else expand_labels pf (InPairs (sort_key fst pairs))
                         \<lparr>lo_prefix = '''', lo_strip = False, lo_separator = '''',
                          lo_separators = dw_separators (dp_opts p), lo_coerce = False\<rparr>))))"

definition add_bucket ::
  "(string \<Rightarrow> gfloat option) \<Rightarrow> (string \<Rightarrow> path_read) \<Rightarrow> downward \<Rightarrow> string \<Rightarrow> string \<Rightarrow> metadata_mode \<Rightarrow> gmap \<Rightarrow> bucket_error + gmap" where
  "add_bucket pf rd p name path mode inner =
     (if path = '''' then Inr inner
      else rbind (load_bucket pf rd p path mode)
             (\<lambda>t. Inr (case t of None \<Rightarrow> inner | Some tree \<Rightarrow> kv_set name (GMap tree) inner)))"

definition load_downward :: "(string \<Rightarrow> gfloat option) \<Rightarrow> (string \<Rightarrow> path_read) \<Rightarrow> downward \<Rightarrow> bucket_error + gmap" where
  "load_downward pf rd p =
     (let oo = dp_opts p in
      rbind (add_bucket pf rd p ''labels'' (dw_labels_path oo) (dw_labels_mode oo) []) (\<lambda>m.
      rbind (add_bucket pf rd p ''annotations'' (dw_annotations_path oo) (dw_annotations_mode oo) m) (\<lambda>inner.
      Inr (graft_at inner (dp_root p)))))"

definition downward_watch_paths :: "downward \<Rightarrow> string list" where
  "downward_watch_paths p =
     fold (\<lambda>path paths. if path = '''' \<or> path \<in> set paths then paths else paths @ [path])
       [dw_labels_path (dp_opts p), dw_annotations_path (dp_opts p)] []"

section \<open>Single documents\<close>

datatype source_error =
    SourceTooLarge | SourceUnreadable file_error | SourceOpen | SourceInvalid | SourceCanceled | SourceUnknown string
  | SourceDecode codec_error

definition snapshot_from :: "'d registry \<Rightarrow> ('d \<Rightarrow> string \<Rightarrow> codec_error + gmap) \<Rightarrow> string \<Rightarrow> string \<Rightarrow> string \<Rightarrow> source_error + snapshot" where
  "snapshot_from reg dec data ct rv =
     (if data = '''' then Inr \<lparr>sn_map = Some [], sn_revision = rv, sn_stale = False\<rparr>
      else (case by_content_type reg ct of
              None \<Rightarrow> Inl (SourceUnknown ct)
            | Some c \<Rightarrow>
                (case dec c data of
                   Inl e \<Rightarrow> Inl (SourceDecode e)
                 | Inr m \<Rightarrow> Inr \<lparr>sn_map = Some m, sn_revision = rv, sn_stale = False\<rparr>)))"

record bytes_source =
  by_name :: string
  by_ctype :: string
  by_data :: string
  by_priority :: int
  by_rev :: string
  by_max :: int

text \<open>\<open>hash\<close> is the hex of the first eight bytes of the SHA-1 sum.\<close>

definition new_bytes :: "(string \<Rightarrow> string) \<Rightarrow> string \<Rightarrow> string \<Rightarrow> string \<Rightarrow> bytes_source" where
  "new_bytes hash name ct data =
     \<lparr>by_name = name, by_ctype = ct, by_data = data, by_priority = priority_static, by_rev = hash data,
      by_max = default_max_body\<rparr>"

definition load_bytes :: "'d registry \<Rightarrow> ('d \<Rightarrow> string \<Rightarrow> codec_error + gmap) \<Rightarrow> bytes_source \<Rightarrow> source_error + snapshot" where
  "load_bytes reg dec b =
     (let max = (if by_max b \<le> 0 then default_max_body else by_max b) in
      if max < int (length (by_data b)) then Inl SourceTooLarge
      else snapshot_from reg dec (by_data b) (by_ctype b) (by_rev b))"

record file_source =
  fl_path :: string
  fl_priority :: int
  fl_max :: int

definition new_file :: "string \<Rightarrow> file_source" where
  "new_file path = \<lparr>fl_path = path, fl_priority = priority_static, fl_max = default_max_body\<rparr>"

datatype opened = OpenMissing | OpenError | Opened file_data

text \<open>\<open>stat\<close> and \<open>hash\<close> give the revision: size and time for a file, a hash for an \<open>fs.FS\<close>.\<close>

definition load_file_source ::
  "'d registry \<Rightarrow> ('d \<Rightarrow> string \<Rightarrow> codec_error + gmap) \<Rightarrow> (string \<Rightarrow> opened) \<Rightarrow> (string \<Rightarrow> string) \<Rightarrow> file_source \<Rightarrow> source_error + snapshot" where
  "load_file_source reg dec op stat f =
     (case op (fl_path f) of
        OpenMissing \<Rightarrow> snapshot_from reg dec '''' (file_ext (fl_path f)) ''''
      | OpenError \<Rightarrow> Inl SourceOpen
      | Opened d \<Rightarrow>
          (case read_all_max d (fl_max f) of
             Inl e \<Rightarrow> Inl (SourceUnreadable e)
           | Inr data \<Rightarrow> snapshot_from reg dec data (file_ext (fl_path f)) (stat (fl_path f))))"

text \<open>\<open>fs.ValidPath\<close>: \<open>.\<close>, or non-empty segments other than \<open>.\<close> and \<open>..\<close> (and valid UTF-8, which \<open>utf8\<close> decides).\<close>

definition valid_fs_path :: "(string \<Rightarrow> bool) \<Rightarrow> string \<Rightarrow> bool" where
  "valid_fs_path utf8 p \<longleftrightarrow>
     utf8 p \<and> (p = ''.'' \<or> list_all (\<lambda>s. s \<noteq> '''' \<and> s \<noteq> ''.'' \<and> s \<noteq> ''..'') (split_char (CHR ''/'') p))"

text \<open>\<open>cancel\<close> says whether the context is canceled before and after the read, \<open>op\<close> is \<open>None\<close> for a nil file system.\<close>

definition load_fs_source ::
  "'d registry \<Rightarrow> ('d \<Rightarrow> string \<Rightarrow> codec_error + gmap) \<Rightarrow> (string \<Rightarrow> bool) \<Rightarrow> (string \<Rightarrow> string) \<Rightarrow> bool \<times> bool \<Rightarrow>
   (string \<Rightarrow> opened) option \<Rightarrow> file_source \<Rightarrow> source_error + snapshot" where
  "load_fs_source reg dec utf8 hash cancel op f =
     (if fst cancel then Inl SourceCanceled
      else (case op of
              None \<Rightarrow> Inl SourceInvalid
            | Some opn \<Rightarrow>
                if \<not> valid_fs_path utf8 (fl_path f) then Inl SourceInvalid
                else (case opn (fl_path f) of
                        Opened d \<Rightarrow>
                          (case read_all_max d (fl_max f) of
                             Inl e \<Rightarrow> Inl (SourceUnreadable e)
                           | Inr data \<Rightarrow>
                               if snd cancel then Inl SourceCanceled
                               else snapshot_from reg dec data (file_ext (fl_path f)) (hash data))
                      | _ \<Rightarrow> Inl SourceOpen)))"

section \<open>Flags\<close>

text \<open>\<open>From\<close>, over the flags \<open>visit\<close> yields.\<close>

definition flags_from :: "label_pair list \<Rightarrow> gmap" where
  "flags_from visited =
     set_all [] (map (\<lambda>(name, v). (split_char (CHR ''.'') name, GStr v)) (filter (\<lambda>(name, v). name \<noteq> '''') visited))"

record flag_provider =
  fp_data :: gmap
  fp_priority :: int

definition new_flags :: "gmap option \<Rightarrow> flag_provider" where
  "new_flags data = \<lparr>fp_data = (case data of None \<Rightarrow> [] | Some m \<Rightarrow> m), fp_priority = priority_cli\<rparr>"

definition load_flags :: "flag_provider \<Rightarrow> snapshot" where
  "load_flags p = \<lparr>sn_map = Some (fp_data p), sn_revision = '''', sn_stale = False\<rparr>"

section \<open>Quoted metadata\<close>

fun quoted_byte :: "char \<Rightarrow> string" where
  "quoted_byte c =
     (if c = CHR 0x0A then [CHR 0x5C, CHR ''n'']
      else if c = CHR 0x09 then [CHR 0x5C, CHR ''t'']
      else if c = CHR 0x0D then [CHR 0x5C, CHR ''r'']
      else if c = CHR 0x22 \<or> c = CHR 0x5C then [CHR 0x5C, c]
      else [c])"

definition meta_line :: "label_pair \<Rightarrow> string" where
  "meta_line kv = fst kv @ CHR ''='' # CHR 0x22 # concat (map quoted_byte (snd kv)) @ [CHR 0x22]"

definition meta_key :: "string \<Rightarrow> bool" where
  "meta_key k \<longleftrightarrow> k \<noteq> '''' \<and> \<not> is_space (hd k) \<and> \<not> is_space (last k) \<and> hd k \<noteq> CHR ''#'' \<and> CHR ''='' \<notin> set k \<and> CHR 0x0A \<notin> set k"

lemma parse_quoted_bytes: "parse_quoted_body (concat (map quoted_byte v) @ CHR 0x22 # t) = Some v"
  by (induction v) (auto simp: escaped_byte_def)

lemma downward_line_quoted:
  assumes "meta_key (fst kv)"
  shows "downward_line (meta_line kv) = Inr (Some kv)"
proof -
  obtain k v where kv: "kv = (k, v)" by (cases kv)
  have k: "k \<noteq> []" "\<not> is_space (hd k)" "\<not> is_space (last k)" "hd k \<noteq> CHR ''#''" "\<forall>c \<in> set k. c \<noteq> CHR ''=''"
    using assms kv by (auto simp: meta_key_def)
  let ?q = "CHR 0x22 # concat (map quoted_byte v) @ [CHR 0x22]"
  have "trim_space (k @ CHR ''='' # ?q) = k @ CHR ''='' # ?q"
    using k by (intro trim_space_id) (auto simp: is_space_def)
  moreover have "\<not> has_prefix (k @ CHR ''='' # ?q) ''#''"
    using k(1,4) by (cases k) (auto simp: has_prefix_def)
  moreover have "cut_eq (k @ CHR ''='' # ?q) = Some (k, ?q)"
    using k(5) by (auto simp: cut_eq_def takeWhile_append2 dropWhile_append2)
  moreover have "trim_space k = k" using k by (intro trim_space_id) auto
  ultimately show ?thesis
    using k(1) parse_quoted_bytes [of v "[]"] by (simp add: downward_line_def meta_line_def kv Let_def)
qed

lemma meta_line_no_newline: "meta_key (fst kv) \<Longrightarrow> CHR 0x0A \<notin> set (meta_line kv)"
  by (auto simp: meta_key_def meta_line_def split: if_splits)

lemma split_meta_lines:
  "\<forall>kv \<in> set kvs. meta_key (fst kv) \<Longrightarrow>
   split_char (CHR 0x0A) (concat (map (\<lambda>kv. meta_line kv @ [CHR 0x0A]) kvs)) = map meta_line kvs @ [[]]"
  by (induction kvs) (auto simp: split_char_append meta_line_no_newline)

lemma kv_set_fresh: "k \<notin> set (keys m) \<Longrightarrow> kv_set k v m = m @ [(k, v)]"
  by (induction m) auto

lemma downward_lines_quoted:
  "\<forall>kv \<in> set kvs. meta_key (fst kv) \<Longrightarrow> distinct (keys (out @ kvs)) \<Longrightarrow>
   downward_lines n (map meta_line kvs @ [[]]) out = Inr (out @ kvs)"
proof (induction kvs arbitrary: n out)
  case Nil
  then show ?case by (simp add: downward_line_def trim_space_def)
next
  case (Cons kv kvs)
  obtain k v where kv: "kv = (k, v)" by (cases kv)
  have "kv_set k v out = out @ [(k, v)]" using Cons.prems(2) kv by (intro kv_set_fresh) auto
  then show ?case using Cons.IH [of "out @ [kv]" "n + 1"] Cons.prems kv by (simp add: downward_line_quoted)
qed

text \<open>C40. A Downward API file with one \<open>KEY="VALUE"\<close> line per label parses back to exactly the labels it was written from:
  newlines, tabs, carriage returns, quotes, backslashes, \<open>=\<close> and \<open>#\<close> in a value survive.\<close>

theorem downward_roundtrip:
  assumes "\<forall>kv \<in> set kvs. meta_key (fst kv)" and "distinct (keys kvs)"
  shows "parse_downward (concat (map (\<lambda>kv. meta_line kv @ [CHR 0x0A]) kvs)) = Inr kvs"
  using downward_lines_quoted [of kvs "[]" 1] assms by (simp add: parse_downward_def split_meta_lines)

theorem downward_roundtrip_witness:
  "parse_downward (''app.kubernetes.io/name=\"a=#'' @ [CHR 0x5C] @ ''nb\"'' @ [CHR 0x0A]) =
    Inr [(''app.kubernetes.io/name'', ''a=#'' @ [CHR 0x0A] @ ''b'')]"
  using downward_roundtrip [of "[(''app.kubernetes.io/name'', ''a=#'' @ [CHR 0x0A] @ ''b'')]"]
  by (simp add: meta_key_def meta_line_def is_space_def)

definition lines_accounted :: "nat \<Rightarrow> string list \<Rightarrow> label_pair list \<Rightarrow> (nat \<times> downward_fault) + label_pair list \<Rightarrow> bool" where
  "lines_accounted n ls out res \<longleftrightarrow>
     (case res of
        Inl (k, e) \<Rightarrow> n \<le> k \<and> k < n + length ls \<and> downward_line (ls ! (k - n)) = Inl e \<and>
          (\<forall>i < k - n. \<exists>r. downward_line (ls ! i) = Inr r)
      | Inr m \<Rightarrow> set (keys out) \<subseteq> set (keys m) \<and>
          (\<forall>l \<in> set ls. case downward_line l of Inl e \<Rightarrow> False | Inr None \<Rightarrow> True | Inr (Some kv) \<Rightarrow> fst kv \<in> set (keys m)))"

lemma lines_accounted_step:
  assumes "lines_accounted (n + 1) ls out' res" and "downward_line l = Inr r"
    and "set (keys out) \<subseteq> set (keys out')" and "\<forall>kv. r = Some kv \<longrightarrow> fst kv \<in> set (keys out')"
  shows "lines_accounted n (l # ls) out res"
proof (cases res)
  case (Inl p)
  obtain k e where p: "p = (k, e)" by (cases p)
  have k: "n + 1 \<le> k" "k < n + 1 + length ls" "downward_line (ls ! (k - (n + 1))) = Inl e"
    "\<forall>i < k - (n + 1). \<exists>r. downward_line (ls ! i) = Inr r"
    using assms(1) Inl p by (auto simp: lines_accounted_def)
  obtain d where d: "k = n + 1 + d" using k(1) le_Suc_ex by blast
  have "\<forall>i < k - n. \<exists>r. downward_line ((l # ls) ! i) = Inr r"
    using k(4) assms(2) d by (auto simp: nth_Cons split: nat.split)
  then show ?thesis using Inl p k d by (simp add: lines_accounted_def)
next
  case (Inr m)
  then show ?thesis using assms by (cases r) (auto simp: lines_accounted_def)
qed

lemma downward_lines_result: "lines_accounted n ls out (downward_lines n ls out)"
proof (induction n ls out rule: downward_lines.induct)
  case (1 n out)
  then show ?case by (simp add: lines_accounted_def)
next
  case (2 n l ls out)
  show ?case
  proof (cases "downward_line l")
    case (Inl e)
    then show ?thesis by (simp add: lines_accounted_def)
  next
    case (Inr r)
    show ?thesis
    proof (cases r)
      case None
      then show ?thesis using lines_accounted_step [OF "2.IH"(1) [OF Inr None] Inr] Inr by simp
    next
      case (Some kv)
      then show ?thesis
        using lines_accounted_step [OF "2.IH"(2) [OF Inr Some prod.collapse] Inr] Inr Some
        by (cases kv) (auto simp: dom_update)
    qed
  qed
qed

text \<open>No metadata is dropped silently: a file either parses, and then every line is blank, a comment or an assignment
  whose key is in the result, or the reload fails with the number of the first line that is none of these and its fault.\<close>

theorem downward_strict:
  "case parse_downward data of
     Inl (k, e) \<Rightarrow> 1 \<le> k \<and> k \<le> length (split_char (CHR 0x0A) data) \<and>
       downward_line (split_char (CHR 0x0A) data ! (k - 1)) = Inl e \<and>
       list_all (\<lambda>l. is_ok (downward_line l)) (take (k - 1) (split_char (CHR 0x0A) data))
   | Inr m \<Rightarrow> list_all (\<lambda>l. case downward_line l of Inl e \<Rightarrow> False | Inr None \<Rightarrow> True | Inr (Some kv) \<Rightarrow> fst kv \<in> set (keys m))
       (split_char (CHR 0x0A) data)"
  using downward_lines_result [of 1 "split_char (CHR 0x0A) data" "[]"]
  by (auto simp: lines_accounted_def parse_downward_def list_all_length list_all_iff is_ok_def less_Suc_eq_le split: sum.splits)

section \<open>One document, three sources\<close>

text \<open>The same document gives the same layer whether it comes from memory, a file or an \<open>fs.FS\<close>, and is refused by all
  three when it is over the limit of 4 MiB.\<close>

theorem sources_agree:
  assumes "\<not> fd_broken d" and "op path = Opened d" and "valid_fs_path utf8 path"
  shows "map_option sn_map (case load_file_source reg dec op stat (new_file path) of Inl e \<Rightarrow> None | Inr s \<Rightarrow> Some s) =
      map_option sn_map (case load_bytes reg dec (new_bytes hash name (file_ext path) (fd_bytes d)) of Inl e \<Rightarrow> None | Inr s \<Rightarrow> Some s) \<and>
    map_option sn_map (case load_fs_source reg dec utf8 hash (False, False) (Some op) (new_file path) of Inl e \<Rightarrow> None | Inr s \<Rightarrow> Some s) =
      map_option sn_map (case load_bytes reg dec (new_bytes hash name (file_ext path) (fd_bytes d)) of Inl e \<Rightarrow> None | Inr s \<Rightarrow> Some s) \<and>
    (default_max_body < int (length (fd_bytes d)) \<longrightarrow>
      load_file_source reg dec op stat (new_file path) = Inl (SourceUnreadable TooLarge))"
proof -
  have dm: "0 < default_max_body" "default_max_body < max_int64" by (simp_all add: default_max_body_def max_int64_def)
  have read: "read_all_max d default_max_body =
      (if default_max_body < int (length (fd_bytes d)) then Inl TooLarge else Inr (fd_bytes d))"
    using assms(1) dm by (auto simp: read_all_max_def read_limited_def Let_def)
  have snap: "map_option sn_map (case snapshot_from reg dec data ct rv of Inl e \<Rightarrow> None | Inr s \<Rightarrow> Some s) =
      map_option sn_map (case snapshot_from reg dec data ct rv' of Inl e \<Rightarrow> None | Inr s \<Rightarrow> Some s)" for data ct rv rv'
    by (simp add: snapshot_from_def split: option.split sum.split)
  show ?thesis
    using assms(2,3) dm snap
    by (simp add: load_file_source_def load_fs_source_def load_bytes_def new_file_def new_bytes_def read Let_def)
qed


theorem sources_agree_witness:
  "map_option sn_map (case load_fs_source init_registry (\<lambda>_ _. Inr []) (\<lambda>_. True) (\<lambda>_. ''h'') (False, False) (Some (\<lambda>_. Opened \<lparr>fd_bytes = ''{}'', fd_broken = False\<rparr>)) (new_file ''app.json'') of Inl e \<Rightarrow> None | Inr s \<Rightarrow> Some s) =
   map_option sn_map (case load_bytes init_registry (\<lambda>_ _. Inr []) (new_bytes (\<lambda>_. ''h'') ''app'' ''.json'' ''{}'') of Inl e \<Rightarrow> None | Inr s \<Rightarrow> Some s)"
proof -
  have "file_ext ''app.json'' = ''.json''" by code_simp
  moreover have "valid_fs_path (\<lambda>_. True) ''app.json''" by (simp add: valid_fs_path_def)
  ultimately show ?thesis
    using sources_agree [of "\<lparr>fd_bytes = ''{}'', fd_broken = False\<rparr>" "\<lambda>_. Opened \<lparr>fd_bytes = ''{}'', fd_broken = False\<rparr>" "''app.json''"
        "\<lambda>_. True" init_registry "\<lambda>_ _. Inr []" "\<lambda>_. ''s''" "\<lambda>_. ''h''" "''app''"] by simp
qed

end
