(* ===== verification/History.thy ===== *)
theory History
  imports Prelude
begin

text \<open>
  \<open>history.go\<close> (the ring of retained snapshots) and \<open>layer_cache.go\<close> (the FIFO cache of decoded layers and
  the cache of the merge-key table). Both the ring and the key queue of the layer cache are interpreted as
  the bounded queue of the prelude. A pointer that may be nil is an \<open>option\<close>. SHA-256 and the decoders are
  arguments.
\<close>

section \<open>The ring\<close>

record 'e ring =
  rg_cap :: nat
  rg_items :: "'e option list"
  rg_head :: nat
  rg_size :: nat

definition new_ring :: "int \<Rightarrow> 'e ring option" where
  "new_ring c =
     (if c \<le> 0 then None
      else Some \<lparr>rg_cap = nat c, rg_items = replicate (nat c) None, rg_head = 0, rg_size = 0\<rparr>)"

definition ring_push :: "'e option \<Rightarrow> 'e ring \<Rightarrow> 'e ring" where
  "ring_push x r =
     (let r' = r\<lparr>rg_items := (rg_items r)[(rg_head r + rg_size r) mod rg_cap r := x]\<rparr> in
      if rg_size r < rg_cap r then r'\<lparr>rg_size := rg_size r + 1\<rparr>
      else r'\<lparr>rg_head := (rg_head r + 1) mod rg_cap r\<rparr>)"

definition ring_snapshot :: "'e ring \<Rightarrow> 'e option list" where
  "ring_snapshot r = map (\<lambda>i. rg_items r ! ((rg_head r + i) mod rg_cap r)) [0 ..< rg_size r]"

fun find_loop :: "('e \<Rightarrow> bool) \<Rightarrow> 'e option list \<Rightarrow> 'e option" where
  "find_loop P [] = None"
| "find_loop P (x # xs) = (case x of Some s \<Rightarrow> if P s then Some s else find_loop P xs | None \<Rightarrow> find_loop P xs)"

definition ring_find :: "('e \<Rightarrow> bool) \<Rightarrow> 'e ring \<Rightarrow> 'e option" where
  "ring_find P r = find_loop P (ring_snapshot r)"

text \<open>The nil ring: \<open>Push\<close> does nothing, \<open>Snapshot\<close> and \<open>Find\<close> return nil.\<close>

definition history_push :: "'e option \<Rightarrow> 'e ring option \<Rightarrow> 'e ring option" where
  "history_push x = map_option (ring_push x)"

definition history_list :: "'e ring option \<Rightarrow> 'e option list" where
  "history_list h = (case h of None \<Rightarrow> [] | Some r \<Rightarrow> ring_snapshot r)"

definition history_find :: "('e \<Rightarrow> bool) \<Rightarrow> 'e ring option \<Rightarrow> 'e option" where
  "history_find P h = Option.bind h (ring_find P)"

definition ring_ok :: "'e ring \<Rightarrow> bool" where
  "ring_ok r \<longleftrightarrow> 0 < rg_cap r \<and> length (rg_items r) = rg_cap r \<and> rg_head r < rg_cap r \<and> rg_size r \<le> rg_cap r"

section \<open>The layer cache\<close>

type_synonym cache_key = "string \<times> string"   \<comment> \<open>path, codec\<close>

record ('h, 't) decoded_layer =
  dl_sum :: 'h
  dl_generation :: nat
  dl_tree :: 't

record ('h, 't) layer_cache =
  lc_entries :: "(cache_key \<times> ('h, 't) decoded_layer) list"
  lc_keys :: "cache_key list"
  lc_next :: nat

definition max_cached_layers :: nat where "max_cached_layers = 512"

definition empty_cache :: "('h, 't) layer_cache" where
  "empty_cache = \<lparr>lc_entries = [], lc_keys = [], lc_next = 0\<rparr>"

text \<open>Making room for a new key: the queue of keys overwrites its oldest entry when it is full.\<close>

definition cache_admit :: "cache_key \<Rightarrow> ('h, 't) layer_cache \<Rightarrow> ('h, 't) layer_cache" where
  "cache_admit key c =
     (if length (lc_keys c) = max_cached_layers
      then c\<lparr>lc_entries := kv_del (lc_keys c ! lc_next c) (lc_entries c),
             lc_keys := (lc_keys c)[lc_next c := key],
             lc_next := (lc_next c + 1) mod max_cached_layers\<rparr>
      else c\<lparr>lc_keys := lc_keys c @ [key]\<rparr>)"

definition get_or_decode :: "cache_key \<Rightarrow> 'h \<Rightarrow> nat \<Rightarrow> ('e + 't) \<Rightarrow> ('h, 't) layer_cache
    \<Rightarrow> ('e + ('h, 't) decoded_layer) \<times> ('h, 't) layer_cache" where
  "get_or_decode key sm gen decoded c =
     (let hit = (case kv_get (lc_entries c) key of
                   Some d \<Rightarrow> if dl_sum d = sm \<and> dl_generation d = gen then Some d else None
                 | None \<Rightarrow> None)
      in case hit of
           Some d \<Rightarrow> (Inr d, c)
         | None \<Rightarrow>
             (case decoded of
                Inl e \<Rightarrow> (Inl e, c)
              | Inr raw \<Rightarrow>
                  (let c' = (if kv_get (lc_entries c) key = None then cache_admit key c else c);
                       d = \<lparr>dl_sum = sm, dl_generation = gen, dl_tree = raw\<rparr>
                   in (Inr d, c'\<lparr>lc_entries := kv_set key d (lc_entries c')\<rparr>))))"

definition cache_ok :: "('h, 't) layer_cache \<Rightarrow> bool" where
  "cache_ok c \<longleftrightarrow>
     distinct (lc_keys c) \<and> length (lc_keys c) \<le> max_cached_layers \<and>
     lc_next c < max_cached_layers \<and> (length (lc_keys c) < max_cached_layers \<longrightarrow> lc_next c = 0) \<and>
     dom (map_of (lc_entries c)) = set (lc_keys c)"

text \<open>The keys from oldest to newest.\<close>

definition cache_order :: "('h, 't) layer_cache \<Rightarrow> cache_key list" where
  "cache_order c = drop (lc_next c) (lc_keys c) @ take (lc_next c) (lc_keys c)"

text \<open>\<open>metaKeysCache\<close>.\<close>

record ('h, 'k) meta_keys_cache =
  mk_sum :: 'h
  mk_keys :: 'k
  mk_set :: bool

definition get_or_build :: "(string \<Rightarrow> 'h) \<Rightarrow> string \<Rightarrow> 'k \<Rightarrow> ('h, 'k) meta_keys_cache
    \<Rightarrow> 'k \<times> ('h, 'k) meta_keys_cache" where
  "get_or_build sha bytes built c =
     (let c' = (if \<not> mk_set c \<or> mk_sum c \<noteq> sha bytes
                then \<lparr>mk_sum = sha bytes, mk_keys = built, mk_set = True\<rparr> else c)
      in (mk_keys c', c'))"

section \<open>The ring is a bounded queue\<close>

lemma mod_apart: "i < j \<Longrightarrow> j < i + n \<Longrightarrow> (h + i) mod n \<noteq> (h + j) mod (n :: nat)"
proof
  assume "i < j" "j < i + n" "(h + i) mod n = (h + j) mod n"
  then have "n dvd (h + j) - (h + i)" by (metis mod_eq_dvd_iff_nat less_imp_le nat_add_left_cancel_le)
  then have "n dvd j - i" by simp
  then show False using \<open>i < j\<close> \<open>j < i + n\<close> by (auto dest!: dvd_imp_le)
qed

lemma ring_push_grow:
  assumes "ring_ok r" "rg_size r < rg_cap r"
  shows "ring_snapshot (ring_push x r) = ring_snapshot r @ [x]"
proof -
  let ?t = "(rg_head r + rg_size r) mod rg_cap r"
  have t: "?t < length (rg_items r)" using assms by (auto simp: ring_ok_def)
  have "(rg_items r)[?t := x] ! ((rg_head r + i) mod rg_cap r) = rg_items r ! ((rg_head r + i) mod rg_cap r)"
    if "i < rg_size r" for i
    using mod_apart [of i "rg_size r" "rg_cap r" "rg_head r"] that assms by (simp add: nth_list_update_neq)
  then show ?thesis
    using assms t by (simp add: ring_snapshot_def ring_push_def Let_def)
qed

lemma ring_push_wrap:
  assumes "ring_ok r" "rg_size r = rg_cap r"
  shows "ring_snapshot (ring_push x r) = tl (ring_snapshot r) @ [x]"
proof -
  let ?n = "rg_cap r" and ?h = "rg_head r"
  have ok: "0 < ?n" "length (rg_items r) = ?n" "?h < ?n" using assms by (auto simp: ring_ok_def)
  have t: "(?h + rg_size r) mod ?n = ?h" using assms(2) ok by simp
  have step: "(Suc ?h mod ?n + i) mod ?n = Suc (?h + i) mod ?n" for i
    by (simp add: mod_add_left_eq)
  have "(rg_items r)[?h := x] ! ((?h + Suc i) mod ?n) = (if Suc i = ?n then x else rg_items r ! ((?h + Suc i) mod ?n))"
    if "i < ?n" for i
  proof (cases "Suc i = ?n")
    case True
    then show ?thesis using ok by simp
  next
    case False
    then have "(?h + Suc i) mod ?n \<noteq> ?h"
      using mod_apart [of 0 "Suc i" ?n ?h] that ok by simp
    then show ?thesis using False by (simp add: nth_list_update_neq)
  qed
  then have "ring_snapshot (ring_push x r) =
      map (\<lambda>i. if Suc i = ?n then x else rg_items r ! ((?h + Suc i) mod ?n)) [0 ..< ?n]"
    using assms ok t by (simp add: ring_snapshot_def ring_push_def Let_def step)
  also have "\<dots> = map (\<lambda>i. rg_items r ! ((?h + Suc i) mod ?n)) [0 ..< ?n - 1] @ [x]"
    using ok(1) by (cases ?n) auto
  also have "map (\<lambda>i. rg_items r ! ((?h + Suc i) mod ?n)) [0 ..< ?n - 1] = tl (ring_snapshot r)"
    using ok(1) assms(2) by (cases ?n) (simp_all add: ring_snapshot_def upt_conv_Cons map_Suc_upt [symmetric] del: upt_Suc)
  finally show ?thesis .
qed

lemma length_snapshot [simp]: "length (ring_snapshot r) = rg_size r"
  by (simp add: ring_snapshot_def)

lemma last_n_push_full: "0 < n \<Longrightarrow> length xs = n \<Longrightarrow> last_n n (xs @ [x]) = tl xs @ [x]"
  by (cases xs) (auto simp: last_n_def)

interpretation ring: evict_oldest ring_push ring_snapshot rg_cap ring_ok
proof
  fix x :: "'e option" and q :: "'e ring"
  assume ok: "ring_ok q"
  show "ring_snapshot (ring_push x q) = last_n (rg_cap q) (ring_snapshot q @ [x])"
  proof (cases "rg_size q < rg_cap q")
    case True
    then show ?thesis using ok by (simp add: ring_push_grow last_n_all)
  next
    case False
    then have "rg_size q = rg_cap q" "0 < rg_cap q" using ok by (auto simp: ring_ok_def)
    then show ?thesis using ok by (simp add: ring_push_wrap last_n_push_full)
  qed
  show "rg_cap (ring_push x q) = rg_cap q" by (simp add: ring_push_def Let_def)
  show "ring_ok (ring_push x q)" using ok by (auto simp: ring_ok_def ring_push_def Let_def)
  show "length (ring_snapshot q) \<le> rg_cap q" using ok by (simp add: ring_ok_def)
qed

lemma history_pushes:
  "history_list (foldl (\<lambda>h x. history_push x h) (Some r) xs) = ring_snapshot (ring.push_all xs r)"
  by (induction xs arbitrary: r) (simp_all add: history_list_def history_push_def)

lemma ring_ok_new: "new_ring c = Some r \<Longrightarrow> ring_ok r \<and> ring_snapshot r = [] \<and> rg_cap r = nat c"
  by (auto simp: new_ring_def ring_ok_def ring_snapshot_def split: if_splits)

lemma history_nil: "foldl (\<lambda>h x. history_push x h) None xs = None"
  by (induction xs) (simp_all add: history_push_def)

lemma history_keeps_newest:
  "history_list (foldl (\<lambda>h x. history_push x h) (new_ring c) xs) = last_n (nat c) xs"
proof (cases "new_ring c :: 'a ring option")
  case None
  then show ?thesis by (auto simp: history_nil new_ring_def last_n_def history_list_def split: if_splits)
next
  case (Some r)
  then show ?thesis
    using ring.contents_push_all [of r xs] ring_ok_new [OF Some] by (simp add: history_pushes)
qed

lemma find_loop_Some: "find_loop P xs = Some s \<Longrightarrow> Some s \<in> set xs \<and> P s"
  by (induction xs) (auto split: option.splits if_splits)

lemma history_find_Some: "history_find P h = Some s \<Longrightarrow> Some s \<in> set (history_list h) \<and> P s"
  by (cases h) (auto simp: history_find_def ring_find_def history_list_def dest: find_loop_Some)

section \<open>The key queue of the cache is a bounded queue\<close>

definition queue_ok :: "('h, 't) layer_cache \<Rightarrow> bool" where
  "queue_ok c \<longleftrightarrow> length (lc_keys c) \<le> max_cached_layers \<and> lc_next c < max_cached_layers \<and>
     (length (lc_keys c) < max_cached_layers \<longrightarrow> lc_next c = 0)"

lemma cache_order_full:
  assumes "queue_ok c" "length (lc_keys c) = max_cached_layers"
  shows "cache_order (cache_admit key c) = tl (cache_order c) @ [key]"
proof -
  let ?n = "lc_next c"
  have n: "?n < length (lc_keys c)" using assms by (simp add: queue_ok_def)
  have tl: "tl (cache_order c) = drop (Suc ?n) (lc_keys c) @ take ?n (lc_keys c)"
    using n by (simp add: cache_order_def tl_append drop_Suc tl_drop Cons_nth_drop_Suc [symmetric] split: list.split)
  have upd: "(lc_keys c)[?n := key] = take ?n (lc_keys c) @ key # drop (Suc ?n) (lc_keys c)"
    using n by (simp add: upd_conv_take_nth_drop)
  show ?thesis
  proof (cases "Suc ?n = max_cached_layers")
    case True
    then show ?thesis using assms(2) tl upd by (simp add: cache_admit_def cache_order_def)
  next
    case False
    then have "Suc ?n mod max_cached_layers = Suc ?n" using n assms(2) by simp
    then show ?thesis
      using assms(2) tl upd n by (simp add: cache_admit_def cache_order_def drop_append take_append)
  qed
qed

interpretation cached: evict_oldest cache_admit cache_order "\<lambda>_. max_cached_layers" queue_ok
proof
  fix x and q :: "('h, 't) layer_cache"
  assume ok: "queue_ok q"
  have len: "length (cache_order q) = length (lc_keys q)" by (simp add: cache_order_def)
  show "cache_order (cache_admit x q) = last_n max_cached_layers (cache_order q @ [x])"
  proof (cases "length (lc_keys q) = max_cached_layers")
    case True
    then show ?thesis using ok len by (simp add: cache_order_full last_n_push_full max_cached_layers_def)
  next
    case False
    then have "length (lc_keys q) < max_cached_layers" "lc_next q = 0" using ok by (auto simp: queue_ok_def)
    then show ?thesis by (simp add: cache_order_def cache_admit_def last_n_all)
  qed
  show "queue_ok (cache_admit x q)"
    using ok by (auto simp: queue_ok_def cache_admit_def max_cached_layers_def)
  show "length (cache_order q) \<le> max_cached_layers" using ok len by (simp add: queue_ok_def)
qed simp

lemma cache_order_perm: "set (cache_order c) = set (lc_keys c)" "distinct (cache_order c) = distinct (lc_keys c)"
proof -
  have m: "mset (cache_order c) = mset (lc_keys c)"
    unfolding cache_order_def by (metis append_take_drop_id mset_append add.commute)
  show "set (cache_order c) = set (lc_keys c)" using m by (rule mset_eq_setD)
  show "distinct (cache_order c) = distinct (lc_keys c)" using m by (rule mset_eq_imp_distinct_iff)
qed

section \<open>The cache never changes a result\<close>

definition coherent :: "(nat \<Rightarrow> cache_key \<Rightarrow> string \<Rightarrow> 'e + 't) \<Rightarrow> (string \<Rightarrow> 'h) \<Rightarrow> ('h, 't) layer_cache \<Rightarrow> bool" where
  "coherent dec sha c \<longleftrightarrow>
     (\<forall>key d. kv_get (lc_entries c) key = Some d \<longrightarrow>
        (\<exists>bytes. sha bytes = dl_sum d \<and> dec (dl_generation d) key bytes = Inr (dl_tree d)))"

lemma coherent_set:
  "coherent dec sha c \<Longrightarrow> dec gen key bytes = Inr t \<Longrightarrow> (\<forall>k. kv_get es k = None \<or> kv_get es k = kv_get (lc_entries c) k) \<Longrightarrow>
   coherent dec sha (c'\<lparr>lc_entries := kv_set key \<lparr>dl_sum = sha bytes, dl_generation = gen, dl_tree = t\<rparr> es\<rparr>)"
  unfolding coherent_def by (auto split: if_splits) (metis option.distinct(1))

lemma cache_admit_ok:
  assumes ok: "cache_ok c" and new: "kv_get (lc_entries c) key = None"
  shows "cache_ok (cache_admit key c\<lparr>lc_entries := kv_set key d (lc_entries (cache_admit key c))\<rparr>)"
proof -
  have nk: "key \<notin> set (lc_keys c)" using ok new by (auto simp: cache_ok_def)
  have q: "queue_ok (cache_admit key c)"
    by (rule cached.invar_push) (use ok in \<open>simp add: cache_ok_def queue_ok_def\<close>)
  have "distinct (lc_keys (cache_admit key c)) \<and>
    set (lc_keys (cache_admit key c)) = insert key (dom (map_of (lc_entries (cache_admit key c))))"
  proof (cases "length (lc_keys c) = max_cached_layers")
    case True
    then have n: "lc_next c < length (lc_keys c)" using ok by (simp add: cache_ok_def)
    have "set ((lc_keys c)[lc_next c := key]) = insert key (set (lc_keys c) - {lc_keys c ! lc_next c})"
      using ok n by (intro set_update_distinct) (simp_all add: cache_ok_def)
    moreover have "dom (map_of (kv_del (lc_keys c ! lc_next c) (lc_entries c))) = dom (map_of (lc_entries c)) - {lc_keys c ! lc_next c}"
      by (auto simp: dom_def)
    ultimately show ?thesis
      using True ok nk by (simp add: cache_admit_def cache_ok_def distinct_list_update)
  next
    case False
    then show ?thesis using ok nk by (simp add: cache_admit_def cache_ok_def)
  qed
  moreover have "dom (map_of (kv_set key d es)) = insert key (dom (map_of es))" for es :: "(cache_key \<times> ('a, 'b) decoded_layer) list"
    by (auto simp: dom_def)
  ultimately show ?thesis using q by (simp add: cache_ok_def queue_ok_def)
qed

lemma cache_update_ok:
  assumes "cache_ok c" "kv_get (lc_entries c) key \<noteq> None"
  shows "cache_ok (c\<lparr>lc_entries := kv_set key d (lc_entries c)\<rparr>)"
proof -
  have "dom (map_of (kv_set key d (lc_entries c))) = dom (map_of (lc_entries c))"
    using assms(2) by (auto simp: dom_def)
  then show ?thesis using assms(1) by (simp add: cache_ok_def)
qed

lemma admit_entries: "kv_get (lc_entries (cache_admit key c)) k = None \<or> kv_get (lc_entries (cache_admit key c)) k = kv_get (lc_entries c) k"
  by (simp add: cache_admit_def)

lemma get_or_decode_ok:
  assumes inj: "inj sha" and ok: "cache_ok c" and co: "coherent dec sha c"
    and run: "get_or_decode key (sha bytes) gen (dec gen key bytes) c = (r, c')"
  shows "map_sum id dl_tree r = dec gen key bytes" "cache_ok c'" "coherent dec sha c'"
proof -
  let ?hit = "\<lambda>d. kv_get (lc_entries c) key = Some d \<and> dl_sum d = sha bytes \<and> dl_generation d = gen"
  have "map_sum id dl_tree r = dec gen key bytes \<and> cache_ok c' \<and> coherent dec sha c'"
  proof (cases "\<exists>d. ?hit d")
    case True
    then obtain d where d: "?hit d" by blast
    then have "r = Inr d" "c' = c" using run by (simp_all add: get_or_decode_def)
    moreover obtain b where b: "sha b = dl_sum d" "dec (dl_generation d) key b = Inr (dl_tree d)"
      using co d unfolding coherent_def by blast
    moreover have "b = bytes" using inj b d by (auto dest: injD)
    ultimately show ?thesis using d ok co by auto
  next
    case False
    show ?thesis
    proof (cases "dec gen key bytes")
      case (Inl e)
      then have "r = Inl e" "c' = c"
        using run False by (auto simp: get_or_decode_def split: option.splits)
      then show ?thesis using Inl ok co by simp
    next
      case (Inr t)
      let ?d = "\<lparr>dl_sum = sha bytes, dl_generation = gen, dl_tree = t\<rparr>"
      let ?c = "if kv_get (lc_entries c) key = None then cache_admit key c else c"
      have r: "r = Inr ?d" and c': "c' = ?c\<lparr>lc_entries := kv_set key ?d (lc_entries ?c)\<rparr>"
        using run False Inr by (auto simp: get_or_decode_def Let_def split: option.splits if_splits)
      have "cache_ok c'"
        using cache_admit_ok [OF ok] cache_update_ok [OF ok] by (auto simp: c')
      moreover have "coherent dec sha c'"
        unfolding c' by (rule coherent_set [OF co Inr]) (simp add: admit_entries)
      ultimately show ?thesis by (simp add: r Inr)
    qed
  qed
  then show "map_sum id dl_tree r = dec gen key bytes" "cache_ok c'" "coherent dec sha c'" by auto
qed

section \<open>Properties\<close>

text \<open>After any sequence of publications a ring of capacity \<open>n\<close> lists exactly the last \<open>n\<close> snapshots pushed,
  oldest first (none for a capacity below one), and \<open>Find\<close> only returns a listed snapshot that satisfies
  its predicate.\<close>

theorem history_last_snapshots:
  "history_list (foldl (\<lambda>h x. history_push x h) (new_ring n) xs) = last_n (nat n) xs \<and>
   (case history_find P (foldl (\<lambda>h x. history_push x h) (new_ring n) xs) of
      None \<Rightarrow> True
    | Some s \<Rightarrow> P s \<and> Some s \<in> set (last_n (nat n) xs))"
  using history_find_Some [of P "foldl (\<lambda>h x. history_push x h) (new_ring n) xs"]
  by (auto simp: history_keeps_newest split: option.split)

text \<open>The layer cache is invisible: as long as SHA-256 separates the contents it meets, \<open>getOrDecode\<close> returns
  what decoding the bytes with the current codec generation returns, errors included, whatever was cached
  before; its tables stay consistent and never hold more than 512 layers, evicting the oldest key first.\<close>

theorem layer_cache_transparent:
  assumes "inj sha" and "cache_ok c" and "coherent dec sha c"
    and "get_or_decode key (sha bytes) gen (dec gen key bytes) c = (r, c')"
  shows "map_sum id dl_tree r = dec gen key bytes \<and> cache_ok c' \<and> coherent dec sha c' \<and>
     card (dom (map_of (lc_entries c'))) \<le> 512 \<and>
     cache_order c' \<in> {cache_order c, last_n 512 (cache_order c @ [key])}"
proof -
  note ok = get_or_decode_ok [OF assms]
  have "card (dom (map_of (lc_entries c'))) = length (lc_keys c')"
    using ok(2) by (simp add: cache_ok_def distinct_card)
  moreover have "queue_ok c" using assms(2) by (simp add: cache_ok_def queue_ok_def)
  then have "cache_order (cache_admit key c\<lparr>lc_entries := es\<rparr>) = last_n 512 (cache_order c @ [key])" for es
    using cached.contents_push [of c key] by (simp add: cache_order_def max_cached_layers_def)
  then have "cache_order c' \<in> {cache_order c, last_n 512 (cache_order c @ [key])}"
    using assms(4) by (auto simp: get_or_decode_def Let_def cache_order_def split: option.splits sum.splits if_splits)
  ultimately show ?thesis using ok by (simp add: cache_ok_def max_cached_layers_def)
qed

lemma layer_cache_transparent_witness:
  "\<exists>r c'. get_or_decode (''a.yaml'', ''yaml'') (id ''x'') 1 (Inr ''x'' :: unit + string) empty_cache = (r, c') \<and>
     map_sum id dl_tree r = Inr ''x'' \<and> cache_ok c' \<and> cache_order c' = [(''a.yaml'', ''yaml'')]"
proof -
  let ?c = "empty_cache :: (string, string) layer_cache"
  let ?dec = "\<lambda>_ _ b. Inr b :: unit + string"
  obtain r c' where run: "get_or_decode (''a.yaml'', ''yaml'') (id ''x'') 1 (?dec 1 (''a.yaml'', ''yaml'') ''x'') ?c = (r, c')"
    by force
  have "cache_ok ?c" "coherent ?dec id ?c"
    by (simp_all add: cache_ok_def empty_cache_def max_cached_layers_def coherent_def)
  from layer_cache_transparent [OF inj_on_id this run] have "map_sum id dl_tree r = Inr ''x''" "cache_ok c'" by simp_all
  moreover have "cache_order c' = [(''a.yaml'', ''yaml'')]"
    using run by (auto simp: get_or_decode_def empty_cache_def cache_admit_def cache_order_def max_cached_layers_def Let_def)
  ultimately show ?thesis using run by blast
qed

end
