(* ===== verification/Provenance.thy ===== *)
theory Provenance
  imports Paths
begin

text \<open>
  \<open>internal/provenance/index.go\<close>: which layer last wrote a dotted path. An index is \<open>None\<close> at level Off,
  which every operation tolerates. The order of a map's entries is the order of the \<open>range\<close> loop over it;
  cloning a value is the identity on the model's immutable values.
\<close>

section \<open>Definitions\<close>

datatype layer_kind =
    LayerUnknown | LayerMerge | LayerPatch | LayerProvider | LayerSecret | LayerGenerator | LayerOverride

fun layer_kind_string :: "layer_kind \<Rightarrow> string" where
  "layer_kind_string LayerMerge = ''merge''"
| "layer_kind_string LayerPatch = ''patch''"
| "layer_kind_string LayerProvider = ''provider''"
| "layer_kind_string LayerSecret = ''secret''"
| "layer_kind_string LayerGenerator = ''generator''"
| "layer_kind_string LayerOverride = ''override''"
| "layer_kind_string LayerUnknown = ''unknown''"

record source_ref =
  sr_path :: string
  sr_kind :: layer_kind
  sr_profile :: string
  sr_priority :: int
  sr_codec :: string
  sr_revision :: string
  sr_stale :: bool

record origin =
  or_path :: string
  or_source :: source_ref
  or_value :: gval

datatype level = Off | TopLevel | Full

record index =
  ix_entries :: "(string \<times> origin list) list"
  ix_level :: level

definition new_index :: "level \<Rightarrow> index option" where
  "new_index lv = (if lv = Off then None else Some \<lparr>ix_entries = [], ix_level = lv\<rparr>)"

definition max_tree_depth :: nat where "max_tree_depth = 256"

definition chain_of :: "index \<Rightarrow> string \<Rightarrow> origin list" where
  "chain_of ix p = (case kv_get (ix_entries ix) p of None \<Rightarrow> [] | Some c \<Rightarrow> c)"

definition record_value :: "string \<Rightarrow> source_ref \<Rightarrow> gval \<Rightarrow> index \<Rightarrow> index" where
  "record_value p src v ix =
     (if ix_level ix = TopLevel \<and> CHR ''.'' \<in> set p then ix
      else ix\<lparr>ix_entries := kv_set p (chain_of ix p @ [\<lparr>or_path = p, or_source = src, or_value = v\<rparr>]) (ix_entries ix)\<rparr>)"

definition record_path :: "string \<Rightarrow> source_ref \<Rightarrow> index \<Rightarrow> index" where
  "record_path p src ix = record_value p src GNil ix"

definition join_key :: "string \<Rightarrow> string \<Rightarrow> string" where
  "join_key p k = (if p = '''' then k else p @ ''.'' @ k)"

lemma as_map_Some: "as_map v = Some m \<Longrightarrow> (v = GMap m \<Longrightarrow> P) \<Longrightarrow> (v = GNilMap \<Longrightarrow> m = [] \<Longrightarrow> P) \<Longrightarrow> P"
  by (cases v) auto

text \<open>\<open>recordTreeDepth\<close>; the loop over one map is the recursion over its entries.\<close>

function record_entries :: "string \<Rightarrow> gmap \<Rightarrow> source_ref \<Rightarrow> nat \<Rightarrow> index \<Rightarrow> index" where
  "record_entries p [] src d ix = ix"
| "record_entries p ((k, v) # m) src d ix =
     record_entries p m src d
       (case as_map v of
          Some nested \<Rightarrow>
            if ix_level ix = Full
            then (if max_tree_depth < d + 1 then ix else record_entries (join_key p k) nested src (d + 1) ix)
            else record_path (join_key p k) src ix
        | None \<Rightarrow> if ix_level ix = Full then record_value (join_key p k) src v ix
                  else record_path (join_key p k) src ix)"
  by pat_completeness auto
termination
  by (relation "measure (\<lambda>(p, m, src, d, ix). size (GMap m))") (auto elim!: as_map_Some)

definition record_tree :: "string \<Rightarrow> gmap \<Rightarrow> source_ref \<Rightarrow> index option \<Rightarrow> index option" where
  "record_tree p m src = map_option (record_entries p m src 0)"

definition record_opt :: "string \<Rightarrow> source_ref \<Rightarrow> index option \<Rightarrow> index option" where
  "record_opt p src = map_option (record_path p src)"

text \<open>\<open>Explain\<close>: \<open>[]\<close> stands for the nil slice.\<close>

definition explain :: "index option \<Rightarrow> string \<Rightarrow> origin list" where
  "explain ix p = (case ix of None \<Rightarrow> [] | Some ix \<Rightarrow> chain_of ix p)"

section \<open>Recording a tree\<close>

text \<open>The leaves of a tree with their dotted paths, in the order of the entries.\<close>

function leaves :: "nat \<Rightarrow> string \<Rightarrow> gmap \<Rightarrow> (string \<times> gval) list" where
  "leaves d p [] = []"
| "leaves d p ((k, v) # m) =
     (case as_map v of
        None \<Rightarrow> [(join_key p k, v)]
      | Some c \<Rightarrow> if d < max_tree_depth then leaves (d + 1) (join_key p k) c else []) @ leaves d p m"
  by pat_completeness auto
termination
  by (relation "measure (\<lambda>(d, p, m). size (GMap m))") (auto elim!: as_map_Some)

definition recorded :: "level \<Rightarrow> string \<Rightarrow> gmap \<Rightarrow> (string \<times> gval) list" where
  "recorded lv p m =
     (if lv = Full then leaves 0 p m
      else map (\<lambda>k. (k, GNil)) (filter (\<lambda>k. lv = TopLevel \<longrightarrow> CHR ''.'' \<notin> set k) (map (join_key p) (keys m))))"

definition origins_at :: "source_ref \<Rightarrow> string \<Rightarrow> (string \<times> gval) list \<Rightarrow> origin list" where
  "origins_at src q pvs =
     map (\<lambda>(p, v). \<lparr>or_path = p, or_source = src, or_value = v\<rparr>) (filter (\<lambda>(p, v). p = q) pvs)"

lemma origins_at_simps [simp]:
  "origins_at src q [] = []"
  "origins_at src q (xs @ ys) = origins_at src q xs @ origins_at src q ys"
  "origins_at src q ((p, v) # xs) =
     (if p = q then [\<lparr>or_path = p, or_source = src, or_value = v\<rparr>] else []) @ origins_at src q xs"
  by (simp_all add: origins_at_def)

lemma record_level [simp]: "ix_level (record_value p src v ix) = ix_level ix" "ix_level (record_path p src ix) = ix_level ix"
  by (simp_all add: record_path_def record_value_def)

lemma chain_record_value:
  "chain_of (record_value p src v ix) q = chain_of ix q @
     (if ix_level ix = TopLevel \<and> CHR ''.'' \<in> set p then [] else origins_at src q [(p, v)])"
  by (simp add: record_value_def chain_of_def)

lemma record_entries_Full:
  "ix_level ix = Full \<Longrightarrow>
   ix_level (record_entries p m src d ix) = Full \<and>
   chain_of (record_entries p m src d ix) q = chain_of ix q @ origins_at src q (leaves d p m)"
proof (induction p m src d ix rule: record_entries.induct)
  case (2 p k v m src d ix)
  then show ?case
    by (cases "as_map v") (auto simp: chain_record_value)
qed simp

lemma record_entries_flat:
  "ix_level ix \<noteq> Full \<Longrightarrow>
   chain_of (record_entries p m src d ix) q = chain_of ix q @ origins_at src q (recorded (ix_level ix) p m)"
proof (induction m arbitrary: ix)
  case (Cons e m)
  obtain k v where e: "e = (k, v)" by (cases e)
  have "record_entries p (e # m) src d ix = record_entries p m src d (record_path (join_key p k) src ix)"
    using Cons.prems by (auto simp: e split: option.split)
  then show ?case
    using Cons by (auto simp: e recorded_def record_path_def chain_record_value)
qed (simp add: recorded_def)

lemma record_tree_chain:
  "explain (record_tree p m src (Some ix)) q = explain (Some ix) q @ origins_at src q (recorded (ix_level ix) p m)"
  using record_entries_Full [of ix p m src 0 q] record_entries_flat [of ix p m src 0 q]
  by (cases "ix_level ix = Full") (simp_all add: record_tree_def explain_def recorded_def)

section \<open>Leaves of a tree with plain keys\<close>

definition plain_key :: "string \<Rightarrow> bool" where
  "plain_key k \<longleftrightarrow> k \<noteq> '''' \<and> CHR ''.'' \<notin> set k"

fun plain_val :: "gval \<Rightarrow> bool" where
  "plain_val (GMap m) = (\<forall>p \<in> set m. plain_key (fst p) \<and> plain_val (snd p))"
| "plain_val _ = True"

fun dotted_from :: "string \<Rightarrow> string list \<Rightarrow> string" where
  "dotted_from p [] = p"
| "dotted_from p (k # ks) = dotted_from (join_key p k) ks"

lemma join_key_neq: "k \<noteq> '''' \<Longrightarrow> join_key p k \<noteq> ''''"
  by (simp add: join_key_def)

lemma dotted_from_join:
  "ks \<noteq> [] \<Longrightarrow> list_all plain_key ks \<Longrightarrow>
   dotted_from p ks = (if p = '''' then join_with ''.'' ks else p @ ''.'' @ join_with ''.'' ks)"
proof (induction ks arbitrary: p)
  case (Cons k ks)
  have k: "k \<noteq> ''''" using Cons.prems by (simp add: plain_key_def)
  show ?case
  proof (cases ks)
    case Nil
    then show ?thesis by (simp add: join_key_def)
  next
    case (Cons j js)
    then have "dotted_from (join_key p k) ks = join_key p k @ ''.'' @ join_with ''.'' ks"
      using Cons.IH [of "join_key p k"] Cons.prems join_key_neq [OF k] by simp
    then show ?thesis using Cons by (simp add: join_key_def)
  qed
qed simp

lemma join_with_Nil: "join_with sep (k # ks) = '''' \<Longrightarrow> k = ''''"
  by (cases ks) simp_all

lemma join_plain_inj:
  assumes "list_all plain_key ks" "list_all plain_key js" "ks \<noteq> []" "js \<noteq> []"
    and "join_with ''.'' ks = join_with ''.'' js"
  shows "ks = js"
proof -
  have sp: "split_char (CHR ''.'') (join_with ''.'' xs) = xs" if "list_all plain_key xs" "xs \<noteq> []" for xs
  proof (rule split_join_char [OF that(2)])
    show "\<forall>w\<in>set xs. CHR ''.'' \<notin> set w" using that(1) by (auto simp: list_all_iff plain_key_def)
  qed
  have "ks = split_char (CHR ''.'') (join_with ''.'' ks)" by (rule sp [OF assms(1,3), symmetric])
  also have "\<dots> = split_char (CHR ''.'') (join_with ''.'' js)" by (rule arg_cong [OF assms(5)])
  also have "\<dots> = js" by (rule sp [OF assms(2,4)])
  finally show ?thesis .
qed

lemma plain_as_map: "plain_val w \<Longrightarrow> as_map w = Some c \<Longrightarrow> plain_val (GMap c)"
  by (cases w) auto

lemma dotted_from_inj:
  assumes "list_all plain_key ks" "list_all plain_key js" "ks \<noteq> []" "js \<noteq> []" "dotted_from p ks = dotted_from p js"
  shows "ks = js"
  using join_plain_inj [OF assms(1-4)] assms(5) by (simp add: dotted_from_join assms(1-4) split: if_splits)

lemma dotted_from_longer:
  assumes "list_all plain_key ks" "ks \<noteq> []"
  shows "dotted_from p ks \<noteq> p"
proof (cases "p = ''''")
  case True
  have "join_with ''.'' ks \<noteq> ''''" using assms join_with_Nil by (cases ks) (auto simp: plain_key_def)
  then show ?thesis using assms True by (simp add: dotted_from_join)
next
  case False
  then show ?thesis using assms by (simp add: dotted_from_join)
qed

lemma leaf_names:
  "plain_val (GMap m) \<Longrightarrow> (n, v) \<in> set (leaves d p m) \<Longrightarrow>
   \<exists>k ks. k \<in> set (keys m) \<and> list_all plain_key (k # ks) \<and> n = dotted_from p (k # ks)"
proof (induction d p m rule: leaves.induct)
  case (2 d p k w m)
  show ?case
  proof (cases "(n, v) \<in> set (leaves d p m)")
    case True
    moreover have "plain_val (GMap m)" using 2(3) by simp
    ultimately obtain j js where "j \<in> set (keys m)" "list_all plain_key (j # js)" "n = dotted_from p (j # js)"
      using 2(2) by blast
    then show ?thesis by (intro exI [of _ j] exI [of _ js]) simp
  next
    case False
    show ?thesis
    proof (cases "as_map w")
      case None
      then have "n = dotted_from p [k]" using 2 False by auto
      then show ?thesis using 2(3) by (intro exI [of _ k] exI [of _ "[]"]) auto
    next
      case (Some c)
      then have "(n, v) \<in> set (leaves (d + 1) (join_key p k) c)" "d < max_tree_depth"
        using 2 False by (auto split: if_splits)
      moreover have "plain_val (GMap c)" using Some 2(3) by (intro plain_as_map [of w]) simp_all
      ultimately obtain j js where "list_all plain_key (j # js)" "n = dotted_from (join_key p k) (j # js)"
        using 2(1) Some by blast
      then show ?thesis using 2(3) by (intro exI [of _ k] exI [of _ "j # js"]) auto
    qed
  qed
qed simp

lemma origins_none: "(\<And>v. (q, v) \<notin> set pvs) \<Longrightarrow> origins_at src q pvs = []"
  by (auto simp: origins_at_def filter_empty_conv)

text \<open>A tree has at most one leaf at a path, and recording it adds exactly that one.\<close>

definition leaf_value :: "gmap \<Rightarrow> string list \<Rightarrow> gval option" where
  "leaf_value m ps = (case get_from (GMap m) ps of Some v \<Rightarrow> if is_map v then None else Some v | None \<Rightarrow> None)"

lemma leaves_at:
  "plain_val (GMap m) \<Longrightarrow> wf_map m \<Longrightarrow> ps \<noteq> [] \<Longrightarrow> list_all plain_key ps \<Longrightarrow> d + length ps \<le> max_tree_depth + 1 \<Longrightarrow>
   origins_at src (dotted_from p ps) (leaves d p m) =
   (case leaf_value m ps of None \<Rightarrow> [] | Some v \<Rightarrow> [\<lparr>or_path = dotted_from p ps, or_source = src, or_value = v\<rparr>])"
proof (induction d p m arbitrary: ps rule: leaves.induct)
  case (1 d p)
  then show ?case by (cases ps) (auto simp: leaf_value_def)
next
  case (2 d p k w m)
  obtain q qs where ps: "ps = q # qs" using 2 by (cases ps) auto
  have m: "plain_val (GMap m)" "wf_map m" "k \<notin> set (keys m)" "wf_val w" and k: "plain_key k" "plain_val w"
    using 2 by (auto simp: wf_map_Cons)
  let ?mine = "case as_map w of None \<Rightarrow> [(join_key p k, w)]
      | Some c \<Rightarrow> if d < max_tree_depth then leaves (d + 1) (join_key p k) c else []"
  show ?case
  proof (cases "k = q")
    case False
    have "(dotted_from p ps, v) \<notin> set ?mine" for v
    proof
      assume "(dotted_from p ps, v) \<in> set ?mine"
      then have "(dotted_from p ps, v) \<in> set (leaves d p [(k, w)])" by auto
      from leaf_names [OF _ this] k obtain js where "list_all plain_key (k # js)" "dotted_from p ps = dotted_from p (k # js)"
        by auto
      then show False using dotted_from_inj [of ps "k # js" p] 2 False ps by auto
    qed
    then have "origins_at src (dotted_from p ps) ?mine = []" by (rule origins_none)
    moreover have "leaf_value ((k, w) # m) ps = leaf_value m ps"
      using False by (cases qs) (auto simp: leaf_value_def ps)
    ultimately show ?thesis using 2(2) [OF m(1,2)] 2 by simp
  next
    case True
    have "(dotted_from p ps, v) \<notin> set (leaves d p m)" for v
    proof
      assume "(dotted_from p ps, v) \<in> set (leaves d p m)"
      from leaf_names [OF m(1) this] obtain j js where "j \<in> set (keys m)" "list_all plain_key (j # js)"
        "dotted_from p ps = dotted_from p (j # js)" by blast
      then show False using dotted_from_inj [of ps "j # js" p] 2 True ps m(3) by auto
    qed
    then have rest: "origins_at src (dotted_from p ps) (leaves d p m) = []" by (rule origins_none)
    have qs: "list_all plain_key qs" "plain_key k" using 2 ps True by auto
    have mine: "origins_at src (dotted_from p ps) ?mine =
      (case leaf_value ((k, w) # m) ps of None \<Rightarrow> [] | Some v \<Rightarrow> [\<lparr>or_path = dotted_from p ps, or_source = src, or_value = v\<rparr>])"
    proof (cases "as_map w")
      case None
      have "dotted_from (join_key p k) qs = join_key p k \<longleftrightarrow> qs = []"
        using dotted_from_longer [OF qs(1)] by (cases qs) auto
      moreover have "leaf_value ((k, w) # m) ps = (if qs = [] then Some w else None)"
        using None True by (cases qs) (auto simp: leaf_value_def ps is_map_iff)
      ultimately show ?thesis using None True by (auto simp: ps)
    next
      case (Some c)
      have c: "plain_val (GMap c)" "wf_map c" using plain_as_map [OF k(2) Some] wf_as_map [OF m(4) Some] by simp_all
      have lv: "leaf_value ((k, w) # m) ps = (if qs = [] then None else leaf_value c qs)"
        using Some True by (cases qs) (auto simp: leaf_value_def ps is_map_iff)
      show ?thesis
      proof (cases "qs = []")
        case True
        have "(join_key p k, v) \<notin> set (leaves (d + 1) (join_key p k) c)" for v
        proof
          assume "(join_key p k, v) \<in> set (leaves (d + 1) (join_key p k) c)"
          from leaf_names [OF c(1) this] obtain j js where "list_all plain_key (j # js)"
            "join_key p k = dotted_from (join_key p k) (j # js)" by blast
          then show False using dotted_from_longer [of "j # js" "join_key p k"] by simp
        qed
        then have "origins_at src (join_key p k) (leaves (d + 1) (join_key p k) c) = []" by (rule origins_none)
        then show ?thesis using Some True \<open>k = q\<close> lv by (simp add: ps)
      next
        case False
        then have "d < max_tree_depth" "d + 1 + length qs \<le> max_tree_depth + 1"
          using 2 ps by (auto simp: Suc_le_eq length_greater_0_conv [symmetric] simp del: length_greater_0_conv)
        then show ?thesis
          using 2(1) [OF Some _ c False qs(1)] Some False \<open>k = q\<close> lv by (simp add: ps split: option.split)
      qed
    qed
    then show ?thesis using rest by simp
  qed
qed

section \<open>Properties\<close>

text \<open>Recording a layer appends to the chain of every path exactly the origins of the leaves the layer has
  there, in the order of the layer's entries (at level Full; at level TopLevel one valueless origin per
  undotted top-level key), and leaves what was recorded before untouched: the chain of a path is the history
  of its writers, oldest first.\<close>

theorem record_tree_appends:
  "explain (record_tree p m src (Some ix)) q =
   explain (Some ix) q @ origins_at src q (recorded (ix_level ix) p m) \<and>
   record_tree p m src None = None"
  by (simp add: record_tree_chain) (simp add: record_tree_def)

end
