(* ===== verification/Assemble.thy ===== *)
theory Assemble
  imports Scan History Provenance Patch
begin

text \<open>
  \<open>assemble.go\<close>, \<open>input_fingerprint.go\<close> and the merge stage of \<open>stages.go\<close>: the layers of one reload, their order,
  and the document they merge to. SHA-256 is the argument \<open>sha\<close>, from byte strings to byte strings; the
  decoders and parsers come from the codec theory; what generators and providers return is data.
\<close>

section \<open>Staged layers\<close>

datatype layer_class = ClassFile | ClassGenerator | ClassProvider | ClassOverride

fun class_rank :: "layer_class \<Rightarrow> nat" where
  "class_rank ClassFile = 0"
| "class_rank ClassGenerator = 1"
| "class_rank ClassProvider = 2"
| "class_rank ClassOverride = 3"

lemma class_rank_inj: "class_rank a = class_rank b \<longleftrightarrow> a = b"
  by (cases a; cases b) auto

instantiation layer_class :: linorder
begin

definition less_eq_layer_class :: "layer_class \<Rightarrow> layer_class \<Rightarrow> bool" where
  "less_eq_layer_class a b \<longleftrightarrow> class_rank a \<le> class_rank b"

definition less_layer_class :: "layer_class \<Rightarrow> layer_class \<Rightarrow> bool" where
  "less_layer_class a b \<longleftrightarrow> class_rank a < class_rank b"

instance
  by standard (auto simp: less_eq_layer_class_def less_layer_class_def class_rank_inj)

end

definition rank_offset_generator :: int where "rank_offset_generator = 7000"
definition rank_offset_provider :: int where "rank_offset_provider = 8000"
definition rank_offset_override :: int where "rank_offset_override = 9000"
definition rank_secret_resolved :: int where "rank_secret_resolved = rank_offset_override + 500"

text \<open>The patch of a layer, as \<open>ApplyPatch\<close> and \<open>PatchPaths\<close> read its bytes.\<close>

record staged_layer =
  sl_src :: source_ref
  sl_class :: layer_class
  sl_priority :: int
  sl_data :: gmap
  sl_cached :: "(string, gmap) decoded_layer option"
  sl_patch :: "patch_doc option"
  sl_sum :: string

definition zero_sum :: string where "zero_sum = replicate 32 (CHR 0x00)"

definition layer_key :: "staged_layer \<Rightarrow> layer_class \<times> int" where
  "layer_key l = (sl_class l, sl_priority l)"

text \<open>\<open>slices.SortStableFunc(staged, compareLayers)\<close>.\<close>

definition sort_layers :: "staged_layer list \<Rightarrow> staged_layer list" where
  "sort_layers = sort_key layer_key"

section \<open>Patches as data\<close>

text \<open>\<open>json.Marshal\<close> of a decoded value and reading it back: numbers become \<open>json.Number\<close>, nil containers
  \<open>null\<close>. \<open>mo\<close> is what marshalling makes of a value of another dynamic type.\<close>

fun json_value :: "(gfloat \<Rightarrow> string option) \<Rightarrow> (string \<Rightarrow> gval option) \<Rightarrow> gval \<Rightarrow> gval option"
  and json_values :: "(gfloat \<Rightarrow> string option) \<Rightarrow> (string \<Rightarrow> gval option) \<Rightarrow> gval list \<Rightarrow> gval list option"
  and json_entries :: "(gfloat \<Rightarrow> string option) \<Rightarrow> (string \<Rightarrow> gval option) \<Rightarrow> gmap \<Rightarrow> gmap option" where
  "json_value ff mo (GLeaf l) =
     (case l of
        LNil \<Rightarrow> Some GNil
      | LBool b \<Rightarrow> Some (GBool b)
      | LStr s \<Rightarrow> Some (GStr s)
      | LOther s \<Rightarrow> mo s
      | _ \<Rightarrow> map_option GNumber (marshal_number ff l))"
| "json_value ff mo GNilMap = Some GNil"
| "json_value ff mo GNilSlice = Some GNil"
| "json_value ff mo (GMap m) = map_option GMap (json_entries ff mo m)"
| "json_value ff mo (GSlice xs) = map_option GSlice (json_values ff mo xs)"
| "json_values ff mo [] = Some []"
| "json_values ff mo (x # xs) =
     (case json_value ff mo x of None \<Rightarrow> None | Some y \<Rightarrow> map_option (\<lambda>ys. y # ys) (json_values ff mo xs))"
| "json_entries ff mo [] = Some []"
| "json_entries ff mo ((k, v) # m) =
     (case json_value ff mo v of None \<Rightarrow> None | Some w \<Rightarrow> map_option (\<lambda>ys. (k, w) # ys) (json_entries ff mo m))"

fun patch_ops :: "gval list \<Rightarrow> patch_op list option" where
  "patch_ops [] = Some []"
| "patch_ops (GMap m # xs) = map_option (\<lambda>ops. m # ops) (patch_ops xs)"
| "patch_ops (v # xs) = (if v = GNil then map_option (\<lambda>ops. [] # ops) (patch_ops xs) else None)"

text \<open>\<open>PatchBytesFromAny\<close> and the decoding of its bytes: \<open>Inl ()\<close> when marshalling fails, \<open>Inr None\<close> for nil bytes.\<close>

definition patch_of_any :: "(gfloat \<Rightarrow> string option) \<Rightarrow> (string \<Rightarrow> gval option) \<Rightarrow> gval \<Rightarrow> unit + patch_doc option" where
  "patch_of_any ff mo v =
     (if v = GNil then Inr None
      else (case json_value ff mo v of
              None \<Rightarrow> Inl ()
            | Some w \<Rightarrow> Inr (Some (case w of
                  GSlice xs \<Rightarrow> (case patch_ops xs of Some ops \<Rightarrow> PatchOps ops | None \<Rightarrow> BadPatch)
                | _ \<Rightarrow> if w = GNil then NullPatch else BadPatch))))"

text \<open>The \<open>path\<close> members \<open>PatchPaths\<close> reads from the patch.\<close>

definition path_member :: "patch_op \<Rightarrow> string" where
  "path_member op = (case kv_get op ''path'' of Some v \<Rightarrow> (case (case v of GLeaf (LStr s) \<Rightarrow> Some s | _ \<Rightarrow> None) of Some s \<Rightarrow> s | None \<Rightarrow> '''') | None \<Rightarrow> '''')"

section \<open>Loading the sources\<close>

datatype load_error =
    DiscoveryFailed scan_error | MetaUnreadable file_error | MetaUndecodable
  | LayerUndecodable string codec_error | PatchUnmarshalable string
  | GeneratorFailed string | GeneratorUndecodable string codec_error
  | ProviderCanceled | ProviderFailed string | NoSources | AssembleCanceled

text \<open>The registry of codecs and what its decoders do, the parsers behind \<open>DecodeAny\<close>, and the environment.\<close>

record 'd world =
  wo_registry :: "'d registry"
  wo_decode :: "'d \<Rightarrow> string \<Rightarrow> codec_error + gmap"
  wo_parsers :: parsers
  wo_float :: "gfloat \<Rightarrow> string option"
  wo_marshal :: "string \<Rightarrow> gval option"
  wo_sha :: "string \<Rightarrow> string"
  wo_files :: files
  wo_env :: "string \<Rightarrow> string option"
  wo_host :: "string + string"
  wo_parse_meta :: "string \<Rightarrow> meta_spec option"
  wo_parse_match :: "string \<Rightarrow> string option"

record gen_source =
  gs_name :: string
  gs_codec :: string
  gs_data :: string
  gs_priority :: int

type_synonym generator = "string \<times> gen_source list option"   \<comment> \<open>name, what \<open>Generate\<close> returned\<close>

datatype provider_load = LoadCanceled | LoadFailed | Loaded "gmap option" string bool   \<comment> \<open>map, revision, stale\<close>

record provider_entry =
  pv_name :: string
  pv_priority :: int
  pv_load :: provider_load

record asm_opts =
  op_dir :: string
  op_strict :: bool
  op_skip_discovery :: bool
  op_profile_names :: "string list"
  op_profile_env :: string
  op_profile_default :: string
  op_profile_match :: string
  op_axes :: "axis_spec list"
  op_merge_keys :: "(string \<times> string) list"
  op_generators :: "generator list"
  op_providers :: "provider_entry list"
  op_no_shortcut :: bool   \<comment> \<open>transforms, a secret resolver, typed hooks, validators, policies, observers, a \<open>Defaulter\<close> or custom encoding\<close>

definition default_profile_env :: string where "default_profile_env = ''APP_PROFILE''"

definition trim_profiles :: "string list \<Rightarrow> string list \<Rightarrow> string list" where
  "trim_profiles dst vals = dst @ filter (\<lambda>x. x \<noteq> '''') (map trim_space vals)"

definition active_profiles :: "(string \<Rightarrow> string option) \<Rightarrow> asm_opts \<Rightarrow> string \<Rightarrow> string \<Rightarrow> string list" where
  "active_profiles env oo meta_env meta_default =
     (if op_profile_names oo \<noteq> [] then op_profile_names oo
      else
        (let e1 = (if op_profile_env oo = '''' then meta_env else op_profile_env oo);
             e2 = (if e1 = '''' then default_profile_env else e1);
             val = (case env e2 of None \<Rightarrow> '''' | Some v \<Rightarrow> v);
             names = trim_profiles [] (split_char (CHR '','') val)
         in if names \<noteq> [] then names
            else if op_profile_default oo \<noteq> '''' then [op_profile_default oo]
            else if meta_default \<noteq> '''' then [meta_default] else []))"

definition empty_meta :: meta_spec where
  "empty_meta = \<lparr>ms_base_dir = '''', ms_overlay_dir = '''', ms_profile_env = '''', ms_default_profile = '''',
     ms_patch_suffixes = [], ms_strict = False, ms_append_slices = False, ms_merge_keys = []\<rparr>"

text \<open>The merge-key table: programmatic entries win.\<close>

definition build_merge_keys :: "meta_spec \<Rightarrow> asm_opts \<Rightarrow> (string \<times> string) list" where
  "build_merge_keys sp oo = fold (\<lambda>(k, v). kv_set k v) (op_merge_keys oo) (ms_merge_keys sp)"

record meta_settings =
  mt_sum :: string
  mt_append :: bool
  mt_keys :: "(string \<times> string) list"

definition base_scan_opts :: "asm_opts \<Rightarrow> scan_opts" where
  "base_scan_opts oo = \<lparr>so_base = '''', so_overlay = '''', so_profiles = [], so_global = '''',
     so_patch_suffixes = [], so_strict = op_strict oo, so_axes = []\<rparr>"

type_synonym keys_cache = "(string, (string \<times> string) list) meta_keys_cache"

definition resolve_discovery :: "'d world \<Rightarrow> asm_opts \<Rightarrow> string \<Rightarrow> keys_cache
    \<Rightarrow> (load_error + scan_opts \<times> meta_settings) \<times> keys_cache" where
  "resolve_discovery w oo hostname kc =
     (case load_meta (wo_files w) (op_dir oo) of
        Inl e \<Rightarrow> (Inl (MetaUnreadable e), kc)
      | Inr found \<Rightarrow>
          (let bytes = (case found of None \<Rightarrow> '''' | Some b \<Rightarrow> b);
               parsed = (if bytes = '''' then Some empty_meta else wo_parse_meta w bytes)
           in case parsed of
                None \<Rightarrow> (Inl MetaUndecodable, kc)
              | Some sp \<Rightarrow>
                  (let so1 = (if bytes = '''' then base_scan_opts oo else apply_meta (Some sp) (base_scan_opts oo));
                       (ks, kc') = get_or_build (wo_sha w) bytes (build_merge_keys sp oo) kc;
                       names = active_profiles (wo_env w) oo (ms_profile_env sp) (ms_default_profile sp);
                       so2 = (if names \<noteq> [] then so1\<lparr>so_profiles := names, so_global := op_profile_match oo\<rparr> else so1);
                       host = (if hostname \<noteq> '''' then Inr hostname else wo_host w);
                       extras = fst (resolve_axes (wo_env w) host (op_axes oo))
                   in (Inr (so2\<lparr>so_axes := so_axes so2 @ extras\<rparr>,
                            \<lparr>mt_sum = wo_sha w bytes, mt_append = (bytes \<noteq> '''' \<and> ms_append_slices sp), mt_keys = ks\<rparr>), kc'))))"

definition map_layer_kind :: "layer_type \<Rightarrow> layer_kind" where
  "map_layer_kind k = (case k of KindMerge \<Rightarrow> LayerMerge | KindPatch \<Rightarrow> LayerPatch)"

definition file_source :: "layer \<Rightarrow> source_ref" where
  "file_source l = \<lparr>sr_path = ly_path l, sr_kind = map_layer_kind (ly_kind l), sr_profile = ly_profile l,
     sr_priority = ly_priority l, sr_codec = ly_codec l, sr_revision = '''', sr_stale = False\<rparr>"

type_synonym tree_cache = "(string, gmap) layer_cache"

definition stage_file :: "'d world \<Rightarrow> layer \<Rightarrow> tree_cache \<Rightarrow> (load_error + staged_layer) \<times> tree_cache" where
  "stage_file w l tc =
     (let st = \<lparr>sl_src = file_source l, sl_class = ClassFile, sl_priority = ly_priority l, sl_data = [],
                sl_cached = None, sl_patch = None, sl_sum = wo_sha w (ly_bytes l)\<rparr>
      in if ly_kind l = KindPatch then
           (case decode_any (wo_parsers w) (ly_codec l) (ly_bytes l) of
              Inl e \<Rightarrow> (Inl (LayerUndecodable (ly_path l) e), tc)
            | Inr raw \<Rightarrow>
                (case patch_of_any (wo_float w) (wo_marshal w) raw of
                   Inl _ \<Rightarrow> (Inl (PatchUnmarshalable (ly_path l)), tc)
                 | Inr p \<Rightarrow> (Inr (st\<lparr>sl_patch := p\<rparr>), tc)))
         else
           (case codec_for (wo_registry w) (ly_codec l) of
              Inl e \<Rightarrow> (Inl (LayerUndecodable (ly_path l) e), tc)
            | Inr d \<Rightarrow>
                (case get_or_decode (ly_path l, ly_codec l) (wo_sha w (ly_bytes l)) (unat (re_generation (wo_registry w)))
                        (wo_decode w d (ly_bytes l)) tc of
                   (Inl e, tc') \<Rightarrow> (Inl (LayerUndecodable (ly_path l) e), tc')
                 | (Inr dl, tc') \<Rightarrow> (Inr (st\<lparr>sl_cached := Some dl\<rparr>), tc'))))"

text \<open>The loop over the scan; the first component collects the directories scanned before it stopped.\<close>

fun stage_files :: "'d world \<Rightarrow> scan_item list \<Rightarrow> tree_cache
    \<Rightarrow> string list \<times> (load_error + staged_layer list) \<times> tree_cache" where
  "stage_files w [] tc = ([], Inr [], tc)"
| "stage_files w (it # its) tc =
     (case it of
        OnDir d \<Rightarrow> (case stage_files w its tc of (ds, r) \<Rightarrow> (d # ds, r))
      | YieldError e \<Rightarrow> ([], Inl (DiscoveryFailed e), tc)
      | Yield l \<Rightarrow>
          (case stage_file w l tc of
             (Inl e, tc') \<Rightarrow> ([], Inl e, tc')
           | (Inr s, tc') \<Rightarrow>
               (case stage_files w its tc' of (ds, r, tc'') \<Rightarrow> (ds, rbind r (\<lambda>ss. Inr (s # ss)), tc''))))"

definition stage_generated :: "'d world \<Rightarrow> string \<Rightarrow> gen_source \<Rightarrow> load_error + staged_layer" where
  "stage_generated w g s =
     map_sum (GeneratorUndecodable g)
       (\<lambda>raw. \<lparr>sl_src = \<lparr>sr_path = ''gen://'' @ g @ ''/'' @ gs_name s, sr_kind = LayerGenerator, sr_profile = '''',
                        sr_priority = rank_offset_generator + gs_priority s, sr_codec = gs_codec s,
                        sr_revision = '''', sr_stale = False\<rparr>,
              sl_class = ClassGenerator, sl_priority = gs_priority s, sl_data = raw, sl_cached = None,
              sl_patch = None, sl_sum = zero_sum\<rparr>)
       (rbind (codec_for (wo_registry w) (gs_codec s)) (\<lambda>d. wo_decode w d (gs_data s)))"

fun map_results :: "('a \<Rightarrow> 'e + 'b) \<Rightarrow> 'a list \<Rightarrow> 'e + 'b list" where
  "map_results f [] = Inr []"
| "map_results f (x # xs) = rbind (f x) (\<lambda>y. rbind (map_results f xs) (\<lambda>ys. Inr (y # ys)))"

definition stage_generators :: "'d world \<Rightarrow> generator list \<Rightarrow> load_error + staged_layer list" where
  "stage_generators w gs =
     rbind (map_results (\<lambda>(g, srcs). case srcs of
                           None \<Rightarrow> Inl (GeneratorFailed g)
                         | Some ss \<Rightarrow> map_results (stage_generated w g) ss) gs)
       (\<lambda>lls. Inr (concat lls))"

definition stage_provider :: "provider_entry \<Rightarrow> load_error + staged_layer option" where
  "stage_provider p =
     (case pv_load p of
        LoadCanceled \<Rightarrow> Inl ProviderCanceled
      | LoadFailed \<Rightarrow> Inl (ProviderFailed (pv_name p))
      | Loaded None rv stale \<Rightarrow> Inr None
      | Loaded (Some m) rv stale \<Rightarrow>
          Inr (Some \<lparr>sl_src = \<lparr>sr_path = ''provider://'' @ pv_name p, sr_kind = LayerProvider, sr_profile = '''',
                              sr_priority = rank_offset_provider + pv_priority p, sr_codec = '''',
                              sr_revision = rv, sr_stale = stale\<rparr>,
                    sl_class = ClassProvider, sl_priority = pv_priority p, sl_data = m, sl_cached = None,
                    sl_patch = None, sl_sum = zero_sum\<rparr>))"

definition stage_providers :: "provider_entry list \<Rightarrow> load_error + staged_layer list" where
  "stage_providers ps = rbind (map_results stage_provider ps) (\<lambda>os. Inr (List.map_filter id os))"

definition override_layer :: "gmap \<Rightarrow> staged_layer" where
  "override_layer m =
     \<lparr>sl_src = \<lparr>sr_path = ''override://once'', sr_kind = LayerOverride, sr_profile = '''',
              sr_priority = rank_offset_override, sr_codec = '''', sr_revision = '''', sr_stale = False\<rparr>,
      sl_class = ClassOverride, sl_priority = 0, sl_data = m, sl_cached = None, sl_patch = None, sl_sum = zero_sum\<rparr>"

section \<open>Fingerprint and assembly\<close>

definition le64 :: "int \<Rightarrow> string" where
  "le64 p = map (\<lambda>i. char_of (nat ((p mod 2 ^ 64) div 256 ^ i mod 256))) [0 ..< 8]"

definition fp_layer :: "staged_layer \<Rightarrow> string" where
  "fp_layer l =
     sr_path (sl_src l) @ [CHR 0x00] @ le64 (sr_priority (sl_src l)) @
     sr_profile (sl_src l) @ [CHR 0x00] @ sr_codec (sl_src l) @ [CHR 0x00] @ sl_sum l"

definition fp_buffer :: "staged_layer list \<Rightarrow> string \<Rightarrow> 64 word \<Rightarrow> string" where
  "fp_buffer staged meta_sum gen = meta_sum @ le64 (uint gen) @ concat (map fp_layer staged)"

text \<open>\<open>gen_after\<close> is the codec generation when the fingerprint is taken.\<close>

definition input_fingerprint :: "(string \<Rightarrow> string) \<Rightarrow> asm_opts \<Rightarrow> staged_layer list \<Rightarrow> string \<Rightarrow> 64 word \<Rightarrow> 64 word \<Rightarrow> string" where
  "input_fingerprint sha oo staged meta_sum gen gen_after =
     (if gen \<noteq> gen_after \<or> op_no_shortcut oo \<or> list_ex (\<lambda>l. sl_sum l = zero_sum) staged then zero_sum
      else sha (fp_buffer staged meta_sum gen))"

record asm_result =
  ar_staged :: "staged_layer list"
  ar_strict :: bool
  ar_append :: bool
  ar_keys :: "(string \<times> string) list"
  ar_fingerprint :: string

definition asm_files :: "'d world \<Rightarrow> asm_opts \<Rightarrow> string \<Rightarrow> keys_cache \<Rightarrow> tree_cache
    \<Rightarrow> string list \<times> (load_error + bool \<times> meta_settings \<times> staged_layer list) \<times> keys_cache \<times> tree_cache" where
  "asm_files w oo hostname kc tc =
     (if op_skip_discovery oo
      then ([], Inr (op_strict oo, \<lparr>mt_sum = zero_sum, mt_append = False, mt_keys = []\<rparr>, []), kc, tc)
      else
        (case resolve_discovery w oo hostname kc of
           (Inl e, kc') \<Rightarrow> ([], Inl e, kc', tc)
         | (Inr (so, meta), kc') \<Rightarrow>
             (case stage_files w (scan (wo_registry w) (wo_parse_match w) (wo_files w) (op_dir oo) so) tc of
                (ds, r, tc') \<Rightarrow> (ds, rbind r (\<lambda>ss. Inr (so_strict so, meta, ss)), kc', tc'))))"

definition assemble :: "'d world \<Rightarrow> asm_opts \<Rightarrow> bool \<Rightarrow> string \<Rightarrow> 64 word \<Rightarrow> staged_layer list \<Rightarrow> keys_cache \<Rightarrow> tree_cache
    \<Rightarrow> string list \<times> (load_error + asm_result) \<times> keys_cache \<times> tree_cache" where
  "assemble w oo canceled hostname gen_after extra kc tc =
     (if canceled then ([], Inl AssembleCanceled, kc, tc)
      else
        (case asm_files w oo hostname kc tc of (dirs, files, kc', tc') \<Rightarrow>
           (dirs,
            rbind files (\<lambda>(strict, meta, fls).
            rbind (stage_generators w (op_generators oo)) (\<lambda>gens.
            rbind (stage_providers (op_providers oo)) (\<lambda>provs.
              let staged = fls @ gens @ provs @ extra in
              if staged = [] then Inl NoSources
              else Inr \<lparr>ar_staged = sort_layers staged, ar_strict = strict, ar_append = mt_append meta,
                        ar_keys = mt_keys meta,
                        ar_fingerprint = input_fingerprint (wo_sha w) oo (sort_layers staged) (mt_sum meta)
                                           (re_generation (wo_registry w)) gen_after\<rparr>))),
            kc', tc')))"

section \<open>The merge stage\<close>

datatype merge_failure = DeepFailed string merge_error | PatchFailed string patch_error

record merged_state =
  me_doc :: "gmap option"
  me_sources :: "source_ref list"
  me_origins :: "index option"

definition layer_tree :: "staged_layer \<Rightarrow> gmap" where
  "layer_tree l = (case sl_cached l of Some d \<Rightarrow> dl_tree d | None \<Rightarrow> sl_data l)"

fun patch_members :: "patch_doc \<Rightarrow> string list" where
  "patch_members (PatchOps ops) = map path_member ops"
| "patch_members _ = []"

definition merge_layer :: "(gfloat \<Rightarrow> string option) \<Rightarrow> merge_opts \<Rightarrow> staged_layer \<Rightarrow> merged_state
    \<Rightarrow> merge_failure + merged_state" where
  "merge_layer ff opt l s =
     map_sum id (\<lambda>s'. s'\<lparr>me_sources := me_sources s @ [sl_src l]\<rparr>)
       (case sl_patch l of
          Some p \<Rightarrow>
            map_sum (PatchFailed (sr_path (sl_src l)))
              (\<lambda>next. s\<lparr>me_doc := next,
                        me_origins := fold (\<lambda>q. if q \<noteq> '''' then record_opt q (sl_src l) else id)
                                        (patch_paths (patch_members p)) (me_origins s)\<rparr>)
              (apply_patch ff (me_doc s) p)
        | None \<Rightarrow>
            map_sum (DeepFailed (sr_path (sl_src l)))
              (\<lambda>next. s\<lparr>me_doc := next, me_origins := record_tree '''' (layer_tree l) (sl_src l) (me_origins s)\<rparr>)
              (deep (me_doc s) (layer_tree l) opt))"

fun merge_layers :: "(gfloat \<Rightarrow> string option) \<Rightarrow> merge_opts \<Rightarrow> staged_layer list \<Rightarrow> merged_state
    \<Rightarrow> merge_failure + merged_state" where
  "merge_layers ff opt [] s = Inr s"
| "merge_layers ff opt (l # ls) s = rbind (merge_layer ff opt l s) (merge_layers ff opt ls)"

definition merge_opts_of :: "asm_result \<Rightarrow> merge_opts" where
  "merge_opts_of a = \<lparr>append_slices = ar_append a, strict = ar_strict a, merge_keys = map_of (ar_keys a)\<rparr>"

definition run_merge :: "(gfloat \<Rightarrow> string option) \<Rightarrow> level \<Rightarrow> asm_result \<Rightarrow> merge_failure + merged_state" where
  "run_merge ff lv a =
     merge_layers ff (merge_opts_of a) (ar_staged a) \<lparr>me_doc = Some [], me_sources = [], me_origins = new_index lv\<rparr>"

section \<open>The order of the layers\<close>

lemma sort_key_stable': "filter (\<lambda>x. k = f x) (sort_key f xs) = filter (\<lambda>x. k = f x) xs"
  using sort_key_stable [of f k xs] by (simp add: eq_commute)

lemma sort_key_append:
  assumes "\<And>x y. x \<in> set xs \<Longrightarrow> y \<in> set ys \<Longrightarrow> f x \<le> (f y :: 'k :: linorder)"
  shows "sort_key f (xs @ ys) = sort_key f xs @ sort_key f ys"
  by (rule properties_for_sort_key)
    (use assms in \<open>auto simp: sort_key_stable' sorted_append\<close>)

lemma sort_layers_class:
  assumes "list_all (\<lambda>l. sl_class l = c) ls"
  shows "sort_layers ls = sort_key sl_priority ls"
  unfolding sort_layers_def
proof (rule properties_for_sort_key)
  show "mset (sort_key sl_priority ls) = mset ls" by simp
  show "filter (\<lambda>x. layer_key k = layer_key x) (sort_key sl_priority ls) = filter (\<lambda>x. layer_key k = layer_key x) ls"
    if "k \<in> set (sort_key sl_priority ls)" for k
  proof -
    have "filter (\<lambda>x. layer_key k = layer_key x) xs = filter (\<lambda>x. sl_priority x = sl_priority k) xs"
      if "set xs \<subseteq> set ls" for xs
      using that assms \<open>k \<in> _\<close> by (intro filter_cong) (auto simp: layer_key_def list_all_iff)
    then show ?thesis by (simp add: sort_key_stable)
  qed
  have "sorted (map (\<lambda>l. (c, sl_priority l)) (sort_key sl_priority ls))"
    by (auto simp: sorted_map intro!: sorted_wrt_mono_rel [OF _ sorted_sort_key [of sl_priority ls, unfolded sorted_map]])
  moreover have "map (\<lambda>l. (c, sl_priority l)) (sort_key sl_priority ls) = map layer_key (sort_key sl_priority ls)"
    using assms by (intro map_cong) (auto simp: layer_key_def list_all_iff)
  ultimately show "sorted (map layer_key (sort_key sl_priority ls))" by simp
qed

lemma sort_layers_append:
  assumes "\<And>x y. x \<in> set xs \<Longrightarrow> y \<in> set ys \<Longrightarrow> sl_class x < sl_class y"
  shows "sort_layers (xs @ ys) = sort_layers xs @ sort_layers ys"
  unfolding sort_layers_def by (rule sort_key_append) (use assms in \<open>auto simp: layer_key_def\<close>)

lemma class_order [simp]:
  "ClassFile < ClassGenerator" "ClassFile < ClassProvider" "ClassFile < ClassOverride"
  "ClassGenerator < ClassProvider" "ClassGenerator < ClassOverride" "ClassProvider < ClassOverride"
  by (simp_all add: less_layer_class_def)

lemma sort_blocks:
  assumes "list_all (\<lambda>l. sl_class l = ClassFile) fls" "list_all (\<lambda>l. sl_class l = ClassGenerator) gens"
    and "list_all (\<lambda>l. sl_class l = ClassProvider) provs" "list_all (\<lambda>l. sl_class l = ClassOverride) ovs"
  shows "sort_layers (fls @ gens @ provs @ ovs) =
    sort_key sl_priority fls @ sort_key sl_priority gens @ sort_key sl_priority provs @ sort_key sl_priority ovs"
proof -
  have "sort_layers (fls @ gens @ provs @ ovs) = sort_layers fls @ sort_layers gens @ sort_layers provs @ sort_layers ovs"
    using assms by (subst sort_layers_append, fastforce simp: list_all_iff)+ (rule refl)
  then show ?thesis using assms by (simp add: sort_layers_class)
qed

lemma stage_files_layers:
  "stage_files w its tc = (ds, Inr ss, tc') \<Longrightarrow>
   map sl_src ss = map file_source (yielded its) \<and> map sl_priority ss = map ly_priority (yielded its) \<and>
   list_all (\<lambda>l. sl_class l = ClassFile) ss"
proof (induction its arbitrary: tc ds ss tc')
  case (Cons it its)
  show ?case
  proof (cases it)
    case (OnDir d)
    then show ?thesis using Cons by (auto split: prod.splits)
  next
    case (Yield l)
    then obtain s ss' tc1 ds' where s: "stage_file w l tc = (Inr s, tc1)" and r: "stage_files w its tc1 = (ds', Inr ss', tc')"
      and ss: "ss = s # ss'"
      using Cons.prems by (auto simp: rbind_Inr_iff split: prod.splits sum.splits)
    have "sl_src s = file_source l \<and> sl_priority s = ly_priority l \<and> sl_class s = ClassFile"
      using s by (auto simp: stage_file_def Let_def split: sum.splits prod.splits if_splits)
    then show ?thesis using Cons.IH [OF r] by (simp add: Yield ss)
  next
    case (YieldError e)
    then show ?thesis using Cons.prems by simp
  qed
qed simp

lemma map_results_all: "map_results f xs = Inr ys \<Longrightarrow> (\<And>x y. f x = Inr y \<Longrightarrow> P y) \<Longrightarrow> list_all P ys"
  by (induction xs arbitrary: ys) (auto simp: rbind_Inr_iff)

lemma stage_generators_class:
  assumes "stage_generators w gs = Inr ls"
  shows "list_all (\<lambda>l. sl_class l = ClassGenerator) ls"
proof -
  have one: "sl_class y = ClassGenerator" if "stage_generated w g s = Inr y" for g s y
    using that by (cases "rbind (codec_for (wo_registry w) (gs_codec s)) (\<lambda>d. wo_decode w d (gs_data s))")
      (auto simp: stage_generated_def)
  from assms obtain lls where lls: "ls = concat lls"
    "map_results (\<lambda>(g, srcs). case srcs of None \<Rightarrow> Inl (GeneratorFailed g) | Some ss \<Rightarrow> map_results (stage_generated w g) ss) gs = Inr lls"
    by (auto simp: stage_generators_def rbind_Inr_iff)
  have "list_all (list_all (\<lambda>l. sl_class l = ClassGenerator)) lls"
    by (rule map_results_all [OF lls(2)]) (auto split: option.splits intro: map_results_all [OF _ one])
  then show ?thesis by (auto simp: lls(1) list_all_iff)
qed

lemma stage_providers_class:
  assumes "stage_providers ps = Inr ls"
  shows "list_all (\<lambda>l. sl_class l = ClassProvider) ls"
proof -
  from assms obtain os where os: "map_results stage_provider ps = Inr os" "ls = List.map_filter id os"
    by (auto simp: stage_providers_def rbind_Inr_iff)
  have "list_all (\<lambda>y. \<forall>l. y = Some l \<longrightarrow> sl_class l = ClassProvider) os"
    by (rule map_results_all [OF os(1)]) (auto simp: stage_provider_def split: provider_load.splits option.splits)
  then show ?thesis by (auto simp: os(2) List.map_filter_def list_all_iff)
qed

text \<open>The layers of one reload in their final order.\<close>

definition ordered_layers :: "asm_result \<Rightarrow> staged_layer list \<Rightarrow> bool" where
  "ordered_layers a ovs \<longleftrightarrow>
     (\<exists>fls gens provs.
        ar_staged a = fls @ sort_key sl_priority gens @ sort_key sl_priority provs @ sort_key sl_priority ovs \<and>
        list_all (\<lambda>l. sl_class l = ClassFile) fls \<and> sorted_wrt (<) (map sl_priority fls) \<and>
        list_all (\<lambda>l. sl_class l = ClassGenerator) gens \<and> list_all (\<lambda>l. sl_class l = ClassProvider) provs)"

lemma resolve_discovery_axes:
  "resolve_discovery w oo h kc = (Inr (so, meta), kc') \<Longrightarrow> \<exists>host. so_axes so = fst (resolve_axes (wo_env w) host (op_axes oo))"
  by (auto simp: resolve_discovery_def Let_def apply_meta_def base_scan_opts_def split: sum.splits option.splits prod.splits if_splits)

lemma asm_files_order:
  assumes "asm_files w oo h kc tc = (ds, Inr (st, meta, fls), kc', tc')"
  shows "list_all (\<lambda>l. sl_class l = ClassFile) fls \<and> sorted_wrt (<) (map sl_priority fls)"
proof (cases "op_skip_discovery oo")
  case True
  then show ?thesis using assms by (simp add: asm_files_def)
next
  case False
  then obtain so kc1 ds1 where d: "resolve_discovery w oo h kc = (Inr (so, meta), kc1)"
    and s: "stage_files w (scan (wo_registry w) (wo_parse_match w) (wo_files w) (op_dir oo) so) tc = (ds1, Inr fls, tc')"
    using assms by (auto simp: asm_files_def rbind_Inr_iff split: sum.splits prod.splits)
  from resolve_discovery_axes [OF d] obtain host where "so_axes so = fst (resolve_axes (wo_env w) host (op_axes oo))" ..
  from scan_window [OF this, of "wo_registry w" "wo_parse_match w" "wo_files w" "op_dir oo"] stage_files_layers [OF s]
  show ?thesis by (simp add: window_def)
qed

lemma sort_increasing: "sorted_wrt (<) (map f xs) \<Longrightarrow> sort_key f xs = xs" for f :: "'a \<Rightarrow> int"
  by (rule sort_key_id_if_sorted) (auto simp: sorted_wrt_map sorted_map elim!: sorted_wrt_mono_rel [rotated])

lemma assemble_ordered:
  assumes "assemble w oo canceled h gen extra kc tc = (ds, Inr a, kc', tc')"
    and "list_all (\<lambda>l. sl_class l = ClassOverride) extra"
  shows "ordered_layers a extra"
proof -
  from assms(1) obtain st meta fls gens provs where
    f: "asm_files w oo h kc tc = (ds, Inr (st, meta, fls), kc', tc')"
    and g: "stage_generators w (op_generators oo) = Inr gens"
    and p: "stage_providers (op_providers oo) = Inr provs"
    and a: "ar_staged a = sort_layers (fls @ gens @ provs @ extra)"
    by (auto simp: assemble_def Let_def rbind_Inr_iff split: if_splits prod.splits)
  note cls = asm_files_order [OF f] stage_generators_class [OF g] stage_providers_class [OF p]
  have "ar_staged a = sort_key sl_priority fls @ sort_key sl_priority gens @ sort_key sl_priority provs @ sort_key sl_priority extra"
    unfolding a using cls assms(2) by (intro sort_blocks) auto
  moreover have "sort_key sl_priority fls = fls" using cls(1) sort_increasing by blast
  ultimately show ?thesis using cls unfolding ordered_layers_def by metis
qed

section \<open>Who wrote a value\<close>

lemma sget_overlay_from:
  "sget (overlay s d) ps = Some t \<Longrightarrow> \<not> sem_is_map t \<Longrightarrow> sget s ps = Some t \<or> sget d ps = Some t"
proof (induction ps arbitrary: s d)
  case Nil
  show ?case
  proof (cases "\<exists>f g. s = SMap f \<and> d = SMap g")
    case True
    then show ?thesis using Nil by (auto simp: overlay_SMap simp del: overlay.simps(3))
  next
    case False
    then show ?thesis using Nil by (cases s; cases d) auto
  qed
next
  case (Cons p ps)
  show ?case
  proof (cases "\<exists>f g. s = SMap f \<and> d = SMap g")
    case True
    then obtain f g where s: "s = SMap f" "d = SMap g" by blast
    have "f p = Some s' \<Longrightarrow> g p = Some d' \<Longrightarrow> ?thesis" for s' d'
      using Cons.IH [of s' d'] Cons.prems
      by (simp add: s overlay_SMap overlay_map_def del: overlay.simps(3))
    then show ?thesis
      using Cons.prems by (cases "f p"; cases "g p") (auto simp: s overlay_SMap overlay_map_def simp del: overlay.simps(3))
  next
    case False
    then show ?thesis using Cons.prems by (cases s; cases d) auto
  qed
qed

lemma doc_get_overlay_from:
  "doc_get (overlay_map f g) ps = Some t \<Longrightarrow> \<not> sem_is_map t \<Longrightarrow> doc_get f ps = Some t \<or> doc_get g ps = Some t"
  using sget_overlay_from [of "SMap f" "SMap g" ps t] by (simp add: doc_get_def overlay_SMap del: overlay.simps(3))

lemma leaf_value_doc:
  "ps \<noteq> [] \<Longrightarrow> map_option gsem (leaf_value m ps) = (case doc_get (msem m) ps of Some t \<Rightarrow> if sem_is_map t then None else Some t | None \<Rightarrow> None)"
  by (simp add: doc_get_msem leaf_value_def get_at_def split: option.split)

definition plain_layer :: "staged_layer \<Rightarrow> bool" where
  "plain_layer l \<longleftrightarrow> sl_patch l = None \<and> wf_map (layer_tree l) \<and> plain_val (GMap (layer_tree l))"

definition plain_path :: "string list \<Rightarrow> bool" where
  "plain_path ps \<longleftrightarrow> ps \<noteq> [] \<and> list_all plain_key ps \<and> length ps \<le> 257"

text \<open>The last layer that holds a leaf at a path.\<close>

definition last_writer :: "string list \<Rightarrow> staged_layer list \<Rightarrow> (staged_layer \<times> gval) option" where
  "last_writer ps ls =
     foldl (\<lambda>acc l. case leaf_value (layer_tree l) ps of Some v \<Rightarrow> Some (l, v) | None \<Rightarrow> acc) None ls"

lemma last_writer_snoc:
  "last_writer ps (ls @ [l]) = (case leaf_value (layer_tree l) ps of Some v \<Rightarrow> Some (l, v) | None \<Rightarrow> last_writer ps ls)"
  by (simp add: last_writer_def split: option.split)

definition chain_tells :: "index \<Rightarrow> string list \<Rightarrow> staged_layer list \<Rightarrow> bool" where
  "chain_tells ix ps ls \<longleftrightarrow>
     (case last_writer ps ls of
        None \<Rightarrow> chain_of ix (dotted_from '''' ps) = []
      | Some (l, v) \<Rightarrow> chain_of ix (dotted_from '''' ps) \<noteq> [] \<and>
          last (chain_of ix (dotted_from '''' ps)) =
            \<lparr>or_path = dotted_from '''' ps, or_source = sl_src l, or_value = v\<rparr>)"

definition doc_tells :: "gmap \<Rightarrow> string list \<Rightarrow> staged_layer list \<Rightarrow> bool" where
  "doc_tells m ps ls \<longleftrightarrow>
     (\<forall>t. doc_get (msem m) ps = Some t \<longrightarrow> \<not> sem_is_map t \<longrightarrow>
        (\<exists>l v. last_writer ps ls = Some (l, v) \<and> gsem v = t))"

definition merged_ok :: "staged_layer list \<Rightarrow> merged_state \<Rightarrow> bool" where
  "merged_ok ls s \<longleftrightarrow> me_sources s = map sl_src ls \<and>
     (\<exists>m ix. me_doc s = Some m \<and> me_origins s = Some ix \<and> ix_level ix = Full \<and>
        (\<forall>ps. plain_path ps \<longrightarrow> chain_tells ix ps ls \<and> doc_tells m ps ls))"

lemma merge_layer_step:
  assumes opt: "plain_opts opt" and l: "plain_layer l" and ok: "merged_ok ls s"
  shows "\<exists>s'. merge_layer ff opt l s = Inr s' \<and> merged_ok (ls @ [l]) s'"
proof -
  from ok obtain m ix where s: "me_doc s = Some m" "me_origins s = Some ix" "ix_level ix = Full" "me_sources s = map sl_src ls"
    and tells: "\<And>ps. plain_path ps \<Longrightarrow> chain_tells ix ps ls \<and> doc_tells m ps ls"
    unfolding merged_ok_def by blast
  let ?t = "layer_tree l"
  have wf: "wf_map ?t" "plain_val (GMap ?t)" "sl_patch l = None" using l by (simp_all add: plain_layer_def)
  from overlay_refines(1) [OF opt wf(1), of "''''" m] obtain m' where
    m': "deep_at opt '''' m ?t = Inr m'" "msem m' = overlay_map (msem ?t) (msem m)" by blast
  let ?ix = "record_entries '''' ?t (sl_src l) 0 ix"
  let ?s = "s\<lparr>me_doc := Some m', me_origins := Some ?ix, me_sources := me_sources s @ [sl_src l]\<rparr>"
  have run: "merge_layer ff opt l s = Inr ?s"
    using m' s wf by (simp add: merge_layer_def deep_def record_tree_def)
  have "chain_tells ?ix ps (ls @ [l]) \<and> doc_tells m' ps (ls @ [l])" if ps: "plain_path ps" for ps
  proof
    have ne: "ps \<noteq> []" using ps by (simp add: plain_path_def)
    have "origins_at (sl_src l) (dotted_from '''' ps) (leaves 0 '''' ?t) =
      (case leaf_value ?t ps of None \<Rightarrow> [] | Some v \<Rightarrow> [\<lparr>or_path = dotted_from '''' ps, or_source = sl_src l, or_value = v\<rparr>])"
      using ps wf by (intro leaves_at) (auto simp: plain_path_def max_tree_depth_def)
    then have ch: "chain_of ?ix (dotted_from '''' ps) = chain_of ix (dotted_from '''' ps) @
      (case leaf_value ?t ps of None \<Rightarrow> [] | Some v \<Rightarrow> [\<lparr>or_path = dotted_from '''' ps, or_source = sl_src l, or_value = v\<rparr>])"
      using record_entries_Full [OF s(3)] by simp
    show "chain_tells ?ix ps (ls @ [l])"
    proof (cases "leaf_value ?t ps")
      case None
      then show ?thesis using tells [OF ps] ch by (auto simp: chain_tells_def last_writer_snoc split: option.splits)
    next
      case (Some v)
      then show ?thesis using ch by (simp add: chain_tells_def last_writer_snoc)
    qed
    have lv: "map_option gsem (leaf_value ?t ps) =
      (case doc_get (msem ?t) ps of Some t \<Rightarrow> if sem_is_map t then None else Some t | None \<Rightarrow> None)"
      by (rule leaf_value_doc [OF ne])
    show "doc_tells m' ps (ls @ [l])"
      unfolding doc_tells_def
    proof (intro allI impI)
      fix t
      assume t: "doc_get (msem m') ps = Some t" "\<not> sem_is_map t"
      show "\<exists>l' v. last_writer ps (ls @ [l]) = Some (l', v) \<and> gsem v = t"
      proof (cases "leaf_value ?t ps")
        case (Some v)
        then have "doc_get (msem ?t) ps = Some (gsem v)" "\<not> sem_is_map (gsem v)"
          using lv by (auto split: option.splits if_splits)
        then have "t = gsem v" using t doc_get_overlay_wins m'(2) by simp
        then show ?thesis using Some by (simp add: last_writer_snoc)
      next
        case None
        then have "doc_get (msem ?t) ps \<noteq> Some t" using lv t(2) by (auto split: option.splits if_splits)
        then have "doc_get (msem m) ps = Some t" using doc_get_overlay_from t m'(2) by metis
        then show ?thesis using tells [OF ps] t(2) None by (auto simp: doc_tells_def last_writer_snoc)
      qed
    qed
  qed
  then have "merged_ok (ls @ [l]) ?s"
    using record_entries_Full [OF s(3)] by (auto simp: merged_ok_def s)
  then show ?thesis using run by blast
qed

lemma merge_layers_ok:
  "plain_opts opt \<Longrightarrow> list_all plain_layer ls \<Longrightarrow> merged_ok pre s \<Longrightarrow>
   \<exists>s'. merge_layers ff opt ls s = Inr s' \<and> merged_ok (pre @ ls) s'"
proof (induction ls arbitrary: pre s)
  case (Cons l ls)
  then obtain s1 where s1: "merge_layer ff opt l s = Inr s1" "merged_ok (pre @ [l]) s1"
    using merge_layer_step [of opt l pre s ff] by auto
  then show ?case using Cons.IH [of "pre @ [l]" s1] Cons.prems by simp
qed simp

lemma run_merge_ok:
  assumes "plain_opts (merge_opts_of a)" "list_all plain_layer (ar_staged a)"
  shows "\<exists>s. run_merge ff Full a = Inr s \<and> merged_ok (ar_staged a) s"
proof -
  have "merged_ok [] \<lparr>me_doc = Some [], me_sources = [], me_origins = new_index Full\<rparr>"
    by (auto simp: merged_ok_def new_index_def chain_tells_def doc_tells_def last_writer_def chain_of_def doc_get_def
        plain_path_def neq_Nil_conv)
  from merge_layers_ok [OF assms this, of ff] show ?thesis by (simp add: run_merge_def)
qed

section \<open>The input fingerprint\<close>

lemma length_le64 [simp]: "length (le64 p) = 8"
  by (simp add: le64_def)

definition no_nul :: "string \<Rightarrow> bool" where "no_nul s \<longleftrightarrow> CHR 0x00 \<notin> set s"

text \<open>A layer whose texts hold no NUL byte (no file name does) and whose sum has the length of a SHA-256.\<close>

definition fp_ok :: "staged_layer \<Rightarrow> bool" where
  "fp_ok l \<longleftrightarrow> no_nul (sr_path (sl_src l)) \<and> no_nul (sr_profile (sl_src l)) \<and> no_nul (sr_codec (sl_src l)) \<and>
     length (sl_sum l) = 32"

definition fp_input :: "staged_layer \<Rightarrow> string \<times> string \<times> string \<times> string \<times> string" where
  "fp_input l = (sr_path (sl_src l), le64 (sr_priority (sl_src l)), sr_profile (sl_src l), sr_codec (sl_src l), sl_sum l)"

lemma nul_split:
  assumes "no_nul a" "no_nul b" "a @ CHR 0x00 # x = b @ CHR 0x00 # y"
  shows "a = b \<and> x = y"
proof -
  have "takeWhile (\<lambda>c. c \<noteq> CHR 0x00) (a @ CHR 0x00 # x) = a" "takeWhile (\<lambda>c. c \<noteq> CHR 0x00) (b @ CHR 0x00 # y) = b"
    using assms(1,2) by (auto simp: no_nul_def takeWhile_append)
  then show ?thesis using assms(3) by auto
qed

lemma fp_layer_inj:
  assumes "fp_ok l" "fp_ok k" "fp_layer l @ x = fp_layer k @ y"
  shows "fp_input l = fp_input k \<and> x = y"
proof -
  let ?l = "sl_src l" and ?k = "sl_src k"
  have "sr_path ?l = sr_path ?k \<and>
    le64 (sr_priority ?l) @ sr_profile ?l @ CHR 0x00 # sr_codec ?l @ CHR 0x00 # sl_sum l @ x =
    le64 (sr_priority ?k) @ sr_profile ?k @ CHR 0x00 # sr_codec ?k @ CHR 0x00 # sl_sum k @ y"
    using assms by (intro nul_split) (auto simp: fp_ok_def fp_layer_def)
  then have 1: "sr_path ?l = sr_path ?k" "le64 (sr_priority ?l) = le64 (sr_priority ?k)"
    "sr_profile ?l @ CHR 0x00 # sr_codec ?l @ CHR 0x00 # sl_sum l @ x =
     sr_profile ?k @ CHR 0x00 # sr_codec ?k @ CHR 0x00 # sl_sum k @ y"
    by (auto simp: append_eq_append_conv)
  have "sr_profile ?l = sr_profile ?k \<and> sr_codec ?l @ CHR 0x00 # sl_sum l @ x = sr_codec ?k @ CHR 0x00 # sl_sum k @ y"
    using assms(1,2) 1(3) by (intro nul_split) (auto simp: fp_ok_def)
  moreover from this have "sr_codec ?l = sr_codec ?k \<and> sl_sum l @ x = sl_sum k @ y"
    using assms(1,2) by (intro nul_split) (auto simp: fp_ok_def)
  moreover from this have "sl_sum l = sl_sum k \<and> x = y"
    using assms(1,2) by (auto simp: fp_ok_def append_eq_append_conv)
  ultimately show ?thesis using 1 by (simp add: fp_input_def)
qed

lemma fp_layers_inj:
  "list_all fp_ok ls \<Longrightarrow> list_all fp_ok ks \<Longrightarrow> concat (map fp_layer ls) = concat (map fp_layer ks) \<Longrightarrow>
   map fp_input ls = map fp_input ks"
proof (induction ls arbitrary: ks)
  case Nil
  then show ?case by (cases ks) (auto simp: fp_layer_def)
next
  case (Cons l ls)
  then obtain k ks' where ks: "ks = k # ks'" by (cases ks) (auto simp: fp_layer_def)
  have "fp_input l = fp_input k \<and> concat (map fp_layer ls) = concat (map fp_layer ks')"
    using Cons.prems by (intro fp_layer_inj) (auto simp: ks)
  then show ?case using Cons ks by simp
qed

lemma digits_sum: "(\<Sum>i<k. (r div 256 ^ i mod 256) * 256 ^ i) = (r :: int) mod 256 ^ k"
proof (induction k)
  case (Suc k)
  have "r mod 256 ^ Suc k = 256 ^ k * (r div 256 ^ k mod 256) + r mod 256 ^ k"
    using zmod_zmult2_eq [of 256 r "256 ^ k"] by (simp add: mult.commute)
  then show ?case using Suc by (simp add: mult.commute)
qed simp

lemma nth_le64: "i < 8 \<Longrightarrow> le64 r ! i = char_of (nat ((r mod 2 ^ 64) div 256 ^ i mod 256))"
  unfolding le64_def by (subst nth_map) (simp_all only: length_upt nth_upt, simp_all)

lemma le64_inj:
  assumes "le64 p = le64 q" "0 \<le> p" "p < 2 ^ 64" "0 \<le> q" "q < 2 ^ 64"
  shows "p = q"
proof -
  have val: "(\<Sum>i<8. (r div 256 ^ i mod 256) * 256 ^ i) = r" if "0 \<le> r" "r < 2 ^ 64" for r :: int
  proof -
    have "r mod 256 ^ 8 = r" using that by (intro mod_pos_pos_trivial) simp_all
    then show ?thesis using digits_sum [of r 8] by (rule trans [rotated])
  qed
  have "nat (p div 256 ^ i mod 256) = nat (q div 256 ^ i mod 256)" if "i < 8" for i
  proof -
    have m: "p mod 2 ^ 64 = p" "q mod 2 ^ 64 = q"
      by (rule mod_pos_pos_trivial [OF assms(2,3)], rule mod_pos_pos_trivial [OF assms(4,5)])
    have b: "nat (r mod 256) < 256" for r :: int by simp
    have tb: "take_bit 8 n = n mod 256" for n :: nat by (simp add: take_bit_eq_mod)
    have "(char_of (nat (p div 256 ^ i mod 256)) :: char) = char_of (nat (q div 256 ^ i mod 256))"
      using nth_le64 [OF that, of p] nth_le64 [OF that, of q] unfolding assms(1) m by metis
    then have "nat (p div 256 ^ i mod 256) mod 256 = nat (q div 256 ^ i mod 256) mod 256"
      by (simp only: char_of_eq_iff [of "nat (p div 256 ^ i mod 256)"] of_char_of tb)
    then show ?thesis using b by (simp only: mod_less)
  qed
  then have d: "p div 256 ^ i mod 256 = q div 256 ^ i mod 256" if "i < 8" for i
    using that by (metis eq_nat_nat_iff pos_mod_sign zero_less_numeral)
  have "p = (\<Sum>i<8. (p div 256 ^ i mod 256) * 256 ^ i)" by (rule val [OF assms(2,3), symmetric])
  also have "\<dots> = (\<Sum>i<8. (q div 256 ^ i mod 256) * 256 ^ i)"
    by (rule sum.cong [OF refl]) (simp only: lessThan_iff d)
  also have "\<dots> = q" by (rule val [OF assms(4,5)])
  finally show ?thesis .
qed

definition fp_fields :: "staged_layer \<Rightarrow> string \<times> int \<times> string \<times> string \<times> string" where
  "fp_fields l = (sr_path (sl_src l), sr_priority (sl_src l), sr_profile (sl_src l), sr_codec (sl_src l), sl_sum l)"

definition fp_range :: "staged_layer \<Rightarrow> bool" where
  "fp_range l \<longleftrightarrow> fp_ok l \<and> 0 \<le> sr_priority (sl_src l) \<and> sr_priority (sl_src l) < 2 ^ 64"

lemma fp_fields_eq:
  "list_all fp_range ls \<Longrightarrow> list_all fp_range ks \<Longrightarrow> map fp_input ls = map fp_input ks \<Longrightarrow> map fp_fields ls = map fp_fields ks"
proof (induction ls arbitrary: ks)
  case (Cons l ls)
  then obtain k ks' where ks: "ks = k # ks'" by (cases ks) auto
  have "fp_fields l = fp_fields k"
    using Cons.prems le64_inj [of "sr_priority (sl_src l)" "sr_priority (sl_src k)"]
    by (simp add: ks fp_fields_def fp_input_def fp_range_def)
  then show ?case using Cons ks by simp
qed simp

section \<open>Overrides\<close>

lemma merge_layers_append:
  "merge_layers ff opt (xs @ ys) s = rbind (merge_layers ff opt xs s) (merge_layers ff opt ys)"
proof (induction xs arbitrary: s)
  case (Cons x xs)
  then show ?case by (cases "merge_layer ff opt x s") simp_all
qed simp

lemma override_last:
  assumes "ordered_layers a [override_layer om]"
  shows "\<exists>xs. ar_staged a = xs @ [override_layer om]"
  using assms by (auto simp: ordered_layers_def)

lemma override_leaf:
  assumes st: "ar_staged a = xs @ [l]" and run: "run_merge ff lv a = Inr s" and np: "sl_patch l = None" and wf: "wf_map (layer_tree l)"
    and leaf: "leaf_value (layer_tree l) ps = Some v" "ps \<noteq> []" "as_slice v = None \<or> whole_lists (merge_opts_of a)"
  shows "\<exists>m. me_doc s = Some m \<and> get_at (Some m) ps = Some v"
proof -
  obtain s1 where s2: "merge_layer ff (merge_opts_of a) l s1 = Inr s"
    using run by (auto simp: run_merge_def st merge_layers_append rbind_Inr_iff)
  have at: "get_from (GMap (layer_tree l)) ps = Some v" "\<not> is_map v"
    using leaf(1) by (auto simp: leaf_value_def split: option.splits if_splits)
  then have ne: "layer_tree l \<noteq> []" using leaf(2) by (cases ps) auto
  then obtain m1 m where m: "deep_at (merge_opts_of a) '''' m1 (layer_tree l) = Inr m" "me_doc s = Some m"
    using s2 np by (auto simp: merge_layer_def deep_def rbind_def split: option.splits sum.splits)
  then show ?thesis using deep_at_leaf [OF m(1) wf at leaf(3)] leaf(2) by (simp add: get_at_def)
qed

section \<open>The order of the sources\<close>

text \<open>What the options and the file system offer, each in its own order: the layers of the scan, the documents of the
  generators, the providers that have a map. A layer is named by what \<open>Sources\<close> reports.\<close>

definition scanned :: "'d world \<Rightarrow> asm_opts \<Rightarrow> string \<Rightarrow> keys_cache \<Rightarrow> layer list" where
  "scanned w oo h kc =
     (if op_skip_discovery oo then []
      else case fst (resolve_discovery w oo h kc) of
        Inl _ \<Rightarrow> []
      | Inr (so, _) \<Rightarrow> yielded (scan (wo_registry w) (wo_parse_match w) (wo_files w) (op_dir oo) so))"

definition generated :: "asm_opts \<Rightarrow> (string \<times> gen_source) list" where
  "generated oo = [(g, s). (g, srcs) \<leftarrow> op_generators oo, s \<leftarrow> (case srcs of None \<Rightarrow> [] | Some ss \<Rightarrow> ss)]"

definition contributing :: "asm_opts \<Rightarrow> provider_entry list" where
  "contributing oo = filter (\<lambda>p. case pv_load p of Loaded (Some _) _ _ \<Rightarrow> True | _ \<Rightarrow> False) (op_providers oo)"

definition generator_ref :: "string \<times> gen_source \<Rightarrow> source_ref" where
  "generator_ref x = (case x of (g, s) \<Rightarrow>
     \<lparr>sr_path = ''gen://'' @ g @ ''/'' @ gs_name s, sr_kind = LayerGenerator, sr_profile = '''',
      sr_priority = rank_offset_generator + gs_priority s, sr_codec = gs_codec s, sr_revision = '''', sr_stale = False\<rparr>)"

definition provider_ref :: "provider_entry \<Rightarrow> source_ref" where
  "provider_ref p =
     \<lparr>sr_path = ''provider://'' @ pv_name p, sr_kind = LayerProvider, sr_profile = '''',
      sr_priority = rank_offset_provider + pv_priority p, sr_codec = '''',
      sr_revision = (case pv_load p of Loaded _ rv _ \<Rightarrow> rv | _ \<Rightarrow> ''''),
      sr_stale = (case pv_load p of Loaded _ _ st \<Rightarrow> st | _ \<Rightarrow> False)\<rparr>"

lemma sort_key_map: "sort_key f (map g xs) = map g (sort_key (\<lambda>x. f (g x)) xs)"
proof -
  have "insort_key f (g x) (map g ys) = map g (insort_key (\<lambda>x. f (g x)) x ys)" for x ys
    by (induction ys) auto
  then show ?thesis by (induction xs) auto
qed

lemma map_results_map:
  "map_results f xs = Inr ys \<Longrightarrow> (\<And>x y. f x = Inr y \<Longrightarrow> g y = h x) \<Longrightarrow> map g ys = map h xs"
  by (induction xs arbitrary: ys) (auto simp: rbind_Inr_iff)

lemma stage_generators_refs:
  assumes "stage_generators w (op_generators oo) = Inr ls"
  shows "map (\<lambda>l. (sl_src l, sl_priority l)) ls = map (\<lambda>x. (generator_ref x, gs_priority (snd x))) (generated oo)"
proof -
  let ?g = "\<lambda>l. (sl_src l, sl_priority l)" and ?h = "\<lambda>x. (generator_ref x, gs_priority (snd x))"
  have one: "?g y = ?h (g, s)" if "stage_generated w g s = Inr y" for g s y
    using that by (cases "rbind (codec_for (wo_registry w) (gs_codec s)) (\<lambda>d. wo_decode w d (gs_data s))")
      (auto simp: stage_generated_def generator_ref_def)
  from assms obtain lls where lls: "ls = concat lls"
    "map_results (\<lambda>(g, srcs). case srcs of None \<Rightarrow> Inl (GeneratorFailed g) | Some ss \<Rightarrow> map_results (stage_generated w g) ss)
       (op_generators oo) = Inr lls"
    by (auto simp: stage_generators_def rbind_Inr_iff)
  have "map (map ?g) lls = map (\<lambda>(g, srcs). map ?h (map (Pair g) (case srcs of None \<Rightarrow> [] | Some ss \<Rightarrow> ss))) (op_generators oo)"
  proof (rule map_results_map [OF lls(2)], clarify)
    fix g srcs y
    assume "(case srcs of None \<Rightarrow> Inl (GeneratorFailed g) | Some ss \<Rightarrow> map_results (stage_generated w g) ss) = Inr y"
    then obtain ss where "srcs = Some ss" "map_results (stage_generated w g) ss = Inr y" by (auto split: option.splits)
    then show "map ?g y = map ?h (map (Pair g) (case srcs of None \<Rightarrow> [] | Some ss \<Rightarrow> ss))"
      using map_results_map [of "stage_generated w g" ss y ?g "\<lambda>s. ?h (g, s)"] one by simp
  qed
  then have "concat (map (map ?g) lls) =
      concat (map (\<lambda>(g, srcs). map ?h (map (Pair g) (case srcs of None \<Rightarrow> [] | Some ss \<Rightarrow> ss))) (op_generators oo))"
    by simp
  then show ?thesis unfolding lls(1) generated_def map_concat by (simp add: comp_def split_def)
qed

lemma stage_providers_refs:
  assumes "stage_providers ps = Inr ls"
  shows "map (\<lambda>l. (sl_src l, sl_priority l)) ls =
    map (\<lambda>p. (provider_ref p, pv_priority p)) (filter (\<lambda>p. case pv_load p of Loaded (Some _) _ _ \<Rightarrow> True | _ \<Rightarrow> False) ps)"
proof -
  from assms obtain os where os: "map_results stage_provider ps = Inr os" "ls = List.map_filter id os"
    by (auto simp: stage_providers_def rbind_Inr_iff)
  from os(1) show ?thesis unfolding os(2)
  proof (induction ps arbitrary: os)
    case (Cons p ps)
    then obtain y ys where y: "stage_provider p = Inr y" "map_results stage_provider ps = Inr ys" "os = y # ys"
      by (auto simp: rbind_Inr_iff)
    show ?case using Cons.IH [OF y(2)] y(1)
      by (auto simp: y(3) List.map_filter_def stage_provider_def provider_ref_def split: provider_load.splits option.splits)
  qed (simp add: List.map_filter_def)
qed

lemma asm_files_refs:
  assumes "asm_files w oo h kc tc = (ds, Inr (st, meta, fls), kc', tc')"
  shows "map sl_src fls = map file_source (scanned w oo h kc) \<and> map ly_priority (scanned w oo h kc) = map sl_priority fls"
proof (cases "op_skip_discovery oo")
  case True
  then show ?thesis using assms by (simp add: asm_files_def scanned_def)
next
  case False
  then obtain so m2 kc1 ds1 where d: "resolve_discovery w oo h kc = (Inr (so, m2), kc1)"
    and s: "stage_files w (scan (wo_registry w) (wo_parse_match w) (wo_files w) (op_dir oo) so) tc = (ds1, Inr fls, tc')"
    using assms by (auto simp: asm_files_def rbind_Inr_iff split: sum.splits prod.splits)
  show ?thesis using stage_files_layers [OF s] d False by (simp add: scanned_def)
qed

lemma sorted_refs:
  assumes "map (\<lambda>l. (sl_src l, sl_priority l)) ls = map (\<lambda>x. (r x, q x)) xs"
  shows "map sl_src (sort_key sl_priority ls) = map r (sort_key q xs)"
proof -
  have "map (\<lambda>l. (sl_src l, sl_priority l)) (sort_key sl_priority ls) = sort_key snd (map (\<lambda>l. (sl_src l, sl_priority l)) ls)"
    by (simp add: sort_key_map)
  also have "\<dots> = map (\<lambda>x. (r x, q x)) (sort_key q xs)" by (simp add: assms sort_key_map)
  finally have e: "map (\<lambda>l. (sl_src l, sl_priority l)) (sort_key sl_priority ls) = map (\<lambda>x. (r x, q x)) (sort_key q xs)" .
  show ?thesis using arg_cong [OF e, of "map fst"] by (simp add: comp_def)
qed

section \<open>Properties\<close>

text \<open>C3. However the user numbers priorities, a successful assembly stages exactly the layers of the scan, in its order and
  with strictly increasing priorities; after them the documents of all generators, sorted stably by their own
  priorities; after them the providers that have a map, sorted stably by theirs; and the overrides last. Nothing is
  dropped or repeated, and no priority lifts a layer into a later class.\<close>

theorem assembly_order:
  assumes "assemble w oo canceled h gen extra kc tc = (ds, Inr a, kc', tc')"
    and "list_all (\<lambda>l. sl_class l = ClassOverride) extra"
  shows "map sl_src (ar_staged a) =
      map file_source (scanned w oo h kc) @ map generator_ref (sort_key (\<lambda>x. gs_priority (snd x)) (generated oo)) @
      map provider_ref (sort_key pv_priority (contributing oo)) @ map sl_src (sort_key sl_priority extra) \<and>
    sorted_wrt (<) (map ly_priority (scanned w oo h kc))"
proof -
  from assms(1) obtain st meta fls gens provs where
    f: "asm_files w oo h kc tc = (ds, Inr (st, meta, fls), kc', tc')"
    and g: "stage_generators w (op_generators oo) = Inr gens"
    and p: "stage_providers (op_providers oo) = Inr provs"
    and a: "ar_staged a = sort_layers (fls @ gens @ provs @ extra)"
    by (auto simp: assemble_def Let_def rbind_Inr_iff split: if_splits prod.splits)
  note cls = asm_files_order [OF f] stage_generators_class [OF g] stage_providers_class [OF p]
  have "ar_staged a = fls @ sort_key sl_priority gens @ sort_key sl_priority provs @ sort_key sl_priority extra"
    unfolding a using cls assms(2) sort_increasing [of sl_priority fls] by (subst sort_blocks) auto
  moreover have "map ly_priority (scanned w oo h kc) = map sl_priority fls"
    using asm_files_refs [OF f] by simp
  ultimately show ?thesis
    using asm_files_refs [OF f] cls(1) sorted_refs [OF stage_generators_refs [OF g]]
      sorted_refs [OF stage_providers_refs [OF p]] by (simp add: contributing_def)
qed

definition demo_world :: "unit world" where
  "demo_world = \<lparr>wo_registry = \<lparr>re_codecs = [], re_exts = [], re_generation = 0\<rparr>, wo_decode = (\<lambda>_ _. Inr []),
     wo_parsers = \<lparr>pa_yaml = (\<lambda>_. None), pa_yaml_stream = (\<lambda>_. []), pa_json_stream = (\<lambda>_. []),
       pa_toml = (\<lambda>_. None), pa_ini = (\<lambda>_. None), pa_sprint = (\<lambda>_. [])\<rparr>,
     wo_float = (\<lambda>_. None), wo_marshal = (\<lambda>_. None), wo_sha = id,
     wo_files = \<lparr>fi_dir = (\<lambda>_. DirMissing), fi_stat = (\<lambda>_. NoEntry), fi_open = (\<lambda>_. None)\<rparr>,
     wo_env = (\<lambda>_. None), wo_host = Inr ''h'', wo_parse_meta = (\<lambda>_. None), wo_parse_match = (\<lambda>_. None)\<rparr>"

definition demo_provider :: "string \<Rightarrow> int \<Rightarrow> gmap \<Rightarrow> provider_entry" where
  "demo_provider n p m = \<lparr>pv_name = n, pv_priority = p, pv_load = Loaded (Some m) '''' False\<rparr>"

definition demo_opts :: asm_opts where
  "demo_opts = \<lparr>op_dir = ''conf'', op_strict = False, op_skip_discovery = True, op_profile_names = [], op_profile_env = '''',
     op_profile_default = '''', op_profile_match = '''', op_axes = [], op_merge_keys = [], op_generators = [],
     op_providers = [demo_provider ''b'' 99999 [(''k'', GStr ''high'')], demo_provider ''a'' 5 [(''k'', GStr ''low''), (''x'', GStr ''y'')]],
     op_no_shortcut = False\<rparr>"

definition demo_result :: asm_result where
  "demo_result = \<lparr>ar_staged = [the (projr (stage_provider (demo_provider ''a'' 5 [(''k'', GStr ''low''), (''x'', GStr ''y'')]))),
       the (projr (stage_provider (demo_provider ''b'' 99999 [(''k'', GStr ''high'')]))), override_layer [(''k'', GStr ''top'')]],
     ar_strict = False, ar_append = False, ar_keys = [], ar_fingerprint = zero_sum\<rparr>"

definition demo_keys :: keys_cache where "demo_keys = \<lparr>mk_sum = [], mk_keys = [], mk_set = False\<rparr>"

lemma demo_assembled:
  "assemble demo_world demo_opts False [] 0 [override_layer [(''k'', GStr ''top'')]] demo_keys empty_cache
     = ([], Inr demo_result, demo_keys, empty_cache)"
  by (simp add: assemble_def asm_files_def demo_opts_def demo_result_def stage_generators_def stage_providers_def stage_provider_def
      demo_provider_def List.map_filter_def sort_layers_def layer_key_def override_layer_def input_fingerprint_def
      less_eq_layer_class_def less_layer_class_def demo_world_def less_le_not_le)

lemma assembly_order_witness:
  "map sr_path (map sl_src (ar_staged demo_result)) = [''provider://a'', ''provider://b'', ''override://once'']"
  using assembly_order [OF demo_assembled]
  by (simp add: override_layer_def scanned_def generated_def contributing_def demo_opts_def demo_provider_def provider_ref_def)

lemma demo_plain: "plain_opts (merge_opts_of demo_result)" "list_all plain_layer (ar_staged demo_result)"
  by (simp_all add: plain_opts_def merge_opts_of_def demo_result_def stage_provider_def demo_provider_def override_layer_def
      plain_layer_def layer_tree_def wf_map_Cons plain_key_def)

text \<open>C2. Explain tells the truth: with the default merge options, provenance at level \<open>Full\<close> and layers with plain keys (no
  dots) and no patches, the merge stage succeeds, lists the layers in order, and for every value of the merged document that is not a
  map the newest origin \<open>Explain\<close> reports is the last layer that holds a leaf at that path, with the value
  that layer contributed, which is the value in the document.\<close>

theorem explain_names_the_winner:
  assumes "plain_opts (merge_opts_of a)" and "list_all plain_layer (ar_staged a)" and "plain_path ps"
  shows "\<exists>s m. run_merge ff Full a = Inr s \<and> me_doc s = Some m \<and> me_sources s = map sl_src (ar_staged a) \<and>
     (\<forall>v. get_at (Some m) ps = Some v \<and> \<not> is_map v \<longrightarrow>
        (\<exists>l w. last_writer ps (ar_staged a) = Some (l, w) \<and> gsem w = gsem v \<and>
           last (explain (me_origins s) (join_with ''.'' ps)) =
             \<lparr>or_path = join_with ''.'' ps, or_source = sl_src l, or_value = w\<rparr>))"
proof -
  from run_merge_ok [OF assms(1,2)] obtain s where s: "run_merge ff Full a = Inr s" "merged_ok (ar_staged a) s" by blast
  then obtain m ix where m: "me_doc s = Some m" "me_origins s = Some ix" "me_sources s = map sl_src (ar_staged a)"
    and tells: "chain_tells ix ps (ar_staged a)" "doc_tells m ps (ar_staged a)"
    using assms(3) by (auto simp: merged_ok_def)
  have ne: "ps \<noteq> []" and d: "dotted_from '''' ps = join_with ''.'' ps"
    using assms(3) by (auto simp: plain_path_def dotted_from_join)
  have "\<exists>l w. last_writer ps (ar_staged a) = Some (l, w) \<and> gsem w = gsem v \<and>
      last (explain (me_origins s) (join_with ''.'' ps)) = \<lparr>or_path = join_with ''.'' ps, or_source = sl_src l, or_value = w\<rparr>"
    if v: "get_at (Some m) ps = Some v" "\<not> is_map v" for v
  proof -
    have "doc_get (msem m) ps = Some (gsem v)" using v doc_get_msem [OF ne, of m] by simp
    then obtain l w where "last_writer ps (ar_staged a) = Some (l, w)" "gsem w = gsem v"
      using tells(2) v(2) by (auto simp: doc_tells_def)
    then show ?thesis using tells(1) by (auto simp: chain_tells_def d explain_def m(2))
  qed
  then show ?thesis using s(1) m by blast
qed

lemma explain_names_the_winner_witness:
  "\<exists>s m. run_merge (\<lambda>_. None) Full demo_result = Inr s \<and> me_doc s = Some m \<and>
     get_at (Some m) [''k''] = Some (GStr ''top'') \<and>
     or_source (last (explain (me_origins s) ''k'')) = sl_src (override_layer [])"
proof -
  from explain_names_the_winner [OF demo_plain, of "[''k'']" "\<lambda>_. None"]
  obtain s m where s: "run_merge (\<lambda>_. None) Full demo_result = Inr s" "me_doc s = Some m"
    and w: "\<forall>v. get_at (Some m) [''k''] = Some v \<and> \<not> is_map v \<longrightarrow>
        (\<exists>l w. last_writer [''k''] (ar_staged demo_result) = Some (l, w) \<and> gsem w = gsem v \<and>
           last (explain (me_origins s) ''k'') = \<lparr>or_path = ''k'', or_source = sl_src l, or_value = w\<rparr>)"
    by (auto simp: plain_path_def plain_key_def)
  have "get_at (Some m) [''k''] = Some (GStr ''top'')"
    using s by (auto simp: run_merge_def demo_result_def stage_provider_def demo_provider_def override_layer_def merge_layer_def
        layer_tree_def deep_def merge_opts_of_def merge_value.simps get_at_def)
  moreover from this w obtain l v where "last_writer [''k''] (ar_staged demo_result) = Some (l, v)"
    "last (explain (me_origins s) ''k'') = \<lparr>or_path = ''k'', or_source = sl_src l, or_value = v\<rparr>" by auto
  then have "or_source (last (explain (me_origins s) ''k'')) = sl_src (override_layer [])"
    by (auto simp: last_writer_def demo_result_def leaf_value_def layer_tree_def override_layer_def)
  ultimately show ?thesis using s by blast
qed

text \<open>C1. An override always wins: when a reload is assembled with a one-shot override and the merge succeeds, whatever the
  merge options and the layers below (patches included), the merged document holds at every path exactly the leaf the
  override holds there; only a list is excepted, where the options append lists or merge them by key. Files, generators
  and providers cannot change that, whatever priorities they claim.\<close>

theorem override_wins:
  assumes "assemble w oo canceled h gen [override_layer om] kc tc = (ds, Inr a, kc', tc')"
    and "run_merge ff lv a = Inr s" and "wf_map om" and "ps \<noteq> []"
    and "leaf_value om ps = Some v" and "as_slice v = None \<or> whole_lists (merge_opts_of a)"
  shows "\<exists>m. me_doc s = Some m \<and> get_at (Some m) ps = Some v"
proof -
  have "ordered_layers a [override_layer om]"
    by (rule assemble_ordered [OF assms(1)]) (simp add: override_layer_def)
  then obtain xs where "ar_staged a = xs @ [override_layer om]" using override_last by blast
  from override_leaf [OF this assms(2) _ _ _ assms(4) assms(6)] show ?thesis
    using assms(3,5) by (simp add: layer_tree_def override_layer_def)
qed

lemma demo_merged: "\<exists>s. run_merge (\<lambda>_. None) Full demo_result = Inr s"
  using run_merge_ok [OF demo_plain] by blast

lemma override_wins_witness:
  "\<exists>s m. run_merge (\<lambda>_. None) Full demo_result = Inr s \<and> me_doc s = Some m \<and> get_at (Some m) [''k''] = Some (GStr ''top'')"
proof -
  obtain s where s: "run_merge (\<lambda>_. None) Full demo_result = Inr s" using demo_merged by blast
  show ?thesis
    using override_wins [OF demo_assembled s, of "[''k'']" "GStr ''top''"] s by (auto simp: leaf_value_def wf_map_def)
qed

text \<open>C8. Skipping a reload by its fingerprint is sound: if two assemblies have the same fingerprint and it is not the zero
  one, and SHA-256 does not collide on the two buffers hashed (nothing is asked of other texts), then the metadata hash
  (32 bytes, as SHA-256 gives), the codec generation and, layer by layer, path, priority, profile, codec and content
  hash are the same, so the reload would merge the same files in the same order.\<close>

theorem fingerprint_sound:
  assumes collision_free: "sha (fp_buffer ls s g) = sha (fp_buffer ks s' h) \<Longrightarrow> fp_buffer ls s g = fp_buffer ks s' h"
    and "length s = 32" and "length s' = 32"
    and "list_all fp_range ls" and "list_all fp_range ks"
    and "input_fingerprint sha oo ls s g g' = input_fingerprint sha oo' ks s' h h'"
    and "input_fingerprint sha oo ls s g g' \<noteq> zero_sum"
  shows "s = s' \<and> g = h \<and> map fp_fields ls = map fp_fields ks"
proof -
  have "sha (fp_buffer ls s g) = sha (fp_buffer ks s' h)"
    using assms(6,7) by (auto simp: input_fingerprint_def split: if_splits)
  then have "fp_buffer ls s g = fp_buffer ks s' h" by (rule collision_free)
  then have e: "s = s'" "le64 (uint g) = le64 (uint h)" "concat (map fp_layer ls) = concat (map fp_layer ks)"
    using assms(2,3) by (auto simp: fp_buffer_def append_eq_append_conv)
  have "uint g = uint h"
    using uint_lt2p [of g] uint_lt2p [of h] by (intro le64_inj [OF e(2)]) (simp_all)
  moreover have "list_all fp_ok ls" "list_all fp_ok ks"
    using assms(4,5) by (auto simp: list_all_iff fp_range_def)
  then have "map fp_input ls = map fp_input ks" by (rule fp_layers_inj [OF _ _ e(3)])
  ultimately show ?thesis using e(1) fp_fields_eq [OF assms(4,5)] by (simp add: word_uint_eq_iff)
qed

definition demo_file :: "string \<Rightarrow> staged_layer" where
  "demo_file path = \<lparr>sl_src = \<lparr>sr_path = path, sr_kind = LayerMerge, sr_profile = '''', sr_priority = 1000, sr_codec = ''yaml'',
       sr_revision = '''', sr_stale = False\<rparr>, sl_class = ClassFile, sl_priority = 1000, sl_data = [], sl_cached = None,
     sl_patch = None, sl_sum = replicate 32 (CHR ''a'')\<rparr>"

text \<open>A hash of 32 bytes that tells one buffer from the rest.\<close>

definition demo_hash :: "string \<Rightarrow> string \<Rightarrow> string" where
  "demo_hash b x = replicate 32 (if x = b then CHR ''x'' else CHR ''y'')"

lemma fingerprint_sound_witness:
  "input_fingerprint (demo_hash (fp_buffer [demo_file ''conf/a.yaml''] (replicate 32 CHR ''m'') 1)) demo_opts
     [demo_file ''conf/a.yaml''] (replicate 32 CHR ''m'') 1 1 \<noteq>
   input_fingerprint (demo_hash (fp_buffer [demo_file ''conf/a.yaml''] (replicate 32 CHR ''m'') 1)) demo_opts
     [demo_file ''conf/b.yaml''] (replicate 32 CHR ''m'') 1 1"
proof
  let ?m = "replicate 32 CHR ''m''" and ?a = "[demo_file ''conf/a.yaml'']" and ?b = "[demo_file ''conf/b.yaml'']"
  let ?sha = "demo_hash (fp_buffer ?a ?m 1)"
  assume eq: "input_fingerprint ?sha demo_opts ?a ?m 1 1 = input_fingerprint ?sha demo_opts ?b ?m 1 1"
  have nz: "input_fingerprint ?sha demo_opts ?a ?m 1 1 \<noteq> zero_sum"
    by (simp add: input_fingerprint_def demo_opts_def demo_file_def zero_sum_def demo_hash_def numeral_eq_Suc)
  have range: "list_all fp_range ?a" "list_all fp_range ?b"
    by (simp_all add: fp_range_def fp_ok_def demo_file_def no_nul_def)
  have "?sha (fp_buffer ?a ?m 1) = ?sha (fp_buffer ?b ?m 1) \<Longrightarrow> fp_buffer ?a ?m 1 = fp_buffer ?b ?m 1"
    by (auto simp: demo_hash_def split: if_splits)
  from fingerprint_sound [OF this _ _ range eq nz] have "map fp_fields ?a = map fp_fields ?b" by simp
  then show False by (simp add: fp_fields_def demo_file_def)
qed

end
