(* ===== verification/Secret.thy ===== *)
theory Secret
  imports Provenance Types
begin

text \<open>
  \<open>internal/secret\<close>: the walk that resolves secret references, the path patterns of \<open>WithSecretPaths\<close> and the
  type plan that masks fields tagged secret. A redactor is a function of path and value. The plan \<open>Compile\<close> builds
  from a Go type by reflection is a table of nodes by type (its memo); which types marshal themselves (\<open>json.Marshaler\<close>,
  \<open>encoding.TextMarshaler\<close>) is its argument \<open>opaque\<close>. Redaction and the path test are proved for any table.
\<close>

section \<open>Tags and references\<close>

definition has_tag :: "string \<Rightarrow> bool" where
  "has_tag tag \<longleftrightarrow> tag \<noteq> '''' \<and> list_ex (\<lambda>p. trim_space p = ''secret'') (split_char (CHR '','') tag)"

record secret_ref =
  ref_scheme :: string
  ref_body :: string

text \<open>A nil function field of \<open>ResolverFunc\<close> is \<open>None\<close>.\<close>

record resolver_func =
  recognize_fn :: "(string \<Rightarrow> secret_ref option) option"
  resolve_fn :: "(secret_ref \<Rightarrow> string + string) option"   \<comment> \<open>the error text or the secret\<close>

definition recognize :: "resolver_func \<Rightarrow> string \<Rightarrow> secret_ref option" where
  "recognize f v = (case recognize_fn f of None \<Rightarrow> None | Some g \<Rightarrow> g v)"

definition resolve_ref :: "resolver_func \<Rightarrow> secret_ref \<Rightarrow> string + string" where
  "resolve_ref f r =
     (case resolve_fn f of None \<Rightarrow> Inl ''fastconf: SecretResolver has no Resolve function'' | Some g \<Rightarrow> g r)"

section \<open>Trees\<close>

text \<open>The children of a node with their path segment: map entries, or slice items by index.\<close>

fun kids :: "gval \<Rightarrow> (string \<times> gval) list" where
  "kids (GMap m) = m"
| "kids (GSlice xs) = zip (map (\<lambda>i. itoa (int i)) [0 ..< length xs]) xs"
| "kids _ = []"

definition index_keys :: "'a list \<Rightarrow> string list" where
  "index_keys xs = map (\<lambda>i. itoa (int i)) [0 ..< length xs]"

fun map_kids :: "(string \<Rightarrow> gval \<Rightarrow> gval) \<Rightarrow> gval \<Rightarrow> gval" where
  "map_kids f (GMap m) = GMap (map (\<lambda>(k, v). (k, f k v)) m)"
| "map_kids f (GSlice xs) = GSlice (map (\<lambda>(k, v). f k v) (zip (map (\<lambda>i. itoa (int i)) [0 ..< length xs]) xs))"
| "map_kids f v = v"

lemma map_kids_cong [fundef_cong]:
  "v = w \<Longrightarrow> (\<And>k x. (k, x) \<in> set (kids w) \<Longrightarrow> f k x = g k x) \<Longrightarrow> map_kids f v = map_kids g w"
  by (cases w) auto

lemma size_entry: "(k, x) \<in> set m \<Longrightarrow> size x < size (GMap m)"
  by (induction m) auto

lemma size_item: "x \<in> set xs \<Longrightarrow> size x < size (GSlice xs)"
  by (induction xs) auto

lemma size_kids [termination_simp]: "(k, x) \<in> set (kids v) \<Longrightarrow> size x < size v"
  by (cases v) (auto dest!: set_zip_rightD intro: size_item [simplified] dest: size_entry [simplified])

fun tree_get :: "gval \<Rightarrow> string list \<Rightarrow> gval option" where
  "tree_get v [] = Some v"
| "tree_get v (p # ps) = (case kv_get (kids v) p of None \<Rightarrow> None | Some x \<Rightarrow> tree_get x ps)"

section \<open>Walking the string leaves\<close>

definition walk_max_depth :: nat where "walk_max_depth = 256"

text \<open>\<open>WalkLeaves\<close>: \<open>fn\<close> sees path, string and the state its closure keeps, and may replace the string.\<close>

type_synonym 's leaf_fn = "string \<Rightarrow> string \<Rightarrow> 's \<Rightarrow> string option \<times> 's"

fun str_leaf :: "gval \<Rightarrow> string option" where
  "str_leaf (GLeaf (LStr s)) = Some s"
| "str_leaf _ = None"

fun walk_value :: "'s leaf_fn \<Rightarrow> nat \<Rightarrow> string \<Rightarrow> gval \<Rightarrow> 's \<Rightarrow> gval \<times> 's"
  and walk_map :: "'s leaf_fn \<Rightarrow> nat \<Rightarrow> string \<Rightarrow> gmap \<Rightarrow> 's \<Rightarrow> gmap \<times> 's"
  and walk_slice :: "'s leaf_fn \<Rightarrow> nat \<Rightarrow> string \<Rightarrow> nat \<Rightarrow> gval list \<Rightarrow> 's \<Rightarrow> gval list \<times> 's" where
  "walk_value fn d pre (GMap m) s =
     (if walk_max_depth < d then (GMap m, s) else (case walk_map fn d pre m s of (m', s') \<Rightarrow> (GMap m', s')))"
| "walk_value fn d pre (GSlice xs) s =
     (if walk_max_depth < d then (GSlice xs, s) else (case walk_slice fn d pre 0 xs s of (ys, s') \<Rightarrow> (GSlice ys, s')))"
| "walk_value fn d pre v s = (v, s)"
| "walk_map fn d pre [] s = ([], s)"
| "walk_map fn d pre ((k, v) # m) s =
     (case (case str_leaf v of
              Some t \<Rightarrow> (case fn (join_key pre k) t s of
                           (Some t', s') \<Rightarrow> (GStr t', s') | (None, s') \<Rightarrow> (v, s'))
            | None \<Rightarrow> walk_value fn (d + 1) (join_key pre k) v s) of
        (v', s') \<Rightarrow> (case walk_map fn d pre m s' of (m', s'') \<Rightarrow> ((k, v') # m', s'')))"
| "walk_slice fn d pre i [] s = ([], s)"
| "walk_slice fn d pre i (v # xs) s =
     (case (case str_leaf v of
              Some t \<Rightarrow> (case fn (join_key pre (itoa (int i))) t s of
                           (Some t', s') \<Rightarrow> (GStr t', s') | (None, s') \<Rightarrow> (v, s'))
            | None \<Rightarrow> walk_value fn (d + 1) (join_key pre (itoa (int i))) v s) of
        (v', s') \<Rightarrow> (case walk_slice fn d pre (i + 1) xs s' of (ys, s'') \<Rightarrow> (v' # ys, s'')))"

definition walk_leaves :: "'s leaf_fn \<Rightarrow> gval \<Rightarrow> 's \<Rightarrow> gval \<times> 's" where
  "walk_leaves fn v s = walk_value fn 0 '''' v s"

section \<open>Patterns\<close>

record pattern_plan =
  pp_tree :: "string list list"
  pp_provenance :: "string list list"

definition conservative :: "string list \<Rightarrow> string list" where
  "conservative segs = concat (map (\<lambda>s. if s = ''*'' then [s, ''**''] else [s]) segs)"

definition compile_patterns :: "string list \<Rightarrow> pattern_plan" where
  "compile_patterns patterns =
     (let segs = map (split_char (CHR ''.'')) patterns in
      \<lparr>pp_tree = segs, pp_provenance = map conservative segs\<rparr>)"

fun match_segments :: "string list \<Rightarrow> string list \<Rightarrow> bool" where
  "match_segments [] path = (path = [])"
| "match_segments (p # pat) path =
     (if p = ''**'' then list_ex (\<lambda>i. match_segments pat (drop i path)) [0 ..< Suc (length path)]
      else (case path of [] \<Rightarrow> False | q # qs \<Rightarrow> (p = ''*'' \<or> p = q) \<and> match_segments pat qs))"

definition any_match :: "string list list \<Rightarrow> string list \<Rightarrow> bool" where
  "any_match patterns path = list_ex (\<lambda>pat. match_segments pat path) patterns"

type_synonym redactor = "string \<Rightarrow> gval \<Rightarrow> gval"

fun redact_patterns :: "string list list \<Rightarrow> redactor \<Rightarrow> string list \<Rightarrow> gval \<Rightarrow> gval" where
  "redact_patterns pats red path v =
     map_kids (\<lambda>seg x. if any_match pats (path @ [seg]) then red (join_with ''.'' (path @ [seg])) x
                       else redact_patterns pats red (path @ [seg]) x) v"

declare redact_patterns.simps [simp del]

text \<open>The redactor of \<open>matchesValue\<close> only notes that it was called: some descendant matches.\<close>

fun hits :: "string list list \<Rightarrow> string list \<Rightarrow> gval \<Rightarrow> bool" where
  "hits pats path v = list_ex (\<lambda>(seg, x). any_match pats (path @ [seg]) \<or> hits pats (path @ [seg]) x) (kids v)"

declare hits.simps [simp del]

definition matches_value :: "pattern_plan \<Rightarrow> gval \<Rightarrow> string \<Rightarrow> bool" where
  "matches_value pl value path =
     (if pp_provenance pl = [] then False
      else
        (let segs = split_char (CHR ''.'') path in
         list_ex (\<lambda>pat. list_ex (\<lambda>n. match_segments pat (take n segs)) [1 ..< Suc (length segs)]) (pp_provenance pl)
         \<or> hits (pp_provenance pl) segs value))"

section \<open>The type plan\<close>

datatype tkind = KStruct | KMap | KList | KOther

record origin_field =
  of_candidates :: "string list"
  of_marked :: bool
  of_child :: rtype
  of_inline :: bool

record type_plan =
  tp_kind :: tkind
  tp_opaque :: bool
  tp_secrets :: bool
  tp_fields :: "(string \<times> bool \<times> rtype) list"   \<comment> \<open>JSON name, marked, type of the child\<close>
  tp_origins :: "origin_field list"
  tp_elem :: rtype

type_synonym plan_table = "rtype \<Rightarrow> type_plan option"

text \<open>\<open>hasSecrets\<close>.\<close>

definition own_secrets :: "tenv \<Rightarrow> rtype \<Rightarrow> bool" where
  "own_secrets env t =
     (case struct_of env t of
        None \<Rightarrow> False
      | Some fs \<Rightarrow> list_ex (\<lambda>f. (rf_exported f \<or> rf_anonymous f) \<and> has_tag (tag_get f ''fc'')) fs)"

definition has_secrets :: "tenv \<Rightarrow> rtype \<Rightarrow> bool" where
  "has_secrets env t = reaches env (own_secrets env) t"

text \<open>The loop over the index of a JSON field: whether a field on the way is tagged secret, and the type at the end. The
  indices come from \<open>JSONFields\<close>, so the last branch is not reached.\<close>

fun follow_index :: "tenv \<Rightarrow> bool \<Rightarrow> rtype \<Rightarrow> nat list \<Rightarrow> bool \<times> rtype" where
  "follow_index env marked t [] = (marked, t)"
| "follow_index env marked t (i # ix) =
     (case struct_of env (deref t) of
        Some fs \<Rightarrow>
          if i < length fs then follow_index env (marked \<or> has_tag (tag_get (fs ! i) ''fc'')) (rf_type (fs ! i)) ix
          else (marked, t)
      | None \<Rightarrow> (marked, t))"

text \<open>\<open>provenanceFields\<close>, and its loop over the fields of the struct; \<open>st\<close> are the structs being visited.\<close>

function provenance_fields :: "tenv \<Rightarrow> bool \<Rightarrow> rtype list \<Rightarrow> rtype \<Rightarrow> origin_field list"
  and provenance_loop :: "tenv \<Rightarrow> bool \<Rightarrow> rtype list \<Rightarrow> rfield list \<Rightarrow> origin_field list" where
  "provenance_fields env marked st t =
     (if t \<in> set st then []
      else case struct_of env t of None \<Rightarrow> [] | Some fs \<Rightarrow> provenance_loop env marked (t # st) fs)"
| "provenance_loop env marked st [] = []"
| "provenance_loop env marked st (f # fs) =
     (if \<not> rf_exported f \<and> \<not> rf_anonymous f then []
      else
        \<lparr>of_candidates = fn_aliases (field_names_of f), of_marked = (marked \<or> has_tag (tag_get f ''fc'')),
          of_child = deref (rf_type f), of_inline = False\<rparr> #
        (if \<not> fn_flatten (field_names_of f) \<and> \<not> yaml_inline (tag_get f ''yaml'') then []
         else (case under env (deref (rf_type f)) of
                 RStruct gs \<Rightarrow> provenance_fields env (marked \<or> has_tag (tag_get f ''fc'')) st (deref (rf_type f))
               | RMap k u \<Rightarrow> [\<lparr>of_candidates = [], of_marked = (marked \<or> has_tag (tag_get f ''fc'')),
                   of_child = deref (rf_type f), of_inline = True\<rparr>]
               | _ \<Rightarrow> []))) @
     provenance_loop env marked st fs"
  by pat_completeness auto
termination provenance_fields
proof (relation "measures [\<lambda>x. case x of Inl (env, m, st, t) \<Rightarrow> left_types env {t} st
                                     | Inr (env, m, st, fs) \<Rightarrow> left_types env (rf_type ` set fs) st,
                           \<lambda>x. case x of Inl _ \<Rightarrow> 0 | Inr (env, m, st, fs) \<Rightarrow> Suc (length fs)]", simp_all, goal_cases)
  case (1 env st t fs)
  have "rf_type ` set fs \<subseteq> universe env {t}" using struct_universe [of t env "{t}" fs] 1 by auto
  then show ?case using left_types_push [of t env "{t}"] 1 by simp
next
  case (2 env st f fs)
  have "rf_type f \<in> universe env (insert (rf_type f) (rf_type ` set fs))" by simp
  then have "deref (rf_type f) \<in> universe env (insert (rf_type f) (rf_type ` set fs))" by (rule deref_universe)
  then show ?case
    using left_types_mono [of "insert (rf_type f) (rf_type ` set fs)" "{deref (rf_type f)}" env st] by auto
next
  case (3 env st f fs)
  have "rf_type ` set fs \<subseteq> universe env (insert (rf_type f) (rf_type ` set fs))" by auto
  then show ?case
    using left_types_mono [of "insert (rf_type f) (rf_type ` set fs)" "rf_type ` set fs" env st] by auto
qed

declare provenance_fields.simps [simp del]

definition kind_of :: "tenv \<Rightarrow> rtype \<Rightarrow> tkind" where
  "kind_of env t =
     (case under env t of RStruct fs \<Rightarrow> KStruct | RMap k u \<Rightarrow> KMap | RSlice u \<Rightarrow> KList | RArray n u \<Rightarrow> KList | _ \<Rightarrow> KOther)"

text \<open>One node of \<open>Compile\<close>, and its memo: a node for every type that occurs below the root. The element of a type without
  one is the type itself; it is not read.\<close>

definition type_plan_of :: "tenv \<Rightarrow> (rtype \<Rightarrow> bool) \<Rightarrow> rtype \<Rightarrow> type_plan" where
  "type_plan_of env opaque t =
     (let kind = kind_of env t; secrets = has_secrets env t; entered = (secrets \<and> \<not> opaque t) in
      \<lparr>tp_kind = kind, tp_opaque = opaque t, tp_secrets = secrets,
        tp_fields = (if entered \<and> kind = KStruct
          then map (\<lambda>j. case follow_index env False t (jf_index j) of (marked, u) \<Rightarrow> (jf_name j, marked, deref u)) (json_fields env t)
          else []),
        tp_origins = (if entered \<and> kind = KStruct then provenance_fields env False [] t else []),
        tp_elem = (if entered
          then (case under env t of RMap k u \<Rightarrow> deref u | RSlice u \<Rightarrow> deref u | RArray n u \<Rightarrow> deref u | _ \<Rightarrow> t) else t)\<rparr>)"

definition compile_plan :: "tenv \<Rightarrow> (rtype \<Rightarrow> bool) \<Rightarrow> rtype \<Rightarrow> plan_table" where
  "compile_plan env opaque whole t = (if t \<in> universe env {whole} then Some (type_plan_of env opaque t) else None)"

definition child_secrets :: "plan_table \<Rightarrow> rtype \<Rightarrow> bool" where
  "child_secrets T c = (case T c of None \<Rightarrow> False | Some p \<Rightarrow> tp_secrets p)"

fun plan_redact :: "plan_table \<Rightarrow> redactor \<Rightarrow> rtype \<Rightarrow> string \<Rightarrow> gval \<Rightarrow> gval" where
  "plan_redact T red i path v =
     (case T i of
        None \<Rightarrow> v
      | Some p \<Rightarrow>
          if v = GNil \<or> \<not> tp_secrets p then v
          else if tp_opaque p then red path v
          else (case tp_kind p of
                  KStruct \<Rightarrow>
                    if is_map v then
                      map_kids (\<lambda>k x. case kv_get (tp_fields p) k of
                                        None \<Rightarrow> x
                                      | Some (marked, c) \<Rightarrow>
                                          if marked then red (join_key path k) x
                                          else if child_secrets T c then plan_redact T red c (join_key path k) x
                                          else x) v
                    else v
                | KList \<Rightarrow>
                    if is_map v then v else map_kids (\<lambda>k x. plan_redact T red (tp_elem p) (join_key path k) x) v
                | KMap \<Rightarrow>
                    if is_map v then map_kids (\<lambda>k x. plan_redact T red (tp_elem p) (join_key path k) x) v else v
                | KOther \<Rightarrow> v))"

declare plan_redact.simps [simp del]

definition redacted_text :: string where "redacted_text = ''***REDACTED***''"

definition default_redactor :: redactor where "default_redactor path v = GStr redacted_text"

text \<open>\<open>Plan.Apply\<close>.\<close>

definition apply_plan :: "plan_table \<Rightarrow> rtype \<Rightarrow> pattern_plan \<Rightarrow> redactor \<Rightarrow> gmap \<Rightarrow> gval" where
  "apply_plan T root_plan pats red tree =
     (let v = plan_redact T red root_plan '''' (GMap tree);
          out = (if is_map v then v else GMap [(''$redacted'', v)])
      in redact_patterns (pp_tree pats) red [] out)"

text \<open>\<open>pathHasSecrets\<close>, with fuel: one unit per call, and the answer \<open>d\<close> when it runs out.\<close>

definition fold_eq :: "string \<Rightarrow> string \<Rightarrow> bool" where
  "fold_eq a b \<longleftrightarrow> to_lower a = to_lower b"

fun candidate_rest :: "string \<Rightarrow> string list \<Rightarrow> string option" where
  "candidate_rest path [] = None"
| "candidate_rest path (name # names) =
     (if fold_eq path name then Some ''''
      else if length name < length path \<and> path ! length name = CHR ''.'' \<and> fold_eq (take (length name) path) name
      then Some (drop (length name + 1) path)
      else candidate_rest path names)"

definition after_dot :: "string \<Rightarrow> string" where
  "after_dot path = tl (dropWhile (\<lambda>c. c \<noteq> CHR ''.'') path)"

text \<open>Every path the map loop tries: what follows each dot, and the empty rest at the end.\<close>

fun rests :: "string \<Rightarrow> string list" where
  "rests [] = [[]]"
| "rests (c # path) = (if c = CHR ''.'' then path # rests path else rests path)"

fun path_has_secrets :: "plan_table \<Rightarrow> bool \<Rightarrow> nat \<Rightarrow> rtype \<Rightarrow> string \<Rightarrow> bool" where
  "path_has_secrets T d 0 i path = d"
| "path_has_secrets T d (Suc n) i path =
     (case T i of
        None \<Rightarrow> False
      | Some p \<Rightarrow>
          if \<not> tp_secrets p then False
          else if path = '''' \<or> tp_opaque p then True
          else (case tp_kind p of
                  KStruct \<Rightarrow>
                    list_ex (\<lambda>f. of_inline f \<and> (of_marked f \<or> path_has_secrets T d n (of_child f) path) \<or>
                                 (case candidate_rest path (of_candidates f) of
                                    None \<Rightarrow> False
                                  | Some rest \<Rightarrow> of_marked f \<or> path_has_secrets T d n (of_child f) rest))
                      (tp_origins p)
                | KMap \<Rightarrow> list_ex (path_has_secrets T d n (tp_elem p)) (rests path)
                | KList \<Rightarrow> path_has_secrets T d n (tp_elem p) (after_dot path)
                | KOther \<Rightarrow> False))"

text \<open>\<open>PathHasSecrets\<close>.\<close>

definition plan_path_has_secrets :: "plan_table \<Rightarrow> rtype \<Rightarrow> string \<Rightarrow> bool" where
  "plan_path_has_secrets T i path = path_has_secrets T True (2 * length path + 2) i path"

text \<open>\<open>PatternsMatch\<close> or \<open>PathHasSecrets\<close>: what \<open>Explain\<close> and the diff mask by provenance path.\<close>

definition patterns_match :: "pattern_plan \<Rightarrow> string \<Rightarrow> gval \<Rightarrow> bool" where
  "patterns_match pats path value = matches_value pats value path"

section \<open>Patterns and their meaning\<close>

text \<open>A pattern matches a path that splits into one segment per literal and \<open>*\<close> and any run per \<open>**\<close>.\<close>

definition pattern_split :: "string list \<Rightarrow> string list list \<Rightarrow> bool" where
  "pattern_split pat runs \<longleftrightarrow>
     list_all2 (\<lambda>p part. if p = ''**'' then True else \<exists>q. part = [q] \<and> (p = ''*'' \<or> p = q)) pat runs"

lemma pattern_split_Cons:
  "pattern_split (p # pat) runs \<longleftrightarrow>
     (\<exists>part rest. runs = part # rest \<and> (p = ''**'' \<or> (\<exists>q. part = [q] \<and> (p = ''*'' \<or> p = q))) \<and> pattern_split pat rest)"
  by (cases runs) (auto simp: pattern_split_def)

lemma ex_pattern_split:
  "(\<exists>runs. concat runs = path \<and> pattern_split (p # pat) runs) \<longleftrightarrow>
     (\<exists>part rest. path = part @ concat rest \<and> (p = ''**'' \<or> (\<exists>q. part = [q] \<and> (p = ''*'' \<or> p = q))) \<and> pattern_split pat rest)"
  unfolding pattern_split_Cons by (metis concat.simps(2))

lemma ex_single:
  "(\<exists>part rest. path = part @ concat rest \<and> (\<exists>q. part = [q] \<and> C q) \<and> S rest) \<longleftrightarrow>
     (\<exists>q rest. path = q # concat rest \<and> C q \<and> S rest)"
proof
  assume "\<exists>q rest. path = q # concat rest \<and> C q \<and> S rest"
  then obtain q rest where "path = q # concat rest" "C q" "S rest" by blast
  then show "\<exists>part rest. path = part @ concat rest \<and> (\<exists>q. part = [q] \<and> C q) \<and> S rest"
    by (intro exI [of _ "[q]"] exI [of _ rest]) simp
qed auto

lemma ex_drop_iff: "(\<exists>i \<le> length xs. Q (drop i xs)) \<longleftrightarrow> (\<exists>part rest. xs = part @ rest \<and> Q rest)"
proof
  assume "\<exists>i \<le> length xs. Q (drop i xs)"
  then obtain i where "Q (drop i xs)" by blast
  then show "\<exists>part rest. xs = part @ rest \<and> Q rest"
    by (intro exI [of _ "take i xs"] exI [of _ "drop i xs"]) simp
next
  assume "\<exists>part rest. xs = part @ rest \<and> Q rest"
  then obtain part rest where "xs = part @ rest" "Q rest" by blast
  then show "\<exists>i \<le> length xs. Q (drop i xs)" by (intro exI [of _ "length part"]) simp
qed

lemma match_segments_iff: "match_segments pat path \<longleftrightarrow> (\<exists>runs. concat runs = path \<and> pattern_split pat runs)"
proof (induction pat arbitrary: path)
  case Nil
  then show ?case by (auto simp: pattern_split_def)
next
  case (Cons p pat)
  show ?case
  proof (cases "p = ''**''")
    case True
    have "match_segments (p # pat) path \<longleftrightarrow> (\<exists>i \<le> length path. match_segments pat (drop i path))"
      using True by (auto simp: list_ex_iff less_Suc_eq_le simp del: upt_Suc)
    also have "\<dots> \<longleftrightarrow> (\<exists>part rest. path = part @ rest \<and> match_segments pat rest)"
      by (rule ex_drop_iff)
    also have "\<dots> \<longleftrightarrow> (\<exists>part runs. path = part @ concat runs \<and> pattern_split pat runs)"
      by (auto simp: Cons.IH)
    also have "\<dots> \<longleftrightarrow> (\<exists>runs. concat runs = path \<and> pattern_split (p # pat) runs)"
      using True by (simp add: ex_pattern_split)
    finally show ?thesis .
  next
    case False
    have "match_segments (p # pat) path \<longleftrightarrow> (\<exists>q qs. path = q # qs \<and> (p = ''*'' \<or> p = q) \<and> match_segments pat qs)"
      using False by (auto split: list.split)
    also have "\<dots> \<longleftrightarrow> (\<exists>q runs. path = q # concat runs \<and> (p = ''*'' \<or> p = q) \<and> pattern_split pat runs)"
      by (auto simp: Cons.IH)
    also have "\<dots> \<longleftrightarrow> (\<exists>runs. concat runs = path \<and> pattern_split (p # pat) runs)"
      using False by (simp add: ex_pattern_split ex_single)
    finally show ?thesis .
  qed
qed

section \<open>Masking\<close>

lemma kids_map_kids: "kids (map_kids f v) = map (\<lambda>(k, x). (k, f k x)) (kids v)"
  by (cases v) (auto intro!: nth_equalityI)

lemma kv_get_map_both: "kv_get (map (\<lambda>(k, x). (k, f k x)) m) k = map_option (f k) (kv_get m k)"
  by (induction m) auto

lemma kids_get_map [simp]: "kv_get (kids (map_kids f v)) k = map_option (f k) (kv_get (kids v) k)"
  by (simp add: kids_map_kids kv_get_map_both)

lemma map_kids_leaf: "kids v = [] \<Longrightarrow> map_kids f v = v"
  by (cases v) auto

lemma is_map_map_kids [simp]: "is_map (map_kids f v) = is_map v"
  by (cases v) auto

lemma tree_get_redact:
  "tree_get (redact_patterns pats red path v) (p # ps) =
     (case kv_get (kids v) p of
        None \<Rightarrow> None
      | Some x \<Rightarrow> if any_match pats (path @ [p]) then tree_get (red (join_with ''.'' (path @ [p])) x) ps
                  else tree_get (redact_patterns pats red (path @ [p]) x) ps)"
  by (subst redact_patterns.simps) (auto split: option.split)

lemma redact_patterns_leaf: "kids x = [] \<Longrightarrow> redact_patterns pats red path x = x"
  by (subst redact_patterns.simps) (rule map_kids_leaf)

definition masked :: "gval option \<Rightarrow> bool" where
  "masked r \<longleftrightarrow> r = None \<or> r = Some (GStr redacted_text)"

lemma default_apply: "default_redactor path v = GStr redacted_text"
  by (simp add: default_redactor_def)

lemma masked_below [simp]: "masked (tree_get (GStr redacted_text) ps)"
  by (cases ps) (simp_all add: masked_def)

definition pattern_covers :: "string list list \<Rightarrow> string list \<Rightarrow> string list \<Rightarrow> bool" where
  "pattern_covers pats path ps \<longleftrightarrow> list_ex (\<lambda>n. any_match pats (path @ take (Suc n) ps)) [0 ..< length ps]"

lemma pattern_covers_Cons:
  "pattern_covers pats path (p # ps) \<longleftrightarrow> any_match pats (path @ [p]) \<or> pattern_covers pats (path @ [p]) ps"
proof -
  have "pattern_covers pats path ps \<longleftrightarrow> (\<exists>n < length ps. any_match pats (path @ take (Suc n) ps))" for path ps
    by (auto simp: pattern_covers_def list_ex_iff)
  then show ?thesis by (simp add: Ex_less_Suc2)
qed

lemma pattern_covers_Nil [simp]: "\<not> pattern_covers pats path []"
  by (simp add: pattern_covers_def)

lemma redact_patterns_at:
  "\<not> pattern_covers pats path ps \<Longrightarrow>
   tree_get (redact_patterns pats red path v) ps = map_option (redact_patterns pats red (path @ ps)) (tree_get v ps)"
proof (induction ps arbitrary: path v)
  case (Cons p ps)
  then show ?case by (subst tree_get_redact) (auto simp: pattern_covers_Cons split: option.split)
qed simp

lemma redact_patterns_covers:
  "pattern_covers pats path ps \<Longrightarrow> masked (tree_get (redact_patterns pats default_redactor path v) ps)"
proof (induction ps arbitrary: path v)
  case (Cons p ps)
  show ?case
  proof (cases "kv_get (kids v) p")
    case None
    then show ?thesis by (subst tree_get_redact) (simp add: masked_def)
  next
    case (Some x)
    then show ?thesis
      using Cons by (subst tree_get_redact)
        (auto simp: pattern_covers_Cons default_apply [of "join_with ''.'' (path @ [p])" x])
  qed
qed simp

lemma redact_patterns_masked:
  "masked (tree_get v ps) \<Longrightarrow> masked (tree_get (redact_patterns pats default_redactor path v) ps)"
proof (cases "pattern_covers pats path ps")
  case False
  assume "masked (tree_get v ps)"
  moreover have "redact_patterns pats default_redactor q (GStr redacted_text) = GStr redacted_text" for q
    by (subst redact_patterns.simps) simp
  ultimately show ?thesis using redact_patterns_at [OF False] by (auto simp: masked_def)
qed (rule redact_patterns_covers)

text \<open>The value at a path lies at or below a marked field, or in a value of an opaque type with secrets.\<close>

fun typed_secret :: "plan_table \<Rightarrow> rtype \<Rightarrow> gval \<Rightarrow> string list \<Rightarrow> bool" where
  "typed_secret T i v ps =
     (case T i of
        None \<Rightarrow> False
      | Some p \<Rightarrow>
          if v = GNil \<or> \<not> tp_secrets p then False
          else if tp_opaque p then True
          else (case ps of
                  [] \<Rightarrow> False
                | q # qs \<Rightarrow>
                    (case kv_get (kids v) q of
                       None \<Rightarrow> False
                     | Some x \<Rightarrow>
                         (case tp_kind p of
                            KStruct \<Rightarrow> is_map v \<and> (case kv_get (tp_fields p) q of
                                                  None \<Rightarrow> False
                                                | Some (marked, c) \<Rightarrow> marked \<or> child_secrets T c \<and> typed_secret T c x qs)
                          | KList \<Rightarrow> \<not> is_map v \<and> typed_secret T (tp_elem p) x qs
                          | KMap \<Rightarrow> is_map v \<and> typed_secret T (tp_elem p) x qs
                          | KOther \<Rightarrow> False))))"

declare typed_secret.simps [simp del]

lemma plan_redact_step:
  assumes "T i = Some p" "v \<noteq> GNil" "tp_secrets p" "\<not> tp_opaque p"
  shows "tree_get (plan_redact T red i path v) (q # qs) =
    (case kv_get (kids v) q of
       None \<Rightarrow> None
     | Some x \<Rightarrow> tree_get
         (case tp_kind p of
            KStruct \<Rightarrow> if is_map v then (case kv_get (tp_fields p) q of
                         None \<Rightarrow> x
                       | Some (marked, c) \<Rightarrow> if marked then red (join_key path q) x
                                             else if child_secrets T c then plan_redact T red c (join_key path q) x else x) else x
          | KList \<Rightarrow> if is_map v then x else plan_redact T red (tp_elem p) (join_key path q) x
          | KMap \<Rightarrow> if is_map v then plan_redact T red (tp_elem p) (join_key path q) x else x
          | KOther \<Rightarrow> x) qs)"
  using assms by (cases "tp_kind p"; cases "kv_get (kids v) q"; subst plan_redact.simps; simp split: option.split prod.split)

lemma plan_redact_masks:
  "typed_secret T i v ps \<Longrightarrow> masked (tree_get (plan_redact T default_redactor i path v) ps)"
proof (induction ps arbitrary: i path v)
  case Nil
  then show ?case
    by (subst plan_redact.simps)
      (auto simp: typed_secret.simps masked_def default_apply [of path v] split: option.splits if_splits)
next
  case (Cons q qs)
  from Cons.prems obtain p where p: "T i = Some p" "v \<noteq> GNil" "tp_secrets p"
    by (subst (asm) typed_secret.simps) (auto split: option.splits if_splits)
  show ?case
  proof (cases "tp_opaque p")
    case True
    have "plan_redact T default_redactor i path v = GStr redacted_text"
      using p True by (subst plan_redact.simps) (simp add: default_apply [of path v])
    then show ?thesis by (simp only: masked_below)
  next
    case False
    from Cons.prems p False obtain x where x: "kv_get (kids v) q = Some x"
      by (subst (asm) typed_secret.simps) (auto split: option.splits)
    show ?thesis
      using Cons.prems Cons.IH p False x
      by (subst plan_redact_step [of T i, OF p False], subst (asm) typed_secret.simps)
        (auto simp: default_apply [of "join_key path q" x] split: option.splits tkind.splits)
  qed
qed

lemma plan_redact_keeps:
  "\<not> typed_secret T i v ps \<Longrightarrow> tree_get v ps = Some x \<Longrightarrow> kids x = [] \<Longrightarrow>
   tree_get (plan_redact T red i path v) ps = Some x"
proof (induction ps arbitrary: i path v)
  case Nil
  then show ?case
    by (subst plan_redact.simps) (auto simp: typed_secret.simps map_kids_leaf split: option.splits tkind.splits)
next
  case (Cons q qs)
  show ?case
  proof (cases "\<exists>p. T i = Some p \<and> v \<noteq> GNil \<and> tp_secrets p")
    case False
    then have "plan_redact T red i path v = v" by (subst plan_redact.simps) (auto split: option.split)
    then show ?thesis using Cons.prems by simp
  next
    case True
    then obtain p where p: "T i = Some p" "v \<noteq> GNil" "tp_secrets p" by blast
    have "typed_secret T i v (q # qs)" if "tp_opaque p"
      using p that by (subst typed_secret.simps) simp
    then have np: "\<not> tp_opaque p" using Cons.prems(1) by blast
    obtain y where y: "kv_get (kids v) q = Some y" "tree_get y qs = Some x"
      using Cons.prems(2) by (auto split: option.splits)
    show ?thesis
      using Cons.prems(1,3) Cons.IH [OF _ y(2)] p np y
      by (subst plan_redact_step [of T i, OF p np], subst (asm) typed_secret.simps)
        (auto split: option.splits tkind.splits)
  qed
qed

section \<open>What a dump hides\<close>

lemma apply_plan_map:
  assumes "is_map (plan_redact T red i '''' (GMap tree))"
  shows "apply_plan T i pats red tree = redact_patterns (pp_tree pats) red [] (plan_redact T red i '''' (GMap tree))"
  using assms by (simp add: apply_plan_def Let_def)

lemma plan_redact_opaque_root:
  assumes "\<not> is_map (plan_redact T default_redactor i '''' (GMap tree))"
  shows "plan_redact T default_redactor i '''' (GMap tree) = GStr redacted_text"
  using assms
  by (subst (asm) plan_redact.simps, subst plan_redact.simps)
    (auto simp: default_apply [of "''''" "GMap tree"] split: option.splits tkind.splits if_splits)

lemma plan_redact_map:
  assumes "\<not> typed_secret T i (GMap tree) []"
  shows "is_map (plan_redact T red i path (GMap tree))"
  using assms
  by (subst plan_redact.simps, subst (asm) typed_secret.simps) (auto split: option.splits tkind.splits if_splits)

lemma apply_plan_masks:
  assumes "ps \<noteq> []" "typed_secret T i (GMap tree) ps \<or> pattern_covers (pp_tree pats) [] ps"
  shows "masked (tree_get (apply_plan T i pats default_redactor tree) ps)"
proof (cases "is_map (plan_redact T default_redactor i '''' (GMap tree))")
  case True
  then show ?thesis
    using assms(2) by (auto simp: apply_plan_map intro: redact_patterns_covers redact_patterns_masked plan_redact_masks)
next
  case False
  obtain q qs where ps: "ps = q # qs" using assms(1) by (cases ps) auto
  have "masked (tree_get (GMap [(''$redacted'', GStr redacted_text)]) ps)"
    using ps masked_below [of qs] by (auto simp: masked_def)
  then show ?thesis
    using False plan_redact_opaque_root [OF False] by (simp add: apply_plan_def redact_patterns_masked)
qed

lemma apply_plan_keeps:
  assumes "\<not> typed_secret T i (GMap tree) ps" "\<not> pattern_covers (pp_tree pats) [] ps"
    "tree_get (GMap tree) ps = Some x" "kids x = []"
  shows "tree_get (apply_plan T i pats red tree) ps = Some x"
proof -
  have "\<not> typed_secret T i (GMap tree) []"
    using assms(1) by (subst typed_secret.simps, subst (asm) typed_secret.simps) (auto split: option.splits)
  then show ?thesis
    using assms redact_patterns_at [OF assms(2)] plan_redact_keeps [OF assms(1,3,4)]
    by (simp add: apply_plan_map [OF plan_redact_map] redact_patterns_leaf)
qed

text \<open>C28. With the default redactor, the value at a path that a field tag, an opaque type with secrets or a
  \<open>WithSecretPaths\<close> pattern covers is the mask, or is absent because a prefix of the path is masked: no part of a
  secret survives. A leaf that nothing covers is kept as it is, whatever the redactor does.\<close>

theorem secrets_masked:
  assumes "ps \<noteq> []"
  shows "(typed_secret T i (GMap tree) ps \<or> pattern_covers (pp_tree (compile_patterns patterns)) [] ps \<longrightarrow>
      masked (tree_get (apply_plan T i (compile_patterns patterns) default_redactor tree) ps)) \<and>
    (\<not> typed_secret T i (GMap tree) ps \<and> \<not> pattern_covers (pp_tree (compile_patterns patterns)) [] ps \<and>
      tree_get (GMap tree) ps = Some x \<and> kids x = [] \<longrightarrow>
      tree_get (apply_plan T i (compile_patterns patterns) red tree) ps = Some x)"
  using apply_plan_masks [OF assms, of T i tree "compile_patterns patterns"]
    apply_plan_keeps [of T i tree ps "compile_patterns patterns" x red]
  by blast

definition demo_types :: plan_table where
  "demo_types i =
     (if i = RNamed 0 then Some \<lparr>tp_kind = KStruct, tp_opaque = False, tp_secrets = True,
        tp_fields = [(''db'', False, RNamed 1), (''name'', False, RNamed 2)], tp_origins = [], tp_elem = RNamed 9\<rparr>
      else if i = RNamed 1 then Some \<lparr>tp_kind = KStruct, tp_opaque = False, tp_secrets = True,
        tp_fields = [(''pass'', True, RNamed 2), (''user'', False, RNamed 2)], tp_origins = [], tp_elem = RNamed 9\<rparr>
      else if i = RNamed 2 then Some \<lparr>tp_kind = KOther, tp_opaque = False, tp_secrets = False,
        tp_fields = [], tp_origins = [], tp_elem = RNamed 9\<rparr>
      else None)"

definition demo_tree :: gmap where
  "demo_tree = [(''db'', GMap [(''pass'', GStr ''hunter2''), (''user'', GStr ''me'')]), (''name'', GStr ''svc'')]"

lemma demo_typed:
  "typed_secret demo_types (RNamed 0) (GMap demo_tree) [''db'', ''pass'']"
  "\<not> typed_secret demo_types (RNamed 0) (GMap demo_tree) [''db'', ''user'']"
  by (simp_all add: typed_secret.simps demo_types_def demo_tree_def child_secrets_def)

lemma demo_covers:
  "pattern_covers (pp_tree (compile_patterns [''name''])) [] [''name'']"
  "\<not> pattern_covers (pp_tree (compile_patterns [''name''])) [] [''db'', ''user'']"
  by code_simp+

theorem secrets_masked_witness:
  "masked (tree_get (apply_plan demo_types (RNamed 0) (compile_patterns [''name'']) default_redactor demo_tree) [''db'', ''pass'']) \<and>
   tree_get (apply_plan demo_types (RNamed 0) (compile_patterns [''name'']) default_redactor demo_tree) [''db'', ''user''] = Some (GStr ''me'')"
proof -
  have leaf: "tree_get (GMap demo_tree) [''db'', ''user''] = Some (GStr ''me'')" by (simp add: demo_tree_def)
  show ?thesis
    using secrets_masked [of "[''db'', ''pass'']" demo_types "RNamed 0" demo_tree "[''name'']"]
      secrets_masked [of "[''db'', ''user'']" demo_types "RNamed 0" demo_tree "[''name'']" "GStr ''me''" default_redactor]
      demo_typed demo_covers leaf
    by simp
qed

text \<open>A pattern matches a path exactly when the path splits into one segment for every literal, equal to it, one
  segment for every \<open>*\<close>, and any run of segments, possibly empty, for every \<open>**\<close>.\<close>

theorem pattern_match_spec:
  "match_segments pat path \<longleftrightarrow> (\<exists>runs. concat runs = path \<and> pattern_split pat runs)"
  by (rule match_segments_iff)

section \<open>The path test ends\<close>

text \<open>An inline field of \<open>origins\<close> is a map: \<open>provenanceFields\<close> adds it for the kind \<open>reflect.Map\<close> only.\<close>

definition inline_maps :: "plan_table \<Rightarrow> bool" where
  "inline_maps T \<longleftrightarrow> (\<forall>i p f c. T i = Some p \<longrightarrow> f \<in> set (tp_origins p) \<longrightarrow> of_inline f \<longrightarrow>
     T (of_child f) = Some c \<longrightarrow> tp_kind c = KMap)"

definition struct_at :: "plan_table \<Rightarrow> rtype \<Rightarrow> nat" where
  "struct_at T i = (case T i of Some p \<Rightarrow> if tp_kind p = KStruct then 1 else 0 | None \<Rightarrow> 0)"

lemma after_dot_shorter: "path \<noteq> '''' \<Longrightarrow> length (after_dot path) < length path"
  using length_dropWhile_le [of "\<lambda>c. c \<noteq> CHR ''.''" path] by (cases path) (auto simp: after_dot_def)

lemma rests_shorter: "r \<in> set (rests path) \<Longrightarrow> path \<noteq> '''' \<Longrightarrow> length r < length path"
proof (induction path)
  case (Cons c path)
  then show ?case by (cases "path = ''''") (auto split: if_splits)
qed simp

lemma candidate_rest_shorter: "candidate_rest path names = Some r \<Longrightarrow> path \<noteq> '''' \<Longrightarrow> length r < length path"
  by (induction names) (auto split: if_splits)

lemma struct_at_le: "struct_at T i \<le> 1"
  by (simp add: struct_at_def split: option.split)

lemma list_ex_cong: "(\<And>x. x \<in> set xs \<Longrightarrow> P x = Q x) \<Longrightarrow> list_ex P xs = list_ex Q xs"
  by (auto simp: list_ex_iff)

lemma path_fuel:
  "inline_maps T \<Longrightarrow> 2 * length path + struct_at T i < n \<Longrightarrow> 2 * length path + struct_at T i < m \<Longrightarrow>
   path_has_secrets T d n i path = path_has_secrets T e m i path"
proof (induction n arbitrary: m i path)
  case (Suc n)
  then obtain m' where m: "m = Suc m'" by (cases m) auto
  have shorter: "path_has_secrets T d n j r = path_has_secrets T e m' j r" if "length r < length path" for j r
    using Suc.prems that m struct_at_le [of T j] by (intro Suc.IH) auto
  have inl: "path_has_secrets T d n (of_child f) path = path_has_secrets T e m' (of_child f) path"
    if "T i = Some p" "tp_kind p = KStruct" "f \<in> set (tp_origins p)" "of_inline f" for p f
  proof -
    have "struct_at T (of_child f) = 0"
      using Suc.prems(1) that by (auto simp: inline_maps_def struct_at_def split: option.split)
    moreover have "struct_at T i = 1" using that by (simp add: struct_at_def)
    ultimately show ?thesis using Suc.prems m by (intro Suc.IH) auto
  qed
  have cand: "path_has_secrets T d n c r = path_has_secrets T e m' c r"
    if "path \<noteq> ''''" "candidate_rest path names = Some r" for c r names
    using shorter candidate_rest_shorter [OF that(2,1)] by blast
  show ?case
  proof (cases "\<exists>p. T i = Some p \<and> tp_secrets p \<and> \<not> tp_opaque p \<and> path \<noteq> ''''")
    case False
    then show ?thesis using m by (auto split: option.split)
  next
    case True
    then obtain p where p: "T i = Some p" "tp_secrets p" "\<not> tp_opaque p" "path \<noteq> ''''" by blast
    show ?thesis
    proof (cases "tp_kind p")
      case KStruct
      then show ?thesis
        using p m inl cand by (auto intro!: list_ex_cong split: option.split)
    next
      case KMap
      have "\<forall>r \<in> set (rests path). path_has_secrets T d n (tp_elem p) r = path_has_secrets T e m' (tp_elem p) r"
        using shorter rests_shorter p by blast
      then show ?thesis using KMap p m by (auto intro!: list_ex_cong)
    next
      case KList
      then show ?thesis using shorter [OF after_dot_shorter] p m by simp
    qed (use p m in simp)
  qed
qed simp

text \<open>The test of a provenance path against the type always ends, in recursive types too: with more fuel than
  twice the length of the path the answer depends neither on the fuel nor on what the model answers without fuel, so the
  code makes that many nested calls at most.\<close>

theorem secret_path_test_ends:
  assumes "inline_maps T" "2 * length path + 2 \<le> n"
  shows "path_has_secrets T d n i path = plan_path_has_secrets T i path"
  using assms struct_at_le [of T i]
  unfolding plan_path_has_secrets_def by (intro path_fuel) auto

definition cyclic_types :: plan_table where
  "cyclic_types i =
     (if i = RNamed 0 then Some \<lparr>tp_kind = KStruct, tp_opaque = False, tp_secrets = True, tp_fields = [],
        tp_origins = [\<lparr>of_candidates = [''next''], of_marked = False, of_child = RNamed 0, of_inline = False\<rparr>,
                      \<lparr>of_candidates = [''token''], of_marked = True, of_child = RNamed 7, of_inline = False\<rparr>], tp_elem = RNamed 7\<rparr>
      else None)"

theorem secret_path_test_ends_witness:
  "path_has_secrets cyclic_types False 100 (RNamed 0) ''Next.next.token.x'' \<and> \<not> path_has_secrets cyclic_types True 100 (RNamed 0) ''next.other''"
proof -
  have v: "plan_path_has_secrets cyclic_types (RNamed 0) ''Next.next.token.x''" "\<not> plan_path_has_secrets cyclic_types (RNamed 0) ''next.other''"
    by code_simp+
  have "inline_maps cyclic_types" by (auto simp: inline_maps_def cyclic_types_def split: if_splits)
  then show ?thesis
    using secret_path_test_ends [of cyclic_types "''Next.next.token.x''" 100 False "RNamed 0"]
      secret_path_test_ends [of cyclic_types "''next.other''" 100 True "RNamed 0"]
      v by simp
qed

end
