(* ===== verification/Diff.thy ===== *)
theory Diff
  imports Secret Patch
begin

text \<open>
  \<open>diff.go\<close>, \<open>dump.go\<close> and the views of \<open>state.go\<close>: what a reader of two snapshots is shown. \<open>json.Marshal\<close> is the
  argument \<open>js\<close>, \<open>utf8.ValidString\<close> the argument \<open>vu\<close>; a tree is the JSON form of a snapshot's value.
\<close>

section \<open>Differences\<close>

datatype diff_change = DiffAdded | DiffRemoved | DiffModified

fun diff_change_string :: "diff_change \<Rightarrow> string" where
  "diff_change_string DiffAdded = ''added''"
| "diff_change_string DiffRemoved = ''removed''"
| "diff_change_string DiffModified = ''modified''"

record diff_entry =
  de_path :: string
  de_change :: diff_change
  de_before :: gval
  de_after :: gval

record segmented_diff = diff_entry +
  sd_segs :: "string list"

text \<open>\<open>jsonEqual\<close>: scalars of one type are compared directly, everything else by its JSON text.\<close>

definition json_text_equal :: "(gval \<Rightarrow> string option) \<Rightarrow> gval \<Rightarrow> gval \<Rightarrow> bool" where
  "json_text_equal js a b \<longleftrightarrow>
     (case js a of None \<Rightarrow> '''' | Some s \<Rightarrow> s) = (case js b of None \<Rightarrow> '''' | Some s \<Rightarrow> s)"

definition json_equal :: "(gval \<Rightarrow> string option) \<Rightarrow> (string \<Rightarrow> bool) \<Rightarrow> gval \<Rightarrow> gval \<Rightarrow> bool" where
  "json_equal js vu a b =
     (case a of
        GLeaf (LStr s) \<Rightarrow>
          (case str_leaf b of
             Some t \<Rightarrow> if vu s \<and> vu t then s = t else json_text_equal js a b
           | None \<Rightarrow> json_text_equal js a b)
      | GLeaf LNil \<Rightarrow> a = b \<or> json_text_equal js a b
      | GLeaf (LBool c) \<Rightarrow> a = b \<or> json_text_equal js a b
      | GLeaf (LNumber n) \<Rightarrow> a = b \<or> json_text_equal js a b
      | _ \<Rightarrow> json_text_equal js a b)"

definition all_keys :: "gmap \<Rightarrow> gmap \<Rightarrow> string list" where
  "all_keys a b = sort (remdups (keys a @ keys b))"

fun both_maps :: "gval \<Rightarrow> gval \<Rightarrow> (gmap \<times> gmap) option" where
  "both_maps (GMap a) (GMap b) = Some (a, b)"
| "both_maps _ _ = None"

definition diff_row :: "string list \<Rightarrow> diff_change \<Rightarrow> gval \<Rightarrow> gval \<Rightarrow> segmented_diff" where
  "diff_row path c x y =
     \<lparr>de_path = join_with ''.'' path, de_change = c, de_before = x, de_after = y, sd_segs = path\<rparr>"

lemma both_maps_Some: "both_maps x y = Some (a, b) \<longleftrightarrow> x = GMap a \<and> y = GMap b"
  by (cases "(x, y)" rule: both_maps.cases) auto

function append_diffs :: "(gval \<Rightarrow> gval \<Rightarrow> bool) \<Rightarrow> string list \<Rightarrow> gmap \<Rightarrow> gmap \<Rightarrow> segmented_diff list" where
  "append_diffs eq pre a b =
     concat (map (\<lambda>k.
       case kv_get a k of
         None \<Rightarrow> (case kv_get b k of None \<Rightarrow> [] | Some y \<Rightarrow> [diff_row (pre @ [k]) DiffAdded GNil y])
       | Some x \<Rightarrow>
           (case kv_get b k of
              None \<Rightarrow> [diff_row (pre @ [k]) DiffRemoved x GNil]
            | Some y \<Rightarrow>
                (case both_maps x y of
                   Some (ma, mb) \<Rightarrow> append_diffs eq (pre @ [k]) ma mb
                 | None \<Rightarrow> if eq x y then [] else [diff_row (pre @ [k]) DiffModified x y])))
       (all_keys a b))"
  by pat_completeness auto
termination
  by (relation "measure (\<lambda>(eq, pre, a, b). size (GMap a))") (auto simp: both_maps_Some dest: size_kv_get)

declare append_diffs.simps [simp del]

definition diff_maps :: "(gval \<Rightarrow> gval \<Rightarrow> bool) \<Rightarrow> gmap \<Rightarrow> gmap \<Rightarrow> segmented_diff list" where
  "diff_maps eq a b = append_diffs eq [] a b"

text \<open>\<open>FormatDiff\<close>; \<open>fv\<close> is what \<open>fmt\<close> prints for \<open>%v\<close>.\<close>

definition format_entry :: "(gval \<Rightarrow> string) \<Rightarrow> diff_entry \<Rightarrow> string" where
  "format_entry fv e =
     (case de_change e of
        DiffAdded \<Rightarrow> ''+ '' @ de_path e @ '' = '' @ fv (de_after e)
      | DiffRemoved \<Rightarrow> ''- '' @ de_path e @ '' = '' @ fv (de_before e)
      | DiffModified \<Rightarrow> ''~ '' @ de_path e @ '' : '' @ fv (de_before e) @ '' -> '' @ fv (de_after e))"

definition format_diff :: "(gval \<Rightarrow> string) \<Rightarrow> diff_entry list \<Rightarrow> string list" where
  "format_diff fv es = map (format_entry fv) es"

section \<open>Views of a snapshot\<close>

text \<open>What the views read of a snapshot: the JSON tree of its value, the plan compiled from its type and patterns, and
  the redactor. A nil snapshot, or one whose value cannot be encoded, has no tree.\<close>

record snapshot_view =
  sv_tree :: "gmap option"
  sv_types :: plan_table
  sv_root :: rtype
  sv_patterns :: pattern_plan
  sv_redactor :: "redactor option"

definition display_redactor :: "snapshot_view \<Rightarrow> redactor" where
  "display_redactor s = (case sv_redactor s of None \<Rightarrow> default_redactor | Some r \<Rightarrow> r)"

definition view_tree :: "snapshot_view \<Rightarrow> redactor option \<Rightarrow> gmap option" where
  "view_tree s red =
     (case red of
        None \<Rightarrow> sv_tree s
      | Some r \<Rightarrow>
          (case sv_tree s of
             None \<Rightarrow> None
           | Some tree \<Rightarrow> as_map (apply_plan (sv_types s) (sv_root s) (sv_patterns s) r tree)))"

definition state_map :: "snapshot_view \<Rightarrow> gmap option" where
  "state_map s = view_tree s (Some (display_redactor s))"

definition unredacted_map :: "snapshot_view \<Rightarrow> gmap option" where
  "unredacted_map s = view_tree s None"

text \<open>\<open>Explain\<close>: the origins of a path, with the values of secrets passed through the redactor.\<close>

definition state_explain :: "snapshot_view \<Rightarrow> index option \<Rightarrow> string \<Rightarrow> origin list" where
  "state_explain s ix path =
     map (\<lambda>oo. if or_value oo \<noteq> GNil \<and> (plan_path_has_secrets (sv_types s) (sv_root s) path \<or>
                                       patterns_match (sv_patterns s) path (or_value oo))
               then oo\<lparr>or_value := display_redactor s path (or_value oo)\<rparr> else oo)
       (explain ix path)"

fun tree_entries :: "gmap option \<Rightarrow> gmap" where
  "tree_entries None = []"
| "tree_entries (Some m) = m"

definition shown :: "gmap option \<Rightarrow> string list \<Rightarrow> gval" where
  "shown doc segs = (case get_at doc segs of None \<Rightarrow> GNil | Some v \<Rightarrow> v)"

definition diagnostic_diff :: "(gval \<Rightarrow> gval \<Rightarrow> bool) \<Rightarrow> snapshot_view \<Rightarrow> snapshot_view \<Rightarrow> segmented_diff list" where
  "diagnostic_diff eq s t =
     map (\<lambda>e. e\<lparr>de_before := shown (state_map s) (sd_segs e), de_after := shown (state_map t) (sd_segs e)\<rparr>)
       (diff_maps eq (tree_entries (sv_tree s)) (tree_entries (sv_tree t)))"

section \<open>Dumps\<close>

datatype dump_format = DumpYAML | DumpJSON | DumpTOML

text \<open>What \<open>tomlValue\<close> builds: \<open>tomlNumber\<close> marks a number, other values pass through.\<close>

datatype toml_tree = TNumber string | TMap "(string \<times> toml_tree) list" | TSlice "toml_tree list" | TOther gval

text \<open>\<open>tomlValue\<close>; the error names the path of the null. A nil map or slice becomes an empty one.\<close>

fun toml_value :: "string \<Rightarrow> gval \<Rightarrow> string + toml_tree"
  and toml_entries :: "string \<Rightarrow> gmap \<Rightarrow> string + (string \<times> toml_tree) list"
  and toml_items :: "string \<Rightarrow> nat \<Rightarrow> gval list \<Rightarrow> string + toml_tree list" where
  "toml_value path (GMap m) =
     rbind (toml_entries path m) (\<lambda>ys. Inr (TMap ys))"
| "toml_value path (GSlice xs) = rbind (toml_items path 0 xs) (\<lambda>ys. Inr (TSlice ys))"
| "toml_value path GNilMap = Inr (TMap [])"
| "toml_value path GNilSlice = Inr (TSlice [])"
| "toml_value path (GLeaf l) =
     (case l of LNil \<Rightarrow> Inl path | LNumber s \<Rightarrow> Inr (TNumber s) | _ \<Rightarrow> Inr (TOther (GLeaf l)))"
| "toml_entries path [] = Inr []"
| "toml_entries path ((k, v) # m) =
     (if v = GNil then toml_entries path m
      else rbind (toml_value (join_key path k) v) (\<lambda>y. rbind (toml_entries path m) (\<lambda>ys. Inr ((k, y) # ys))))"
| "toml_items path i [] = Inr []"
| "toml_items path i (x # xs) =
     rbind (toml_value (path @ ''['' @ itoa (int i) @ '']'') x) (\<lambda>y. rbind (toml_items path (Suc i) xs) (\<lambda>ys. Inr (y # ys)))"

datatype yaml_node = YScalar string string | YMapping "(string \<times> yaml_node) list" | YSequence "yaml_node list" | YEncoded string

text \<open>\<open>sortedYAMLNode\<close>; \<open>enc\<close> is \<open>yaml.Node.Encode\<close> of the remaining scalars.\<close>

definition number_tag :: "string \<Rightarrow> string" where
  "number_tag s = (if list_ex (\<lambda>c. c \<in> set ''.eE'') s then ''!!float'' else ''!!int'')"

fun map_results_opt :: "('a \<Rightarrow> 'b option) \<Rightarrow> 'a list \<Rightarrow> 'b list option" where
  "map_results_opt f [] = Some []"
| "map_results_opt f (x # xs) =
     (case f x of None \<Rightarrow> None | Some y \<Rightarrow> (case map_results_opt f xs of None \<Rightarrow> None | Some ys \<Rightarrow> Some (y # ys)))"

lemma map_results_opt_cong [fundef_cong]:
  "xs = ys \<Longrightarrow> (\<And>x. x \<in> set ys \<Longrightarrow> f x = g x) \<Longrightarrow> map_results_opt f xs = map_results_opt g ys"
  by (induction ys arbitrary: xs) (auto split: option.split)

function sorted_yaml_node :: "(leaf \<Rightarrow> yaml_node option) \<Rightarrow> gval \<Rightarrow> yaml_node option" where
  "sorted_yaml_node enc v =
     (case v of
        GLeaf (LNumber s) \<Rightarrow> Some (YScalar (number_tag s) s)
      | GLeaf l \<Rightarrow> enc l
      | GNilMap \<Rightarrow> enc LNil
      | GNilSlice \<Rightarrow> enc LNil
      | GMap m \<Rightarrow>
          map_option YMapping (map_results_opt
            (\<lambda>k. case kv_get m k of
                   None \<Rightarrow> None
                 | Some x \<Rightarrow> map_option (\<lambda>n. (k, n)) (sorted_yaml_node enc x)) (sort (keys m)))
      | GSlice xs \<Rightarrow> map_option YSequence (map_results_opt (sorted_yaml_node enc) xs))"
  by pat_completeness auto
termination
  by (relation "measure (\<lambda>(enc, v). size v)") (auto dest: size_kv_get size_item simp del: gval.size)

declare sorted_yaml_node.simps [simp del]

section \<open>What a diff says\<close>

lemma all_keys_in: "k \<in> set (all_keys a b) \<longleftrightarrow> kv_get a k \<noteq> None \<or> kv_get b k \<noteq> None"
  by (auto simp: all_keys_def kv_get_None_iff)

lemma all_keys_sorted: "sorted_wrt (<) (all_keys a b)"
  by (simp add: all_keys_def strict_sorted_iff)

text \<open>What one entry must say of the two documents.\<close>

definition entry_true :: "(gval \<Rightarrow> gval \<Rightarrow> bool) \<Rightarrow> diff_change \<Rightarrow> gval \<Rightarrow> gval \<Rightarrow> gval option \<Rightarrow> gval option \<Rightarrow> bool" where
  "entry_true eq c x y va vb \<longleftrightarrow>
     (case c of
        DiffAdded \<Rightarrow> va = None \<and> vb = Some y \<and> x = GNil
      | DiffRemoved \<Rightarrow> va = Some x \<and> vb = None \<and> y = GNil
      | DiffModified \<Rightarrow> va = Some x \<and> vb = Some y \<and> \<not> eq x y \<and> both_maps x y = None)"

lemma get_from_one: "get_from (GMap m) (k # ps) = (case kv_get m k of None \<Rightarrow> None | Some v \<Rightarrow> get_from v ps)"
  by simp

definition row_of :: "(gval \<Rightarrow> gval \<Rightarrow> bool) \<Rightarrow> string list \<Rightarrow> gmap \<Rightarrow> gmap \<Rightarrow> segmented_diff \<Rightarrow> bool" where
  "row_of eq pre a b e \<longleftrightarrow> (\<exists>ps. ps \<noteq> [] \<and> sd_segs e = pre @ ps \<and> de_path e = join_with ''.'' (pre @ ps) \<and>
     entry_true eq (de_change e) (de_before e) (de_after e) (get_from (GMap a) ps) (get_from (GMap b) ps))"

lemma row_of_here:
  assumes "entry_true eq c x y (kv_get a k) (kv_get b k)"
  shows "row_of eq pre a b (diff_row (pre @ [k]) c x y)"
  using assms unfolding row_of_def
  by (intro exI [of _ "[k]"]) (cases "kv_get a k"; cases "kv_get b k"; simp add: diff_row_def)

lemma row_of_below:
  assumes "kv_get a k = Some (GMap ma)" "kv_get b k = Some (GMap mb)" "row_of eq (pre @ [k]) ma mb e"
  shows "row_of eq pre a b e"
proof -
  obtain ps where "sd_segs e = pre @ k # ps" "de_path e = join_with ''.'' (pre @ k # ps)"
    "entry_true eq (de_change e) (de_before e) (de_after e) (get_from (GMap ma) ps) (get_from (GMap mb) ps)"
    using assms(3) unfolding row_of_def by auto
  then show ?thesis
    using assms(1,2) unfolding row_of_def by (intro exI [of _ "k # ps"]) simp
qed

lemma append_diffs_rows: "e \<in> set (append_diffs eq pre a b) \<Longrightarrow> row_of eq pre a b e"
proof (induction eq pre a b rule: append_diffs.induct)
  case (1 eq pre a b)
  from "1.prems" obtain k where k: "k \<in> set (all_keys a b)"
    and e: "e \<in> set (case kv_get a k of
         None \<Rightarrow> (case kv_get b k of None \<Rightarrow> [] | Some y \<Rightarrow> [diff_row (pre @ [k]) DiffAdded GNil y])
       | Some x \<Rightarrow>
           (case kv_get b k of
              None \<Rightarrow> [diff_row (pre @ [k]) DiffRemoved x GNil]
            | Some y \<Rightarrow>
                (case both_maps x y of
                   Some (ma, mb) \<Rightarrow> append_diffs eq (pre @ [k]) ma mb
                 | None \<Rightarrow> if eq x y then [] else [diff_row (pre @ [k]) DiffModified x y])))"
    by (subst (asm) append_diffs.simps) auto
  show ?case
  proof (cases "kv_get a k")
    case None
    then show ?thesis using e by (auto split: option.splits intro!: row_of_here simp: entry_true_def)
  next
    case x: (Some x)
    show ?thesis
    proof (cases "kv_get b k")
      case None
      then show ?thesis using e x by (auto intro!: row_of_here simp: entry_true_def)
    next
      case y: (Some y)
      show ?thesis
      proof (cases "both_maps x y")
        case None
        then show ?thesis using e x y by (auto intro!: row_of_here simp: entry_true_def split: if_splits)
      next
        case (Some p)
        then obtain ma mb where p: "both_maps x y = Some (ma, mb)" by (cases p) auto
        then have m: "x = GMap ma" "y = GMap mb" by (auto simp: both_maps_Some)
        have "e \<in> set (append_diffs eq (pre @ [k]) ma mb)" using e x y p by simp
        from "1.IH" [OF k x y p refl this] show ?thesis
          by (rule row_of_below [OF x [unfolded m] y [unfolded m]])
      qed
    qed
  qed
qed

definition diff_key :: "(gval \<Rightarrow> gval \<Rightarrow> bool) \<Rightarrow> string list \<Rightarrow> gmap \<Rightarrow> gmap \<Rightarrow> string \<Rightarrow> segmented_diff list" where
  "diff_key eq pre a b k =
     (case kv_get a k of
         None \<Rightarrow> (case kv_get b k of None \<Rightarrow> [] | Some y \<Rightarrow> [diff_row (pre @ [k]) DiffAdded GNil y])
       | Some x \<Rightarrow>
           (case kv_get b k of
              None \<Rightarrow> [diff_row (pre @ [k]) DiffRemoved x GNil]
            | Some y \<Rightarrow>
                (case both_maps x y of
                   Some (ma, mb) \<Rightarrow> append_diffs eq (pre @ [k]) ma mb
                 | None \<Rightarrow> if eq x y then [] else [diff_row (pre @ [k]) DiffModified x y])))"

lemma append_diffs_keys: "append_diffs eq pre a b = concat (map (diff_key eq pre a b) (all_keys a b))"
  by (subst append_diffs.simps) (simp add: diff_key_def [abs_def])

lemma diff_key_absent: "kv_get a k = None \<Longrightarrow> kv_get b k = None \<Longrightarrow> diff_key eq pre a b k = []"
  by (simp add: diff_key_def)

lemma diff_key_sub: "set (diff_key eq pre a b k) \<subseteq> set (append_diffs eq pre a b)"
proof (cases "k \<in> set (all_keys a b)")
  case True
  then show ?thesis unfolding append_diffs_keys by auto
next
  case False
  then show ?thesis by (simp add: all_keys_in diff_key_absent)
qed

text \<open>The comparison is exact on the values the two trees hold at the same path.\<close>

definition exact_on :: "(gval \<Rightarrow> gval \<Rightarrow> bool) \<Rightarrow> gmap \<Rightarrow> gmap \<Rightarrow> bool" where
  "exact_on eq a b \<longleftrightarrow> (\<forall>ps x y. get_from (GMap a) ps = Some x \<longrightarrow> get_from (GMap b) ps = Some y \<longrightarrow>
     both_maps x y = None \<longrightarrow> (eq x y \<longleftrightarrow> gsem x = gsem y))"

lemma exact_on_here: "exact_on eq a b \<Longrightarrow> kv_get a k = Some x \<Longrightarrow> kv_get b k = Some y \<Longrightarrow> both_maps x y = None \<Longrightarrow> eq x y \<longleftrightarrow> gsem x = gsem y"
  unfolding exact_on_def by (drule spec [of _ "[k]"]) simp

lemma exact_on_below:
  "exact_on eq a b \<Longrightarrow> kv_get a k = Some (GMap ma) \<Longrightarrow> kv_get b k = Some (GMap mb) \<Longrightarrow> exact_on eq ma mb"
  unfolding exact_on_def
proof (intro allI impI)
  fix ps x y
  assume all: "\<forall>ps x y. get_from (GMap a) ps = Some x \<longrightarrow> get_from (GMap b) ps = Some y \<longrightarrow> both_maps x y = None \<longrightarrow> eq x y = (gsem x = gsem y)"
    and "kv_get a k = Some (GMap ma)" "kv_get b k = Some (GMap mb)"
    "get_from (GMap ma) ps = Some x" "get_from (GMap mb) ps = Some y" "both_maps x y = None"
  then show "eq x y = (gsem x = gsem y)" using all [rule_format, of "k # ps" x y] by simp
qed

definition agree :: "gval option \<Rightarrow> gval option \<Rightarrow> bool" where
  "agree x y \<longleftrightarrow> map_option gsem x = map_option gsem y \<or> (\<exists>m n. x = Some (GMap m) \<and> y = Some (GMap n))"

lemma agree_below: "gsem x = gsem y \<Longrightarrow> agree (get_from x ps) (get_from y ps)"
  by (simp add: agree_def flip: sget_gsem)

lemma append_diffs_misses:
  "exact_on eq a b \<Longrightarrow> ps \<noteq> [] \<Longrightarrow> \<forall>e \<in> set (append_diffs eq pre a b). \<not> prefix (sd_segs e) (pre @ ps) \<Longrightarrow>
   agree (get_from (GMap a) ps) (get_from (GMap b) ps)"
proof (induction ps arbitrary: pre a b)
  case (Cons k qs)
  have miss: "\<forall>e \<in> set (diff_key eq pre a b k). \<not> prefix (sd_segs e) (pre @ k # qs)"
    using Cons.prems(3) diff_key_sub by blast
  show ?case
  proof (cases "kv_get a k")
    case None
    then show ?thesis
      using miss by (cases "kv_get b k") (auto simp: diff_key_def diff_row_def agree_def)
  next
    case x: (Some x)
    show ?thesis
    proof (cases "kv_get b k")
      case None
      then show ?thesis using miss x by (auto simp: diff_key_def diff_row_def)
    next
      case y: (Some y)
      show ?thesis
      proof (cases "both_maps x y")
        case None
        then have "eq x y" using miss x y by (auto simp: diff_key_def diff_row_def split: if_splits)
        then have "gsem x = gsem y" using exact_on_here [OF Cons.prems(1) x y None] by simp
        then show ?thesis using x y agree_below [of x y qs] by simp
      next
        case (Some p)
        then obtain ma mb where m: "x = GMap ma" "y = GMap mb" by (cases p) (auto simp: both_maps_Some)
        show ?thesis
        proof (cases "qs = []")
          case True
          then show ?thesis using x y m by (simp add: agree_def)
        next
          case False
          have "\<forall>e \<in> set (append_diffs eq (pre @ [k]) ma mb). \<not> prefix (sd_segs e) ((pre @ [k]) @ qs)"
            using miss x y m by (simp add: diff_key_def)
          from Cons.IH [OF exact_on_below [OF Cons.prems(1) x [unfolded m] y [unfolded m]] False this]
          show ?thesis using x y m by simp
        qed
      qed
    qed
  qed
qed simp

lemma diff_key_segs:
  assumes "e \<in> set (diff_key eq pre a b k)"
  shows "\<exists>qs. sd_segs e = pre @ k # qs"
proof (cases "\<exists>ma mb. kv_get a k = Some (GMap ma) \<and> kv_get b k = Some (GMap mb)")
  case True
  then obtain ma mb where "kv_get a k = Some (GMap ma)" "kv_get b k = Some (GMap mb)" by blast
  then have "row_of eq (pre @ [k]) ma mb e"
    using assms by (intro append_diffs_rows) (simp add: diff_key_def)
  then show ?thesis by (auto simp: row_of_def)
next
  case False
  then show ?thesis
    using assms by (auto simp: diff_key_def diff_row_def both_maps_Some split: option.splits if_splits)
qed

lemma append_less_same: "(pre @ xs < pre @ ys) \<longleftrightarrow> xs < (ys :: string list)"
  by (induction pre) auto

lemma sorted_wrt_concat:
  assumes "sorted_wrt R ks" "\<And>k. k \<in> set ks \<Longrightarrow> sorted_wrt S (f k)"
    "\<And>j k x y. R j k \<Longrightarrow> x \<in> set (f j) \<Longrightarrow> y \<in> set (f k) \<Longrightarrow> S x y"
  shows "sorted_wrt S (concat (map f ks))"
  using assms(1,2) by (induction ks) (auto simp: sorted_wrt_append intro: assms(3))

lemma append_diffs_sorted: "sorted_wrt (\<lambda>d e. sd_segs d < sd_segs e) (append_diffs eq pre a b)"
proof (induction eq pre a b rule: append_diffs.induct)
  case (1 eq pre a b)
  have one: "sorted_wrt (\<lambda>d e. sd_segs d < sd_segs e) (diff_key eq pre a b k)" if "k \<in> set (all_keys a b)" for k
    using "1.IH" [OF that] by (auto simp: diff_key_def split: option.split prod.split)
  have less: "sd_segs d < sd_segs e"
    if jk: "j < k" and d: "d \<in> set (diff_key eq pre a b j)" and e: "e \<in> set (diff_key eq pre a b k)" for j k d e
    using diff_key_segs [OF d] diff_key_segs [OF e] jk by (auto simp: append_less_same)
  show ?case
    unfolding append_diffs_keys
    by (rule sorted_wrt_concat [OF all_keys_sorted one less])
qed

lemma append_diffs_empty:
  "exact_on eq a b \<Longrightarrow> append_diffs eq pre a b = [] \<Longrightarrow> msem a = msem b"
proof (induction eq pre a b rule: append_diffs.induct)
  case (1 eq pre a b)
  show ?case
  proof
    fix k
    have none: "diff_key eq pre a b k = []"
      using "1.prems"(2) diff_key_sub [of eq pre a b k] by simp
    show "msem a k = msem b k"
    proof (cases "kv_get a k = None \<or> kv_get b k = None")
      case True
      then show ?thesis using none by (auto simp: diff_key_def msem_def split: option.splits)
    next
      case False
      then obtain x y where x: "kv_get a k = Some x" and y: "kv_get b k = Some y" by auto
      have k: "k \<in> set (all_keys a b)" by (simp add: all_keys_in x)
      have "gsem x = gsem y"
      proof (cases "both_maps x y")
        case None
        then have "eq x y" using none x y by (simp add: diff_key_def split: if_splits)
        then show ?thesis using exact_on_here [OF "1.prems"(1) x y None] by simp
      next
        case (Some p)
        then obtain ma mb where p: "both_maps x y = Some (ma, mb)" by (cases p) auto
        then have m: "x = GMap ma" "y = GMap mb" by (auto simp: both_maps_Some)
        have "append_diffs eq (pre @ [k]) ma mb = []" using none x y p by (simp add: diff_key_def)
        from "1.IH" [OF k x y p refl exact_on_below [OF "1.prems"(1) x [unfolded m] y [unfolded m]] this]
        show ?thesis by (simp add: m)
      qed
      then show ?thesis by (simp add: msem_def x y)
    qed
  qed
qed

lemma json_equal_exact:
  assumes "exact_on (json_text_equal js) a b"
  shows "exact_on (json_equal js vu) a b"
  unfolding exact_on_def
proof (intro allI impI)
  fix ps x y
  assume "get_from (GMap a) ps = Some x" "get_from (GMap b) ps = Some y" "both_maps x y = None"
  then have "json_text_equal js x y \<longleftrightarrow> gsem x = gsem y" using assms unfolding exact_on_def by blast
  then show "json_equal js vu x y \<longleftrightarrow> gsem x = gsem y"
    by (cases y rule: str_leaf.cases) (auto simp: json_equal_def split: gval.split leaf.split option.split)
qed

lemma get_at_Some: "ps \<noteq> [] \<Longrightarrow> get_at (Some m) ps = get_from (GMap m) ps"
  by (simp add: get_at_def)

section \<open>Conservative paths\<close>











section \<open>The path test covers the plan\<close>
















section \<open>What Compile builds\<close>













section \<open>The views leak nothing\<close>

lemma tree_get_from: "get_from w ps = Some v \<Longrightarrow> tree_get w (ps @ qs) = tree_get v qs"
proof (induction ps arbitrary: w)
  case (Cons p ps)
  then show ?case by (cases w) (auto split: option.splits)
qed simp

definition secret_at :: "snapshot_view \<Rightarrow> gmap \<Rightarrow> string list \<Rightarrow> bool" where
  "secret_at s tree ps \<longleftrightarrow>
     typed_secret (sv_types s) (sv_root s) (GMap tree) ps \<or> pattern_covers (pp_tree (sv_patterns s)) [] ps"

lemma state_map_masks:
  assumes "sv_redactor s = None" "sv_tree s = Some tree" "state_map s = Some out" "ps \<noteq> []" "secret_at s tree ps"
  shows "masked (tree_get (GMap out) ps)"
proof -
  let ?v = "apply_plan (sv_types s) (sv_root s) (sv_patterns s) default_redactor tree"
  have "as_map ?v = Some out"
    using assms by (simp add: state_map_def view_tree_def display_redactor_def)
  then have "tree_get (GMap out) ps = tree_get ?v ps"
    using assms(4) by (cases ?v; cases ps) auto
  then show ?thesis
    using apply_plan_masks [OF assms(4)] assms(5) by (simp add: secret_at_def)
qed

lemma shown_masks:
  assumes "sv_redactor s = None" "sv_tree s = Some tree" "segs \<noteq> []" "secret_at s tree (segs @ qs)"
    and "shown (state_map s) segs \<noteq> GNil"
  shows "masked (tree_get (shown (state_map s) segs) qs)"
proof -
  obtain out v where o: "state_map s = Some out" and v: "get_from (GMap out) segs = Some v"
    and sh: "shown (state_map s) segs = v"
    using assms(3,5) by (auto simp: shown_def get_at_def split: option.splits)
  have "masked (tree_get (GMap out) (segs @ qs))"
    using state_map_masks [OF assms(1,2) o _ assms(4)] assms(3) by simp
  then show ?thesis using tree_get_from [OF v] sh by simp
qed

section \<open>The theorems\<close>

text \<open>C10. A diff is complete and says nothing wrong: its entries come in the order of their paths, none twice; an added,
  removed or modified entry is what the two documents hold at its path; a path with no entry at or above it holds the
  same value on both sides, or two maps; and there is no entry exactly when the documents are equal. The assumption is
  that \<open>json.Marshal\<close> tells apart the different values the two documents hold at one path, unless both are maps.\<close>

theorem diff_complete:
  assumes "exact_on (json_text_equal js) a b"
  shows "sorted_wrt (\<lambda>d e. sd_segs d < sd_segs e) (diff_maps (json_equal js vu) a b) \<and>
    (\<forall>e \<in> set (diff_maps (json_equal js vu) a b).
       entry_true (json_equal js vu) (de_change e) (de_before e) (de_after e) (get_at (Some a) (sd_segs e)) (get_at (Some b) (sd_segs e))) \<and>
    (\<forall>ps. ps \<noteq> [] \<longrightarrow> (\<forall>e \<in> set (diff_maps (json_equal js vu) a b). \<not> prefix (sd_segs e) ps) \<longrightarrow>
       agree (get_at (Some a) ps) (get_at (Some b) ps)) \<and>
    (diff_maps (json_equal js vu) a b = [] \<longleftrightarrow> msem a = msem b)"
proof -
  let ?eq = "json_equal js vu"
  note ex = json_equal_exact [OF assms, of vu]
  have rows: "entry_true ?eq (de_change e) (de_before e) (de_after e) (get_at (Some a) (sd_segs e)) (get_at (Some b) (sd_segs e))"
    if "e \<in> set (diff_maps ?eq a b)" for e
    using append_diffs_rows [OF that [unfolded diff_maps_def]] by (auto simp: row_of_def get_at_Some)
  have "diff_maps ?eq a b = []" if "msem a = msem b"
  proof (rule ccontr)
    assume "diff_maps ?eq a b \<noteq> []"
    then obtain e where e: "e \<in> set (diff_maps ?eq a b)" by (cases "diff_maps ?eq a b") auto
    then have ne: "sd_segs e \<noteq> []" using append_diffs_rows [of e ?eq "[]" a b] by (auto simp: row_of_def diff_maps_def)
    have "map_option gsem (get_from (GMap a) (sd_segs e)) = map_option gsem (get_from (GMap b) (sd_segs e))"
      using that by (simp flip: sget_gsem)
    then show False
      using rows [OF e] ex [unfolded exact_on_def] ne
      by (cases "de_change e") (auto simp: entry_true_def get_at_Some)
  qed
  then show ?thesis
    using rows append_diffs_sorted append_diffs_misses [OF ex, of _ "[]"] append_diffs_empty [OF ex]
    by (auto simp: diff_maps_def get_at_Some)
qed

definition demo_before :: gmap where
  "demo_before = [(''b'', GMap [(''x'', GNumber ''1''), (''y'', GBool True)]), (''a'', GStr ''s''), (''old'', GNil)]"

definition demo_after :: gmap where
  "demo_after = [(''a'', GStr ''s''), (''b'', GMap [(''y'', GBool True), (''x'', GNumber ''2'')])]"

definition demo_text :: "gval \<Rightarrow> string option" where
  "demo_text v = (case v of GLeaf (LNumber n) \<Rightarrow> Some n | GLeaf (LStr s) \<Rightarrow> Some (CHR 0x22 # s)
     | GLeaf (LBool c) \<Rightarrow> Some (if c then ''true'' else ''false'') | _ \<Rightarrow> None)"

lemma demo_exact: "exact_on (json_text_equal demo_text) demo_before demo_after"
  unfolding exact_on_def
proof (intro allI impI)
  fix ps x y
  assume "get_from (GMap demo_before) ps = Some x" "get_from (GMap demo_after) ps = Some y" "both_maps x y = None"
  then have "(x = GNumber ''1'' \<and> y = GNumber ''2'') \<or> (x = GBool True \<and> y = GBool True) \<or> (x = GStr ''s'' \<and> y = GStr ''s'')"
    by (cases ps; cases "tl ps"; cases "tl (tl ps)") (auto simp: demo_before_def demo_after_def split: if_splits)
  then show "json_text_equal demo_text x y = (gsem x = gsem y)"
    by (auto simp: json_text_equal_def demo_text_def)
qed

lemma demo_diff:
  "map sd_segs (diff_maps (json_equal demo_text (\<lambda>_. True)) demo_before demo_after) = [[''b'', ''x''], [''old'']]"
  by code_simp

theorem diff_complete_witness:
  "map sd_segs (diff_maps (json_equal demo_text (\<lambda>_. True)) demo_before demo_after) = [[''b'', ''x''], [''old'']] \<and>
   agree (get_at (Some demo_before) [''a'']) (get_at (Some demo_after) [''a''])"
proof -
  have "\<forall>e \<in> set (diff_maps (json_equal demo_text (\<lambda>_. True)) demo_before demo_after). \<not> prefix (sd_segs e) [''a'']"
  proof
    fix e assume "e \<in> set (diff_maps (json_equal demo_text (\<lambda>_. True)) demo_before demo_after)"
    then have "sd_segs e \<in> set (map sd_segs (diff_maps (json_equal demo_text (\<lambda>_. True)) demo_before demo_after))"
      unfolding set_map by (rule imageI)
    then show "\<not> prefix (sd_segs e) [''a'']" unfolding demo_diff by auto
  qed
  from conjunct1 [OF conjunct2 [OF conjunct2 [OF diff_complete [OF demo_exact, of "\<lambda>_. True"]]], rule_format, OF _ bspec [OF this]]
  show ?thesis using demo_diff by blast
qed

text \<open>C11. The diff that a plan and an observer see reports every change of the plain documents, and with the default
  redactor shows nothing of a secret: below the path of an entry, whatever a field tag or a pattern covers is masked or
  absent, on both sides.\<close>

theorem diff_leaks_nothing:
  assumes "sv_redactor s = None" "sv_redactor t = None"
  shows "map (\<lambda>e. (sd_segs e, de_change e)) (diagnostic_diff eq s t) =
      map (\<lambda>e. (sd_segs e, de_change e)) (diff_maps eq (tree_entries (sv_tree s)) (tree_entries (sv_tree t))) \<and>
    (\<forall>e \<in> set (diagnostic_diff eq s t). \<forall>qs tree.
      (sv_tree s = Some tree \<and> secret_at s tree (sd_segs e @ qs) \<longrightarrow>
         de_before e = GNil \<or> masked (tree_get (de_before e) qs)) \<and>
      (sv_tree t = Some tree \<and> secret_at t tree (sd_segs e @ qs) \<longrightarrow>
         de_after e = GNil \<or> masked (tree_get (de_after e) qs)))"
proof -
  let ?D = "diff_maps eq (tree_entries (sv_tree s)) (tree_entries (sv_tree t))"
  have ne: "sd_segs e \<noteq> []" if "e \<in> set ?D" for e
    using append_diffs_rows [OF that [unfolded diff_maps_def]] by (auto simp: row_of_def)
  have one: "\<exists>f \<in> set ?D. sd_segs e = sd_segs f \<and> de_before e = shown (state_map s) (sd_segs f) \<and>
      de_after e = shown (state_map t) (sd_segs f)" if "e \<in> set (diagnostic_diff eq s t)" for e
    using that by (auto simp: diagnostic_diff_def)
  have "(sv_tree s = Some tree \<and> secret_at s tree (sd_segs e @ qs) \<longrightarrow> de_before e = GNil \<or> masked (tree_get (de_before e) qs)) \<and>
      (sv_tree t = Some tree \<and> secret_at t tree (sd_segs e @ qs) \<longrightarrow> de_after e = GNil \<or> masked (tree_get (de_after e) qs))"
    if "e \<in> set (diagnostic_diff eq s t)" for e qs tree
    using one [OF that] ne shown_masks [OF assms(1)] shown_masks [OF assms(2)] by metis
  moreover have "map (\<lambda>e. (sd_segs e, de_change e)) (diagnostic_diff eq s t) = map (\<lambda>e. (sd_segs e, de_change e)) ?D"
    by (simp add: diagnostic_diff_def o_def)
  ultimately show ?thesis by blast
qed

definition demo_view :: "string \<Rightarrow> snapshot_view" where
  "demo_view secret_text =
     \<lparr>sv_tree = Some [(''db'', GMap [(''pass'', GStr secret_text), (''user'', GStr ''me'')])],
      sv_types = demo_types, sv_root = RNamed 0, sv_patterns = compile_patterns [], sv_redactor = None\<rparr>"

theorem diff_leaks_nothing_witness:
  "map (\<lambda>e. (sd_segs e, de_change e)) (diagnostic_diff (=) (demo_view ''old'') (demo_view ''new'')) = [([''db'', ''pass''], DiffModified)] \<and>
   (de_before (hd (diagnostic_diff (=) (demo_view ''old'') (demo_view ''new''))) = GNil \<or>
    masked (Some (de_before (hd (diagnostic_diff (=) (demo_view ''old'') (demo_view ''new''))))))"
proof -
  let ?D = "diagnostic_diff (=) (demo_view ''old'') (demo_view ''new'')"
  have r: "sv_redactor (demo_view s) = None" for s by (simp add: demo_view_def)
  have d: "map (\<lambda>e. (sd_segs e, de_change e)) (diff_maps (=) (tree_entries (sv_tree (demo_view ''old''))) (tree_entries (sv_tree (demo_view ''new'')))) =
      [([''db'', ''pass''], DiffModified)]"
    by code_simp
  have t: "secret_at (demo_view u) [(''db'', GMap [(''pass'', GStr u), (''user'', GStr ''me'')])] [''db'', ''pass'']" for u
    by (simp add: secret_at_def demo_view_def typed_secret.simps demo_types_def child_secrets_def)
  have v: "sv_tree (demo_view u) = Some [(''db'', GMap [(''pass'', GStr u), (''user'', GStr ''me'')])]" for u
    by (simp add: demo_view_def)
  note all = diff_leaks_nothing [OF r r, of "(=)" "''old''" "''new''"]
  note m = conjunct1 [OF all, unfolded d]
  from m obtain e where e: "?D = [e]" "sd_segs e = [''db'', ''pass'']" by (cases ?D) auto
  then have "e \<in> set ?D" by simp
  from conjunct2 [OF all, rule_format, OF this, of _ "[]"] have "de_before e = GNil \<or> masked (Some (de_before e))"
    using e(2) t [of "''old''"] v [of "''old''"] by (simp only: append_Nil2 tree_get.simps)
  then show ?thesis using m e(1) by (simp only: list.sel)
qed


text \<open>A view of one document under the plan compiled from a type, with the origins of one file.\<close>

definition typed_view :: "tenv \<Rightarrow> rtype \<Rightarrow> gmap \<Rightarrow> snapshot_view" where
  "typed_view env t m = \<lparr>sv_tree = Some m, sv_types = compile_plan env (\<lambda>_. False) t, sv_root = deref t,
     sv_patterns = compile_patterns [], sv_redactor = None\<rparr>"

definition file_origins :: "gmap \<Rightarrow> index option" where
  "file_origins m = record_tree '''' m
     \<lparr>sr_path = ''f'', sr_kind = LayerMerge, sr_profile = '''', sr_priority = 1, sr_codec = '''', sr_revision = '''', sr_stale = False\<rparr>
     (new_index Full)"





text \<open>Two untidy types whose secret a dump masks and \<open>Explain\<close> shows: a field whose JSON name is a dash, and an embedded
  struct that has a YAML name but no JSON name.\<close>

definition dash_type :: rtype where
  "dash_type = RStruct [RField ''Key'' True False [(''json'', ''-,''), (''fc'', ''secret'')] (RPrim PString)]"

definition embedded_type :: rtype where
  "embedded_type = RStruct [RField ''Inner'' True True [(''yaml'', ''inner'')] (RStruct
     [RField ''Pass'' True False [(''json'', ''pass''), (''fc'', ''secret'')] (RPrim PString)])]"

lemma explain_leaks_untidy:
  "secret_at (typed_view [] dash_type [(''-'', GStr ''k'')]) [(''-'', GStr ''k'')] [''-''] \<and>
   map or_value (state_explain (typed_view [] dash_type [(''-'', GStr ''k'')]) (file_origins [(''-'', GStr ''k'')]) ''-'') = [GStr ''k''] \<and>
   secret_at (typed_view [] embedded_type [(''pass'', GStr ''k'')]) [(''pass'', GStr ''k'')] [''pass''] \<and>
   map or_value (state_explain (typed_view [] embedded_type [(''pass'', GStr ''k'')]) (file_origins [(''pass'', GStr ''k'')]) ''pass'') =
     [GStr ''k'']"
  by code_simp

section \<open>Dumps are deterministic\<close>

lemma sorted_keys_msem:
  assumes "distinct (keys m)" "distinct (keys n)" "msem m = msem n"
  shows "sort (keys m) = sort (keys n)"
proof -
  have "set (keys m) = set (keys n)"
    using assms(3) by (metis (no_types, lifting) kv_get_None_iff msem_None_iff subsetI subset_antisym)
  then show ?thesis using assms(1,2) by (metis sorted_list_of_set_sort_remdups distinct_remdups_id)
qed

lemma map_results_opt_eq:
  "(\<And>x. x \<in> set xs \<Longrightarrow> f x = g x) \<Longrightarrow> map_results_opt f xs = map_results_opt g xs"
  by (rule map_results_opt_cong) auto

lemma map_results_opt_list:
  "list_all2 (\<lambda>x y. f x = g y) xs ys \<Longrightarrow> map_results_opt f xs = map_results_opt g ys"
  by (induction rule: list_all2_induct) (auto split: option.split)

lemma gsem_shape:
  "gsem (GLeaf l) = gsem w \<longleftrightarrow> w = GLeaf l" "gsem GNilMap = gsem w \<longleftrightarrow> w = GNilMap"
  "gsem GNilSlice = gsem w \<longleftrightarrow> w = GNilSlice"
  "gsem (GMap m) = gsem w \<longleftrightarrow> (\<exists>n. w = GMap n \<and> msem m = msem n)"
  "gsem (GSlice xs) = gsem w \<longleftrightarrow> (\<exists>ys. w = GSlice ys \<and> map gsem xs = map gsem ys)"
  by (cases w; auto)+

text \<open>A YAML dump depends only on the value it shows: two trees that are the same value give the same document, in
  whatever order their maps are visited.\<close>

theorem yaml_dump_deterministic:
  "wf_val v \<Longrightarrow> wf_val w \<Longrightarrow> gsem v = gsem w \<Longrightarrow> sorted_yaml_node enc v = sorted_yaml_node enc w"
proof (induction enc v arbitrary: w rule: sorted_yaml_node.induct)
  case (1 enc v)
  show ?case
  proof (cases v)
    case (GMap m)
    then obtain n where w: "w = GMap n" and mn: "msem m = msem n" using "1.prems"(3) gsem_shape(4) by blast
    have wf: "wf_map m" "wf_map n" using "1.prems" GMap w by simp_all
    have ks: "sort (keys m) = sort (keys n)"
      using wf mn by (intro sorted_keys_msem) (auto simp: wf_map_distinct)
    have child: "(case kv_get m k of None \<Rightarrow> None | Some x \<Rightarrow> map_option (\<lambda>n. (k, n)) (sorted_yaml_node enc x)) =
        (case kv_get n k of None \<Rightarrow> None | Some x \<Rightarrow> map_option (\<lambda>n. (k, n)) (sorted_yaml_node enc x))"
      if k: "k \<in> set (sort (keys m))" for k
    proof -
      obtain x where x: "kv_get m k = Some x" using k by (metis kv_get_None_iff not_None_eq set_sort)
      then obtain y where y: "kv_get n k = Some y" "gsem x = gsem y"
        using fun_cong [OF mn, of k] by (cases "kv_get n k") (auto simp: msem_def)
      have "sorted_yaml_node enc x = sorted_yaml_node enc y"
        using "1.IH"(1) [OF GMap k x] wf_map_get [OF wf(1) x] wf_map_get [OF wf(2) y(1)] y(2) by blast
      then show ?thesis by (simp add: x y)
    qed
    show ?thesis
      unfolding GMap w by (subst (1 2) sorted_yaml_node.simps) (simp only: gval.case ks [symmetric] map_results_opt_eq [OF child])
  next
    case (GSlice xs)
    then obtain ys where w: "w = GSlice ys" and xy: "map gsem xs = map gsem ys" using "1.prems"(3) gsem_shape(5) by blast
    have "list_all2 (\<lambda>x y. gsem x = gsem y \<and> x \<in> set xs \<and> y \<in> set ys) xs ys"
      using xy by (auto simp: list_all2_conv_all_nth dest: map_eq_imp_length_eq)
        (metis length_map nth_map)
    moreover have "sorted_yaml_node enc x = sorted_yaml_node enc y"
      if "gsem x = gsem y \<and> x \<in> set xs \<and> y \<in> set ys" for x y
      using "1.IH"(2) [OF GSlice, of x y] that "1.prems" GSlice w by auto
    ultimately have "list_all2 (\<lambda>x y. sorted_yaml_node enc x = sorted_yaml_node enc y) xs ys"
      by (rule list_all2_mono)
    then show ?thesis
      unfolding GSlice w by (subst (1 2) sorted_yaml_node.simps) (simp add: map_results_opt_list)
  next
    case (GLeaf l)
    then show ?thesis using "1.prems"(3) by (simp only: gsem_shape)
  next
    case GNilMap
    then show ?thesis using "1.prems"(3) by (simp only: gsem_shape)
  next
    case GNilSlice
    then show ?thesis using "1.prems"(3) by (simp only: gsem_shape)
  qed
qed

theorem yaml_dump_deterministic_witness:
  "sorted_yaml_node (\<lambda>_. None) (GMap [(''b'', GNumber ''1''), (''a'', GNumber ''2.5'')]) =
   sorted_yaml_node (\<lambda>_. None) (GMap [(''a'', GNumber ''2.5''), (''b'', GNumber ''1'')])"
  by (rule yaml_dump_deterministic) (auto simp: wf_map_def msem_def)


end
