(* ===== verification/Pipeline.thy ===== *)
theory Pipeline
  imports Assemble Diff
begin

text \<open>
  \<open>pipeline.go\<close>, \<open>stages.go\<close> and \<open>errors.go\<close>: the stages between assembly and commit, run for a reload and, with
  \<open>dryRun\<close>, for a plan. The hooks a user configures, the typed decoder and the hash are fields of \<open>pipe_opts\<close>; a
  pointer to the configuration value is an option. Validators, policies and the checks of field tags read the value;
  a hook that mutates it would have to be part of the decoder.
\<close>

section \<open>Findings and errors\<close>

definition severity_error :: int where "severity_error = 1"

record violation =
  vi_path :: string
  vi_message :: string
  vi_severity :: int
  vi_rule :: string

record validator_report =
  vr_name :: string
  vr_err :: "string option"

definition violation_text :: "violation \<Rightarrow> string" where
  "violation_text v = vi_rule v @ ''@'' @ vi_path v @ '': '' @ vi_message v"

definition policy_error_text :: "violation list \<Rightarrow> string" where
  "policy_error_text vs = ''fastconf: policy denied: '' @ join_with ''; '' (map violation_text vs)"

text \<open>A decoder's error: its text, or the list of messages of a \<open>yaml.TypeError\<close>.\<close>

datatype decode_error = DecodeText string | DecodeTypes "string list"

definition contains :: "string \<Rightarrow> string \<Rightarrow> bool" where
  "contains s sub \<longleftrightarrow> list_ex (\<lambda>i. has_prefix (drop i s) sub) [0 ..< Suc (length s)]"

definition is_unknown_field :: "decode_error \<Rightarrow> bool" where
  "is_unknown_field e =
     (case e of
        DecodeText t \<Rightarrow> has_prefix t ''json: unknown field ''
      | DecodeTypes msgs \<Rightarrow> list_ex (\<lambda>m. contains m ''not found in type'') msgs)"

datatype pipe_error =
    PipeCanceled | MergeStage merge_failure | TransformStage nat string | SecretStage string string string
  | HookStage string | EncodeStage string | DecodeStage decode_error | DefaultStage string
  | FieldMetaStage "string list" | ValidateStage string | PolicyStage "violation list" | HashFailed string

text \<open>The sentinel an error wraps: what \<open>errors.Is\<close> finds.\<close>

datatype sentinel = ErrMerge | ErrTransform | ErrDecode | ErrInvalid | ErrContext

fun sentinel_of :: "pipe_error \<Rightarrow> sentinel option" where
  "sentinel_of PipeCanceled = Some ErrContext"
| "sentinel_of (MergeStage e) = Some ErrMerge"
| "sentinel_of (TransformStage i e) = Some ErrTransform"
| "sentinel_of (SecretStage s p e) = Some ErrTransform"
| "sentinel_of (HookStage e) = Some ErrTransform"
| "sentinel_of (EncodeStage e) = Some ErrDecode"
| "sentinel_of (DecodeStage e) = Some ErrDecode"
| "sentinel_of (DefaultStage e) = Some ErrDecode"
| "sentinel_of (FieldMetaStage es) = Some ErrInvalid"
| "sentinel_of (ValidateStage e) = Some ErrInvalid"
| "sentinel_of (PolicyStage vs) = Some ErrInvalid"
| "sentinel_of (HashFailed e) = None"

section \<open>Options and state\<close>

datatype unknown_mode = UnknownWarn | UnknownIgnore | UnknownError

record 't policy_impl =
  pl_name :: string
  pl_eval :: "'t option \<Rightarrow> string \<Rightarrow> string \<Rightarrow> string + violation list"   \<comment> \<open>value, reason, tenant\<close>

record 't pipe_opts =
  po_float :: "gfloat \<Rightarrow> string option"
  po_level :: level
  po_transforms :: "(gmap option \<Rightarrow> string + gmap option) list"
  po_resolver :: "resolver_func option"
  po_hooks :: "(gmap option \<Rightarrow> string + gmap option) option"
  po_unknown :: unknown_mode
  po_encode :: "gmap option \<Rightarrow> string + string"
  po_decode :: "string \<Rightarrow> bool \<Rightarrow> decode_error + 't"   \<comment> \<open>bytes, strict\<close>
  po_assign :: "gmap option \<Rightarrow> 't \<Rightarrow> 't"
  po_defaults :: "'t \<Rightarrow> string + 't"
  po_defaulter :: "('t \<Rightarrow> 't) option"
  po_field_meta :: "'t \<Rightarrow> string list"
  po_validators :: "('t option \<Rightarrow> string option) list"
  po_policies :: "'t policy_impl list"
  po_hash :: "'t option \<Rightarrow> string + string"
  po_tenant :: string

record 't pipe =
  pi_reason :: string
  pi_asm :: asm_result
  pi_merged :: "gmap option"
  pi_sources :: "source_ref list"
  pi_origins :: "index option"
  pi_target :: "'t option"
  pi_dry :: bool
  pi_reports :: "validator_report list"
  pi_policies :: "violation list"

type_synonym 't stage = "string \<times> ('t pipe \<Rightarrow> pipe_error + 't pipe)"

text \<open>\<open>finding\<close>: a preview keeps the report and goes on; a reload returns the error.\<close>

definition finding :: "string \<Rightarrow> string option \<Rightarrow> 't pipe \<Rightarrow> string option \<times> 't pipe" where
  "finding name err p =
     (if pi_dry p then (None, p\<lparr>pi_reports := pi_reports p @ [\<lparr>vr_name = name, vr_err = err\<rparr>]\<rparr>)
      else (err, p))"

section \<open>The stages\<close>

definition merge_stage :: "'t pipe_opts \<Rightarrow> 't pipe \<Rightarrow> pipe_error + 't pipe" where
  "merge_stage oo p =
     map_sum MergeStage
       (\<lambda>m. p\<lparr>pi_merged := me_doc m, pi_sources := me_sources m, pi_origins := me_origins m\<rparr>)
       (run_merge (po_float oo) (po_level oo) (pi_asm p))"

fun transform_loop :: "nat \<Rightarrow> (gmap option \<Rightarrow> string + gmap option) list \<Rightarrow> 't pipe \<Rightarrow> pipe_error + 't pipe" where
  "transform_loop i [] p = Inr p"
| "transform_loop i (fn # fns) p =
     (case fn (pi_merged p) of
        Inl e \<Rightarrow> Inl (TransformStage i e)
      | Inr doc \<Rightarrow> transform_loop (Suc i) fns (p\<lparr>pi_merged := doc\<rparr>))"

definition transform_stage :: "'t pipe_opts \<Rightarrow> 't pipe \<Rightarrow> pipe_error + 't pipe" where
  "transform_stage oo p = transform_loop 0 (po_transforms oo) p"

definition secret_source :: "string \<Rightarrow> source_ref" where
  "secret_source scheme =
     \<lparr>sr_path = ''secret://'' @ scheme, sr_kind = LayerSecret, sr_profile = '''', sr_priority = rank_secret_resolved,
      sr_codec = '''', sr_revision = '''', sr_stale = False\<rparr>"

text \<open>The closure of \<open>runSecretResolve\<close> with the variables it captures: the first error and the origins.\<close>

definition secret_leaf :: "resolver_func \<Rightarrow> (pipe_error option \<times> index option) leaf_fn" where
  "secret_leaf r path v st =
     (case fst st of
        Some e \<Rightarrow> (None, st)
      | None \<Rightarrow>
          (case recognize r v of
             None \<Rightarrow> (None, st)
           | Some ref \<Rightarrow>
               (case resolve_ref r ref of
                  Inl e \<Rightarrow> (None, (Some (SecretStage (ref_scheme ref) path e), snd st))
                | Inr plain \<Rightarrow> (Some plain, (None, record_opt path (secret_source (ref_scheme ref)) (snd st))))))"

definition secret_stage :: "'t pipe_opts \<Rightarrow> 't pipe \<Rightarrow> pipe_error + 't pipe" where
  "secret_stage oo p =
     (case po_resolver oo of
        None \<Rightarrow> Inr p
      | Some r \<Rightarrow>
          (case pi_merged p of
             None \<Rightarrow> Inr p
           | Some m \<Rightarrow>
               (case walk_leaves (secret_leaf r) (GMap m) (None, pi_origins p) of
                  (v, Some e, ix) \<Rightarrow> Inl e
                | (v, None, ix) \<Rightarrow> Inr (p\<lparr>pi_merged := as_map v, pi_origins := ix\<rparr>))))"

definition hooks_stage :: "'t pipe_opts \<Rightarrow> 't pipe \<Rightarrow> pipe_error + 't pipe" where
  "hooks_stage oo p =
     (case po_hooks oo of
        None \<Rightarrow> Inr p
      | Some plan \<Rightarrow> map_sum HookStage (\<lambda>doc. p\<lparr>pi_merged := doc\<rparr>) (plan (pi_merged p)))"

definition decode_bytes :: "'t pipe_opts \<Rightarrow> string \<Rightarrow> decode_error + 't" where
  "decode_bytes oo input =
     (case po_decode oo input (po_unknown oo \<noteq> UnknownIgnore) of
        Inl e \<Rightarrow> if po_unknown oo = UnknownWarn \<and> is_unknown_field e then po_decode oo input False else Inl e
      | Inr t \<Rightarrow> Inr t)"

definition decode_stage :: "'t pipe_opts \<Rightarrow> 't pipe \<Rightarrow> pipe_error + 't pipe" where
  "decode_stage oo p =
     (case po_encode oo (pi_merged p) of
        Inl e \<Rightarrow> Inl (EncodeStage e)
      | Inr input \<Rightarrow>
          (case decode_bytes oo input of
             Inl e \<Rightarrow> Inl (DecodeStage e)
           | Inr t \<Rightarrow>
               (case po_defaults oo (po_assign oo (pi_merged p) t) of
                  Inl e \<Rightarrow> Inl (DefaultStage e)
                | Inr u \<Rightarrow> Inr (p\<lparr>pi_target := Some (case po_defaulter oo of None \<Rightarrow> u | Some d \<Rightarrow> d u)\<rparr>))))"

fun field_meta_loop :: "string list \<Rightarrow> 't pipe \<Rightarrow> string list \<times> 't pipe" where
  "field_meta_loop [] p = ([], p)"
| "field_meta_loop (msg # msgs) p =
     (case finding ''fastconf:field-meta'' (Some msg) p of (err, p') \<Rightarrow>
        (case field_meta_loop msgs p' of (errs, p'') \<Rightarrow> ((case err of None \<Rightarrow> errs | Some e \<Rightarrow> e # errs), p'')))"

definition field_meta_stage :: "'t pipe_opts \<Rightarrow> 't pipe \<Rightarrow> pipe_error + 't pipe" where
  "field_meta_stage oo p =
     (case pi_target p of
        None \<Rightarrow> Inr p
      | Some t \<Rightarrow> (case field_meta_loop (po_field_meta oo t) p of
                    (errs, p') \<Rightarrow> if errs = [] then Inr p' else Inl (FieldMetaStage errs)))"

fun validate_loop :: "nat \<Rightarrow> ('t option \<Rightarrow> string option) list \<Rightarrow> 't pipe \<Rightarrow> pipe_error + 't pipe" where
  "validate_loop i [] p = Inr p"
| "validate_loop i (v # vs) p =
     (case finding (if pi_dry p then ''validator['' @ itoa (int i) @ '']'' else '''') (v (pi_target p)) p of
        (Some e, p') \<Rightarrow> Inl (ValidateStage e)
      | (None, p') \<Rightarrow> validate_loop (Suc i) vs p')"

definition validate_stage :: "'t pipe_opts \<Rightarrow> 't pipe \<Rightarrow> pipe_error + 't pipe" where
  "validate_stage oo p = validate_loop 0 (po_validators oo) p"

definition policy_findings :: "'t policy_impl \<Rightarrow> 't option \<Rightarrow> string \<Rightarrow> string \<Rightarrow> violation list" where
  "policy_findings pl cfg reason tenant =
     (case pl_eval pl cfg reason tenant of
        Inl e \<Rightarrow> [\<lparr>vi_path = '''', vi_message = ''evaluation error: '' @ e, vi_severity = severity_error, vi_rule = pl_name pl\<rparr>]
      | Inr vs \<Rightarrow> map (\<lambda>v. if vi_rule v = '''' then v\<lparr>vi_rule := pl_name pl\<rparr> else v) vs)"

text \<open>\<open>evaluatePolicies\<close>: the violations of the \<open>PolicyError\<close>, if any, and the warnings.\<close>

definition evaluate_policies :: "'t pipe_opts \<Rightarrow> 't option \<Rightarrow> string \<Rightarrow> violation list option \<times> violation list" where
  "evaluate_policies oo cfg reason =
     (let all = concat (map (\<lambda>pl. policy_findings pl cfg reason (po_tenant oo)) (po_policies oo));
          errs = filter (\<lambda>v. vi_severity v = severity_error) all;
          warns = filter (\<lambda>v. vi_severity v \<noteq> severity_error) all
      in (if errs = [] then None else Some errs, warns))"

definition policy_stage :: "'t pipe_opts \<Rightarrow> 't pipe \<Rightarrow> pipe_error + 't pipe" where
  "policy_stage oo p =
     (if po_policies oo = [] then Inr p
      else
        (case evaluate_policies oo (pi_target p) (pi_reason p) of (pol_err, warns) \<Rightarrow>
           if pi_dry p
           then Inr (p\<lparr>pi_policies := pi_policies p @ warns @ (case pol_err of None \<Rightarrow> [] | Some errs \<Rightarrow> errs)\<rparr>)
           else (case pol_err of None \<Rightarrow> Inr p | Some errs \<Rightarrow> Inl (PolicyStage errs))))"

definition default_stages :: "'t pipe_opts \<Rightarrow> 't stage list" where
  "default_stages oo =
     [(''merge'', merge_stage oo), (''transform'', transform_stage oo), (''secret'', secret_stage oo),
      (''typed-hooks'', hooks_stage oo), (''decode'', decode_stage oo), (''field-meta'', field_meta_stage oo),
      (''validate'', validate_stage oo), (''policy'', policy_stage oo)]"

section \<open>Running the stages\<close>

text \<open>\<open>cx i\<close> says that the context is canceled at the check before stage \<open>i\<close>; the last check follows the last stage.\<close>

fun run_stages :: "(nat \<Rightarrow> bool) \<Rightarrow> nat \<Rightarrow> 't stage list \<Rightarrow> 't pipe \<Rightarrow> pipe_error + 't pipe" where
  "run_stages cx i [] p = (if cx i then Inl PipeCanceled else Inr p)"
| "run_stages cx i (s # ss) p = (if cx i then Inl PipeCanceled else rbind (snd s p) (run_stages cx (Suc i) ss))"

definition start_pipe :: "asm_result \<Rightarrow> string \<Rightarrow> bool \<Rightarrow> 't pipe" where
  "start_pipe a reason dry =
     \<lparr>pi_reason = reason, pi_asm = a, pi_merged = None, pi_sources = [], pi_origins = None, pi_target = None,
      pi_dry = dry, pi_reports = [], pi_policies = []\<rparr>"

definition run_pipeline :: "'t pipe_opts \<Rightarrow> (nat \<Rightarrow> bool) \<Rightarrow> asm_result \<Rightarrow> string \<Rightarrow> bool \<Rightarrow> pipe_error + 't pipe \<times> string" where
  "run_pipeline oo cx a reason dry =
     rbind (run_stages cx 0 (default_stages oo) (start_pipe a reason dry))
       (\<lambda>p. case po_hash oo (pi_target p) of Inl e \<Rightarrow> Inl (HashFailed e) | Inr h \<Rightarrow> Inr (p, h))"

section \<open>A plan predicts a reload\<close>

definition clean :: "'t pipe \<Rightarrow> bool" where
  "clean q \<longleftrightarrow> list_all (\<lambda>r. vr_err r = None) (pi_reports q) \<and> list_all (\<lambda>v. vi_severity v \<noteq> severity_error) (pi_policies q)"

text \<open>The two pipelines agree on everything but the findings the preview keeps.\<close>

definition twin :: "'t pipe \<Rightarrow> 't pipe \<Rightarrow> bool" where
  "twin p q \<longleftrightarrow> \<not> pi_dry p \<and> pi_dry q \<and>
     q = p\<lparr>pi_dry := True, pi_reports := pi_reports q, pi_policies := pi_policies q\<rparr>"

definition foretells :: "('t pipe \<Rightarrow> pipe_error + 't pipe) \<Rightarrow> 't pipe \<Rightarrow> 't pipe \<Rightarrow> bool" where
  "foretells st p q \<longleftrightarrow>
     (case st q of
        Inl e \<Rightarrow> \<not> is_ok (st p)
      | Inr q' \<Rightarrow> if clean q' then \<exists>p'. st p = Inr p' \<and> twin p' q' else \<not> is_ok (st p))"

definition predicts :: "('t pipe \<Rightarrow> pipe_error + 't pipe) \<Rightarrow> bool" where
  "predicts st \<longleftrightarrow>
     (\<forall>q q'. pi_dry q \<longrightarrow> st q = Inr q' \<longrightarrow> pi_dry q' \<and> (clean q' \<longrightarrow> clean q)) \<and>
     (\<forall>p q. twin p q \<longrightarrow> clean q \<longrightarrow> foretells st p q)"

lemma predicts_bind:
  assumes f: "predicts f" and g: "predicts g"
  shows "predicts (\<lambda>p. rbind (f p) g)"
proof -
  have "foretells (\<lambda>p. rbind (f p) g) p q" if t: "twin p q" and c: "clean q" for p q
  proof (cases "f q")
    case (Inl e)
    moreover have "foretells f p q" using f t c by (simp add: predicts_def)
    ultimately show ?thesis by (cases "f p") (auto simp: foretells_def)
  next
    case (Inr q1)
    show ?thesis
    proof (cases "clean q1")
      case True
      then obtain p1 where p1: "f p = Inr p1" "twin p1 q1" using f t c Inr by (fastforce simp: predicts_def foretells_def)
      then have "foretells g p1 q1" using g True by (simp add: predicts_def)
      then show ?thesis using p1 Inr by (cases "g q1") (simp_all add: foretells_def)
    next
      case False
      then obtain e where e: "f p = Inl e" using f t c Inr by (cases "f p") (fastforce simp: predicts_def foretells_def)+
      have "pi_dry q" using t by (simp add: twin_def)
      then have "pi_dry q1" using f Inr unfolding predicts_def by blast
      then have "\<not> clean q'" if "g q1 = Inr q'" for q' using g that False unfolding predicts_def by blast
      then show ?thesis using e Inr by (cases "g q1") (simp_all add: foretells_def)
    qed
  qed
  moreover have "pi_dry q' \<and> (clean q' \<longrightarrow> clean q)" if "pi_dry q" "rbind (f q) g = Inr q'" for q q'
  proof -
    obtain q1 where "f q = Inr q1" "g q1 = Inr q'" using \<open>rbind (f q) g = Inr q'\<close> by (auto simp: rbind_Inr_iff)
    then show ?thesis using f g \<open>pi_dry q\<close> unfolding predicts_def by blast
  qed
  ultimately show ?thesis unfolding predicts_def by blast
qed

text \<open>A stage that neither looks at \<open>dryRun\<close> nor touches the findings.\<close>

definition oblivious :: "('t pipe \<Rightarrow> pipe_error + 't pipe) \<Rightarrow> bool" where
  "oblivious st \<longleftrightarrow> (\<forall>p d rs vs. st (p\<lparr>pi_dry := d, pi_reports := rs, pi_policies := vs\<rparr>) =
     map_sum id (\<lambda>p'. p'\<lparr>pi_dry := d, pi_reports := rs, pi_policies := vs\<rparr>) (st p))"

lemma obliviousD:
  "oblivious st \<Longrightarrow> st (p\<lparr>pi_dry := d, pi_reports := rs, pi_policies := vs\<rparr>) =
     map_sum id (\<lambda>p'. p'\<lparr>pi_dry := d, pi_reports := rs, pi_policies := vs\<rparr>) (st p)"
  by (simp add: oblivious_def)

lemma oblivious_keeps:
  assumes "oblivious st" "st q = Inr q'"
  shows "pi_dry q' = pi_dry q \<and> pi_reports q' = pi_reports q \<and> pi_policies q' = pi_policies q"
  using obliviousD [OF assms(1), where p = q and d = "pi_dry q" and rs = "pi_reports q" and vs = "pi_policies q"] assms(2)
  by simp (metis (no_types, lifting) pipe.select_convs(7-9) pipe.surjective pipe.update_convs(7-9))

lemma oblivious_predicts:
  assumes ob: "oblivious st"
  shows "predicts st"
proof -
  have "foretells st p q" if t: "twin p q" and c: "clean q" for p q
  proof (cases "st p")
    case (Inl e)
    then have "st q = Inl e" using t obliviousD [OF ob, where p = p and d = True and rs = "pi_reports q" and vs = "pi_policies q"] by (simp add: twin_def)
    then show ?thesis using Inl by (simp add: foretells_def)
  next
    case (Inr p')
    then have q: "st q = Inr (p'\<lparr>pi_dry := True, pi_reports := pi_reports q, pi_policies := pi_policies q\<rparr>)"
      using t obliviousD [OF ob, where p = p and d = True and rs = "pi_reports q" and vs = "pi_policies q"] by (simp add: twin_def)
    then have "clean (p'\<lparr>pi_dry := True, pi_reports := pi_reports q, pi_policies := pi_policies q\<rparr>)"
      using c by (simp add: clean_def)
    then show ?thesis
      using q Inr oblivious_keeps [OF ob Inr] t by (simp add: foretells_def twin_def)
  qed
  then show ?thesis using oblivious_keeps [OF ob] by (auto simp: predicts_def clean_def)
qed

lemma transform_loop_oblivious:
  "transform_loop i fns (p\<lparr>pi_dry := d, pi_reports := rs, pi_policies := vs\<rparr>) =
     map_sum id (\<lambda>p'. p'\<lparr>pi_dry := d, pi_reports := rs, pi_policies := vs\<rparr>) (transform_loop i fns p)"
proof (induction fns arbitrary: i p)
  case (Cons fn fns)
  show ?case
  proof (cases "fn (pi_merged p)")
    case (Inr doc)
    have "transform_loop (Suc i) fns (p\<lparr>pi_merged := doc\<rparr>\<lparr>pi_dry := d, pi_reports := rs, pi_policies := vs\<rparr>) =
      map_sum id (\<lambda>p'. p'\<lparr>pi_dry := d, pi_reports := rs, pi_policies := vs\<rparr>) (transform_loop (Suc i) fns (p\<lparr>pi_merged := doc\<rparr>))"
      by (rule Cons.IH)
    then show ?thesis using Inr by (cases p) (simp add: id_def)
  qed simp
qed simp

lemma oblivious_stages:
  "oblivious (merge_stage oo)" "oblivious (transform_stage oo)" "oblivious (secret_stage oo)"
  "oblivious (hooks_stage oo)" "oblivious (decode_stage oo)"
proof -
  show "oblivious (merge_stage oo)"
    unfolding oblivious_def
  proof (intro allI)
    fix p :: "'a pipe" and d rs vs
    show "merge_stage oo (p\<lparr>pi_dry := d, pi_reports := rs, pi_policies := vs\<rparr>) =
        map_sum id (\<lambda>p'. p'\<lparr>pi_dry := d, pi_reports := rs, pi_policies := vs\<rparr>) (merge_stage oo p)"
      by (cases p; cases "run_merge (po_float oo) (po_level oo) (pi_asm p)") (simp_all add: merge_stage_def)
  qed
  show "oblivious (transform_stage oo)"
    by (simp add: oblivious_def transform_stage_def transform_loop_oblivious)
  show "oblivious (secret_stage oo)"
    by (auto simp: oblivious_def secret_stage_def split: option.split prod.split)
  show "oblivious (hooks_stage oo)"
    unfolding oblivious_def
  proof (intro allI)
    fix p :: "'a pipe" and d rs vs
    show "hooks_stage oo (p\<lparr>pi_dry := d, pi_reports := rs, pi_policies := vs\<rparr>) =
        map_sum id (\<lambda>p'. p'\<lparr>pi_dry := d, pi_reports := rs, pi_policies := vs\<rparr>) (hooks_stage oo p)"
      by (cases p; cases "po_hooks oo"; cases "the (po_hooks oo) (pi_merged p)") (simp_all add: hooks_stage_def)
  qed
  show "oblivious (decode_stage oo)"
    by (auto simp: oblivious_def decode_stage_def split: sum.split)
qed

text \<open>The stages with findings.\<close>

lemma field_meta_loop_dry:
  "pi_dry q \<Longrightarrow> field_meta_loop msgs q =
     ([], q\<lparr>pi_reports := pi_reports q @ map (\<lambda>m. \<lparr>vr_name = ''fastconf:field-meta'', vr_err = Some m\<rparr>) msgs\<rparr>)"
  by (induction msgs arbitrary: q) (simp_all add: finding_def)

lemma field_meta_loop_wet: "\<not> pi_dry p \<Longrightarrow> field_meta_loop msgs p = (msgs, p)"
  by (induction msgs) (simp_all add: finding_def)

lemma twin_fields:
  "twin p q \<Longrightarrow> pi_target q = pi_target p \<and> pi_reason q = pi_reason p \<and> pi_dry q \<and> \<not> pi_dry p"
  unfolding twin_def by (metis pipe.select_convs(1,6) pipe.surjective pipe.update_convs(7-9))

lemma twin_reports: "twin p q \<Longrightarrow> twin p (q\<lparr>pi_reports := rs, pi_policies := vs\<rparr>)"
  by (cases p; cases q) (simp add: twin_def)

lemma clean_reports [simp]:
  "clean (q\<lparr>pi_reports := pi_reports q @ rs\<rparr>) \<longleftrightarrow> clean q \<and> list_all (\<lambda>r. vr_err r = None) rs"
  "clean (q\<lparr>pi_policies := pi_policies q @ vs\<rparr>) \<longleftrightarrow> clean q \<and> list_all (\<lambda>v. vi_severity v \<noteq> severity_error) vs"
  by (auto simp: clean_def)

lemma twin_reports1: "twin p q \<Longrightarrow> twin p (q\<lparr>pi_reports := rs\<rparr>)" "twin p q \<Longrightarrow> twin p (q\<lparr>pi_policies := vs\<rparr>)"
  by (cases p; cases q; simp add: twin_def)+

lemma field_meta_predicts: "predicts (field_meta_stage oo)"
proof -
  have "foretells (field_meta_stage oo) p q" if t: "twin p q" and c: "clean q" for p q
  proof (cases "pi_target p")
    case None
    then show ?thesis using twin_fields [OF t] t c by (simp add: foretells_def field_meta_stage_def)
  next
    case (Some v)
    have "field_meta_stage oo p = (if po_field_meta oo v = [] then Inr p else Inl (FieldMetaStage (po_field_meta oo v)))"
      using Some twin_fields [OF t] by (simp add: field_meta_stage_def field_meta_loop_wet)
    moreover have "field_meta_stage oo q = Inr (q\<lparr>pi_reports := pi_reports q @
        map (\<lambda>m. \<lparr>vr_name = ''fastconf:field-meta'', vr_err = Some m\<rparr>) (po_field_meta oo v)\<rparr>)"
      using Some twin_fields [OF t] by (simp add: field_meta_stage_def field_meta_loop_dry)
    ultimately show ?thesis
      using c twin_reports1(1) [OF t] by (cases "po_field_meta oo v = []") (auto simp: foretells_def neq_Nil_conv t)
  qed
  moreover have "pi_dry q' \<and> (clean q' \<longrightarrow> clean q)" if "pi_dry q" "field_meta_stage oo q = Inr q'" for q q'
    using that by (auto simp: field_meta_stage_def field_meta_loop_dry split: option.splits)
  ultimately show ?thesis unfolding predicts_def by blast
qed

lemma validate_dry:
  "pi_dry q \<Longrightarrow> \<exists>rs. validate_loop i vs q = Inr (q\<lparr>pi_reports := pi_reports q @ rs\<rparr>) \<and>
     (list_all (\<lambda>r. vr_err r = None) rs \<longleftrightarrow> list_all (\<lambda>v. v (pi_target q) = None) vs)"
proof (induction vs arbitrary: i q)
  case Nil
  then show ?case by (intro exI [of _ "[]"]) simp
next
  case (Cons v vs)
  let ?r = "\<lparr>vr_name = ''validator['' @ itoa (int i) @ '']'', vr_err = v (pi_target q)\<rparr>"
  obtain rs where "validate_loop (Suc i) vs (q\<lparr>pi_reports := pi_reports q @ [?r]\<rparr>) =
      Inr (q\<lparr>pi_reports := pi_reports q @ [?r] @ rs\<rparr>)"
    "list_all (\<lambda>r. vr_err r = None) rs \<longleftrightarrow> list_all (\<lambda>v. v (pi_target q) = None) vs"
    using Cons.IH [of "q\<lparr>pi_reports := pi_reports q @ [?r]\<rparr>" "Suc i"] Cons.prems by auto
  then show ?case using Cons.prems by (intro exI [of _ "?r # rs"]) (simp add: finding_def)
qed

lemma validate_wet:
  "\<not> pi_dry p \<Longrightarrow> (if list_all (\<lambda>v. v (pi_target p) = None) vs then validate_loop i vs p = Inr p
     else \<not> is_ok (validate_loop i vs p))"
  by (induction vs arbitrary: i) (auto simp: finding_def split: option.splits)

lemma validate_predicts: "predicts (validate_stage oo)"
proof -
  have "foretells (validate_stage oo) p q" if t: "twin p q" and c: "clean q" for p q
  proof -
    obtain rs where rs: "validate_loop 0 (po_validators oo) q = Inr (q\<lparr>pi_reports := pi_reports q @ rs\<rparr>)"
      "list_all (\<lambda>r. vr_err r = None) rs \<longleftrightarrow> list_all (\<lambda>v. v (pi_target q) = None) (po_validators oo)"
      using validate_dry [of q 0 "po_validators oo"] twin_fields [OF t] by auto
    then show ?thesis
      using validate_wet [of p "po_validators oo" 0] twin_fields [OF t] c twin_reports1(1) [OF t]
      by (auto simp: foretells_def validate_stage_def split: if_splits)
  qed
  moreover have "pi_dry q' \<and> (clean q' \<longrightarrow> clean q)" if "pi_dry q" "validate_stage oo q = Inr q'" for q q'
    using validate_dry [OF that(1), of 0 "po_validators oo"] that by (auto simp: validate_stage_def)
  ultimately show ?thesis unfolding predicts_def by blast
qed

lemma evaluate_split:
  "evaluate_policies oo cfg reason = (e, w) \<Longrightarrow>
     list_all (\<lambda>v. vi_severity v \<noteq> severity_error) w \<and>
     (case e of None \<Rightarrow> True | Some errs \<Rightarrow> errs \<noteq> [] \<and> list_all (\<lambda>v. vi_severity v = severity_error) errs)"
  by (auto simp: evaluate_policies_def Let_def list_all_iff split: if_splits)

lemma policy_predicts: "predicts (policy_stage oo)"
proof -
  have "foretells (policy_stage oo) p q" if t: "twin p q" and c: "clean q" for p q
  proof -
    obtain e w where ew: "evaluate_policies oo (pi_target p) (pi_reason p) = (e, w)" by fastforce
    let ?vs = "w @ (case e of None \<Rightarrow> [] | Some errs \<Rightarrow> errs)"
    have p: "policy_stage oo p = (if po_policies oo = [] then Inr p else case e of None \<Rightarrow> Inr p | Some errs \<Rightarrow> Inl (PolicyStage errs))"
      using twin_fields [OF t] ew by (simp add: policy_stage_def)
    have q: "policy_stage oo q = (if po_policies oo = [] then Inr q else Inr (q\<lparr>pi_policies := pi_policies q @ ?vs\<rparr>))"
      using twin_fields [OF t] ew by (simp add: policy_stage_def)
    have "list_all (\<lambda>v. vi_severity v \<noteq> severity_error) ?vs \<longleftrightarrow> e = None"
      using evaluate_split [OF ew] by (cases e) (auto simp: neq_Nil_conv)
    then show ?thesis
      using c t twin_reports1(2) [OF t, of "pi_policies q @ ?vs"] p q
      by (cases "po_policies oo = []"; cases e) (simp_all add: foretells_def del: list_all_append)
  qed
  moreover have "pi_dry q' \<and> (clean q' \<longrightarrow> clean q)" if "pi_dry q" "policy_stage oo q = Inr q'" for q q'
    using that by (auto simp: policy_stage_def split: if_splits prod.splits)
  ultimately show ?thesis unfolding predicts_def by blast
qed

lemma canceled_predicts: "predicts (\<lambda>p. if b then Inl PipeCanceled else Inr p)"
  by (simp add: predicts_def foretells_def)

lemma run_stages_predicts: "\<forall>s \<in> set ss. predicts (snd s) \<Longrightarrow> predicts (run_stages cx i ss)"
proof (induction ss arbitrary: i)
  case Nil
  then show ?case using canceled_predicts [of "cx i"] by simp
next
  case (Cons s ss)
  then have b: "predicts (\<lambda>p. rbind (snd s p) (run_stages cx (Suc i) ss))" by (intro predicts_bind) auto
  show ?case
  proof (cases "cx i")
    case True
    then have "run_stages cx i (s # ss) = (\<lambda>p. Inl PipeCanceled)" by (simp add: fun_eq_iff)
    then show ?thesis by (simp add: predicts_def foretells_def)
  next
    case False
    then have "run_stages cx i (s # ss) = (\<lambda>p. rbind (snd s p) (run_stages cx (Suc i) ss))" by (simp add: fun_eq_iff)
    then show ?thesis using b by simp
  qed
qed

lemma default_stages_predict: "predicts (run_stages cx i (default_stages oo))"
  using oblivious_stages [of oo] field_meta_predicts validate_predicts policy_predicts
  by (intro run_stages_predicts) (auto simp: default_stages_def intro: oblivious_predicts)

definition same_outcome :: "'t pipe \<Rightarrow> 't pipe \<Rightarrow> bool" where
  "same_outcome p q \<longleftrightarrow> pi_target p = pi_target q \<and> pi_merged p = pi_merged q \<and> pi_sources p = pi_sources q \<and> pi_origins p = pi_origins q"

lemma twin_outcome: "twin p q \<Longrightarrow> same_outcome p q"
  by (cases p; cases q) (simp add: twin_def same_outcome_def)

lemma start_twin: "twin (start_pipe a reason False) (start_pipe a reason True)" "clean (start_pipe a reason True)"
  by (simp_all add: twin_def start_pipe_def clean_def)

text \<open>C9. A plan predicts the reload with the same inputs and reason. If the preview ends with an error the reload fails
  too. If it ends with a result, the reload succeeds exactly when no report holds an error and no policy finding has
  severity error, and then with the same value, document, sources, origins and hash; warnings never matter.\<close>

theorem plan_predicts_reload:
  "(case run_pipeline oo cx a reason True of
      Inl e \<Rightarrow> \<not> is_ok (run_pipeline oo cx a reason False)
    | Inr (q, h) \<Rightarrow> if clean q then \<exists>p. run_pipeline oo cx a reason False = Inr (p, h) \<and> same_outcome p q
                  else \<not> is_ok (run_pipeline oo cx a reason False))"
proof -
  let ?run = "run_stages cx 0 (default_stages oo)"
  have f: "foretells ?run (start_pipe a reason False) (start_pipe a reason True)"
    using default_stages_predict [of cx 0 oo] start_twin [of a reason] unfolding predicts_def by blast
  show ?thesis
  proof (cases "?run (start_pipe a reason True)")
    case (Inl e)
    then show ?thesis
      using f by (cases "?run (start_pipe a reason False)") (simp_all add: foretells_def run_pipeline_def)
  next
    case (Inr q)
    show ?thesis
    proof (cases "clean q")
      case True
      then obtain p where p: "?run (start_pipe a reason False) = Inr p" "twin p q"
        using f Inr by (auto simp: foretells_def)
      then show ?thesis
        using twin_outcome [OF p(2)] Inr True
        by (cases "po_hash oo (pi_target q)") (auto simp: run_pipeline_def same_outcome_def)
    next
      case False
      then obtain e where "?run (start_pipe a reason False) = Inl e"
        using f Inr by (cases "?run (start_pipe a reason False)") (auto simp: foretells_def)
      then show ?thesis using Inr False by (cases "po_hash oo (pi_target q)") (simp_all add: run_pipeline_def)
    qed
  qed
qed

section \<open>Secret references\<close>

text \<open>The string leaves the walk visits, in its order, and the tree with every one of them replaced.\<close>

fun visited :: "nat \<Rightarrow> string \<Rightarrow> gval \<Rightarrow> (string \<times> string) list"
  and visited_map :: "nat \<Rightarrow> string \<Rightarrow> gmap \<Rightarrow> (string \<times> string) list"
  and visited_slice :: "nat \<Rightarrow> string \<Rightarrow> nat \<Rightarrow> gval list \<Rightarrow> (string \<times> string) list" where
  "visited d pre (GMap m) = (if walk_max_depth < d then [] else visited_map d pre m)"
| "visited d pre (GSlice xs) = (if walk_max_depth < d then [] else visited_slice d pre 0 xs)"
| "visited d pre _ = []"
| "visited_map d pre [] = []"
| "visited_map d pre ((k, v) # m) =
     (case str_leaf v of Some t \<Rightarrow> [(join_key pre k, t)] | None \<Rightarrow> visited (d + 1) (join_key pre k) v) @ visited_map d pre m"
| "visited_slice d pre i [] = []"
| "visited_slice d pre i (v # xs) =
     (case str_leaf v of Some t \<Rightarrow> [(join_key pre (itoa (int i)), t)] | None \<Rightarrow> visited (d + 1) (join_key pre (itoa (int i))) v)
     @ visited_slice d pre (i + 1) xs"

fun map_strings :: "(string \<Rightarrow> string) \<Rightarrow> nat \<Rightarrow> gval \<Rightarrow> gval"
  and map_strings_map :: "(string \<Rightarrow> string) \<Rightarrow> nat \<Rightarrow> gmap \<Rightarrow> gmap"
  and map_strings_slice :: "(string \<Rightarrow> string) \<Rightarrow> nat \<Rightarrow> gval list \<Rightarrow> gval list" where
  "map_strings f d (GMap m) = (if walk_max_depth < d then GMap m else GMap (map_strings_map f d m))"
| "map_strings f d (GSlice xs) = (if walk_max_depth < d then GSlice xs else GSlice (map_strings_slice f d xs))"
| "map_strings f d v = v"
| "map_strings_map f d [] = []"
| "map_strings_map f d ((k, v) # m) =
     (k, case str_leaf v of Some t \<Rightarrow> GStr (f t) | None \<Rightarrow> map_strings f (d + 1) v) # map_strings_map f d m"
| "map_strings_slice f d [] = []"
| "map_strings_slice f d (v # xs) =
     (case str_leaf v of Some t \<Rightarrow> GStr (f t) | None \<Rightarrow> map_strings f (d + 1) v) # map_strings_slice f d xs"

lemma walk_state:
  "snd (walk_value fn d pre v s) = fold (\<lambda>(p, t) s. snd (fn p t s)) (visited d pre v) s"
  "snd (walk_map fn d pre m s) = fold (\<lambda>(p, t) s. snd (fn p t s)) (visited_map d pre m) s"
  "snd (walk_slice fn d pre i xs s) = fold (\<lambda>(p, t) s. snd (fn p t s)) (visited_slice d pre i xs) s"
  by (induction fn d pre v s and fn d pre m s and fn d pre i xs s rule: walk_value_walk_map_walk_slice.induct)
    (auto split: option.split prod.split)

definition resolved :: "resolver_func \<Rightarrow> string \<Rightarrow> string" where
  "resolved r t = (case recognize r t of None \<Rightarrow> t | Some ref \<Rightarrow> (case resolve_ref r ref of Inl e \<Rightarrow> t | Inr plain \<Rightarrow> plain))"

definition fails :: "resolver_func \<Rightarrow> string \<Rightarrow> bool" where
  "fails r t \<longleftrightarrow> (case recognize r t of None \<Rightarrow> False | Some ref \<Rightarrow> \<not> is_ok (resolve_ref r ref))"

definition record_secret :: "resolver_func \<Rightarrow> string \<times> string \<Rightarrow> index option \<Rightarrow> index option" where
  "record_secret r pt = (case recognize r (snd pt) of None \<Rightarrow> id | Some ref \<Rightarrow> record_opt (fst pt) (secret_source (ref_scheme ref)))"

lemma secret_leaf_stuck: "fst st = Some e \<Longrightarrow> secret_leaf r path v st = (None, st)"
  by (simp add: secret_leaf_def)

lemma secret_leaf_run:
  assumes "fst st = None"
  shows "\<not> fails r t \<Longrightarrow> (case fst (secret_leaf r path t st) of None \<Rightarrow> t | Some t' \<Rightarrow> t') = resolved r t \<and>
      snd (secret_leaf r path t st) = (None, record_secret r (path, t) (snd st))"
    and "fails r t \<Longrightarrow> \<exists>ref msg. recognize r t = Some ref \<and> resolve_ref r ref = Inl msg \<and>
      fst (snd (secret_leaf r path t st)) = Some (SecretStage (ref_scheme ref) path msg)"
proof -
  assume ok: "\<not> fails r t"
  show "(case fst (secret_leaf r path t st) of None \<Rightarrow> t | Some t' \<Rightarrow> t') = resolved r t \<and>
      snd (secret_leaf r path t st) = (None, record_secret r (path, t) (snd st))"
  proof (cases "recognize r t")
    case None
    then show ?thesis using assms by (cases st) (simp add: secret_leaf_def resolved_def record_secret_def)
  next
    case (Some ref)
    then obtain plain where "resolve_ref r ref = Inr plain" using ok by (auto simp: fails_def is_ok_def)
    then show ?thesis using assms Some by (simp add: secret_leaf_def resolved_def record_secret_def)
  qed
next
  assume "fails r t"
  then obtain ref msg where "recognize r t = Some ref" "resolve_ref r ref = Inl msg"
    by (cases "recognize r t"; cases "resolve_ref r (the (recognize r t))") (auto simp: fails_def)
  then show "\<exists>ref msg. recognize r t = Some ref \<and> resolve_ref r ref = Inl msg \<and>
      fst (snd (secret_leaf r path t st)) = Some (SecretStage (ref_scheme ref) path msg)"
    using assms by (simp add: secret_leaf_def)
qed

lemma secret_fold_stuck: "fst st = Some e \<Longrightarrow> fst (fold (\<lambda>(p, t) s. snd (secret_leaf r p t s)) xs st) = Some e"
  by (induction xs arbitrary: st) (auto simp: secret_leaf_stuck)

lemma secret_fold:
  "if list_all (\<lambda>(p, t). \<not> fails r t) xs
   then fold (\<lambda>(p, t) s. snd (secret_leaf r p t s)) xs (None, ix) = (None, fold (record_secret r) xs ix)
   else \<exists>p t ref msg. (p, t) \<in> set xs \<and> recognize r t = Some ref \<and> resolve_ref r ref = Inl msg \<and>
     fst (fold (\<lambda>(p, t) s. snd (secret_leaf r p t s)) xs (None, ix)) = Some (SecretStage (ref_scheme ref) p msg)"
proof (induction xs arbitrary: ix)
  case (Cons x xs)
  obtain p t where x: "x = (p, t)" by (cases x)
  show ?case
  proof (cases "fails r t")
    case True
    then obtain ref msg where f: "recognize r t = Some ref" "resolve_ref r ref = Inl msg"
      "fst (snd (secret_leaf r p t (None, ix))) = Some (SecretStage (ref_scheme ref) p msg)"
      using secret_leaf_run(2) [of "(None, ix)" r t p] by auto
    then show ?thesis using True secret_fold_stuck [OF f(3), of r xs] by (fastforce simp: x)
  next
    case False
    then have "snd (secret_leaf r p t (None, ix)) = (None, record_secret r (p, t) ix)"
      using secret_leaf_run(1) [of "(None, ix)" r t p] by simp
    then have "fold (\<lambda>(p, t) s. snd (secret_leaf r p t s)) (x # xs) (None, ix) =
        fold (\<lambda>(p, t) s. snd (secret_leaf r p t s)) xs (None, record_secret r (p, t) ix)"
      by (simp add: x)
    moreover have "list_all (\<lambda>(p, t). \<not> fails r t) (x # xs) \<longleftrightarrow> list_all (\<lambda>(p, t). \<not> fails r t) xs"
      using False by (simp add: x)
    moreover have "fold (record_secret r) (x # xs) ix = fold (record_secret r) xs (record_secret r (p, t) ix)"
      by (simp add: x)
    ultimately show ?thesis
      using Cons.IH [of "record_secret r (p, t) ix"] list.set_intros(2) [of _ xs x]
      by (cases "list_all (\<lambda>(p, t). \<not> fails r t) xs") (simp_all only: if_True if_False, blast)
  qed
qed simp

lemma leaf_value:
  assumes "\<not> fails r t" "fst st = None" "str_leaf v = Some t"
  shows "(case secret_leaf r path t st of (Some t', s') \<Rightarrow> (GStr t', s') | (None, s') \<Rightarrow> (v, s')) =
    (GStr (resolved r t), None, record_secret r (path, t) (snd st))"
proof -
  have "v = GStr t" using assms(3) by (cases v rule: str_leaf.cases) auto
  then show ?thesis
    using secret_leaf_run(1) [OF assms(2,1), of path] by (cases "secret_leaf r path t st") (auto split: option.splits)
qed

lemma walk_secrets:
  "list_all (\<lambda>(p, t). \<not> fails r t) (visited d pre v) \<Longrightarrow> fst s = None \<Longrightarrow>
     fst (walk_value (secret_leaf r) d pre v s) = map_strings (resolved r) d v \<and> fst (snd (walk_value (secret_leaf r) d pre v s)) = None"
  "list_all (\<lambda>(p, t). \<not> fails r t) (visited_map d pre m) \<Longrightarrow> fst s = None \<Longrightarrow>
     fst (walk_map (secret_leaf r) d pre m s) = map_strings_map (resolved r) d m \<and> fst (snd (walk_map (secret_leaf r) d pre m s)) = None"
  "list_all (\<lambda>(p, t). \<not> fails r t) (visited_slice d pre i xs) \<Longrightarrow> fst s = None \<Longrightarrow>
     fst (walk_slice (secret_leaf r) d pre i xs s) = map_strings_slice (resolved r) d xs \<and> fst (snd (walk_slice (secret_leaf r) d pre i xs s)) = None"
proof (induction "secret_leaf r" d pre v s and "secret_leaf r" d pre m s and "secret_leaf r" d pre i xs s
    rule: walk_value_walk_map_walk_slice.induct)
  case (5 d pre k v m s)
  show ?case
  proof (cases "str_leaf v")
    case (Some t)
    then show ?thesis using 5 leaf_value [OF _ _ Some, of r s "join_key pre k"] by (auto split: prod.splits)
  next
    case None
    then show ?thesis using 5 by (auto split: prod.splits)
  qed
next
  case (7 d pre i v xs s)
  show ?case
  proof (cases "str_leaf v")
    case (Some t)
    then show ?thesis using 7 leaf_value [OF _ _ Some, of r s "join_key pre (itoa (int i))"] by (auto split: prod.splits)
  next
    case None
    then show ?thesis using 7 by (auto split: prod.splits)
  qed
qed (auto split: prod.splits)

text \<open>C26. Resolving secrets replaces every string the resolver recognises, at any path down to the depth limit, by its
  plaintext and records the secret layer as the last origin of exactly these paths, in the order of the walk; nothing
  else changes. It fails exactly when some recognised string cannot be resolved, and names the scheme and path of one.\<close>

theorem secrets_resolved:
  assumes "po_resolver oo = Some r" "pi_merged p = Some m"
  shows "(if list_all (\<lambda>(path, t). \<not> fails r t) (visited 0 '''' (GMap m))
    then secret_stage oo p = Inr (p\<lparr>pi_merged := as_map (map_strings (resolved r) 0 (GMap m)),
                                    pi_origins := fold (record_secret r) (visited 0 '''' (GMap m)) (pi_origins p)\<rparr>)
    else \<exists>path t ref msg. (path, t) \<in> set (visited 0 '''' (GMap m)) \<and> recognize r t = Some ref \<and>
      resolve_ref r ref = Inl msg \<and> secret_stage oo p = Inl (SecretStage (ref_scheme ref) path msg))"
proof -
  obtain v err ix where w: "walk_value (secret_leaf r) 0 '''' (GMap m) (None, pi_origins p) = (v, err, ix)"
    by (cases "walk_value (secret_leaf r) 0 '''' (GMap m) (None, pi_origins p)") auto
  have st: "fold (\<lambda>(q, t) s. snd (secret_leaf r q t s)) (visited 0 '''' (GMap m)) (None, pi_origins p) = (err, ix)"
    using walk_state(1) [of "secret_leaf r" 0 "''''" "GMap m" "(None, pi_origins p)"] w by simp
  have run: "secret_stage oo p = (case err of Some e \<Rightarrow> Inl e | None \<Rightarrow> Inr (p\<lparr>pi_merged := as_map v, pi_origins := ix\<rparr>))"
    using assms w by (simp add: secret_stage_def walk_leaves_def split: option.split)
  show ?thesis
  proof (cases "list_all (\<lambda>(path, t). \<not> fails r t) (visited 0 '''' (GMap m))")
    case True
    then have "v = map_strings (resolved r) 0 (GMap m)"
      using walk_secrets(1) [OF True, of "(None, pi_origins p)"] w by simp
    moreover have "err = None" "ix = fold (record_secret r) (visited 0 '''' (GMap m)) (pi_origins p)"
      using secret_fold [of r "visited 0 '''' (GMap m)" "pi_origins p"] True st by simp_all
    ultimately show ?thesis using run by (simp only: True if_True option.case)
  next
    case False
    then obtain path t ref msg where "(path, t) \<in> set (visited 0 '''' (GMap m))" "recognize r t = Some ref"
      "resolve_ref r ref = Inl msg" "err = Some (SecretStage (ref_scheme ref) path msg)"
      using secret_fold [of r "visited 0 '''' (GMap m)" "pi_origins p"] st by (simp only: False if_False fst_conv) blast
    then show ?thesis using False run by (simp only: if_False option.case) blast
  qed
qed

definition demo_resolver :: resolver_func where
  "demo_resolver =
     \<lparr>recognize_fn = Some (\<lambda>v. if has_prefix v ''ref:'' then Some \<lparr>ref_scheme = ''ref'', ref_body = drop 4 v\<rparr> else None),
      resolve_fn = Some (\<lambda>r. if ref_body r = ''lost'' then Inl ''no such key'' else Inr (''plain-'' @ ref_body r))\<rparr>"

definition demo_pipe_opts :: "gmap pipe_opts" where
  "demo_pipe_opts =
     \<lparr>po_float = \<lambda>_. None, po_level = Full, po_transforms = [], po_resolver = Some demo_resolver, po_hooks = None,
      po_unknown = UnknownIgnore, po_encode = \<lambda>_. Inr '''', po_decode = \<lambda>_ _. Inr [], po_assign = \<lambda>_ t. t,
      po_defaults = Inr, po_defaulter = None, po_field_meta = \<lambda>_. [], po_validators = [], po_policies = [],
      po_hash = \<lambda>_. Inr '''', po_tenant = ''''\<rparr>"

definition demo_secret_doc :: "string \<Rightarrow> gmap" where
  "demo_secret_doc s = [(''db'', GMap [(''pass'', GStr (''ref:'' @ s)), (''user'', GStr ''me'')]), (''xs'', GSlice [GStr ''ref:2''])]"

definition demo_pipe :: "gmap \<Rightarrow> gmap pipe" where
  "demo_pipe m = (start_pipe \<lparr>ar_staged = [], ar_strict = False, ar_append = False, ar_keys = [], ar_fingerprint = ''''\<rparr> ''r'' False)
     \<lparr>pi_merged := Some m\<rparr>"

lemma demo_pipe_merged: "pi_merged (demo_pipe m) = Some m" "po_resolver demo_pipe_opts = Some demo_resolver"
  by (simp_all add: demo_pipe_def demo_pipe_opts_def)

theorem secrets_resolved_witness:
  "pi_merged (projr (secret_stage demo_pipe_opts (demo_pipe (demo_secret_doc ''1'')))) =
     Some [(''db'', GMap [(''pass'', GStr ''plain-1''), (''user'', GStr ''me'')]), (''xs'', GSlice [GStr ''plain-2''])] \<and>
   \<not> is_ok (secret_stage demo_pipe_opts (demo_pipe (demo_secret_doc ''lost'')))"
proof -
  have ok: "list_all (\<lambda>(path, t). \<not> fails demo_resolver t) (visited 0 '''' (GMap (demo_secret_doc ''1'')))"
    and bad: "\<not> list_all (\<lambda>(path, t). \<not> fails demo_resolver t) (visited 0 '''' (GMap (demo_secret_doc ''lost'')))"
    and v: "as_map (map_strings (resolved demo_resolver) 0 (GMap (demo_secret_doc ''1''))) =
      Some [(''db'', GMap [(''pass'', GStr ''plain-1''), (''user'', GStr ''me'')]), (''xs'', GSlice [GStr ''plain-2''])]"
    by code_simp+
  from secrets_resolved [OF demo_pipe_merged(2,1), of "demo_secret_doc ''lost''"] bad
  have "\<not> is_ok (secret_stage demo_pipe_opts (demo_pipe (demo_secret_doc ''lost'')))" by auto
  then show ?thesis
    using secrets_resolved [OF demo_pipe_merged(2,1), of "demo_secret_doc ''1''"] ok v by simp
qed

end
