(* ===== verification/Manager.thy ===== *)
theory Manager
  imports Pipeline
begin

text \<open>
  \<open>manager.go\<close>, \<open>commit.go\<close>, \<open>reload.go\<close>, \<open>reload_queue.go\<close>, \<open>plan.go\<close>, \<open>history.go\<close> and the dispatch of
  \<open>subscribe.go\<close>: the published snapshot, the one writer that replaces it, and the queues around it. The writer runs
  a request as one step, because nothing else writes the fields it touches; submissions, notifications, pauses,
  closing and the answers to waiting callers interleave with it as steps of their own. \<open>mg_published\<close> is a
  history variable: the snapshots published so far. Times, logs, spans and observers are left out.
\<close>

section \<open>Snapshots\<close>

record reload_cause =
  ca_reason :: string
  ca_revisions :: "(string \<times> string) list"
  ca_tenant :: string
  ca_key :: string

text \<open>\<open>sn_ref\<close> is the address of the snapshot: two pointers are equal when it is.\<close>

record 't snapshot =
  sn_ref :: nat
  sn_value :: "'t option"
  sn_hash :: string
  sn_sources :: "source_ref list"
  sn_generation :: "64 word"
  sn_origins :: "index option"
  sn_cause :: reload_cause

text \<open>\<open>Generation\<close> of a snapshot pointer that may be nil.\<close>

definition generation_of :: "'t snapshot option \<Rightarrow> 64 word" where
  "generation_of s = (case s of None \<Rightarrow> 0 | Some x \<Rightarrow> sn_generation x)"

definition collect_revision :: "source_ref \<Rightarrow> (string \<times> string) list \<Rightarrow> (string \<times> string) list" where
  "collect_revision s out =
     (if sr_kind s \<noteq> LayerProvider \<or> sr_revision s = '''' then out
      else
        (let p = ''provider://'';
             name = (if length p < length (sr_path s) \<and> has_prefix (sr_path s) p then drop (length p) (sr_path s) else sr_path s)
         in kv_set name (sr_revision s) out))"

definition collect_revisions :: "source_ref list \<Rightarrow> (string \<times> string) list" where
  "collect_revisions sources = fold collect_revision sources []"

definition new_state :: "'t pipe \<Rightarrow> string \<Rightarrow> 64 word \<Rightarrow> reload_cause \<Rightarrow> nat \<Rightarrow> 't snapshot" where
  "new_state p h gen cause ref =
     \<lparr>sn_ref = ref, sn_value = pi_target p, sn_hash = h, sn_sources = pi_sources p, sn_generation = gen,
      sn_origins = pi_origins p, sn_cause = cause\<rparr>"

definition restamp_state :: "'t snapshot \<Rightarrow> 64 word \<Rightarrow> reload_cause \<Rightarrow> nat \<Rightarrow> 't snapshot" where
  "restamp_state s gen cause ref = s\<lparr>sn_ref := ref, sn_generation := gen, sn_cause := cause\<rparr>"

section \<open>Errors, requests and state\<close>

datatype mgr_error =
    AssembleError load_error | PipelineError pipe_error | ContextError | ErrClosed | OptionError string
  | SubscriberPanic string | UnknownGeneration | HistoryDisabled

record reload_error =
  re_reason :: string
  re_err :: mgr_error

datatype 't work =
    WorkReload string "gmap option"   \<comment> \<open>watched directory, one-shot override\<close>
  | WorkPlan string                   \<comment> \<open>hostname\<close>
  | WorkRollback "'t snapshot"
  | WorkFail mgr_error                \<comment> \<open>the error of an option\<close>

text \<open>\<open>rq_done\<close> names the caller's channel; a trigger of a watcher has none.\<close>

record 't request =
  rq_reason :: string
  rq_work :: "'t work"
  rq_done :: "nat option"

record 't plan_result =
  pr_proposed :: "'t snapshot"
  pr_diff :: "segmented_diff list"
  pr_reports :: "validator_report list"
  pr_policies :: "violation list"

text \<open>A subscriber gets the values before and after and is silent, calls its callback, or panics.\<close>

datatype sub_outcome = SubSilent | SubCalled | SubPanicked string

type_synonym 't subscriber = "'t option \<Rightarrow> 't option \<Rightarrow> sub_outcome"

text \<open>The wrapper \<open>Subscribe\<close> builds; \<open>eq\<close> is \<open>WithEqual\<close> or \<open>reflect.DeepEqual\<close>, \<open>fn\<close> the panic of the callback, if any.\<close>

definition subscribe_wrapper ::
  "('t \<Rightarrow> 's option) \<Rightarrow> ('s \<Rightarrow> 's \<Rightarrow> bool) \<Rightarrow> ('s option \<Rightarrow> 's option \<Rightarrow> string option) \<Rightarrow> 't subscriber" where
  "subscribe_wrapper extract eq fn prev next =
     (let old_v = Option.bind prev extract; new_v = Option.bind next extract;
          fire = (case fn old_v new_v of None \<Rightarrow> SubCalled | Some msg \<Rightarrow> SubPanicked msg)
      in case (old_v, new_v) of
           (None, None) \<Rightarrow> SubSilent
         | (Some a, Some b) \<Rightarrow> if eq a b then SubSilent else fire
         | _ \<Rightarrow> fire)"

text \<open>Where \<open>reloadLoop\<close> stands: before the check of the lifetime, at the first select, at the second one, which waits,
  after a request, or returned.\<close>

datatype loop_pc = LoopTop | LoopPick | LoopSelect | LoopAfter | LoopExited

record 't mgr =
  mg_state :: "'t snapshot option"
  mg_gen :: "64 word"
  mg_fingerprint :: string
  mg_history :: "'t snapshot ring option"
  mg_errors :: "reload_error list"
  mg_queue :: "'t request list"
  mg_overflow :: bool
  mg_paused :: bool
  mg_closed :: bool
  mg_pc :: loop_pc
  mg_keys :: keys_cache
  mg_trees :: tree_cache
  mg_dirs :: "string list"
  mg_subs :: "(nat \<times> 't subscriber) list"
  mg_next_sub :: nat
  mg_next_ref :: nat
  mg_done :: "(nat \<times> mgr_error option) list"      \<comment> \<open>results sent on the callers' channels\<close>
  mg_plans :: "(nat \<times> 't plan_result) list"
  mg_waiting :: "nat list"
  mg_answers :: "(nat \<times> mgr_error option) list"   \<comment> \<open>what the callers returned\<close>
  mg_published :: "'t snapshot list"

definition reload_chan_cap :: nat where "reload_chan_cap = 16"
definition errors_chan_cap :: nat where "errors_chan_cap = 16"

text \<open>What one run of a request meets: files, provider results, cancellation. The configuration of the manager says
  which of them can occur (\<open>cf_env\<close>): options, for example, stay what \<open>New\<close> resolved.\<close>

record 'd run_env =
  en_world :: "'d world"
  en_opts :: asm_opts
  en_gen_after :: "64 word"
  en_canceled :: bool
  en_asm_canceled :: bool
  en_before :: bool
  en_stages :: "nat \<Rightarrow> bool"
  en_after :: bool

record ('t, 'd) mgr_cfg =
  cf_pipe :: "'t pipe_opts"
  cf_equal :: "gval \<Rightarrow> gval \<Rightarrow> bool"
  cf_view :: "'t snapshot \<Rightarrow> snapshot_view"
  cf_nil_view :: snapshot_view
  cf_env :: "'d run_env \<Rightarrow> bool"

section \<open>The error channel\<close>

function publish_error :: "reload_error \<Rightarrow> reload_error list \<Rightarrow> reload_error list" where
  "publish_error e q = (if length q < errors_chan_cap then q @ [e] else publish_error e (tl q))"
  by pat_completeness auto
termination by (relation "measure (\<lambda>(e, q). length q)") (auto simp: errors_chan_cap_def)

declare publish_error.simps [simp del]

lemma publish_error_last: "length q \<le> errors_chan_cap \<Longrightarrow> publish_error e q = last_n errors_chan_cap (q @ [e])"
proof (cases "length q < errors_chan_cap")
  case False
  assume "length q \<le> errors_chan_cap"
  with False have "length q = errors_chan_cap" "length (tl q) < errors_chan_cap" by (auto simp: errors_chan_cap_def)
  then show ?thesis
    by (subst publish_error.simps, subst publish_error.simps) (cases q; simp add: last_n_def errors_chan_cap_def)
qed (subst publish_error.simps, simp add: last_n_all)

interpretation errors: evict_oldest publish_error "\<lambda>q. q" "\<lambda>q. errors_chan_cap" "\<lambda>q. length q \<le> errors_chan_cap"
  by unfold_locales (auto simp: publish_error_last)

definition post_error :: "string \<Rightarrow> mgr_error \<Rightarrow> 't mgr \<Rightarrow> 't mgr" where
  "post_error reason e m = m\<lparr>mg_errors := publish_error \<lparr>re_reason = reason, re_err = e\<rparr> (mg_errors m)\<rparr>"

section \<open>Publication\<close>

definition value_of :: "'t snapshot option \<Rightarrow> 't option" where
  "value_of s = Option.bind s sn_value"

definition call_subscriber :: "'t snapshot option \<Rightarrow> 't snapshot \<Rightarrow> 't subscriber \<Rightarrow> 't mgr \<Rightarrow> 't mgr" where
  "call_subscriber prev next sub m =
     (case sub (value_of prev) (sn_value next) of
        SubPanicked msg \<Rightarrow> post_error ''subscriber-panic'' (SubscriberPanic msg) m
      | _ \<Rightarrow> m)"

definition notify_subscribers :: "'t snapshot option \<Rightarrow> 't snapshot \<Rightarrow> 't mgr \<Rightarrow> 't mgr" where
  "notify_subscribers prev next m =
     fold (\<lambda>(id, sub). call_subscriber prev next sub) (sort_key fst (mg_subs m)) m"

definition publish_snapshot :: "'t snapshot option \<Rightarrow> 't snapshot \<Rightarrow> 't mgr \<Rightarrow> 't mgr" where
  "publish_snapshot prev next m =
     notify_subscribers prev next
       (m\<lparr>mg_state := Some next,
          mg_history := (case prev of None \<Rightarrow> mg_history m | Some s \<Rightarrow> history_push (Some s) (mg_history m)),
          mg_next_ref := mg_next_ref m + 1,
          mg_published := mg_published m @ [next]\<rparr>)"

text \<open>\<open>commit\<close>: \<open>None\<close> is a nil error.\<close>

definition commit :: "('t, 'd) mgr_cfg \<Rightarrow> 'd run_env \<Rightarrow> asm_result \<Rightarrow> string \<Rightarrow> string \<Rightarrow> 't mgr \<Rightarrow> mgr_error option \<times> 't mgr" where
  "commit cf en a reason key m =
     (if en_before en then (Some ContextError, m)
      else if ar_fingerprint a \<noteq> zero_sum \<and> ar_fingerprint a = mg_fingerprint m then (None, m)
      else
        (case run_pipeline (cf_pipe cf) (en_stages en) a reason False of
           Inl e \<Rightarrow> (Some (PipelineError e), m)
         | Inr (p, h) \<Rightarrow>
             if en_after en then (Some ContextError, m)
             else if (case mg_state m of None \<Rightarrow> False | Some s \<Rightarrow> sn_hash s = h)
             then (None, m\<lparr>mg_fingerprint := ar_fingerprint a\<rparr>)
             else
               (let gen = mg_gen m + 1;
                    cause = \<lparr>ca_reason = reason, ca_revisions = collect_revisions (pi_sources p),
                             ca_tenant = po_tenant (cf_pipe cf), ca_key = key\<rparr>;
                    next = new_state p h gen cause (mg_next_ref m)
                in (None, publish_snapshot (mg_state m) next (m\<lparr>mg_fingerprint := ar_fingerprint a, mg_gen := gen\<rparr>)))))"

text \<open>\<open>reload\<close>: assembly updates the caches and the watched directories, whether or not anything is published.\<close>

definition assemble_run :: "'d run_env \<Rightarrow> string \<Rightarrow> staged_layer list \<Rightarrow> 't mgr \<Rightarrow> (load_error + asm_result) \<times> string list \<times> 't mgr" where
  "assemble_run en hostname extra m =
     (case assemble (en_world en) (en_opts en) (en_asm_canceled en) hostname (en_gen_after en) extra (mg_keys m) (mg_trees m) of
        (dirs, r, kc, tc) \<Rightarrow> (r, dirs, m\<lparr>mg_keys := kc, mg_trees := tc\<rparr>))"

definition reload :: "('t, 'd) mgr_cfg \<Rightarrow> 'd run_env \<Rightarrow> string \<Rightarrow> string \<Rightarrow> staged_layer list \<Rightarrow> 't mgr \<Rightarrow> mgr_error option \<times> 't mgr" where
  "reload cf en reason key extra m =
     (case assemble_run en '''' extra m of (r, dirs, m1) \<Rightarrow>
        (let m2 = m1\<lparr>mg_dirs := dirs\<rparr>
         in case r of Inl e \<Rightarrow> (Some (AssembleError e), m2) | Inr a \<Rightarrow> commit cf en a reason key m2))"

section \<open>Requests\<close>

definition view_of :: "('t, 'd) mgr_cfg \<Rightarrow> 't snapshot option \<Rightarrow> snapshot_view" where
  "view_of cf s = (case s of None \<Rightarrow> cf_nil_view cf | Some x \<Rightarrow> cf_view cf x)"

text \<open>\<open>runPlan\<close>: the preview and, on success, its result; only the caches of assembly change.\<close>

definition run_plan :: "('t, 'd) mgr_cfg \<Rightarrow> 'd run_env \<Rightarrow> string \<Rightarrow> 't mgr \<Rightarrow> (mgr_error + 't plan_result) \<times> 't mgr" where
  "run_plan cf en hostname m =
     (case assemble_run en hostname [] m of
        (Inl e, dirs, m1) \<Rightarrow> (Inl (AssembleError e), m1)
      | (Inr a, dirs, m1) \<Rightarrow>
          (case run_pipeline (cf_pipe cf) (en_stages en) a ''plan'' True of
             Inl e \<Rightarrow> (Inl (PipelineError e), m1)
           | Inr (p, h) \<Rightarrow>
               (let cause = \<lparr>ca_reason = ''plan'', ca_revisions = [], ca_tenant = po_tenant (cf_pipe cf), ca_key = ''''\<rparr>;
                    proposed = new_state p h (mg_gen m1) cause (mg_next_ref m1)
                in (Inr \<lparr>pr_proposed = proposed,
                         pr_diff = (case mg_state m1 of
                                      None \<Rightarrow> []
                                    | Some cur \<Rightarrow> diagnostic_diff (cf_equal cf) (view_of cf (Some cur)) (view_of cf (Some proposed))),
                         pr_reports = pi_reports p, pr_policies = pi_policies p\<rparr>,
                    m1\<lparr>mg_next_ref := mg_next_ref m1 + 1\<rparr>))))"

text \<open>\<open>History.Rollback\<close>, the caller's part: the target must be the very snapshot the history holds under its generation.\<close>

definition check_rollback :: "'t snapshot option \<Rightarrow> 't mgr \<Rightarrow> mgr_error option" where
  "check_rollback target m =
     (case mg_history m of
        None \<Rightarrow> Some HistoryDisabled
      | Some h \<Rightarrow>
          (case target of
             None \<Rightarrow> Some UnknownGeneration
           | Some t \<Rightarrow>
               (case history_find (\<lambda>s. sn_generation s = sn_generation t) (Some h) of
                  None \<Rightarrow> Some UnknownGeneration
                | Some found \<Rightarrow> if sn_ref found = sn_ref t then None else Some UnknownGeneration)))"

definition apply_rollback :: "('t, 'd) mgr_cfg \<Rightarrow> 't snapshot \<Rightarrow> 't mgr \<Rightarrow> 't mgr" where
  "apply_rollback cf target m =
     (let cause = \<lparr>ca_reason = ''rollback'', ca_revisions = [], ca_tenant = po_tenant (cf_pipe cf), ca_key = ''''\<rparr>;
          next = restamp_state target (mg_gen m + 1) cause (mg_next_ref m)
      in publish_snapshot (mg_state m) next (m\<lparr>mg_gen := mg_gen m + 1, mg_fingerprint := zero_sum\<rparr>))"

text \<open>What the request asks for, on the writer. A plan keeps its result for the caller it answers.\<close>

definition run_work :: "('t, 'd) mgr_cfg \<Rightarrow> 'd run_env \<Rightarrow> 't request \<Rightarrow> 't mgr \<Rightarrow> mgr_error option \<times> 't mgr" where
  "run_work cf en rq m =
     (case rq_work rq of
        WorkFail e \<Rightarrow> (Some e, m)
      | WorkRollback target \<Rightarrow> (None, apply_rollback cf target m)
      | WorkPlan host \<Rightarrow>
          (case run_plan cf en host m of
             (Inl e, m1) \<Rightarrow> (Some e, m1)
           | (Inr r, m1) \<Rightarrow> (None, m1\<lparr>mg_plans := (case rq_done rq of None \<Rightarrow> [] | Some d \<Rightarrow> [(d, r)]) @ mg_plans m1\<rparr>))
      | WorkReload key override \<Rightarrow>
          reload cf en (rq_reason rq) key (case override of None \<Rightarrow> [] | Some o1 \<Rightarrow> [override_layer o1]) m)"

definition send_done :: "nat option \<Rightarrow> mgr_error option \<Rightarrow> 't mgr \<Rightarrow> 't mgr" where
  "send_done d err m = (case d of None \<Rightarrow> m | Some i \<Rightarrow> m\<lparr>mg_done := (i, err) # mg_done m\<rparr>)"

definition run_request :: "('t, 'd) mgr_cfg \<Rightarrow> 'd run_env \<Rightarrow> 't request \<Rightarrow> 't mgr \<Rightarrow> 't mgr" where
  "run_request cf en rq m =
     (case (if en_canceled en \<or> mg_closed m then (Some ContextError, m) else run_work cf en rq m) of
        (err, m1) \<Rightarrow>
          send_done (rq_done rq) err (case err of None \<Rightarrow> m1 | Some e \<Rightarrow> post_error (rq_reason rq) e m1))"

text \<open>\<open>rejectPendingReloads\<close> and \<open>runOverflowResync\<close>.\<close>

definition reject_pending :: "'t mgr \<Rightarrow> 't mgr" where
  "reject_pending m = fold (\<lambda>rq. send_done (rq_done rq) (Some ErrClosed)) (mg_queue m) (m\<lparr>mg_queue := []\<rparr>)"

definition resync_request :: "'t request" where
  "resync_request = \<lparr>rq_reason = ''provider:resync'', rq_work = WorkReload '''' None, rq_done = None\<rparr>"

definition run_resync :: "('t, 'd) mgr_cfg \<Rightarrow> 'd run_env \<Rightarrow> 't mgr \<Rightarrow> 't mgr" where
  "run_resync cf en m = (if mg_paused m \<or> mg_closed m then m else run_request cf en resync_request m)"

text \<open>Building requests: \<open>Reload\<close>, \<open>Plan\<close>, \<open>Rollback\<close>, and the reason an override gets.\<close>

definition override_reason :: "string \<Rightarrow> string" where
  "override_reason reason = (if reason = ''manual'' then ''override'' else reason)"

definition reload_request_of :: "string \<Rightarrow> mgr_error + gmap option \<Rightarrow> 't request" where
  "reload_request_of reason override =
     (case override of
        Inl e \<Rightarrow> \<lparr>rq_reason = override_reason reason, rq_work = WorkFail e, rq_done = None\<rparr>
      | Inr None \<Rightarrow> \<lparr>rq_reason = reason, rq_work = WorkReload '''' None, rq_done = None\<rparr>
      | Inr (Some m) \<Rightarrow> \<lparr>rq_reason = override_reason reason, rq_work = WorkReload '''' (Some m), rq_done = None\<rparr>)"

text \<open>\<open>cloneOverride\<close>: the copy through JSON; a nil map stays nil.\<close>

definition clone_override :: "(gfloat \<Rightarrow> string option) \<Rightarrow> (string \<Rightarrow> gval option) \<Rightarrow> gmap option \<Rightarrow> mgr_error + gmap option" where
  "clone_override ff mo m =
     (case m of
        None \<Rightarrow> Inr None
      | Some kvs \<Rightarrow> (case json_entries ff mo kvs of
                     None \<Rightarrow> Inl (OptionError ''WithOverride'')
                   | Some copy \<Rightarrow> Inr (Some copy)))"

definition plan_request :: "string \<Rightarrow> 't request" where
  "plan_request host = \<lparr>rq_reason = ''plan'', rq_work = WorkPlan host, rq_done = None\<rparr>"

definition rollback_request :: "'t snapshot \<Rightarrow> 't request" where
  "rollback_request t = \<lparr>rq_reason = ''rollback'', rq_work = WorkRollback t, rq_done = None\<rparr>"

text \<open>The reason of a provider's event.\<close>

definition provider_reason :: "string \<Rightarrow> string \<Rightarrow> string" where
  "provider_reason name reason = (if reason = '''' then ''provider:'' @ name else ''provider:'' @ name @ '':'' @ reason)"

section \<open>The steps\<close>

definition init_mgr :: "int \<Rightarrow> string \<Rightarrow> keys_cache \<Rightarrow> 't mgr" where
  "init_mgr history_cap fp kc =
     \<lparr>mg_state = None, mg_gen = 0, mg_fingerprint = fp, mg_history = new_ring history_cap, mg_errors = [], mg_queue = [],
      mg_overflow = False, mg_paused = False, mg_closed = False, mg_pc = LoopTop, mg_keys = kc, mg_trees = empty_cache,
      mg_dirs = [], mg_subs = [], mg_next_sub = 1, mg_next_ref = 0, mg_done = [], mg_plans = [], mg_waiting = [],
      mg_answers = [], mg_published = []\<rparr>"

text \<open>\<open>known m\<close>: the callers that ever submitted. The calls of \<open>submitAndWait\<close> that end before the request is in the
  queue change nothing and are no steps.\<close>

definition known :: "'t mgr \<Rightarrow> nat set" where
  "known m = set (mg_waiting m) \<union> fst ` set (mg_answers m)"

definition enqueue :: "'t request \<Rightarrow> 't mgr \<Rightarrow> 't mgr" where
  "enqueue rq m = m\<lparr>mg_queue := mg_queue m @ [rq]\<rparr>"

definition answer :: "nat \<Rightarrow> mgr_error option \<Rightarrow> 't mgr \<Rightarrow> 't mgr" where
  "answer i r m = m\<lparr>mg_waiting := removeAll i (mg_waiting m), mg_answers := (i, r) # mg_answers m\<rparr>"

text \<open>A provider's event: ignored while paused, queued when there is room, else it leaves the resync token.\<close>

definition push_event :: "string \<Rightarrow> string \<Rightarrow> 't mgr \<Rightarrow> 't mgr" where
  "push_event name reason m =
     (if length (mg_queue m) < reload_chan_cap
      then enqueue \<lparr>rq_reason = provider_reason name reason, rq_work = WorkReload '''' None, rq_done = None\<rparr> m
      else m\<lparr>mg_overflow := True\<rparr>)"

definition provider_event :: "string \<Rightarrow> string \<Rightarrow> 't mgr \<Rightarrow> 't mgr" where
  "provider_event name reason m = (if mg_paused m then m else push_event name reason m)"

text \<open>A rollback is submitted only after \<open>check_rollback\<close> found its target, at some earlier moment, in the history.\<close>

definition submittable :: "'t request \<Rightarrow> 't mgr \<Rightarrow> bool" where
  "submittable rq m = (case rq_work rq of WorkRollback t \<Rightarrow> t \<in> set (mg_published m) | _ \<Rightarrow> True)"

text \<open>The steps of the writer goroutine.\<close>

inductive loop_step :: "('t, 'd) mgr_cfg \<Rightarrow> 't mgr \<Rightarrow> 't mgr \<Rightarrow> bool" for cf where
  LoopReject: "mg_pc m \<in> {LoopTop, LoopSelect} \<Longrightarrow> mg_closed m \<Longrightarrow> loop_step cf m (reject_pending (m\<lparr>mg_pc := LoopExited\<rparr>))"
| LoopEnter: "mg_pc m = LoopTop \<Longrightarrow> \<not> mg_closed m \<Longrightarrow> loop_step cf m (m\<lparr>mg_pc := LoopPick\<rparr>)"
| LoopIdle: "mg_pc m = LoopPick \<Longrightarrow> mg_queue m = [] \<Longrightarrow> loop_step cf m (m\<lparr>mg_pc := LoopSelect\<rparr>)"
| LoopRequest: "cf_env cf en \<Longrightarrow> mg_pc m \<in> {LoopPick, LoopSelect} \<Longrightarrow> mg_queue m = rq # rqs \<Longrightarrow>
    loop_step cf m (run_request cf en rq (m\<lparr>mg_queue := rqs, mg_pc := LoopAfter\<rparr>))"
| LoopIdleResync: "cf_env cf en \<Longrightarrow> mg_pc m = LoopSelect \<Longrightarrow> mg_overflow m \<Longrightarrow>
    loop_step cf m (run_resync cf en (m\<lparr>mg_overflow := False, mg_pc := LoopTop\<rparr>))"
| LoopResync: "cf_env cf en \<Longrightarrow> mg_pc m = LoopAfter \<Longrightarrow> mg_overflow m \<Longrightarrow>
    loop_step cf m (run_resync cf en (m\<lparr>mg_overflow := False, mg_pc := LoopTop\<rparr>))"
| LoopNoResync: "mg_pc m = LoopAfter \<Longrightarrow> \<not> mg_overflow m \<Longrightarrow> loop_step cf m (m\<lparr>mg_pc := LoopTop\<rparr>)"

text \<open>The steps of everyone else. \<open>LateEvent\<close> is an event whose check of the pause came before the pause.\<close>

inductive env_step :: "'t mgr \<Rightarrow> 't mgr \<Rightarrow> bool" where
  Submit: "length (mg_queue m) < reload_chan_cap \<Longrightarrow> i \<notin> known m \<Longrightarrow> submittable rq m \<Longrightarrow>
    env_step m (enqueue (rq\<lparr>rq_done := Some i\<rparr>) (m\<lparr>mg_waiting := i # mg_waiting m\<rparr>))"
| ProviderEvent: "env_step m (provider_event name reason m)"
| LateEvent: "env_step m (push_event name reason m)"
| Pause: "env_step m (m\<lparr>mg_paused := True, mg_overflow := False\<rparr>)"
| Resume: "env_step m (m\<lparr>mg_paused := False\<rparr>)"
| Close: "env_step m (m\<lparr>mg_closed := True\<rparr>)"
| TakeError: "mg_errors m = e # es \<Longrightarrow> env_step m (m\<lparr>mg_errors := es\<rparr>)"
| Subscribe: "env_step m (m\<lparr>mg_subs := (mg_next_sub m, sub) # mg_subs m, mg_next_sub := mg_next_sub m + 1\<rparr>)"
| Unsubscribe: "env_step m (m\<lparr>mg_subs := filter (\<lambda>(j, s). j \<noteq> i) (mg_subs m)\<rparr>)"
| Answered: "i \<in> set (mg_waiting m) \<Longrightarrow> (i, r) \<in> set (mg_done m) \<Longrightarrow> env_step m (answer i r m)"
| AnswerClosed: "i \<in> set (mg_waiting m) \<Longrightarrow> mg_closed m \<Longrightarrow> env_step m (answer i (Some ErrClosed) m)"
| AnswerCanceled: "i \<in> set (mg_waiting m) \<Longrightarrow> env_step m (answer i (Some ContextError) m)"

definition mstep :: "('t, 'd) mgr_cfg \<Rightarrow> 't mgr \<Rightarrow> 't mgr \<Rightarrow> bool" where
  "mstep cf m m' \<longleftrightarrow> loop_step cf m m' \<or> env_step m m'"

text \<open>\<open>New\<close>: the initial reload runs before the loop starts.\<close>

inductive reachable :: "('t, 'd) mgr_cfg \<Rightarrow> int \<Rightarrow> keys_cache \<Rightarrow> 't mgr \<Rightarrow> bool" for cf cap kc where
  Start: "cf_env cf en \<Longrightarrow> reload cf en ''initial'' '''' [] (init_mgr cap zero_sum kc) = (None, m) \<Longrightarrow> reachable cf cap kc m"
| Step: "reachable cf cap kc m \<Longrightarrow> mstep cf m m' \<Longrightarrow> reachable cf cap kc m'"

inductive_cases env_step_cases: "env_step m m'"
inductive_simps loop_step_simps: "loop_step cf m m'"

section \<open>What an operation leaves alone\<close>

text \<open>The published side of the manager.\<close>

definition core :: "'t mgr \<Rightarrow> 't snapshot option \<times> 64 word \<times> 't snapshot ring option \<times> 't snapshot list" where
  "core m = (mg_state m, mg_gen m, mg_history m, mg_published m)"

text \<open>The callers' side.\<close>

definition calls :: "'t mgr \<Rightarrow> 't request list \<times> (nat \<times> mgr_error option) list \<times> nat list \<times> (nat \<times> mgr_error option) list" where
  "calls m = (mg_queue m, mg_done m, mg_waiting m, mg_answers m)"

definition flags :: "'t mgr \<Rightarrow> bool \<times> bool \<times> loop_pc" where
  "flags m = (mg_overflow m, mg_closed m, mg_pc m)"

definition errors_ok :: "'t mgr \<Rightarrow> bool" where
  "errors_ok m \<longleftrightarrow> length (mg_errors m) \<le> errors_chan_cap"

lemma post_error_simps [simp]:
  "core (post_error r e m) = core m" "calls (post_error r e m) = calls m" "flags (post_error r e m) = flags m"
  "mg_fingerprint (post_error r e m) = mg_fingerprint m" "mg_subs (post_error r e m) = mg_subs m"
  by (simp_all add: post_error_def core_def calls_def flags_def)

lemma post_error_ok: "errors_ok m \<Longrightarrow> errors_ok (post_error r e m)"
  using errors.within_capacity [OF errors.invar_push] by (simp add: errors_ok_def post_error_def)

lemma call_subscriber_simps [simp]:
  "core (call_subscriber p n s m) = core m" "calls (call_subscriber p n s m) = calls m" "flags (call_subscriber p n s m) = flags m"
  "mg_fingerprint (call_subscriber p n s m) = mg_fingerprint m"
  by (simp_all add: call_subscriber_def split: sub_outcome.split)

lemma notify_simps [simp]:
  "core (notify_subscribers p n m) = core m" "calls (notify_subscribers p n m) = calls m" "flags (notify_subscribers p n m) = flags m"
  "mg_fingerprint (notify_subscribers p n m) = mg_fingerprint m"
proof -
  have "core (fold (\<lambda>(id, sub). call_subscriber p n sub) xs m) = core m \<and> calls (fold (\<lambda>(id, sub). call_subscriber p n sub) xs m) = calls m \<and>
      flags (fold (\<lambda>(id, sub). call_subscriber p n sub) xs m) = flags m \<and>
      mg_fingerprint (fold (\<lambda>(id, sub). call_subscriber p n sub) xs m) = mg_fingerprint m" for xs
    by (induction xs arbitrary: m) auto
  from this [of "sort_key fst (mg_subs m)"]
  show "core (notify_subscribers p n m) = core m" "calls (notify_subscribers p n m) = calls m"
    "flags (notify_subscribers p n m) = flags m" "mg_fingerprint (notify_subscribers p n m) = mg_fingerprint m"
    by (simp_all add: notify_subscribers_def)
qed

lemma notify_ok: "errors_ok m \<Longrightarrow> errors_ok (notify_subscribers p n m)"
proof -
  have "errors_ok m \<Longrightarrow> errors_ok (fold (\<lambda>(id, sub). call_subscriber p n sub) xs m)" for xs
    by (induction xs arbitrary: m) (auto simp: call_subscriber_def post_error_ok split: sub_outcome.split)
  then show "errors_ok m \<Longrightarrow> errors_ok (notify_subscribers p n m)" by (simp add: notify_subscribers_def)
qed

text \<open>One publication, on the published side.\<close>

definition published_once :: "'t mgr \<Rightarrow> 't mgr \<Rightarrow> bool" where
  "published_once m m' \<longleftrightarrow> (\<exists>next. sn_generation next = mg_gen m + 1 \<and>
     core m' = (Some next, mg_gen m + 1, (case mg_state m of None \<Rightarrow> mg_history m | Some s \<Rightarrow> history_push (Some s) (mg_history m)),
                mg_published m @ [next]))"

lemma publish_simps [simp]:
  "calls (publish_snapshot p n m) = calls m" "flags (publish_snapshot p n m) = flags m"
  "mg_fingerprint (publish_snapshot p n m) = mg_fingerprint m"
  "core (publish_snapshot p n m) = (Some n, mg_gen m, (case p of None \<Rightarrow> mg_history m | Some s \<Rightarrow> history_push (Some s) (mg_history m)),
     mg_published m @ [n])"
proof -
  show "calls (publish_snapshot p n m) = calls m" "flags (publish_snapshot p n m) = flags m"
    unfolding publish_snapshot_def notify_simps by (simp_all add: calls_def flags_def)
  show "mg_fingerprint (publish_snapshot p n m) = mg_fingerprint m"
    unfolding publish_snapshot_def notify_simps by simp
  show "core (publish_snapshot p n m) = (Some n, mg_gen m, (case p of None \<Rightarrow> mg_history m | Some s \<Rightarrow> history_push (Some s) (mg_history m)),
     mg_published m @ [n])"
    unfolding publish_snapshot_def notify_simps by (simp add: core_def)
qed

lemma publish_ok: "errors_ok m \<Longrightarrow> errors_ok (publish_snapshot p n m)"
  unfolding publish_snapshot_def by (rule notify_ok) (simp add: errors_ok_def)

text \<open>An operation of the writer either leaves the published side alone or publishes once; it never touches the queue,
  the callers, the flags, and keeps the error channel within its capacity.\<close>

definition writer_op :: "'t mgr \<Rightarrow> 't mgr \<Rightarrow> bool" where
  "writer_op m m' \<longleftrightarrow> calls m' = calls m \<and> flags m' = flags m \<and> (errors_ok m \<longrightarrow> errors_ok m')"

lemma assemble_run_frame:
  "assemble_run en h ex m = (r, dirs, m') \<Longrightarrow> writer_op m m' \<and> core m' = core m \<and> mg_fingerprint m' = mg_fingerprint m \<and>
     core (m'\<lparr>mg_dirs := d\<rparr>) = core m \<and> writer_op m (m'\<lparr>mg_dirs := d\<rparr>)"
  by (auto simp: assemble_run_def writer_op_def core_def calls_def flags_def errors_ok_def split: prod.splits)

lemma commit_frame:
  assumes "commit cf en a reason key m = (err, m')"
  shows "writer_op m m' \<and> (core m' = core m \<or> err = None \<and> published_once m m')"
proof (cases "en_before en \<or> ar_fingerprint a \<noteq> zero_sum \<and> ar_fingerprint a = mg_fingerprint m")
  case True
  then show ?thesis using assms by (auto simp: commit_def writer_op_def split: if_splits)
next
  case False
  show ?thesis
  proof (cases "run_pipeline (cf_pipe cf) (en_stages en) a reason False")
    case (Inl e)
    then show ?thesis using assms False by (auto simp: commit_def writer_op_def split: if_splits)
  next
    case (Inr ph)
    obtain p h where ph: "ph = (p, h)" by (cases ph)
    let ?same = "case mg_state m of None \<Rightarrow> False | Some s \<Rightarrow> sn_hash s = h"
    show ?thesis
    proof (cases "en_after en \<or> ?same")
      case True
      then show ?thesis
        using assms False Inr ph
        by (auto simp: commit_def writer_op_def core_def calls_def flags_def errors_ok_def split: if_splits option.splits)
    next
      case pub: False
      let ?m = "m\<lparr>mg_fingerprint := ar_fingerprint a, mg_gen := mg_gen m + 1\<rparr>"
      obtain nx where m': "err = None" "m' = publish_snapshot (mg_state m) nx ?m" "sn_generation nx = mg_gen m + 1"
        using assms False Inr ph pub by (auto simp: commit_def Let_def new_state_def split: if_splits)
      have "writer_op m m'"
        unfolding m' writer_op_def publish_simps
        by (auto simp: calls_def flags_def errors_ok_def intro: publish_ok [unfolded errors_ok_def])
      moreover have "published_once m m'"
        unfolding published_once_def m' publish_simps by (intro exI [of _ nx]) (simp add: m' core_def split: option.split)
      ultimately show ?thesis using m' by blast
    qed
  qed
qed

lemma writer_op_trans: "writer_op m m1 \<Longrightarrow> writer_op m1 m2 \<Longrightarrow> writer_op m m2"
  by (simp add: writer_op_def)

lemma published_once_core: "core m1 = core m \<Longrightarrow> published_once m1 m' \<Longrightarrow> published_once m m'"
  by (cases "mg_state m") (auto simp: published_once_def core_def)

lemma writer_frame [simp]:
  "writer_op m (m1\<lparr>mg_next_ref := k\<rparr>) = writer_op m m1" "core (m1\<lparr>mg_next_ref := k\<rparr>) = core m1"
  "writer_op m (m1\<lparr>mg_plans := ps\<rparr>) = writer_op m m1" "core (m1\<lparr>mg_plans := ps\<rparr>) = core m1"
  by (simp_all add: writer_op_def calls_def flags_def errors_ok_def core_def)

lemma reload_frame:
  assumes "reload cf en reason key extra m = (err, m')"
  shows "writer_op m m' \<and> (core m' = core m \<or> err = None \<and> published_once m m')"
proof -
  obtain r dirs m1 where a: "assemble_run en '''' extra m = (r, dirs, m1)" by (cases "assemble_run en '''' extra m") auto
  note f = assemble_run_frame [OF a, of dirs]
  show ?thesis
  proof (cases r)
    case (Inl e)
    then show ?thesis using assms a f by (auto simp: reload_def)
  next
    case (Inr x)
    then have "commit cf en x reason key (m1\<lparr>mg_dirs := dirs\<rparr>) = (err, m')" using assms a by (simp add: reload_def)
    from commit_frame [OF this] show ?thesis using f writer_op_trans published_once_core by metis
  qed
qed

lemma run_plan_frame:
  assumes "run_plan cf en host m = (r, m')"
  shows "writer_op m m' \<and> core m' = core m \<and> mg_fingerprint m' = mg_fingerprint m"
proof -
  obtain x dirs m1 where a: "assemble_run en host [] m = (x, dirs, m1)" by (cases "assemble_run en host [] m") auto
  note f = assemble_run_frame [OF a, of dirs]
  show ?thesis
    using assms a f
    by (cases x) (auto simp: run_plan_def Let_def split: sum.splits prod.splits)
qed

lemma apply_rollback_frame: "writer_op m (apply_rollback cf t m) \<and> published_once m (apply_rollback cf t m)"
proof
  show "writer_op m (apply_rollback cf t m)"
    unfolding apply_rollback_def Let_def writer_op_def publish_simps
    by (auto simp: calls_def flags_def errors_ok_def intro: publish_ok [unfolded errors_ok_def])
  show "published_once m (apply_rollback cf t m)"
    unfolding apply_rollback_def Let_def published_once_def publish_simps
    by (intro exI [of _ "restamp_state t (mg_gen m + 1) \<lparr>ca_reason = ''rollback'', ca_revisions = [],
      ca_tenant = po_tenant (cf_pipe cf), ca_key = ''''\<rparr> (mg_next_ref m)"]) (simp add: restamp_state_def core_def split: option.split)
qed

lemma run_work_frame:
  assumes "run_work cf en rq m = (err, m')"
  shows "writer_op m m' \<and> (core m' = core m \<or> err = None \<and> published_once m m')"
proof (cases "rq_work rq")
  case (WorkReload key ov)
  then show ?thesis using assms reload_frame by (simp add: run_work_def)
next
  case (WorkPlan host)
  obtain r m1 where p: "run_plan cf en host m = (r, m1)" by (cases "run_plan cf en host m")
  show ?thesis
    using assms p WorkPlan run_plan_frame [OF p]
    by (cases r) (auto simp: run_work_def)
next
  case (WorkRollback t)
  then show ?thesis using assms apply_rollback_frame by (auto simp: run_work_def)
next
  case (WorkFail e)
  then show ?thesis using assms by (auto simp: run_work_def writer_op_def)
qed

section \<open>The snapshots are numbered\<close>

definition numbered :: "'t snapshot list \<Rightarrow> bool" where
  "numbered xs \<longleftrightarrow> (\<forall>i < length xs. sn_generation (xs ! i) = of_nat (Suc i))"

definition core_inv :: "int \<Rightarrow> 't mgr \<Rightarrow> bool" where
  "core_inv cap m \<longleftrightarrow>
     mg_gen m = of_nat (length (mg_published m)) \<and> numbered (mg_published m) \<and>
     mg_state m = (if mg_published m = [] then None else Some (last (mg_published m))) \<and>
     mg_history m = foldl (\<lambda>h x. history_push x h) (new_ring cap) (map Some (butlast (mg_published m)))"

lemma core_inv_cong: "core m' = core m \<Longrightarrow> core_inv cap m' = core_inv cap m"
  by (simp add: core_inv_def core_def)

lemma numbered_snoc: "numbered (xs @ [x]) \<longleftrightarrow> numbered xs \<and> sn_generation x = of_nat (Suc (length xs))"
  by (auto simp: numbered_def nth_append less_Suc_eq)

lemma core_inv_publish: "core_inv cap m \<Longrightarrow> published_once m m' \<Longrightarrow> core_inv cap m'"
proof -
  assume inv: "core_inv cap m" and "published_once m m'"
  then obtain nx where g: "sn_generation nx = mg_gen m + 1"
    and m': "mg_state m' = Some nx" "mg_gen m' = mg_gen m + 1" "mg_published m' = mg_published m @ [nx]"
      "mg_history m' = (case mg_state m of None \<Rightarrow> mg_history m | Some s \<Rightarrow> history_push (Some s) (mg_history m))"
    by (auto simp: published_once_def core_def)
  show ?thesis
  proof (cases "mg_published m" rule: rev_cases)
    case Nil
    then show ?thesis using inv g m' by (simp add: core_inv_def numbered_def)
  next
    case (snoc xs s)
    then have "mg_history m' = foldl (\<lambda>h x. history_push x h) (new_ring cap) (map Some (mg_published m))"
      using inv m' by (simp add: core_inv_def)
    moreover have "numbered (mg_published m @ [nx])" "mg_gen m' = of_nat (length (mg_published m @ [nx]))"
      using inv g m'(2) by (simp_all add: core_inv_def numbered_snoc add.commute)
    ultimately show ?thesis using m'(1,3) by (simp add: core_inv_def)
  qed
qed

lemma core_inv_init: "core_inv cap (init_mgr cap fp kc)"
  by (simp add: core_inv_def init_mgr_def numbered_def)

lemma run_request_frame:
  assumes "run_request cf en rq m = m'"
  shows "\<exists>err m1. m' = send_done (rq_done rq) err m1 \<and> writer_op m m1 \<and> (core m1 = core m \<or> err = None \<and> published_once m m1)"
proof -
  let ?run = "if en_canceled en \<or> mg_closed m then (Some ContextError, m) else run_work cf en rq m"
  obtain err m1 where r: "?run = (err, m1)" by (cases ?run)
  have f: "writer_op m m1 \<and> (core m1 = core m \<or> err = None \<and> published_once m m1)"
    using r run_work_frame [of cf en rq m err m1] by (auto simp: writer_op_def split: if_splits)
  show ?thesis
  proof (cases err)
    case None
    then show ?thesis using assms r f by (intro exI [of _ None] exI [of _ m1]) (simp add: run_request_def)
  next
    case (Some e)
    then have "m' = send_done (rq_done rq) err (post_error (rq_reason rq) e m1)"
      using assms r by (simp add: run_request_def)
    moreover have "writer_op m (post_error (rq_reason rq) e m1)" using f by (simp add: writer_op_def post_error_ok)
    moreover have "core (post_error (rq_reason rq) e m1) = core m" using f Some by simp
    ultimately show ?thesis by blast
  qed
qed

lemma send_done_simps [simp]:
  "core (send_done d r m) = core m" "flags (send_done d r m) = flags m" "errors_ok (send_done d r m) = errors_ok m"
  "mg_queue (send_done d r m) = mg_queue m" "mg_waiting (send_done d r m) = mg_waiting m" "mg_answers (send_done d r m) = mg_answers m"
  "mg_done (send_done d r m) = (case d of None \<Rightarrow> [] | Some i \<Rightarrow> [(i, r)]) @ mg_done m"
  by (simp_all add: send_done_def core_def flags_def errors_ok_def split: option.split)

lemma run_request_core: "core_inv cap m \<Longrightarrow> core_inv cap (run_request cf en rq m)"
proof -
  obtain err m1 where "run_request cf en rq m = send_done (rq_done rq) err m1" "core m1 = core m \<or> published_once m m1"
    using run_request_frame [OF refl, of cf en rq m] by blast
  then show "core_inv cap m \<Longrightarrow> core_inv cap (run_request cf en rq m)"
    using core_inv_cong [of m1 m cap] core_inv_cong [of "send_done (rq_done rq) err m1" m1 cap] core_inv_publish by auto
qed

lemma reject_fold:
  "core (fold (\<lambda>rq. send_done (rq_done rq) r) q m) = core m \<and> flags (fold (\<lambda>rq. send_done (rq_done rq) r) q m) = flags m \<and>
   errors_ok (fold (\<lambda>rq. send_done (rq_done rq) r) q m) = errors_ok m \<and>
   mg_queue (fold (\<lambda>rq. send_done (rq_done rq) r) q m) = mg_queue m \<and> mg_waiting (fold (\<lambda>rq. send_done (rq_done rq) r) q m) = mg_waiting m \<and>
   mg_answers (fold (\<lambda>rq. send_done (rq_done rq) r) q m) = mg_answers m \<and>
   mg_done (fold (\<lambda>rq. send_done (rq_done rq) r) q m) = rev (map (\<lambda>i. (i, r)) (List.map_filter rq_done q)) @ mg_done m"
  by (induction q arbitrary: m) (auto simp: List.map_filter_simps split: option.split)

lemma core_fields [simp]:
  "core (m\<lparr>mg_queue := q\<rparr>) = core m" "core (m\<lparr>mg_pc := pc\<rparr>) = core m" "core (m\<lparr>mg_overflow := b\<rparr>) = core m"
  "core (m\<lparr>mg_paused := b\<rparr>) = core m" "core (m\<lparr>mg_closed := b\<rparr>) = core m" "core (m\<lparr>mg_errors := es\<rparr>) = core m"
  "core (m\<lparr>mg_subs := subs\<rparr>) = core m" "core (m\<lparr>mg_next_sub := k\<rparr>) = core m" "core (m\<lparr>mg_waiting := w\<rparr>) = core m"
  "core (m\<lparr>mg_answers := ans\<rparr>) = core m"
  by (simp_all add: core_def)

lemma reject_core [simp]: "core (reject_pending m) = core m"
  using reject_fold [of "Some ErrClosed" "mg_queue m" "m\<lparr>mg_queue := []\<rparr>"] by (simp add: reject_pending_def)

lemma provider_event_core [simp]: "core (provider_event nm r m) = core m"
  by (simp add: provider_event_def push_event_def enqueue_def)

lemma push_event_core [simp]: "core (push_event nm r m) = core m"
  by (simp add: push_event_def enqueue_def)

lemma env_step_core: "env_step m m' \<Longrightarrow> core m' = core m"
  by (induction rule: env_step.induct) (simp_all add: enqueue_def answer_def)

lemma loop_step_core: "loop_step cf m m' \<Longrightarrow> core_inv cap m \<Longrightarrow> core_inv cap m'"
proof (induction rule: loop_step.induct)
  case (LoopReject m)
  then show ?case using core_inv_cong [of "reject_pending (m\<lparr>mg_pc := LoopExited\<rparr>)" m cap] by simp
next
  case (LoopRequest en m rq rqs)
  then show ?case using core_inv_cong [of "m\<lparr>mg_queue := rqs, mg_pc := LoopAfter\<rparr>" m cap] run_request_core by simp
next
  case (LoopIdleResync en m)
  then show ?case
    using core_inv_cong [of "m\<lparr>mg_overflow := False, mg_pc := LoopTop\<rparr>" m cap] by (simp add: run_resync_def run_request_core)
next
  case (LoopResync en m)
  then show ?case
    using core_inv_cong [of "m\<lparr>mg_overflow := False, mg_pc := LoopTop\<rparr>" m cap] by (simp add: run_resync_def run_request_core)
qed (simp_all add: core_inv_def)

lemma reload_core: "core_inv cap m \<Longrightarrow> reload cf en reason key ex m = (err, m') \<Longrightarrow> core_inv cap m'"
  using reload_frame [of cf en reason key ex m err m'] core_inv_cong core_inv_publish by metis

lemma reachable_core: "reachable cf cap kc m \<Longrightarrow> core_inv cap m"
proof (induction rule: reachable.induct)
  case (Start en m)
  then show ?case using reload_core core_inv_init by blast
next
  case (Step m m')
  then show ?case using loop_step_core env_step_core core_inv_cong unfolding mstep_def by metis
qed

section \<open>Callers\<close>

definition queued :: "'t mgr \<Rightarrow> nat list" where
  "queued m = List.map_filter rq_done (mg_queue m)"

definition calls_inv :: "'t mgr \<Rightarrow> bool" where
  "calls_inv m \<longleftrightarrow>
     distinct (queued m @ map fst (mg_done m)) \<and> set (queued m) \<union> fst ` set (mg_done m) = known m \<and>
     distinct (mg_waiting m) \<and> distinct (map fst (mg_answers m)) \<and> set (mg_waiting m) \<inter> fst ` set (mg_answers m) = {} \<and>
     length (mg_queue m) \<le> reload_chan_cap"

lemma calls_inv_cong: "calls m' = calls m \<Longrightarrow> calls_inv m' = calls_inv m"
  by (simp add: calls_inv_def calls_def queued_def known_def)

lemma run_request_calls:
  assumes "calls_inv m0" "mg_queue m0 = rq # rqs" "m = m0\<lparr>mg_queue := rqs, mg_pc := pc\<rparr>"
  shows "calls_inv (run_request cf en rq m)"
proof -
  obtain err m1 where r: "run_request cf en rq m = send_done (rq_done rq) err m1" and w: "writer_op m m1"
    using run_request_frame [OF refl, of cf en rq m] by blast
  then have "mg_queue m1 = rqs" "mg_done m1 = mg_done m0" "mg_waiting m1 = mg_waiting m0" "mg_answers m1 = mg_answers m0"
    using assms(3) by (auto simp: writer_op_def calls_def)
  then show ?thesis
    using assms(1,2) unfolding r
    by (cases "rq_done rq") (auto simp: calls_inv_def queued_def known_def List.map_filter_simps)
qed

lemma resync_calls: "calls m = calls m0 \<Longrightarrow> calls_inv m0 \<Longrightarrow> calls_inv (run_resync cf en m)"
proof -
  assume c: "calls m = calls m0" and inv: "calls_inv m0"
  obtain err m1 where r: "run_request cf en resync_request m = send_done None err m1" and w: "writer_op m m1"
    using run_request_frame [OF refl, of cf en resync_request m] by (auto simp: resync_request_def)
  have "calls (run_request cf en resync_request m) = calls m0" using c w unfolding r by (simp add: send_done_def writer_op_def)
  then show ?thesis using c inv calls_inv_cong by (auto simp: run_resync_def)
qed

lemma reject_calls: "calls_inv m \<Longrightarrow> calls_inv (reject_pending (m\<lparr>mg_pc := pc\<rparr>))"
proof -
  let ?m = "reject_pending (m\<lparr>mg_pc := pc\<rparr>)"
  have f: "mg_queue ?m = []" "mg_waiting ?m = mg_waiting m" "mg_answers ?m = mg_answers m"
    "mg_done ?m = rev (map (\<lambda>i. (i, Some ErrClosed)) (queued m)) @ mg_done m"
    using reject_fold [of "Some ErrClosed" "mg_queue m" "m\<lparr>mg_pc := pc, mg_queue := []\<rparr>"]
    by (simp_all add: reject_pending_def queued_def)
  have k: "map fst (rev (map (\<lambda>i. (i, r)) xs)) = rev xs" for r :: "mgr_error option" and xs :: "nat list"
    by (simp add: rev_map o_def)
  have "map fst (mg_done ?m) = rev (queued m) @ map fst (mg_done m)" unfolding f(4) map_append k ..
  moreover from this have "fst ` set (mg_done ?m) = set (queued m) \<union> fst ` set (mg_done m)"
    by (metis set_append set_map set_rev)
  ultimately show "calls_inv m \<Longrightarrow> calls_inv ?m"
    by (simp add: calls_inv_def f(1-3) queued_def [of ?m] known_def List.map_filter_simps)
qed

lemma calls_fields [simp]:
  "calls (m\<lparr>mg_pc := pc\<rparr>) = calls m" "calls (m\<lparr>mg_overflow := b\<rparr>) = calls m"
  "calls (m\<lparr>mg_paused := b\<rparr>) = calls m" "calls (m\<lparr>mg_closed := b\<rparr>) = calls m" "calls (m\<lparr>mg_errors := es\<rparr>) = calls m"
  "calls (m\<lparr>mg_subs := subs\<rparr>) = calls m" "calls (m\<lparr>mg_next_sub := k\<rparr>) = calls m"
  by (simp_all add: calls_def)

lemmas calls_inv_fields [simp] = calls_fields [THEN calls_inv_cong]

lemma map_filter_snoc_list: "List.map_filter f (xs @ ys) = List.map_filter f xs @ List.map_filter f ys"
  by (induction xs) (simp_all add: List.map_filter_simps split: option.split)

lemma queued_enqueue [simp]:
  "queued (enqueue rq m) = queued m @ (case rq_done rq of None \<Rightarrow> [] | Some i \<Rightarrow> [i])"
  "queued (m\<lparr>mg_waiting := w\<rparr>) = queued m" "queued (answer i r m) = queued m"
  by (simp_all add: queued_def enqueue_def answer_def map_filter_snoc_list List.map_filter_simps split: option.split)

lemma enqueue_fields [simp]:
  "mg_done (enqueue rq m) = mg_done m" "mg_waiting (enqueue rq m) = mg_waiting m" "mg_answers (enqueue rq m) = mg_answers m"
  "mg_queue (enqueue rq m) = mg_queue m @ [rq]"
  by (simp_all add: enqueue_def)

lemma loop_step_calls: "loop_step cf m m' \<Longrightarrow> calls_inv m \<Longrightarrow> calls_inv m'"
proof (induction rule: loop_step.induct)
  case (LoopReject m)
  then show ?case using reject_calls by blast
next
  case (LoopRequest en m rq rqs)
  then show ?case using run_request_calls by blast
next
  case (LoopIdleResync en m)
  then show ?case by (intro resync_calls [of _ m]) simp_all
next
  case (LoopResync en m)
  then show ?case by (intro resync_calls [of _ m]) simp_all
qed simp_all

lemma push_event_calls: "calls_inv m \<Longrightarrow> calls_inv (push_event nm r m)"
proof -
  assume inv: "calls_inv m"
  have "length (mg_queue m) < reload_chan_cap \<Longrightarrow> calls_inv (enqueue rq m)" if "rq_done rq = None" for rq :: "'a request"
    using inv that by (simp add: calls_inv_def known_def)
  then show ?thesis using inv by (simp add: push_event_def)
qed

lemma answer_calls: "calls_inv m \<Longrightarrow> i \<in> set (mg_waiting m) \<Longrightarrow> calls_inv (answer i r m)"
proof -
  assume inv: "calls_inv m" and i: "i \<in> set (mg_waiting m)"
  have f: "mg_done (answer i r m) = mg_done m" "mg_queue (answer i r m) = mg_queue m"
    "mg_waiting (answer i r m) = removeAll i (mg_waiting m)" "mg_answers (answer i r m) = (i, r) # mg_answers m"
    by (simp_all add: answer_def)
  have k: "known (answer i r m) = known m" using i by (auto simp: known_def f)
  have "set (mg_waiting (answer i r m)) \<inter> fst ` set (mg_answers (answer i r m)) = {}"
    "distinct (map fst (mg_answers (answer i r m)))"
    using inv i unfolding calls_inv_def f by auto
  then show ?thesis using inv unfolding calls_inv_def k f(1,2) queued_enqueue by (simp add: f distinct_removeAll)
qed

lemma env_step_calls: "env_step m m' \<Longrightarrow> calls_inv m \<Longrightarrow> calls_inv m'"
proof (induction rule: env_step.induct)
  case (Submit m i rq)
  then show ?case
    by (auto simp: calls_inv_def known_def)
next
  case (ProviderEvent m nm r)
  then show ?case by (simp add: provider_event_def push_event_calls)
next
  case (LateEvent m nm r)
  then show ?case by (rule push_event_calls)
next
  case (Answered i m r)
  then show ?case by (intro answer_calls)
next
  case (AnswerClosed i m)
  then show ?case by (intro answer_calls)
next
  case (AnswerCanceled i m)
  then show ?case by (intro answer_calls)
qed simp_all

lemma reload_calls: "reload cf en reason key ex m = (err, m') \<Longrightarrow> calls m' = calls m \<and> flags m' = flags m \<and> (errors_ok m \<longrightarrow> errors_ok m')"
  using reload_frame [of cf en reason key ex m err m'] by (auto simp: writer_op_def)

lemma calls_inv_init: "calls_inv (init_mgr cap fp kc)"
  by (simp add: calls_inv_def init_mgr_def queued_def known_def List.map_filter_simps)

lemma reachable_calls: "reachable cf cap kc m \<Longrightarrow> calls_inv m"
proof (induction rule: reachable.induct)
  case (Start en m)
  then show ?case using reload_calls [OF Start(2)] calls_inv_cong calls_inv_init by metis
next
  case (Step m m')
  then show ?case using loop_step_calls env_step_calls unfolding mstep_def by metis
qed

lemma run_request_errors: "errors_ok m \<Longrightarrow> errors_ok (run_request cf en rq m)"
  using run_request_frame [OF refl, of cf en rq m] by (auto simp: writer_op_def)

lemma reject_errors: "errors_ok (reject_pending m) = errors_ok m"
  using reject_fold [of "Some ErrClosed" "mg_queue m" "m\<lparr>mg_queue := []\<rparr>"] by (simp add: reject_pending_def errors_ok_def)

lemma errors_fields [simp]:
  "errors_ok (m\<lparr>mg_pc := pc\<rparr>) = errors_ok m" "errors_ok (m\<lparr>mg_overflow := b\<rparr>) = errors_ok m" "errors_ok (m\<lparr>mg_queue := q\<rparr>) = errors_ok m"
  by (simp_all add: errors_ok_def)

lemma loop_step_errors: "loop_step cf m m' \<Longrightarrow> errors_ok m \<Longrightarrow> errors_ok m'"
  by (induction rule: loop_step.induct) (simp_all add: run_request_errors reject_errors run_resync_def)

lemma env_step_errors: "env_step m m' \<Longrightarrow> errors_ok m \<Longrightarrow> errors_ok m'"
  by (induction rule: env_step.induct) (auto simp: errors_ok_def provider_event_def push_event_def enqueue_def answer_def)

lemma reachable_errors: "reachable cf cap kc m \<Longrightarrow> errors_ok m"
proof (induction rule: reachable.induct)
  case (Start en m)
  then show ?case using reload_calls [OF Start(2)] by (simp add: errors_ok_def init_mgr_def errors_chan_cap_def)
next
  case (Step m m')
  then show ?case using loop_step_errors env_step_errors unfolding mstep_def by metis
qed

section \<open>A manager New returned always has a snapshot\<close>

lemma reload_publishes:
  assumes "reload cf en reason key ex m = (None, m')" and "mg_state m = None" and "mg_fingerprint m = zero_sum"
  shows "published_once m m'"
proof -
  obtain r dirs m1 where a: "assemble_run en '''' ex m = (r, dirs, m1)" by (cases "assemble_run en '''' ex m") auto
  note f = assemble_run_frame [OF a, of dirs]
  let ?m = "m1\<lparr>mg_dirs := dirs\<rparr>"
  obtain x where x: "r = Inr x" "commit cf en x reason key ?m = (None, m')"
    using assms(1) a by (cases r) (auto simp: reload_def)
  have n: "mg_state ?m = None" "mg_fingerprint ?m = zero_sum"
    using f assms(2,3) by (auto simp: core_def)
  from x(2) n have ok: "\<not> en_before en" by (auto simp: commit_def split: if_splits)
  obtain p h where p: "run_pipeline (cf_pipe cf) (en_stages en) x reason False = Inr (p, h)"
    using x(2) n ok by (cases "run_pipeline (cf_pipe cf) (en_stages en) x reason False") (auto simp: commit_def split: if_splits)
  have after: "\<not> en_after en"
    using x(2) n ok p by (auto simp: commit_def split: if_splits)
  let ?nx = "new_state p h (mg_gen ?m + 1) \<lparr>ca_reason = reason, ca_revisions = collect_revisions (pi_sources p),
    ca_tenant = po_tenant (cf_pipe cf), ca_key = key\<rparr> (mg_next_ref ?m)"
  have g: "sn_generation ?nx = mg_gen ?m + 1" by (simp add: new_state_def)
  have m': "m' = publish_snapshot (mg_state ?m) ?nx (?m\<lparr>mg_fingerprint := ar_fingerprint x, mg_gen := mg_gen ?m + 1\<rparr>)"
    using x(2) n ok p after by (simp add: commit_def Let_def)
  have "published_once ?m m'"
    unfolding published_once_def m' publish_simps using g by (intro exI [of _ ?nx]) (simp add: core_def split: option.split)
  then show ?thesis using f published_once_core by blast
qed

lemma published_grows: "core m' = core m \<or> published_once m m' \<Longrightarrow> mg_published m \<noteq> [] \<Longrightarrow> mg_published m' \<noteq> []"
  by (auto simp: published_once_def core_def)

lemma run_request_grows: "mg_published m \<noteq> [] \<Longrightarrow> mg_published (run_request cf en rq m) \<noteq> []"
proof -
  obtain err m1 where r: "run_request cf en rq m = send_done (rq_done rq) err m1" and c: "core m1 = core m \<or> published_once m m1"
    using run_request_frame [OF refl, of cf en rq m] by blast
  assume "mg_published m \<noteq> []"
  then have "mg_published m1 \<noteq> []" using c published_grows by blast
  then show ?thesis unfolding r by (cases "rq_done rq") (simp_all add: send_done_def)
qed

lemma core_published: "core m' = core m \<Longrightarrow> mg_published m' = mg_published m"
  by (simp add: core_def)

lemma loop_step_grows: "loop_step cf m m' \<Longrightarrow> mg_published m \<noteq> [] \<Longrightarrow> mg_published m' \<noteq> []"
  by (induction rule: loop_step.induct)
    (simp_all add: run_request_grows run_resync_def core_published [OF reject_core])

lemma reachable_published: "reachable cf cap kc m \<Longrightarrow> mg_published m \<noteq> []"
proof (induction rule: reachable.induct)
  case (Start en m)
  have "published_once (init_mgr cap zero_sum kc) m"
    by (rule reload_publishes [OF Start(2)]) (simp_all add: init_mgr_def)
  then show ?case by (auto simp: published_once_def core_def)
next
  case (Step m m')
  then show ?case using loop_step_grows env_step_core core_published unfolding mstep_def by metis
qed

section \<open>Progress of the writer\<close>

inductive schedule :: "('t, 'd) mgr_cfg \<Rightarrow> nat \<Rightarrow> 't mgr \<Rightarrow> 't mgr \<Rightarrow> bool" for cf where
  Over: "schedule cf 0 m m"
| Others: "env_step m m1 \<Longrightarrow> schedule cf k m1 m' \<Longrightarrow> schedule cf k m m'"
| Writer: "loop_step cf m m1 \<Longrightarrow> schedule cf k m1 m' \<Longrightarrow> schedule cf (Suc k) m m'"

text \<open>Steps of the writer before it takes the head of the queue.\<close>

definition turns :: "loop_pc \<Rightarrow> nat" where
  "turns pc = (case pc of LoopPick \<Rightarrow> 0 | LoopTop \<Rightarrow> 1 | _ \<Rightarrow> 2)"

definition served :: "nat \<Rightarrow> 't mgr \<Rightarrow> bool" where
  "served i m \<longleftrightarrow> i \<in> fst ` set (mg_done m)"

definition heads :: "nat \<Rightarrow> 't mgr \<Rightarrow> bool" where
  "heads i m \<longleftrightarrow> (\<exists>rq rqs. mg_queue m = rq # rqs \<and> rq_done rq = Some i)"

lemma env_step_frame: "env_step m m' \<Longrightarrow> mg_pc m' = mg_pc m \<and> mg_done m' = mg_done m \<and> (mg_closed m \<longrightarrow> mg_closed m') \<and>
    (\<exists>more. mg_queue m' = mg_queue m @ more)"
  by (induction rule: env_step.induct) (auto simp: enqueue_def answer_def provider_event_def push_event_def)

lemma run_request_rest:
  "mg_closed (run_request cf en rq m) = mg_closed m" "mg_pc (run_request cf en rq m) = mg_pc m"
  "mg_queue (run_request cf en rq m) = mg_queue m" "mg_waiting (run_request cf en rq m) = mg_waiting m \<and> mg_answers (run_request cf en rq m) = mg_answers m"
  "mg_done (run_request cf en rq m) = mg_done m \<or> (\<exists>i r. rq_done rq = Some i \<and> mg_done (run_request cf en rq m) = (i, r) # mg_done m)"
  "rq_done rq = Some i \<Longrightarrow> served i (run_request cf en rq m)"
proof -
  obtain err m1 where r: "run_request cf en rq m = send_done (rq_done rq) err m1" and w: "writer_op m m1"
    using run_request_frame [OF refl, of cf en rq m] by blast
  have f: "mg_queue m1 = mg_queue m" "mg_done m1 = mg_done m" "mg_waiting m1 = mg_waiting m" "mg_answers m1 = mg_answers m"
    "mg_closed m1 = mg_closed m" "mg_pc m1 = mg_pc m"
    using w by (auto simp: writer_op_def calls_def flags_def)
  show "mg_closed (run_request cf en rq m) = mg_closed m" "mg_pc (run_request cf en rq m) = mg_pc m"
    "mg_queue (run_request cf en rq m) = mg_queue m" "mg_waiting (run_request cf en rq m) = mg_waiting m \<and> mg_answers (run_request cf en rq m) = mg_answers m"
    "mg_done (run_request cf en rq m) = mg_done m \<or> (\<exists>i r. rq_done rq = Some i \<and> mg_done (run_request cf en rq m) = (i, r) # mg_done m)"
    "rq_done rq = Some i \<Longrightarrow> served i (run_request cf en rq m)"
    unfolding r using f by (cases "rq_done rq"; simp add: send_done_def served_def)+
qed

lemma run_resync_rest:
  "mg_closed (run_resync cf en m) = mg_closed m" "mg_pc (run_resync cf en m) = mg_pc m"
  "mg_queue (run_resync cf en m) = mg_queue m" "mg_done (run_resync cf en m) = mg_done m"
  using run_request_rest(1-4) [of cf en resync_request m] run_request_rest(5) [of cf en resync_request m]
  by (auto simp: run_resync_def resync_request_def)

lemma reject_rest: "mg_closed (reject_pending m) = mg_closed m" "mg_pc (reject_pending m) = mg_pc m"
  using reject_fold [of "Some ErrClosed" "mg_queue m" "m\<lparr>mg_queue := []\<rparr>"] by (simp_all add: reject_pending_def flags_def)

lemma loop_step_closed: "loop_step cf m m' \<Longrightarrow> mg_closed m \<Longrightarrow> mg_closed m'"
proof (induction rule: loop_step.induct)
  case (LoopReject m)
  then show ?case by (simp add: reject_rest)
qed (simp_all add: run_request_rest run_resync_rest)

lemma schedule_closed: "schedule cf k m m' \<Longrightarrow> mg_closed m \<Longrightarrow> mg_closed m'"
  by (induction rule: schedule.induct) (auto dest: env_step_frame loop_step_closed)

lemma loop_step_serves:
  assumes "loop_step cf m m'" and "\<not> mg_closed m"
  shows "(served i m \<longrightarrow> served i m') \<and> (heads i m \<longrightarrow> served i m' \<or> heads i m' \<and> turns (mg_pc m') < turns (mg_pc m))"
  using assms
proof (induction rule: loop_step.induct)
  case (LoopRequest en m rq rqs)
  let ?m = "m\<lparr>mg_queue := rqs, mg_pc := LoopAfter\<rparr>"
  show ?case
    using run_request_rest(6) [of rq i cf en ?m] LoopRequest run_request_rest(5) [of cf en rq ?m]
    by (auto simp: served_def heads_def)
qed (auto simp: served_def heads_def turns_def run_resync_rest)

lemma schedule_serves:
  assumes "schedule cf k m m'" and "\<not> mg_closed m'" and "served i m \<or> heads i m \<and> turns (mg_pc m) < k"
  shows "served i m'"
  using assms
proof (induction rule: schedule.induct)
  case (Others m m1 k m')
  then have "served i m1 \<or> heads i m1 \<and> turns (mg_pc m1) < k"
    using env_step_frame [OF Others(1)] by (auto simp: served_def heads_def)
  then show ?case using Others by blast
next
  case (Writer m m1 k m')
  then have "\<not> mg_closed m" using loop_step_closed schedule_closed by blast
  then show ?case using Writer loop_step_serves [OF Writer(1), of i] by fastforce
qed simp

lemma turns_bound: "turns pc \<le> 2"
  by (simp add: turns_def split: loop_pc.split)

text \<open>The loop returns only when the manager is closed.\<close>

lemma exited_closed: "reachable cf cap kc m \<Longrightarrow> mg_pc m = LoopExited \<longrightarrow> mg_closed m"
proof (induction rule: reachable.induct)
  case (Start en m)
  then show ?case using reload_calls [OF Start(2)] by (auto simp: flags_def init_mgr_def)
next
  case (Step m m')
  have "loop_step cf m m' \<Longrightarrow> mg_pc m' = LoopExited \<longrightarrow> mg_closed m'"
  proof (induction rule: loop_step.induct)
    case (LoopReject m)
    then show ?case by (simp add: reject_rest)
  qed (auto simp: run_request_rest run_resync_rest)
  then show ?case using Step env_step_frame unfolding mstep_def by metis
qed

lemma reachable_env: "reachable cf cap kc m \<Longrightarrow> \<exists>en. cf_env cf en"
  by (induction rule: reachable.induct) auto

lemma writer_enabled:
  assumes "reachable cf cap kc m" and "heads i m" and "\<not> mg_closed m"
  shows "\<exists>m'. loop_step cf m m'"
proof -
  obtain en where en: "cf_env cf en" using reachable_env [OF assms(1)] by blast
  obtain rq rqs where q: "mg_queue m = rq # rqs" using assms(2) by (auto simp: heads_def)
  show ?thesis
  proof (cases "mg_pc m")
    case LoopAfter
    then show ?thesis using LoopResync [OF en, of m] LoopNoResync [of m cf] by blast
  next
    case LoopExited
    then show ?thesis using exited_closed [OF assms(1)] assms(3) by simp
  qed (use en q assms(3) LoopEnter [of m cf] LoopRequest [OF en, of m rq rqs] in auto)
qed

section \<open>What a caller learns\<close>

lemma publish_error_newest: "last (publish_error e q) = e"
proof (induction e q rule: publish_error.induct)
  case (1 e q)
  then show ?case by (cases "length q < errors_chan_cap") (simp_all add: publish_error.simps [of e q])
qed

lemma commit_fails: "commit cf en a reason key m = (Some e, m') \<Longrightarrow> m' = m"
  by (auto simp: commit_def Let_def split: if_splits sum.splits prod.splits option.splits)

definition kept :: "'t mgr \<Rightarrow> 't mgr \<Rightarrow> bool" where
  "kept m m' \<longleftrightarrow> mg_state m' = mg_state m \<and> mg_gen m' = mg_gen m \<and> mg_history m' = mg_history m \<and>
     mg_published m' = mg_published m"

lemma kept_core: "kept m m' \<longleftrightarrow> core m' = core m"
  by (auto simp: kept_def core_def)

lemma run_work_fails:
  assumes "run_work cf en rq m = (Some e, m')"
  shows "core m' = core m \<and> mg_fingerprint m' = mg_fingerprint m"
proof
  show "core m' = core m" using run_work_frame [OF assms] by blast
  show "mg_fingerprint m' = mg_fingerprint m"
  proof (cases "rq_work rq")
    case (WorkReload key ov)
    let ?x = "case ov of None \<Rightarrow> [] | Some o1 \<Rightarrow> [override_layer o1]"
    obtain r dirs m1 where a: "assemble_run en '''' ?x m = (r, dirs, m1)" by (cases "assemble_run en '''' ?x m") auto
    show ?thesis
      using assms WorkReload a assemble_run_frame [OF a] commit_fails
      by (cases r) (fastforce simp: run_work_def reload_def)+
  next
    case (WorkPlan host)
    obtain r m1 where p: "run_plan cf en host m = (r, m1)" by (cases "run_plan cf en host m")
    show ?thesis using assms p WorkPlan run_plan_frame [OF p] by (cases r) (auto simp: run_work_def)
  qed (use assms in \<open>auto simp: run_work_def\<close>)
qed

definition outcome :: "('t, 'd) mgr_cfg \<Rightarrow> 'd run_env \<Rightarrow> 't request \<Rightarrow> 't mgr \<Rightarrow> mgr_error option" where
  "outcome cf en rq m = (if en_canceled en \<or> mg_closed m then Some ContextError else fst (run_work cf en rq m))"

lemma run_request_outcome:
  "mg_done (run_request cf en rq m) = (case rq_done rq of None \<Rightarrow> [] | Some i \<Rightarrow> [(i, outcome cf en rq m)]) @ mg_done m"
  "outcome cf en rq m = Some e \<Longrightarrow> core (run_request cf en rq m) = core m \<and>
     mg_fingerprint (run_request cf en rq m) = mg_fingerprint m \<and>
     last (mg_errors (run_request cf en rq m)) = \<lparr>re_reason = rq_reason rq, re_err = e\<rparr>"
  "outcome cf en rq m = None \<Longrightarrow> core (run_request cf en rq m) = core m \<or> published_once m (run_request cf en rq m)"
proof -
  let ?run = "if en_canceled en \<or> mg_closed m then (Some ContextError, m) else run_work cf en rq m"
  obtain err m1 where r: "?run = (err, m1)" by (cases ?run)
  have o: "outcome cf en rq m = err" using r by (auto simp: outcome_def split: if_splits)
  have w: "writer_op m m1 \<and> (core m1 = core m \<or> err = None \<and> published_once m m1)"
    using r run_work_frame [of cf en rq m err m1] by (auto simp: writer_op_def split: if_splits)
  have q: "run_request cf en rq m = send_done (rq_done rq) err (case err of None \<Rightarrow> m1 | Some e \<Rightarrow> post_error (rq_reason rq) e m1)"
    using r by (simp add: run_request_def)
  have d: "mg_done (post_error a e m1) = mg_done m1" for a e by (simp add: post_error_def)
  show "mg_done (run_request cf en rq m) = (case rq_done rq of None \<Rightarrow> [] | Some i \<Rightarrow> [(i, outcome cf en rq m)]) @ mg_done m"
    unfolding q o using w by (cases err; cases "rq_done rq") (simp_all add: d writer_op_def calls_def)
  have f: "mg_fingerprint (send_done dn v n) = mg_fingerprint n" "mg_errors (send_done dn v n) = mg_errors n" for dn v and n :: "'a mgr"
    by (simp_all add: send_done_def split: option.split)
  have pe: "mg_errors (post_error a e m1) = publish_error \<lparr>re_reason = a, re_err = e\<rparr> (mg_errors m1)" for a e
    by (simp add: post_error_def)
  show "outcome cf en rq m = Some e \<Longrightarrow> core (run_request cf en rq m) = core m \<and>
     mg_fingerprint (run_request cf en rq m) = mg_fingerprint m \<and>
     last (mg_errors (run_request cf en rq m)) = \<lparr>re_reason = rq_reason rq, re_err = e\<rparr>"
    unfolding q o using w run_work_fails [of cf en rq m e m1] r
    by (auto simp: f publish_error_newest pe split: if_splits)
  show "outcome cf en rq m = None \<Longrightarrow> core (run_request cf en rq m) = core m \<or> published_once m (run_request cf en rq m)"
    unfolding q o using w by (auto simp: published_once_def)
qed

definition panics :: "'t snapshot option \<Rightarrow> 't snapshot \<Rightarrow> (nat \<times> 't subscriber) list \<Rightarrow> reload_error list" where
  "panics prev nx subs = concat (map (\<lambda>(id, sub).
     case sub (value_of prev) (sn_value nx) of
       SubPanicked msg \<Rightarrow> [\<lparr>re_reason = ''subscriber-panic'', re_err = SubscriberPanic msg\<rparr>] | _ \<Rightarrow> []) subs)"

lemma notify_fold:
  "errors_ok m \<Longrightarrow> mg_errors (fold (\<lambda>(id, sub). call_subscriber prev nx sub) subs m) =
     last_n errors_chan_cap (mg_errors m @ panics prev nx subs)"
proof (induction subs arbitrary: m)
  case Nil
  then show ?case by (simp add: panics_def errors_ok_def last_n_all)
next
  case (Cons s subs)
  obtain i sub where s: "s = (i, sub)" by (cases s)
  show ?case
  proof (cases "sub (value_of prev) (sn_value nx)")
    case (SubPanicked msg)
    let ?e = "\<lparr>re_reason = ''subscriber-panic'', re_err = SubscriberPanic msg\<rparr>"
    have "mg_errors (fold (\<lambda>(id, sub). call_subscriber prev nx sub) (s # subs) m) =
        last_n errors_chan_cap (publish_error ?e (mg_errors m) @ panics prev nx subs)"
      using Cons.IH [OF post_error_ok [OF Cons.prems], of "''subscriber-panic''" "SubscriberPanic msg"] s SubPanicked
      by (simp add: call_subscriber_def [of _ _ sub] post_error_def)
    then show ?thesis
      using Cons.prems SubPanicked s by (simp add: publish_error_last errors_ok_def last_n_append_last_n panics_def)
  qed (use Cons s in \<open>simp_all add: call_subscriber_def panics_def\<close>)
qed

section \<open>A concrete run\<close>

definition demo_nil_view :: snapshot_view where
  "demo_nil_view = \<lparr>sv_tree = None, sv_types = (\<lambda>_. None), sv_root = RNamed 0, sv_patterns = compile_patterns [], sv_redactor = None\<rparr>"

definition demo_cfg :: "(gmap, unit) mgr_cfg" where
  "demo_cfg = \<lparr>cf_pipe = demo_pipe_opts, cf_equal = (\<lambda>_ _. False), cf_view = (\<lambda>_. demo_nil_view),
     cf_nil_view = demo_nil_view, cf_env = (\<lambda>_. True)\<rparr>"

definition demo_env :: "unit run_env" where
  "demo_env = \<lparr>en_world = demo_world, en_opts = demo_opts, en_gen_after = 0, en_canceled = False, en_asm_canceled = False,
     en_before = False, en_stages = (\<lambda>_. False), en_after = False\<rparr>"

text \<open>\<open>New\<close> with two providers and a history of three, then caller 7 rolls back to the first snapshot.\<close>

definition demo_start :: "gmap mgr" where
  "demo_start = snd (reload demo_cfg demo_env ''initial'' '''' [] (init_mgr 3 zero_sum demo_keys))"

definition demo_rollback :: "gmap request" where
  "demo_rollback = (rollback_request (the (mg_state demo_start)))\<lparr>rq_done := Some 7\<rparr>"

definition demo_waiting :: "gmap mgr" where
  "demo_waiting = enqueue demo_rollback (demo_start\<lparr>mg_pc := LoopPick, mg_waiting := [7]\<rparr>)"

definition demo_served :: "gmap mgr" where
  "demo_served = run_request demo_cfg demo_env demo_rollback (demo_waiting\<lparr>mg_queue := [], mg_pc := LoopAfter\<rparr>)"

lemma demo_loaded: "fst (reload demo_cfg demo_env ''initial'' '''' [] (init_mgr 3 zero_sum demo_keys)) = None"
  by code_simp

lemma demo_fresh:
  "mg_pc demo_start = LoopTop" "mg_queue demo_start = []" "mg_waiting demo_start = []" "mg_answers demo_start = []"
  "\<not> mg_closed demo_start" "mg_done demo_start = []" "errors_ok demo_start" "reachable demo_cfg 3 demo_keys demo_start"
proof -
  have r: "reload demo_cfg demo_env ''initial'' '''' [] (init_mgr 3 zero_sum demo_keys) = (None, demo_start)"
    using demo_loaded by (simp add: demo_start_def prod_eq_iff)
  show "mg_pc demo_start = LoopTop" "mg_queue demo_start = []" "mg_waiting demo_start = []" "mg_answers demo_start = []"
    "\<not> mg_closed demo_start" "mg_done demo_start = []" "errors_ok demo_start"
    using reload_calls [OF r] by (simp_all add: calls_def flags_def init_mgr_def errors_ok_def)
  show "reachable demo_cfg 3 demo_keys demo_start" by (rule Start [OF _ r]) (simp add: demo_cfg_def)
qed

lemma demo_waiting_reachable: "reachable demo_cfg 3 demo_keys demo_waiting"
proof -
  have "loop_step demo_cfg demo_start (demo_start\<lparr>mg_pc := LoopPick\<rparr>)" using demo_fresh by (intro LoopEnter)
  then have r: "reachable demo_cfg 3 demo_keys (demo_start\<lparr>mg_pc := LoopPick\<rparr>)"
    using demo_fresh Step unfolding mstep_def by blast
  have inv: "core_inv 3 demo_start" "mg_published demo_start \<noteq> []"
    using reachable_core [OF demo_fresh(8)] reachable_published [OF demo_fresh(8)] by auto
  let ?rq = "rollback_request (the (mg_state demo_start))"
  have "env_step (demo_start\<lparr>mg_pc := LoopPick\<rparr>) (enqueue (?rq\<lparr>rq_done := Some 7\<rparr>)
      (demo_start\<lparr>mg_pc := LoopPick, mg_waiting := 7 # mg_waiting (demo_start\<lparr>mg_pc := LoopPick\<rparr>)\<rparr>))"
    using Submit [of "demo_start\<lparr>mg_pc := LoopPick\<rparr>" 7 ?rq] demo_fresh inv
    by (simp add: reload_chan_cap_def known_def submittable_def rollback_request_def core_inv_def)
  then have "env_step (demo_start\<lparr>mg_pc := LoopPick\<rparr>) demo_waiting"
    using demo_fresh by (simp add: demo_waiting_def demo_rollback_def)
  then show ?thesis using r Step unfolding mstep_def by blast
qed

lemma demo_step: "loop_step demo_cfg demo_waiting demo_served"
  unfolding demo_served_def
  by (rule LoopRequest) (simp_all add: demo_cfg_def demo_waiting_def demo_fresh enqueue_def)

lemma demo_served_reachable: "reachable demo_cfg 3 demo_keys demo_served"
  using demo_waiting_reachable demo_step Step unfolding mstep_def by blast

lemma demo_outcome: "outcome demo_cfg demo_env demo_rollback m = (if mg_closed m then Some ContextError else None)"
  by (simp add: outcome_def demo_env_def demo_rollback_def rollback_request_def run_work_def)

lemma demo_published: "map sn_generation (mg_published demo_start) = [1]" "map sn_generation (mg_published demo_served) = [1, 2]"
proof -
  have "published_once (init_mgr 3 zero_sum demo_keys) demo_start"
    using demo_loaded by (intro reload_publishes [of demo_cfg demo_env "''initial''" "''''" "[]"])
      (simp_all add: demo_start_def prod_eq_iff init_mgr_def)
  then show s: "map sn_generation (mg_published demo_start) = [1]"
    by (auto simp: published_once_def core_def init_mgr_def)
  have g: "mg_gen demo_start = 1"
    using reachable_core [OF demo_fresh(8)] arg_cong [OF s, of length] by (simp add: core_inv_def)
  let ?m = "demo_waiting\<lparr>mg_queue := [], mg_pc := LoopAfter\<rparr>"
  have m: "mg_published ?m = mg_published demo_start" "mg_gen ?m = 1" by (simp_all add: demo_waiting_def enqueue_def g)
  have "mg_published demo_served = mg_published (apply_rollback demo_cfg (the (mg_state demo_start)) ?m)"
    using demo_fresh(5)
    by (simp add: demo_served_def run_request_def demo_env_def demo_rollback_def rollback_request_def run_work_def send_done_def
      demo_waiting_def enqueue_def)
  moreover obtain s where "sn_generation s = mg_gen ?m + 1"
    "mg_published (apply_rollback demo_cfg (the (mg_state demo_start)) ?m) = mg_published ?m @ [s]"
    using apply_rollback_frame [of ?m demo_cfg] unfolding published_once_def core_def by blast
  ultimately show "map sn_generation (mg_published demo_served) = [1, 2]" using s m by simp
qed

section \<open>Properties\<close>

text \<open>C4. In every reachable state, whatever the interleaving of reloads, plans, rollbacks, provider events, pauses,
  subscriptions and closing: a snapshot is published; the snapshots published so far carry the generations 1, 2, 3,
  ... without gap or repeat; \<open>Snapshot\<close> is the last of them; the history lists exactly the newest ones before it,
  as many as its capacity, oldest first; and the error channel and the queue hold at most 16 entries.\<close>

theorem snapshots_numbered:
  assumes "reachable cf cap kc m"
  shows "mg_published m \<noteq> [] \<and>
     map sn_generation (mg_published m) = map of_nat [1..<Suc (length (mg_published m))] \<and>
     mg_state m = Some (last (mg_published m)) \<and> generation_of (mg_state m) = mg_gen m \<and>
     history_list (mg_history m) = last_n (nat cap) (map Some (butlast (mg_published m))) \<and>
     length (mg_errors m) \<le> 16 \<and> length (mg_queue m) \<le> 16"
proof -
  note inv = reachable_core [OF assms] and ne = reachable_published [OF assms]
  let ?xs = "mg_published m"
  have num: "map sn_generation ?xs = map of_nat [1..<Suc (length ?xs)]"
    using inv by (intro nth_equalityI) (simp_all add: core_inv_def numbered_def del: upt_Suc)
  moreover have "sn_generation (last ?xs) = of_nat (length ?xs)"
    using inv ne by (cases ?xs rule: rev_cases) (simp_all add: core_inv_def numbered_snoc)
  ultimately show ?thesis
    using inv ne reachable_errors [OF assms] reachable_calls [OF assms]
    by (simp add: core_inv_def generation_of_def history_keeps_newest errors_ok_def errors_chan_cap_def calls_inv_def
      reload_chan_cap_def)
qed

theorem snapshots_numbered_witness:
  "map sn_generation (mg_published demo_served) = [1, 2] \<and> generation_of (mg_state demo_served) = 2 \<and>
   history_list (mg_history demo_served) = map Some (butlast (mg_published demo_served)) \<and>
   length (mg_published demo_served) = 2"
proof -
  have len: "length (mg_published demo_served) = 2" using arg_cong [OF demo_published(2), of length] by simp
  have "sn_generation (last (mg_published demo_served)) = 2"
    using arg_cong [OF demo_published(2), of last] len by (cases "mg_published demo_served") (auto simp: last_map)
  then show ?thesis
    using snapshots_numbered [OF demo_served_reachable] len demo_published(2) by (simp add: generation_of_def last_n_all)
qed

text \<open>C5. A failed request changes nothing that is published, and its caller and the error channel both learn why: the
  caller of a request gets exactly one result; when that is an error the snapshot, generation, history and published
  fingerprint are as before and the newest entry of \<open>Errors\<close> carries the same error under the request's reason;
  when it is nil, either nothing was published, or one snapshot was, with the next generation.\<close>

theorem failed_request_keeps_state:
  "mg_done (run_request cf en rq m) = (case rq_done rq of None \<Rightarrow> [] | Some i \<Rightarrow> [(i, outcome cf en rq m)]) @ mg_done m \<and>
   (case outcome cf en rq m of
      Some e \<Rightarrow> kept m (run_request cf en rq m) \<and> mg_fingerprint (run_request cf en rq m) = mg_fingerprint m \<and>
                last (mg_errors (run_request cf en rq m)) = \<lparr>re_reason = rq_reason rq, re_err = e\<rparr>
    | None \<Rightarrow> kept m (run_request cf en rq m) \<or>
               (\<exists>s. sn_generation s = mg_gen m + 1 \<and> mg_gen (run_request cf en rq m) = mg_gen m + 1 \<and>
                    mg_state (run_request cf en rq m) = Some s \<and>
                    mg_published (run_request cf en rq m) = mg_published m @ [s]))"
  using run_request_outcome [of cf en rq m]
  by (cases "outcome cf en rq m") (auto simp: kept_core published_once_def core_def)

text \<open>C6. No caller is stranded or answered twice: in every reachable state the writer has sent at most one result to
  each caller, every caller that submitted a request is either still waiting or has returned, exactly once, and the
  request of a waiting caller is in the queue or its result has been sent.\<close>

theorem callers_answered_once:
  assumes "reachable cf cap kc m"
  shows "distinct (map fst (mg_done m)) \<and> distinct (mg_waiting m @ map fst (mg_answers m)) \<and>
     (\<forall>i. i \<in> known m \<longleftrightarrow> ((i \<in> set (queued m)) \<noteq> served i m))"
  using reachable_calls [OF assms] by (auto simp: calls_inv_def served_def)

theorem callers_answered_once_witness:
  "served 7 demo_served \<and> \<not> served 7 demo_waiting \<and> queued demo_waiting = [7] \<and> queued demo_served = []"
proof -
  have q: "queued demo_waiting = [7]" "queued demo_served = []" "known demo_served = {7}"
    using demo_fresh run_request_rest(3,4) [of demo_cfg demo_env demo_rollback "demo_waiting\<lparr>mg_queue := [], mg_pc := LoopAfter\<rparr>"]
    by (simp_all add: demo_waiting_def demo_served_def queued_def enqueue_def demo_rollback_def List.map_filter_simps known_def)
  have k: "known demo_waiting = {7}" using demo_fresh by (simp add: demo_waiting_def known_def enqueue_def)
  show ?thesis
    using callers_answered_once [OF demo_waiting_reachable] callers_answered_once [OF demo_served_reachable] q k by auto
qed

text \<open>C7. The writer makes progress: as long as the manager stays open, a writer step is possible whenever a caller's
  request is at the head of the queue, and three steps of the writer serve it, whatever happens in between
  (submissions, provider events, pauses, the resync that an overflow left behind).\<close>

theorem writer_progress:
  assumes "reachable cf cap kc m" and "heads i m" and "\<not> mg_closed m"
  shows "(\<exists>m'. loop_step cf m m') \<and> (\<forall>m'. schedule cf 3 m m' \<longrightarrow> mg_closed m' \<or> served i m')"
proof -
  have "turns (mg_pc m) < 3" using turns_bound [of "mg_pc m"] by simp
  then show ?thesis using schedule_serves [of cf 3 m _ i] writer_enabled [OF assms] assms(2) by blast
qed

theorem writer_progress_witness: "\<exists>m'. loop_step demo_cfg demo_waiting m'"
proof -
  have "heads 7 demo_waiting" "\<not> mg_closed demo_waiting"
    using demo_fresh by (simp_all add: heads_def demo_waiting_def enqueue_def demo_rollback_def)
  from writer_progress [OF demo_waiting_reachable this] show ?thesis by blast
qed

text \<open>C13. Subscribers cannot harm a publication: publishing stores the new snapshot and runs every subscriber, in the
  order of registration, with the values before and after; a panic is reported on the error channel, after those
  before it and evicting the oldest beyond 16, and stops neither the others nor the publication.\<close>

theorem subscribers_isolated:
  assumes "length (mg_errors m) \<le> 16"
  shows "mg_errors (publish_snapshot prev nx m) = last_n 16 (mg_errors m @ panics prev nx (sort_key fst (mg_subs m))) \<and>
     mg_state (publish_snapshot prev nx m) = Some nx \<and> mg_published (publish_snapshot prev nx m) = mg_published m @ [nx]"
proof -
  let ?m = "m\<lparr>mg_state := Some nx,
          mg_history := (case prev of None \<Rightarrow> mg_history m | Some s \<Rightarrow> history_push (Some s) (mg_history m)),
          mg_next_ref := mg_next_ref m + 1, mg_published := mg_published m @ [nx]\<rparr>"
  have "errors_ok ?m" using assms by (simp add: errors_ok_def errors_chan_cap_def)
  then have "mg_errors (publish_snapshot prev nx m) = last_n 16 (mg_errors m @ panics prev nx (sort_key fst (mg_subs m)))"
    using notify_fold [of ?m prev nx "sort_key fst (mg_subs m)"]
    by (simp add: publish_snapshot_def notify_subscribers_def errors_chan_cap_def)
  then show ?thesis using publish_simps(4) [of prev nx m] by (simp add: core_def)
qed

theorem subscribers_isolated_witness:
  "mg_errors (publish_snapshot None (the (mg_state demo_start))
      (demo_start\<lparr>mg_errors := [], mg_subs := [(2, \<lambda>_ _. SubPanicked ''b''), (1, \<lambda>_ _. SubPanicked ''a''), (3, \<lambda>_ _. SubCalled)]\<rparr>)) =
    [\<lparr>re_reason = ''subscriber-panic'', re_err = SubscriberPanic ''a''\<rparr>,
     \<lparr>re_reason = ''subscriber-panic'', re_err = SubscriberPanic ''b''\<rparr>]"
  using subscribers_isolated [of "demo_start\<lparr>mg_errors := [],
      mg_subs := [(2, \<lambda>_ _. SubPanicked ''b''), (1, \<lambda>_ _. SubPanicked ''a''), (3, \<lambda>_ _. SubCalled)]\<rparr>"]
  by (simp add: panics_def last_n_all)

end
