(* ===== verification/Resume.thy ===== *)
theory Resume
  imports Manager Envs
begin

text \<open>
  \<open>provider_watch.go\<close>: the loop that keeps one provider subscribed, the table of revisions it resumes from, and the
  events it hands to the writer. The loop is a step relation beside the manager's, whose steps interleave with it.
  \<open>wt_log\<close> is a history variable. Instants do not matter, only the delays a sleep is started with.
\<close>

section \<open>The revision table\<close>

definition revision_get :: "(string \<times> string) list \<Rightarrow> string \<Rightarrow> string" where
  "revision_get revs name = (case kv_get revs name of None \<Rightarrow> '''' | Some r \<Rightarrow> r)"

definition revision_set :: "string \<Rightarrow> string \<Rightarrow> (string \<times> string) list \<Rightarrow> (string \<times> string) list" where
  "revision_set name rv revs = (if rv = '''' then revs else kv_set name rv revs)"

section \<open>The loop\<close>

definition min_delay :: int where "min_delay = 250 * 10 ^ 6"
definition max_delay :: int where "max_delay = 30 * 10 ^ 9"

text \<open>\<open>r\<close> is the random number, uniform in \<open>[0, d/2]\<close>.\<close>

definition jitter :: "int \<Rightarrow> int \<Rightarrow> int" where
  "jitter d r = (if d \<le> 0 then d else d + r)"

record watch_input =
  wi_reason :: string
  wi_revision :: string
  wi_gap :: bool

datatype watch_pc = WatchTop | WatchAsleep | WatchReading | WatchEnded

datatype watch_note = Watched string | RetryIn int | Resubscribe int | Seen string | Missed

record 't watching =
  wt_mgr :: "'t mgr"
  wt_revs :: "(string \<times> string) list"
  wt_backoff :: backoff
  wt_pc :: watch_pc
  wt_canceled :: bool
  wt_log :: "watch_note list"

definition add_notes :: "watch_note list \<Rightarrow> 't watching \<Rightarrow> 't watching" where
  "add_notes ns s = s\<lparr>wt_log := wt_log s @ ns\<rparr>"

text \<open>One event of \<open>consumeProviderEvents\<close> up to the hand-over.\<close>

definition see_event :: "string \<Rightarrow> watch_input \<Rightarrow> 't watching \<Rightarrow> 't watching" where
  "see_event name ev s =
     add_notes (Seen (wi_revision ev) # (if wi_gap ev then [Missed] else []))
       (s\<lparr>wt_revs := revision_set name (wi_revision ev) (wt_revs s)\<rparr>)"

definition consume_event :: "string \<Rightarrow> watch_input \<Rightarrow> 't watching \<Rightarrow> 't watching" where
  "consume_event name ev s = (see_event name ev s)\<lparr>wt_mgr := provider_event name (wi_reason ev) (wt_mgr s)\<rparr>"

definition watched :: "string \<Rightarrow> 't watching \<Rightarrow> watch_note" where
  "watched name s = Watched (revision_get (wt_revs s) name)"

text \<open>The steps. A select whose channel and cancellation are both ready may take either; \<open>LateRead\<close> is an event whose
  check of the pause came before the pause.\<close>

inductive watch_step :: "('t, 'd) mgr_cfg \<Rightarrow> string \<Rightarrow> 't watching \<Rightarrow> 't watching \<Rightarrow> bool" for cf name where
  Cancel: "watch_step cf name s (s\<lparr>wt_canceled := True\<rparr>)"
| TopCanceled: "wt_pc s = WatchTop \<Longrightarrow> wt_canceled s \<Longrightarrow> watch_step cf name s (s\<lparr>wt_pc := WatchEnded\<rparr>)"
| WatchFailed: "wt_pc s = WatchTop \<Longrightarrow> \<not> wt_canceled s \<Longrightarrow> backoff_next (wt_backoff s) = (d, b) \<Longrightarrow> 0 \<le> r \<Longrightarrow> r \<le> d div 2 \<Longrightarrow>
    watch_step cf name s (add_notes [watched name s, RetryIn (jitter d r)] (s\<lparr>wt_pc := WatchAsleep, wt_backoff := b\<rparr>))"
| WatchOptsOut: "wt_pc s = WatchTop \<Longrightarrow> \<not> wt_canceled s \<Longrightarrow>
    watch_step cf name s (add_notes [watched name s] (s\<lparr>wt_pc := WatchEnded\<rparr>))"
| WatchOpened: "wt_pc s = WatchTop \<Longrightarrow> \<not> wt_canceled s \<Longrightarrow>
    watch_step cf name s (add_notes [watched name s] (s\<lparr>wt_pc := WatchReading, wt_backoff := backoff_reset (wt_backoff s)\<rparr>))"
| ReadEvent: "wt_pc s = WatchReading \<Longrightarrow> watch_step cf name s (consume_event name ev s)"
| LateRead: "wt_pc s = WatchReading \<Longrightarrow>
    watch_step cf name s ((see_event name ev s)\<lparr>wt_mgr := push_event name (wi_reason ev) (wt_mgr s)\<rparr>)"
| ReadCanceled: "wt_pc s = WatchReading \<Longrightarrow> wt_canceled s \<Longrightarrow> watch_step cf name s (s\<lparr>wt_pc := WatchEnded\<rparr>)"
| ReadClosed: "wt_pc s = WatchReading \<Longrightarrow> \<not> wt_canceled s \<Longrightarrow> 0 \<le> r \<Longrightarrow> r \<le> min_delay div 2 \<Longrightarrow>
    watch_step cf name s (add_notes [Resubscribe (jitter min_delay r)] (s\<lparr>wt_pc := WatchAsleep\<rparr>))"
| SleepOver: "wt_pc s = WatchAsleep \<Longrightarrow> watch_step cf name s (s\<lparr>wt_pc := WatchTop\<rparr>)"
| SleepCanceled: "wt_pc s = WatchAsleep \<Longrightarrow> wt_canceled s \<Longrightarrow> watch_step cf name s (s\<lparr>wt_pc := WatchEnded\<rparr>)"
| OtherProvider: "q \<noteq> name \<Longrightarrow> watch_step cf name s (s\<lparr>wt_revs := revision_set q rv (wt_revs s)\<rparr>)"
| ManagerStep: "mstep cf (wt_mgr s) m \<Longrightarrow> watch_step cf name s (s\<lparr>wt_mgr := m\<rparr>)"

definition watch_start :: "'t mgr \<Rightarrow> 't watching" where
  "watch_start m =
     \<lparr>wt_mgr = m, wt_revs = [], wt_backoff = \<lparr>bo_min = min_delay, bo_max = max_delay, bo_cur = 0\<rparr>,
      wt_pc = WatchTop, wt_canceled = False, wt_log = []\<rparr>"

inductive watch_run :: "('t, 'd) mgr_cfg \<Rightarrow> int \<Rightarrow> keys_cache \<Rightarrow> string \<Rightarrow> 't watching \<Rightarrow> bool" for cf cap kc name where
  Begin: "reachable cf cap kc m \<Longrightarrow> watch_run cf cap kc name (watch_start m)"
| Go: "watch_run cf cap kc name s \<Longrightarrow> watch_step cf name s s' \<Longrightarrow> watch_run cf cap kc name s'"

section \<open>The invariant\<close>

text \<open>The last revision a provider sent, and the notes that are as they should be after the notes before them.\<close>

fun last_seen :: "watch_note list \<Rightarrow> string" where
  "last_seen [] = ''''"
| "last_seen (Seen r # ns) = (if r = '''' then last_seen ns else r)"
| "last_seen (n # ns) = last_seen ns"

fun fair_note :: "watch_note list \<Rightarrow> watch_note \<Rightarrow> bool" where
  "fair_note before (Watched r) = (r = last_seen before)"
| "fair_note before (RetryIn d) = (min_delay \<le> d \<and> d \<le> max_delay + max_delay div 2)"
| "fair_note before (Resubscribe d) = (min_delay \<le> d \<and> d \<le> min_delay + min_delay div 2)"
| "fair_note before n = True"

text \<open>A log, newest note first.\<close>

fun fair_log :: "watch_note list \<Rightarrow> bool" where
  "fair_log [] = True"
| "fair_log (n # ns) \<longleftrightarrow> fair_note ns n \<and> fair_log ns"

definition backoff_ok :: "backoff \<Rightarrow> bool" where
  "backoff_ok b \<longleftrightarrow> bo_min b = min_delay \<and> bo_max b = max_delay \<and> (bo_cur b = 0 \<or> min_delay \<le> bo_cur b) \<and> bo_cur b \<le> max_delay"

lemmas delay_defs = min_delay_def max_delay_def

lemma backoff_next_delays:
  assumes "backoff_ok b" and "backoff_next b = (d, b')"
  shows "min_delay \<le> d \<and> d \<le> max_delay \<and> backoff_ok b'"
proof -
  have "backoff_next b = (let cur = (if bo_cur b = 0 then bo_min b else bo_cur b) in (cur, b\<lparr>bo_cur := min (2 * cur) (bo_max b)\<rparr>))"
    by (rule backoff_next_ok) (use assms(1) in \<open>auto simp: backoff_ok_def delay_defs\<close>)
  then show ?thesis using assms by (auto simp: backoff_ok_def delay_defs Let_def)
qed

definition watch_inv :: "('t, 'd) mgr_cfg \<Rightarrow> int \<Rightarrow> keys_cache \<Rightarrow> string \<Rightarrow> 't watching \<Rightarrow> bool" where
  "watch_inv cf cap kc name s \<longleftrightarrow>
     reachable cf cap kc (wt_mgr s) \<and> fair_log (rev (wt_log s)) \<and>
     revision_get (wt_revs s) name = last_seen (rev (wt_log s)) \<and> backoff_ok (wt_backoff s)"

lemma revision_get_set: "revision_get (revision_set p r revs) name = (if p = name \<and> r \<noteq> '''' then r else revision_get revs name)"
  by (simp add: revision_get_def revision_set_def)

lemma env_reachable: "reachable cf cap kc m \<Longrightarrow> env_step m m' \<Longrightarrow> reachable cf cap kc m'"
  by (rule reachable.Step) (auto simp: mstep_def)

lemma watch_step_inv: "watch_step cf name s s' \<Longrightarrow> watch_inv cf cap kc name s \<Longrightarrow> watch_inv cf cap kc name s'"
proof (induction rule: watch_step.induct)
  case (WatchFailed s d b r)
  then have d: "min_delay \<le> d" "d \<le> max_delay" "backoff_ok b" using backoff_next_delays by (auto simp: watch_inv_def)
  have "d div 2 \<le> max_delay div 2" using d(2) by (rule zdiv_mono1) simp
  then have "min_delay \<le> jitter d r \<and> jitter d r \<le> max_delay + max_delay div 2"
    using WatchFailed(4,5) d by (simp add: jitter_def delay_defs)
  then show ?case using WatchFailed(6) d(3) by (simp add: watch_inv_def add_notes_def watched_def)
next
  case (WatchOpened s)
  then show ?case by (simp add: watch_inv_def add_notes_def watched_def backoff_ok_def backoff_reset_def delay_defs)
next
  case (ReadEvent s ev)
  then show ?case
    using env_reachable [OF _ ProviderEvent, of cf cap kc "wt_mgr s" name "wi_reason ev"]
    by (auto simp: watch_inv_def add_notes_def see_event_def consume_event_def revision_get_set)
next
  case (LateRead s ev)
  then show ?case
    using env_reachable [OF _ LateEvent, of cf cap kc "wt_mgr s" name "wi_reason ev"]
    by (auto simp: watch_inv_def add_notes_def see_event_def revision_get_set)
next
  case (ReadClosed s r)
  then show ?case by (simp add: watch_inv_def add_notes_def jitter_def delay_defs)
next
  case (ManagerStep s m)
  then show ?case using reachable.Step by (auto simp: watch_inv_def)
qed (simp_all add: watch_inv_def add_notes_def watched_def revision_get_set)

lemma watch_run_inv: "watch_run cf cap kc name s \<Longrightarrow> watch_inv cf cap kc name s"
proof (induction rule: watch_run.induct)
  case (Begin m)
  then show ?case by (simp add: watch_inv_def watch_start_def revision_get_def backoff_ok_def delay_defs)
next
  case (Go s s')
  then show ?case by (blast intro: watch_step_inv)
qed

section \<open>Properties\<close>

lemma fair_log_append: "fair_log (xs @ n # ns) \<Longrightarrow> fair_note ns n"
  by (induction xs) auto

text \<open>C14. A subscription always resumes where the last one stopped: in every run of the loop beside the manager, every call
  of \<open>Watch\<close> passes the last non-empty revision its provider has sent so far, empty at first, and nothing another
  provider sent; a failed call is retried after 250 ms to 45 s, a closed channel after 250 to 375 ms; and the manager
  only ever takes its own steps, so all its invariants hold throughout.\<close>

theorem watch_resumes:
  assumes "watch_run cf cap kc name s" and "wt_log s = before @ n # after"
  shows "fair_note (rev before) n \<and> reachable cf cap kc (wt_mgr s) \<and>
    revision_get (wt_revs s) name = last_seen (rev (wt_log s))"
  using watch_run_inv [OF assms(1)] fair_log_append [of "rev after" n "rev before"] assms(2)
  by (simp add: watch_inv_def)

text \<open>A run: the subscription sends revision 7 and closes; the next call, which fails, asks for what came after 7.\<close>

definition resumed :: "gmap watching" where
  "resumed =
     (watch_start demo_start)\<lparr>wt_mgr := provider_event ''kv'' ''put'' demo_start, wt_revs := [(''kv'', ''7'')],
        wt_backoff := snd (backoff_next \<lparr>bo_min = min_delay, bo_max = max_delay, bo_cur = 0\<rparr>), wt_pc := WatchAsleep,
        wt_log := [Watched '''', Seen ''7'', Resubscribe min_delay, Watched ''7'', RetryIn min_delay]\<rparr>"

lemma resumed_run: "watch_run demo_cfg 3 demo_keys ''kv'' resumed"
proof -
  let ?run = "watch_run demo_cfg 3 demo_keys ''kv''"
  let ?s = "watch_start demo_start" and ?m = "provider_event ''kv'' ''put'' demo_start"
  let ?opened = "?s\<lparr>wt_pc := WatchReading, wt_log := [Watched '''']\<rparr>"
  let ?read = "?opened\<lparr>wt_mgr := ?m, wt_revs := [(''kv'', ''7'')], wt_log := [Watched '''', Seen ''7'']\<rparr>"
  let ?shut = "?read\<lparr>wt_pc := WatchAsleep, wt_log := [Watched '''', Seen ''7'', Resubscribe min_delay]\<rparr>"
  have "?run ?s" by (rule Begin [OF demo_fresh(8)])
  moreover have "watch_step demo_cfg ''kv'' ?s ?opened"
    using WatchOpened [of ?s demo_cfg "''kv''"]
    by (simp add: watch_start_def add_notes_def watched_def revision_get_def backoff_reset_def)
  ultimately have "?run ?opened" by (rule Go)
  moreover have "watch_step demo_cfg ''kv'' ?opened ?read"
    using ReadEvent [of ?opened demo_cfg "''kv''" "\<lparr>wi_reason = ''put'', wi_revision = ''7'', wi_gap = False\<rparr>"]
    by (simp add: watch_start_def add_notes_def consume_event_def see_event_def revision_set_def)
  ultimately have "?run ?read" by (rule Go)
  moreover have "watch_step demo_cfg ''kv'' ?read ?shut"
    using ReadClosed [of ?read 0 demo_cfg "''kv''"] by (simp add: watch_start_def add_notes_def jitter_def delay_defs)
  ultimately have "?run ?shut" by (rule Go)
  moreover have "watch_step demo_cfg ''kv'' ?shut (?shut\<lparr>wt_pc := WatchTop\<rparr>)" by (rule SleepOver) simp
  ultimately have "?run (?shut\<lparr>wt_pc := WatchTop\<rparr>)" by (rule Go)
  moreover have "watch_step demo_cfg ''kv'' (?shut\<lparr>wt_pc := WatchTop\<rparr>) resumed"
    using WatchFailed [of "?shut\<lparr>wt_pc := WatchTop\<rparr>" min_delay _ 0 demo_cfg "''kv''"]
    by (simp add: watch_start_def add_notes_def watched_def revision_get_def resumed_def jitter_def backoff_next_def delay_defs Let_def)
  ultimately show ?thesis by (rule Go)
qed

theorem watch_resumes_witness:
  "fair_note [Resubscribe min_delay, Seen ''7'', Watched ''''] (Watched ''7'') \<and>
   reachable demo_cfg 3 demo_keys (wt_mgr resumed) \<and> revision_get (wt_revs resumed) ''kv'' = ''7''"
  using watch_resumes [OF resumed_run, of "[Watched '''', Seen ''7'', Resubscribe min_delay]" "Watched ''7''" "[RetryIn min_delay]"]
  by (simp add: resumed_def)

end
