(* ===== verification/Notify.thy ===== *)
theory Notify
  imports Value "HOL-Library.Monad_Syntax" "HOL-Library.Word"
begin

text \<open>
  \<open>integrations/notify/sns\<close>, \<open>azservicebus\<close>, \<open>pubsub\<close> and \<open>providers/s3/s3events\<close>: consumers of change notifications.
  Each decides whether a message concerns the configured source, refreshes, and only then acknowledges. Parsing JSON
  text and URLs is an argument; \<open>json.Unmarshal\<close> into a struct is modelled on the parsed tree: a key selects the field
  it equals up to the case of ASCII letters, \<open>null\<close> leaves a string or struct as it is, another type is an error, and keys
  that occur again write into the same string or struct (of a list, the last occurrence counts).
  Clocks are arguments: for each message the environment says what the calls and contexts return.
\<close>

section \<open>Decoding JSON\<close>

datatype jval = JNull | JBool bool | JNumber string | JString string | JArray "jval list" | JObject "(string \<times> jval) list"

fun j_fields :: "jval \<Rightarrow> (string \<times> jval) list option" where
  "j_fields (JObject kvs) = Some kvs"
| "j_fields JNull = Some []"
| "j_fields _ = None"

definition j_field :: "string \<Rightarrow> (string \<times> jval) list \<Rightarrow> jval" where
  "j_field name kvs = (case find (\<lambda>p. to_lower (fst p) = to_lower name) (rev kvs) of Some p \<Rightarrow> snd p | None \<Rightarrow> JNull)"

definition j_occurrences :: "string \<Rightarrow> (string \<times> jval) list \<Rightarrow> jval list" where
  "j_occurrences name kvs = map snd (filter (\<lambda>p. to_lower (fst p) = to_lower name) kvs)"

fun j_string :: "string \<Rightarrow> jval list \<Rightarrow> string option" where
  "j_string s [] = Some s"
| "j_string s (JString t # vs) = j_string t vs"
| "j_string s (JNull # vs) = j_string s vs"
| "j_string s _ = None"

definition j_str :: "string \<Rightarrow> (string \<times> jval) list \<Rightarrow> string option" where
  "j_str name kvs = j_string '''' (j_occurrences name kvs)"

text \<open>The fields written to a struct, and a string in such a struct.\<close>

fun j_struct :: "jval list \<Rightarrow> (string \<times> jval) list option" where
  "j_struct [] = Some []"
| "j_struct (v # vs) = do { kvs \<leftarrow> j_fields v; rest \<leftarrow> j_struct vs; Some (kvs @ rest) }"

definition j_sub :: "string \<Rightarrow> (string \<times> jval) list \<Rightarrow> (string \<times> jval) list option" where
  "j_sub name kvs = j_struct (j_occurrences name kvs)"

definition j_in :: "string \<Rightarrow> string \<Rightarrow> (string \<times> jval) list \<Rightarrow> string option" where
  "j_in outer inner kvs = Option.bind (j_sub outer kvs) (j_str inner)"

fun j_list :: "jval \<Rightarrow> jval list option option" where
  "j_list (JArray xs) = Some (Some xs)"
| "j_list JNull = Some None"
| "j_list _ = None"

fun map_option_list :: "('a \<Rightarrow> 'b option) \<Rightarrow> 'a list \<Rightarrow> 'b list option" where
  "map_option_list f [] = Some []"
| "map_option_list f (x # xs) = Option.bind (f x) (\<lambda>y. map_option (Cons y) (map_option_list f xs))"

section \<open>Matching for SQS\<close>

datatype sns_source = SourceS3 | SourceAppConfig | SourceParameterStore | SourceOther

record sns_config =
  sc_queue :: string
  sc_topic :: string
  sc_source :: sns_source
  sc_bucket :: string
  sc_key :: string
  sc_application :: string
  sc_environment :: string
  sc_profile :: string
  sc_path :: string
  sc_timeout :: int   \<comment> \<open>nanoseconds\<close>

text \<open>\<open>strings.Trim(s, "/")\<close> and \<open>strings.TrimRight\<close>.\<close>

definition trim_right_slash :: "string \<Rightarrow> string" where
  "trim_right_slash s = rev (dropWhile (\<lambda>c. c = CHR ''/'') (rev s))"

definition trim_slash :: "string \<Rightarrow> string" where
  "trim_slash s = trim_right_slash (dropWhile (\<lambda>c. c = CHR ''/'') s)"

definition validate_source :: "sns_config \<Rightarrow> bool" where
  "validate_source cfg =
     (case sc_source cfg of
        SourceS3 \<Rightarrow> sc_bucket cfg \<noteq> '''' \<and> sc_key cfg \<noteq> ''''
      | SourceAppConfig \<Rightarrow> sc_application cfg \<noteq> '''' \<and> sc_environment cfg \<noteq> '''' \<and> sc_profile cfg \<noteq> ''''
      | SourceParameterStore \<Rightarrow> has_prefix (sc_path cfg) ''/'' \<and> trim_slash (sc_path cfg) \<noteq> ''''
      | SourceOther \<Rightarrow> False)"

text \<open>\<open>url.QueryUnescape\<close>.\<close>

definition hex_digit :: "char \<Rightarrow> nat option" where
  "hex_digit c =
     (let n = of_char c :: nat in
      if 48 \<le> n \<and> n \<le> 57 then Some (n - 48)
      else if 97 \<le> n \<and> n \<le> 102 then Some (n - 87)
      else if 65 \<le> n \<and> n \<le> 70 then Some (n - 55)
      else None)"

fun query_unescape :: "string \<Rightarrow> string option" where
  "query_unescape [] = Some []"
| "query_unescape (c # s) =
     (if c = CHR ''%'' then
        (case s of
           a # b # r \<Rightarrow> do { x \<leftarrow> hex_digit a; y \<leftarrow> hex_digit b; t \<leftarrow> query_unescape r; Some (char_of (16 * x + y) # t) }
         | _ \<Rightarrow> None)
      else do { t \<leftarrow> query_unescape s; Some ((if c = CHR ''+'' then CHR '' '' else c) # t) })"

text \<open>The error of a match is not read any further than to be reported, so it is one value.\<close>

type_synonym matched = "unit + bool"

abbreviation bad_message :: matched where "bad_message \<equiv> Inl ()"

definition decoded :: "'a option \<Rightarrow> ('a \<Rightarrow> matched) \<Rightarrow> matched" where
  "decoded r f = (case r of None \<Rightarrow> bad_message | Some x \<Rightarrow> f x)"

record s3_record =
  s3_source :: string
  s3_name :: string
  s3_bucket :: string
  s3_key :: string

definition s3_record_of :: "jval \<Rightarrow> s3_record option" where
  "s3_record_of v = do {
     kvs \<leftarrow> j_fields v;
     src \<leftarrow> j_str ''EventSource'' kvs;
     name \<leftarrow> j_str ''EventName'' kvs;
     s3 \<leftarrow> j_sub ''S3'' kvs;
     bucket \<leftarrow> j_in ''Bucket'' ''Name'' s3;
     key \<leftarrow> j_in ''Object'' ''Key'' s3;
     Some \<lparr>s3_source = src, s3_name = name, s3_bucket = bucket, s3_key = key\<rparr> }"

definition s3_record_mutation :: "string \<Rightarrow> bool" where
  "s3_record_mutation name \<longleftrightarrow> has_prefix name ''ObjectCreated:'' \<or> has_prefix name ''ObjectRemoved:'' \<or> name = ''ObjectRestore:Completed''"

fun s3_records :: "sns_config \<Rightarrow> bool \<Rightarrow> s3_record list \<Rightarrow> matched" where
  "s3_records cfg m [] = Inr m"
| "s3_records cfg m (r # rs) =
     (if s3_source r \<noteq> ''aws:s3'' then s3_records cfg m rs
      else if s3_name r = '''' \<or> s3_bucket r = '''' \<or> s3_key r = '''' then bad_message
      else decoded (query_unescape (s3_key r)) (\<lambda>key.
        s3_records cfg (m \<or> s3_record_mutation (s3_name r) \<and> s3_bucket r = sc_bucket cfg \<and> key = sc_key cfg) rs))"

definition is_object_mutation :: "string \<Rightarrow> bool" where
  "is_object_mutation d \<longleftrightarrow>
     d \<in> set [''Object Created'', ''Object Deleted'', ''Object Restore Completed'', ''Object Tags Added'', ''Object Tags Deleted'',
              ''Object ACL Updated'']"

record s3_event =
  se_service :: string
  se_event :: string
  se_source :: string
  se_detail_type :: string
  se_bucket :: string
  se_key :: string
  se_records :: "s3_record list option"

definition s3_event_of :: "jval \<Rightarrow> s3_event option" where
  "s3_event_of v = do {
     kvs \<leftarrow> j_fields v;
     service \<leftarrow> j_str ''Service'' kvs;
     event \<leftarrow> j_str ''Event'' kvs;
     src \<leftarrow> j_str ''source'' kvs;
     dt \<leftarrow> j_str ''detail-type'' kvs;
     detail \<leftarrow> j_sub ''Detail'' kvs;
     bucket \<leftarrow> j_in ''Bucket'' ''Name'' detail;
     key \<leftarrow> j_in ''Object'' ''Key'' detail;
     rs \<leftarrow> j_list (j_field ''Records'' kvs);
     recs \<leftarrow> (case rs of None \<Rightarrow> Some None | Some xs \<Rightarrow> map_option Some (map_option_list s3_record_of xs));
     Some \<lparr>se_service = service, se_event = event, se_source = src, se_detail_type = dt, se_bucket = bucket,
           se_key = key, se_records = recs\<rparr> }"

definition match_s3 :: "sns_config \<Rightarrow> jval \<Rightarrow> matched" where
  "match_s3 cfg v =
     decoded (s3_event_of v) (\<lambda>ev.
       if se_service ev = ''Amazon S3'' \<and> se_event ev = ''s3:TestEvent'' then Inr False
       else if se_source ev = '''' \<and> se_records ev = None then bad_message
       else rbind (s3_records cfg False (case se_records ev of None \<Rightarrow> [] | Some rs \<Rightarrow> rs)) (\<lambda>m.
         if se_source ev = ''aws.s3'' then
           (if se_detail_type ev = '''' \<or> se_bucket ev = '''' \<or> se_key ev = '''' then bad_message
            else Inr (m \<or> is_object_mutation (se_detail_type ev) \<and> se_bucket ev = sc_bucket cfg \<and> se_key ev = sc_key cfg))
         else Inr m))"

definition match_parameter :: "sns_config \<Rightarrow> jval \<Rightarrow> matched" where
  "match_parameter cfg v =
     decoded (do { kvs \<leftarrow> j_fields v; src \<leftarrow> j_str ''source'' kvs; dt \<leftarrow> j_str ''detail-type'' kvs;
                   name \<leftarrow> j_in ''Detail'' ''Name'' kvs; Some (src, dt, name) })
       (\<lambda>(src, dt, name).
          let change = (src = ''aws.ssm'' \<and> dt = ''Parameter Store Change'');
              rt = trim_right_slash (sc_path cfg)
          in if src = '''' \<or> dt = '''' then bad_message
             else if change \<and> name = '''' then bad_message
             else Inr (change \<and> (name = rt \<or> has_prefix name (rt @ ''/''))))"

definition deployment_event :: "string \<Rightarrow> bool" where
  "deployment_event t \<longleftrightarrow> t \<in> set [''OnDeploymentStart'', ''OnDeploymentComplete'', ''OnDeploymentRolledBack'']"

definition match_app_config :: "sns_config \<Rightarrow> jval \<Rightarrow> matched" where
  "match_app_config cfg v =
     decoded (do { kvs \<leftarrow> j_fields v; t \<leftarrow> j_str ''Type'' kvs; app \<leftarrow> j_in ''Application'' ''Id'' kvs;
                   env \<leftarrow> j_in ''Environment'' ''Id'' kvs; prof \<leftarrow> j_in ''ConfigurationProfile'' ''Id'' kvs; Some (t, app, env, prof) })
       (\<lambda>(t, app, env, prof).
          if t = '''' then bad_message
          else if deployment_event t \<and> (app = '''' \<or> env = '''' \<or> prof = '''') then bad_message
          else Inr (deployment_event t \<and> app = sc_application cfg \<and> env = sc_environment cfg \<and> prof = sc_profile cfg))"

text \<open>The value of the notification: the message of an SNS envelope, as text or as a JSON value, or the body itself. A
  key \<open>Message\<close> that is missing leaves an empty payload.\<close>

definition sns_payload :: "(string \<Rightarrow> jval option) \<Rightarrow> (string \<times> jval) list \<Rightarrow> jval option" where
  "sns_payload parse kvs =
     (if list_ex (\<lambda>p. to_lower (fst p) = ''message'') kvs
      then (case j_field ''Message'' kvs of JString s \<Rightarrow> parse s | v \<Rightarrow> Some v)
      else None)"

definition max_body :: nat where "max_body = 2 ^ 20"

definition sns_match :: "(string \<Rightarrow> jval option) \<Rightarrow> sns_config \<Rightarrow> string \<Rightarrow> matched" where
  "sns_match parse cfg body =
     (if max_body < length body then bad_message
      else decoded (do { v \<leftarrow> parse body; kvs \<leftarrow> j_fields v; t \<leftarrow> j_str ''Type'' kvs; topic \<leftarrow> j_str ''TopicArn'' kvs; Some (v, kvs, t, topic) })
        (\<lambda>(v, kvs, t, topic).
           if t = ''Notification'' \<and> sc_topic cfg \<noteq> '''' \<and> topic \<noteq> sc_topic cfg then Inr False
           else decoded (if t = ''Notification'' then sns_payload parse kvs else Some v) (\<lambda>w.
             if w = JNull then bad_message
             else (case sc_source cfg of
                     SourceS3 \<Rightarrow> match_s3 cfg w
                   | SourceParameterStore \<Rightarrow> match_parameter cfg w
                   | SourceAppConfig \<Rightarrow> match_app_config cfg w
                   | SourceOther \<Rightarrow> bad_message))))"

section \<open>Matching for Service Bus and Pub/Sub\<close>

datatype azure_source = AppConfiguration | BlobStorage | AzureOther

record azure_config =
  zc_source :: azure_source
  zc_resource :: string
  zc_prefix :: string
  zc_label :: string
  zc_container :: string
  zc_key :: string
  zc_timeout :: int

record azure_event =
  ze_topic :: string
  ze_type :: string
  ze_key :: string
  ze_label :: string
  ze_api :: string
  ze_url :: string

definition azure_event_of :: "jval \<Rightarrow> azure_event option" where
  "azure_event_of v = do {
     kvs \<leftarrow> j_fields v;
     topic \<leftarrow> j_str ''Topic'' kvs;
     t \<leftarrow> j_str ''EventType'' kvs;
     data \<leftarrow> j_sub ''Data'' kvs;
     key \<leftarrow> j_str ''Key'' data;
     label \<leftarrow> j_str ''Label'' data;
     api \<leftarrow> j_str ''API'' data;
     url \<leftarrow> j_str ''URL'' data;
     Some \<lparr>ze_topic = topic, ze_type = t, ze_key = key, ze_label = label, ze_api = api, ze_url = url\<rparr> }"

record parsed_url =
  pu_scheme :: string
  pu_host :: string
  pu_path :: string

definition azure_event_match :: "(string \<Rightarrow> parsed_url option) \<Rightarrow> azure_config \<Rightarrow> azure_event \<Rightarrow> matched" where
  "azure_event_match urls cfg ev =
     (if ze_type ev = '''' \<or> ze_topic ev = '''' then bad_message
      else if to_lower (ze_topic ev) \<noteq> to_lower (zc_resource cfg) then Inr False
      else (case zc_source cfg of
              AppConfiguration \<Rightarrow>
                if ze_type ev \<in> set [''Microsoft.AppConfiguration.KeyValueModified'', ''Microsoft.AppConfiguration.KeyValueDeleted'']
                then (if ze_key ev = '''' then bad_message
                      else Inr (has_prefix (ze_key ev) (zc_prefix cfg) \<and> ze_label ev = zc_label cfg))
                else Inr False
            | BlobStorage \<Rightarrow>
                if ze_type ev \<notin> set [''Microsoft.Storage.BlobCreated'', ''Microsoft.Storage.BlobDeleted''] then Inr False
                else if ze_api ev \<in> set [''CreateFile'', ''SftpCreate'', ''SftpWrite''] then Inr False
                else (case urls (ze_url ev) of
                        None \<Rightarrow> bad_message
                      | Some u \<Rightarrow>
                          if pu_host u = '''' \<or> pu_scheme u \<notin> set [''https'', ''http''] then bad_message
                          else Inr (pu_path u = ''/'' @ zc_container cfg @ ''/'' @ zc_key cfg))
            | AzureOther \<Rightarrow> Inr False))"

fun azure_events :: "(string \<Rightarrow> parsed_url option) \<Rightarrow> azure_config \<Rightarrow> bool \<Rightarrow> azure_event list \<Rightarrow> matched" where
  "azure_events urls cfg m [] = Inr m"
| "azure_events urls cfg m (e # es) = rbind (azure_event_match urls cfg e) (\<lambda>h. azure_events urls cfg (m \<or> h) es)"

definition azure_match :: "(string \<Rightarrow> jval option) \<Rightarrow> (string \<Rightarrow> parsed_url option) \<Rightarrow> azure_config \<Rightarrow> string \<Rightarrow> matched" where
  "azure_match parse urls cfg body =
     (let trimmed = trim_space body in
      if max_body < length body then bad_message
      else if trimmed = '''' then bad_message
      else decoded
        (do { v \<leftarrow> parse trimmed;
              if hd trimmed = CHR ''[''
              then do { xs \<leftarrow> j_list v; map_option_list azure_event_of (case xs of None \<Rightarrow> [] | Some ys \<Rightarrow> ys) }
              else do { e \<leftarrow> azure_event_of v; Some [e] } })
        (azure_events urls cfg False))"

datatype pubsub_source = GcsSource | SecretManagerSource | PubsubOther

record pubsub_config =
  pc_source :: pubsub_source
  pc_bucket :: string
  pc_key :: string
  pc_secret :: string
  pc_timeout :: int

record pubsub_message =
  pm_data :: string
  pm_attributes :: "(string \<times> string) list"

definition attribute :: "pubsub_message \<Rightarrow> string \<Rightarrow> string" where
  "attribute msg k = (case kv_get (pm_attributes msg) k of None \<Rightarrow> '''' | Some v \<Rightarrow> v)"

definition object_event :: "string \<Rightarrow> bool" where
  "object_event t \<longleftrightarrow> t \<in> set [''OBJECT_FINALIZE'', ''OBJECT_DELETE'', ''OBJECT_ARCHIVE'', ''OBJECT_METADATA_UPDATE'']"

definition secret_event :: "string \<Rightarrow> bool" where
  "secret_event t \<longleftrightarrow>
     t \<in> set [''SECRET_CREATE'', ''SECRET_UPDATE'', ''SECRET_DELETE'', ''SECRET_VERSION_ADD'', ''SECRET_VERSION_ENABLE'',
              ''SECRET_VERSION_DISABLE'', ''SECRET_VERSION_DESTROY'', ''SECRET_VERSION_DESTROY_SCHEDULED'']"

definition pubsub_match :: "pubsub_config \<Rightarrow> pubsub_message \<Rightarrow> matched" where
  "pubsub_match cfg msg =
     (let a = attribute msg; t = a ''eventType'' in
      if max_body < length (pm_data msg) + sum_list (map (\<lambda>(k, v). length k + length v) (pm_attributes msg)) then bad_message
      else if t = '''' then bad_message
      else (case pc_source cfg of
              GcsSource \<Rightarrow>
                if object_event t
                then (if a ''bucketId'' = '''' \<or> a ''objectId'' = '''' then bad_message
                      else Inr (a ''bucketId'' = pc_bucket cfg \<and> a ''objectId'' = pc_key cfg))
                else Inr False
            | SecretManagerSource \<Rightarrow>
                if secret_event t
                then (if a ''secretId'' = '''' then bad_message else Inr (a ''secretId'' = pc_secret cfg))
                else Inr False
            | PubsubOther \<Rightarrow> Inr False))"

section \<open>Handling a message\<close>

text \<open>What a consumer does, in order. \<open>Refresh\<close> records the call for a message and its outcome in the
  world: whether the refresh returned nil, and whether the deadline of its context had not passed when it returned.\<close>

datatype 'm effect = Refresh 'm bool bool | Accept 'm | Reject 'm | Report string | Quit

text \<open>What the calls return while a message is handled: the work context is alive before the refresh, the refresh returns
  nil, the work context is alive after it, the consumer's context is alive afterwards, the settlement succeeds, and the
  message has a lock.\<close>

record handling =
  ha_before :: bool
  ha_refresh :: bool
  ha_in_time :: bool
  ha_alive :: bool
  ha_settled :: bool
  ha_locked :: bool

definition refreshed :: "bool \<Rightarrow> handling \<Rightarrow> matched \<Rightarrow> 'm \<Rightarrow> 'm effect list \<times> bool" where
  "refreshed checks h r m =
     (case r of
        Inl e \<Rightarrow> ([], False)
      | Inr False \<Rightarrow> ([], True)
      | Inr True \<Rightarrow>
          if checks \<and> \<not> ha_before h then ([], False)
          else ([Refresh m (ha_refresh h) (ha_in_time h)], ha_refresh h \<and> ha_in_time h))"

definition sns_handle :: "('m \<Rightarrow> matched) \<Rightarrow> handling \<Rightarrow> 'm \<Rightarrow> 'm effect list" where
  "sns_handle f h m =
     (case refreshed False h (f m) m of (es, ok) \<Rightarrow>
        es @ (if \<not> ok then [Report ''process'']
              else if \<not> ha_alive h then [Quit]
              else Accept m # (if ha_settled h then [] else [Report ''acknowledge''])))"

definition azure_handle :: "('m \<Rightarrow> matched) \<Rightarrow> handling \<Rightarrow> 'm \<Rightarrow> 'm effect list" where
  "azure_handle f h m =
     (if \<not> ha_locked h then [Quit]
      else (case refreshed True h (f m) m of (es, ok) \<Rightarrow>
        es @ (if \<not> ha_alive h then [Quit]
              else (if ok then [Accept m] else [Report ''process'', Reject m]) @
                   (if ha_settled h then [] else [Report ''settle'']))))"

definition pubsub_handle :: "('m \<Rightarrow> matched) \<Rightarrow> handling \<Rightarrow> 'm \<Rightarrow> 'm effect list" where
  "pubsub_handle f h m =
     (case refreshed True h (f m) m of (es, ok) \<Rightarrow>
        es @ (if ok \<and> ha_alive h then [Accept m] else [Report ''process'', Reject m]))"

text \<open>A run over the messages received, each with what happens meanwhile; a consumer that quits reads no more.\<close>

fun consume :: "(handling \<Rightarrow> 'm \<Rightarrow> 'm effect list) \<Rightarrow> (handling \<times> 'm) list \<Rightarrow> 'm effect list" where
  "consume handle [] = []"
| "consume handle ((h, m) # ms) = (let es = handle h m in if Quit \<in> set es then es else es @ consume handle ms)"

text \<open>What a consumer promises: a message is accepted only when it decodes, and a matching one only after a refresh for it
  that succeeded; every message leaves a trace, and none is both accepted and rejected.\<close>

locale refresh_before_ack =
  fixes f :: "'m \<Rightarrow> matched" and handle :: "handling \<Rightarrow> 'm \<Rightarrow> 'm effect list"
  assumes accepted: "handle h m = before @ Accept m' # after \<Longrightarrow> m' = m \<and> (f m = Inr False \<or> f m = Inr True \<and> (\<exists>xs. before = xs @ [Refresh m True True]))"
    and settled: "Quit \<in> set (handle h m) \<or> Accept m \<in> set (handle h m) \<or> Report ''process'' \<in> set (handle h m)"
    and never_both: "Accept m \<in> set (handle h m) \<Longrightarrow> Reject m \<notin> set (handle h m) \<and> Report ''process'' \<notin> set (handle h m)"
begin

lemma accepted_in: "Accept m' \<in> set (handle h m) \<Longrightarrow> m' = m"
  by (metis accepted split_list)

lemma consumed_accepted:
  "consume handle ms = before @ Accept m # after \<Longrightarrow> f m = Inr False \<or> f m = Inr True \<and> (\<exists>xs. before = xs @ [Refresh m True True])"
proof (induction ms arbitrary: before)
  case (Cons p ms)
  obtain h n where p: "p = (h, n)" by (cases p)
  let ?es = "handle h n"
  show ?case
  proof (cases "Quit \<in> set ?es")
    case True
    then show ?thesis using accepted [of h n before m after] Cons.prems p by (auto simp: Let_def)
  next
    case False
    then have eq: "?es @ consume handle ms = before @ Accept m # after" using Cons.prems p by (simp add: Let_def)
    then obtain us where "?es = before @ us \<and> us @ consume handle ms = Accept m # after \<or> ?es @ us = before \<and> consume handle ms = us @ Accept m # after"
      by (auto simp: append_eq_append_conv2)
    then show ?thesis
    proof (elim disjE conjE)
      assume us: "?es = before @ us" "us @ consume handle ms = Accept m # after"
      show ?thesis
      proof (cases us)
        case Nil
        then show ?thesis using us Cons.IH [of "[]"] by auto
      next
        case (Cons e es)
        then show ?thesis using us accepted [of h n before m es] by auto
      qed
    next
      assume "?es @ us = before" "consume handle ms = us @ Accept m # after"
      then show ?thesis using Cons.IH [of us] by auto
    qed
  qed
qed simp

lemma consumed_settled:
  "Quit \<notin> set (consume handle ms) \<Longrightarrow> (h, m) \<in> set ms \<Longrightarrow> Accept m \<in> set (consume handle ms) \<or> Report ''process'' \<in> set (consume handle ms)"
proof (induction ms)
  case (Cons p ms)
  obtain h' n where p: "p = (h', n)" by (cases p)
  then have nq: "Quit \<notin> set (handle h' n)" "Quit \<notin> set (consume handle ms)" using Cons.prems(1) by (auto simp: Let_def split: if_splits)
  then show ?case using Cons p settled [of h' n] by (auto simp: Let_def)
qed simp

end

text \<open>Every outcome of one message.\<close>

lemma refreshed_cases:
  "refreshed c h r m \<in> {([], False), ([Refresh m False True], False), ([Refresh m True False], False), ([Refresh m False False], False)} \<or>
   refreshed c h r m = ([], True) \<and> r = Inr False \<or> refreshed c h r m = ([Refresh m True True], True) \<and> r = Inr True"
proof (cases r)
  case (Inr b)
  then show ?thesis by (cases b) (auto simp: refreshed_def Let_def)
qed (simp add: refreshed_def)

lemma sns_trace:
  "let es = sns_handle f h m in
   (es = before @ Accept m' # after \<longrightarrow> m' = m \<and> (f m = Inr False \<or> f m = Inr True \<and> (\<exists>xs. before = xs @ [Refresh m True True]))) \<and>
   (Quit \<in> set es \<or> Accept m \<in> set es \<or> Report ''process'' \<in> set es) \<and>
   (Accept m \<in> set es \<longrightarrow> Reject m \<notin> set es \<and> Report ''process'' \<notin> set es)"
  using refreshed_cases [of False h "f m" m]
  by (cases "ha_alive h"; cases "ha_settled h") (auto simp: sns_handle_def Let_def Cons_eq_append_conv)

interpretation sns: refresh_before_ack f "sns_handle f" for f
  using sns_trace [of f] by unfold_locales (simp_all add: Let_def)

lemma azure_trace:
  "let es = azure_handle f h m in
   (es = before @ Accept m' # after \<longrightarrow> m' = m \<and> (f m = Inr False \<or> f m = Inr True \<and> (\<exists>xs. before = xs @ [Refresh m True True]))) \<and>
   (Quit \<in> set es \<or> Accept m \<in> set es \<or> Report ''process'' \<in> set es) \<and>
   (Accept m \<in> set es \<longrightarrow> Reject m \<notin> set es \<and> Report ''process'' \<notin> set es)"
  using refreshed_cases [of True h "f m" m]
  by (cases "ha_locked h"; cases "ha_alive h"; cases "ha_settled h") (auto simp: azure_handle_def Let_def Cons_eq_append_conv)

interpretation azure: refresh_before_ack f "azure_handle f" for f
  using azure_trace [of f] by unfold_locales (simp_all add: Let_def)

lemma pubsub_trace:
  "let es = pubsub_handle f h m in
   (es = before @ Accept m' # after \<longrightarrow> m' = m \<and> (f m = Inr False \<or> f m = Inr True \<and> (\<exists>xs. before = xs @ [Refresh m True True]))) \<and>
   (Quit \<in> set es \<or> Accept m \<in> set es \<or> Report ''process'' \<in> set es) \<and>
   (Accept m \<in> set es \<longrightarrow> Reject m \<notin> set es \<and> Report ''process'' \<notin> set es)"
  using refreshed_cases [of True h "f m" m]
  by (cases "ha_alive h") (auto simp: pubsub_handle_def Let_def Cons_eq_append_conv)

interpretation pubsub: refresh_before_ack f "pubsub_handle f" for f
  using pubsub_trace [of f] by unfold_locales (simp_all add: Let_def)

section \<open>Construction\<close>

definition second :: int where "second = 10 ^ 9"

text \<open>\<open>client\<close>: whether one was given.\<close>

definition new_sns :: "sns_config \<Rightarrow> bool \<Rightarrow> string + sns_config" where
  "new_sns cfg client =
     (if \<not> client \<or> sc_queue cfg = '''' then Inl ''client and queue URL are required''
      else if \<not> validate_source cfg then Inl ''source and its resource identifiers are required''
      else let t = (if sc_timeout cfg = 0 then 30 * second else sc_timeout cfg) in
        if t < 0 \<or> 12 * 3600 * second - 10 * second < t then Inl ''refresh timeout must be positive and below 12h minus 10s''
        else Inr (cfg\<lparr>sc_timeout := t\<rparr>))"

definition ack_timeout :: int where "ack_timeout = 5 * second"

text \<open>The visibility timeout \<open>Run\<close> asks for, an \<open>int32\<close> of seconds.\<close>

definition visibility :: "sns_config \<Rightarrow> 32 word" where
  "visibility cfg = word_of_int ((sc_timeout cfg + second - 1) div second) + 10"

definition new_azure :: "azure_config \<Rightarrow> bool \<Rightarrow> string + azure_config" where
  "new_azure cfg receiver =
     (if \<not> receiver \<or> zc_resource cfg = '''' then Inl ''receiver and resource ID are required''
      else if zc_source cfg = BlobStorage \<and> (zc_container cfg = '''' \<or> zc_key cfg = '''') then Inl ''container and key are required''
      else if zc_source cfg = AzureOther then Inl ''unsupported source''
      else let t = (if zc_timeout cfg = 0 then 30 * second else zc_timeout cfg) in
        if t < 0 then Inl ''refresh timeout must be positive'' else Inr (cfg\<lparr>zc_timeout := t\<rparr>))"

definition secret_part_ok :: "string \<Rightarrow> bool" where
  "secret_part_ok p \<longleftrightarrow> p \<noteq> '''' \<and> p \<noteq> ''.'' \<and> p \<noteq> ''..'' \<and> CHR ''?'' \<notin> set p \<and> CHR ''#'' \<notin> set p"

definition secret_resource :: "string \<Rightarrow> bool" where
  "secret_resource s \<longleftrightarrow>
     (let ps = split_char (CHR ''/'') s in
      list_all secret_part_ok ps \<and>
      (length ps = 4 \<and> ps ! 0 = ''projects'' \<and> ps ! 2 = ''secrets'' \<or>
       length ps = 6 \<and> ps ! 0 = ''projects'' \<and> ps ! 2 = ''locations'' \<and> ps ! 4 = ''secrets''))"

definition new_pubsub :: "pubsub_config \<Rightarrow> bool \<Rightarrow> string + pubsub_config" where
  "new_pubsub cfg subscriber =
     (if \<not> subscriber then Inl ''subscriber is required''
      else if pc_source cfg = GcsSource \<and> (pc_bucket cfg = '''' \<or> pc_key cfg = '''') then Inl ''bucket and key are required''
      else if pc_source cfg = SecretManagerSource \<and> \<not> secret_resource (pc_secret cfg)
      then Inl ''full secret resource without /versions is required''
      else if pc_source cfg = PubsubOther then Inl ''unsupported source''
      else let t = (if pc_timeout cfg = 0 then 30 * second else pc_timeout cfg) in
        if t < 0 then Inl ''refresh timeout must be positive'' else Inr (cfg\<lparr>pc_timeout := t\<rparr>))"

section \<open>The S3 event provider\<close>

record s3events_config =
  qc_name :: string
  qc_queue :: string
  qc_bucket :: string
  qc_prefix :: string
  qc_max :: int
  qc_wait :: int
  qc_priority :: int

definition new_s3events :: "s3events_config \<Rightarrow> bool \<Rightarrow> string + s3events_config" where
  "new_s3events cfg client =
     (if \<not> client then Inl ''client is required''
      else if qc_queue cfg = '''' then Inl ''queue url is required''
      else if qc_bucket cfg = '''' then Inl ''bucket is required''
      else Inr (cfg\<lparr>
        qc_name := (if qc_name cfg = ''''
          then ''s3events:'' @ qc_bucket cfg @ (if qc_prefix cfg \<noteq> '''' then ''/'' @ qc_prefix cfg else '''') else qc_name cfg),
        qc_max := (if qc_max cfg \<le> 0 \<or> 10 < qc_max cfg then 10 else qc_max cfg),
        qc_wait := (if qc_wait cfg \<le> 0 \<or> 20 < qc_wait cfg then 20 else qc_wait cfg),
        qc_priority := (if qc_priority cfg = 0 then 30 else qc_priority cfg)\<rparr>))"

record reload_event =
  rl_source :: string
  rl_reason :: string
  rl_revision :: string
  rl_gap :: bool

definition s3_envelope :: "jval \<Rightarrow> (string \<times> string \<times> string \<times> string \<times> string) option" where
  "s3_envelope v = do {
     kvs \<leftarrow> j_fields v;
     src \<leftarrow> j_str ''source'' kvs;
     dt \<leftarrow> j_str ''detail-type'' kvs;
     time \<leftarrow> j_str ''time'' kvs;
     detail \<leftarrow> j_sub ''detail'' kvs;
     bucket \<leftarrow> j_in ''bucket'' ''name'' detail;
     obj \<leftarrow> j_sub ''object'' detail;
     key \<leftarrow> j_str ''key'' obj;
     etag \<leftarrow> j_str ''etag'' obj;
     Some (src, dt, bucket, key, etag) }"

definition decode_and_match :: "(string \<Rightarrow> jval option) \<Rightarrow> s3events_config \<Rightarrow> string \<Rightarrow> reload_event option" where
  "decode_and_match parse p body =
     (if body = '''' then None
      else case Option.bind (parse body) s3_envelope of
             None \<Rightarrow> None
           | Some (src, dt, bucket, key, etag) \<Rightarrow>
               if src = ''aws.s3'' \<and> is_object_mutation dt \<and> bucket = qc_bucket p \<and> has_prefix key (qc_prefix p)
               then Some \<lparr>rl_source = qc_name p, rl_reason = ''s3:'' @ dt @ '':'' @ key, rl_revision = etag, rl_gap = False\<rparr>
               else None)"

text \<open>The loop of \<open>poll\<close>: the channel takes \<open>n\<close> more events before the context ends. The messages to acknowledge are \<open>None\<close>
  when it ended.\<close>

fun deliver :: "(string \<Rightarrow> reload_event option) \<Rightarrow> bool \<Rightarrow> nat \<Rightarrow> string list \<Rightarrow> reload_event list \<times> string list option \<times> bool" where
  "deliver f gap n [] = ([], Some [], gap)"
| "deliver f gap n (m # ms) =
     (case f m of
        None \<Rightarrow> deliver f gap n ms
      | Some ev \<Rightarrow>
          (case n of
             0 \<Rightarrow> ([], None, gap)
           | Suc k \<Rightarrow> (case deliver f False k ms of
               (evs, acks, g) \<Rightarrow> (ev\<lparr>rl_gap := gap\<rparr> # evs, map_option (Cons m) acks, g))))"

record poll_state =
  pl_gap :: bool
  pl_failing :: bool

definition poll_start :: "string \<Rightarrow> poll_state" where
  "poll_start from = \<lparr>pl_gap = (from \<noteq> ''''), pl_failing = False\<rparr>"

text \<open>One cycle: the events sent, the messages deleted, and whether it warned. \<open>resp\<close> is \<open>None\<close> when receiving failed, with
  the context still alive as \<open>alive\<close> says.\<close>

definition poll ::
  "(string \<Rightarrow> reload_event option) \<Rightarrow> string list option \<Rightarrow> bool \<Rightarrow> nat \<Rightarrow> poll_state \<Rightarrow>
   reload_event list \<times> string list \<times> bool \<times> poll_state" where
  "poll f resp alive n s =
     (case resp of
        None \<Rightarrow> ([], [], alive \<and> \<not> pl_failing s, s\<lparr>pl_failing := pl_failing s \<or> alive\<rparr>)
      | Some ms \<Rightarrow>
          (case deliver f (pl_gap s) n ms of
             (evs, acks, g) \<Rightarrow> (evs, (case acks of None \<Rightarrow> [] | Some as \<Rightarrow> as), False, \<lparr>pl_gap = g, pl_failing = False\<rparr>)))"

lemma deliver_acks:
  "deliver f gap n ms = (evs, acks, g) \<Longrightarrow>
   (\<forall>as. acks = Some as \<longrightarrow> as = filter (\<lambda>m. f m \<noteq> None) ms \<and> length evs = length as) \<and>
   map rl_gap evs = (case evs of [] \<Rightarrow> [] | e # es \<Rightarrow> gap # replicate (length es) False) \<and> (g \<longleftrightarrow> gap \<and> evs = [])"
proof (induction f gap n ms arbitrary: evs acks g rule: deliver.induct)
  case (2 f gap n m ms)
  show ?case
  proof (cases "f m")
    case None
    then show ?thesis using 2 by simp
  next
    case (Some ev)
    show ?thesis
    proof (cases n)
      case 0
      then show ?thesis using 2(3) Some by auto
    next
      case (Suc k)
      obtain es as g' where d: "deliver f False k ms = (es, as, g')" by (cases "deliver f False k ms")
      note IH = "2.IH"(2) [OF Some Suc d]
      have all: "map rl_gap es = replicate (length es) False" using IH by (cases es) simp_all
      have eq: "evs = ev\<lparr>rl_gap := gap\<rparr> # es" "acks = map_option (Cons m) as" "g = g'"
        using "2.prems" Some Suc d by simp_all
      have "\<not> g'" using IH by blast
      then show ?thesis using IH all Some by (cases as) (simp_all add: eq)
    qed
  qed
qed simp

section \<open>Properties\<close>

text \<open>C15. A notification is acknowledged only after the configuration was refreshed for it: in every run of the SQS, Service
  Bus and Pub/Sub consumers, whatever fails in between, an accepted message decoded, and either concerns another
  resource or directly follows a refresh for it that returned nil before its deadline passed; and while a consumer runs,
  every message received is accepted or reported.\<close>

theorem acknowledged_after_refresh:
  assumes "handle \<in> {sns_handle f, azure_handle f, pubsub_handle f}"
  shows "(consume handle ms = before @ Accept m # after \<longrightarrow> f m = Inr False \<or> f m = Inr True \<and> (\<exists>xs. before = xs @ [Refresh m True True])) \<and>
    (Quit \<notin> set (consume handle ms) \<and> (h, m) \<in> set ms \<longrightarrow>
       Accept m \<in> set (consume handle ms) \<or> Report ''process'' \<in> set (consume handle ms))"
proof -
  consider "handle = sns_handle f" | "handle = azure_handle f" | "handle = pubsub_handle f" using assms by blast
  then show ?thesis
  proof cases
    case 1
    then show ?thesis using sns.consumed_accepted [of f ms before m after] sns.consumed_settled [of f ms h m] by auto
  next
    case 2
    then show ?thesis using azure.consumed_accepted [of f ms before m after] azure.consumed_settled [of f ms h m] by auto
  next
    case 3
    then show ?thesis using pubsub.consumed_accepted [of f ms before m after] pubsub.consumed_settled [of f ms h m] by auto
  qed
qed

theorem acknowledged_after_refresh_witness:
  "consume (pubsub_handle (\<lambda>m. Inr (m = (1::nat))))
     [(\<lparr>ha_before = True, ha_refresh = False, ha_in_time = True, ha_alive = True, ha_settled = True, ha_locked = True\<rparr>, 1),
      (\<lparr>ha_before = True, ha_refresh = True, ha_in_time = True, ha_alive = True, ha_settled = True, ha_locked = True\<rparr>, 1)] =
    [Refresh 1 False True, Report ''process'', Reject 1, Refresh 1 True True, Accept 1] \<and>
   (\<exists>xs. [Refresh 1 False True, Report ''process'', Reject 1, Refresh 1 True True] = xs @ [Refresh (1::nat) True True])"
proof -
  let ?f = "\<lambda>m. Inr (m = (1::nat)) :: matched"
  let ?h = "\<lambda>ok. \<lparr>ha_before = True, ha_refresh = ok, ha_in_time = True, ha_alive = True, ha_settled = True, ha_locked = True\<rparr>"
  have run: "consume (pubsub_handle ?f) [(?h False, 1), (?h True, 1)] =
      [Refresh 1 False True, Report ''process'', Reject 1, Refresh 1 True True] @ Accept 1 # []"
    by (simp add: pubsub_handle_def refreshed_def)
  then show ?thesis
    using acknowledged_after_refresh [of "pubsub_handle ?f" ?f "[(?h False, 1), (?h True, 1)]"
        "[Refresh 1 False True, Report ''process'', Reject 1, Refresh 1 True True]" 1 "[]"] by simp
qed

text \<open>A message stays invisible to other consumers for as long as its refresh and its acknowledgement may take, with five
  seconds to spare, and never longer than the 12 hours SQS allows: the 32-bit count of seconds does not wrap for any
  timeout \<open>New\<close> accepts.\<close>

theorem visibility_covers:
  assumes "new_sns cfg client = Inr cfg'"
  shows "sc_timeout cfg' + ack_timeout + 5 * second \<le> sint (visibility cfg') * second \<and>
    sint (visibility cfg') \<le> 12 * 3600 \<and> 0 \<le> sc_timeout cfg'"
proof -
  let ?t = "sc_timeout cfg'"
  have t: "0 \<le> ?t" "?t \<le> 12 * 3600 * second - 10 * second"
    using assms by (auto simp: new_sns_def Let_def second_def split: if_splits)
  let ?n = "(?t + second - 1) div second"
  have n: "0 \<le> ?n" "?n \<le> 43190" using t by (simp_all add: second_def)
  have up: "?t \<le> ?n * second" by (simp add: second_def)
  have "visibility cfg' = word_of_int (?n + 10)" by (simp add: visibility_def)
  then have "sint (visibility cfg') = signed_take_bit 31 (?n + 10)" by (simp only: sint_sbintrunc' ) simp
  also have "\<dots> = ?n + 10" using n by (intro signed_take_bit_int_eq_self) auto
  finally have "sint (visibility cfg') = ?n + 10" .
  then show ?thesis using n up t by (simp add: ack_timeout_def second_def)
qed

definition sns_example :: sns_config where
  "sns_example = \<lparr>sc_queue = ''q'', sc_topic = '''', sc_source = SourceS3, sc_bucket = ''conf'', sc_key = ''a b/c+d.yaml'',
     sc_application = '''', sc_environment = '''', sc_profile = '''', sc_path = '''', sc_timeout = 0\<rparr>"

theorem visibility_covers_witness: "sint (visibility (sns_example\<lparr>sc_timeout := 30 * second\<rparr>)) * second \<ge> 40 * second"
  using visibility_covers [of sns_example True "sns_example\<lparr>sc_timeout := 30 * second\<rparr>"]
  by (simp add: new_sns_def sns_example_def validate_source_def ack_timeout_def second_def)

text \<open>How S3 spells a key in a native notification.\<close>

definition hex_char :: "nat \<Rightarrow> char" where
  "hex_char n = (if n < 10 then char_of (48 + n) else char_of (55 + n))"

definition plain_byte :: "char \<Rightarrow> bool" where
  "plain_byte c \<longleftrightarrow> is_lower c \<or> is_upper c \<or> is_digit c \<or> c \<in> set ''-_.~/''"

definition escape_key :: "string \<Rightarrow> string" where
  "escape_key k =
     concat (map (\<lambda>c. if c = CHR '' '' then ''+'' else if plain_byte c then [c]
                      else [CHR ''%'', hex_char (of_char c div 16), hex_char (of_char c mod 16)]) k)"

lemma hex_digit_char: "n < 16 \<Longrightarrow> hex_digit (hex_char n) = Some n"
  by (auto simp: hex_digit_def hex_char_def Let_def)

lemma unescape_key: "query_unescape (escape_key k) = Some k"
proof (induction k)
  case (Cons c k)
  have "(of_char c :: nat) < 16 * 16" by simp
  then have "(of_char c :: nat) div 16 < 16" by (rule less_mult_imp_div_less)
  then have hex: "hex_digit (hex_char (of_char c div 16)) = Some (of_char c div 16)" "hex_digit (hex_char (of_char c mod 16)) = Some (of_char c mod 16)"
    by (simp_all add: hex_digit_char)
  have plain: "plain_byte c \<Longrightarrow> c \<noteq> CHR ''%'' \<and> c \<noteq> CHR ''+''" by (auto simp: plain_byte_def ascii_defs)
  show ?case using Cons hex plain by (auto simp: escape_key_def)
qed (simp add: escape_key_def)

definition native_record :: "string \<Rightarrow> string \<Rightarrow> string \<Rightarrow> jval" where
  "native_record ev b k =
     JObject [(''eventSource'', JString ''aws:s3''), (''eventName'', JString ev),
       (''s3'', JObject [(''bucket'', JObject [(''name'', JString b)]), (''object'', JObject [(''key'', JString (escape_key k))])])]"

lemma folded_names:
  "to_lower ''EventSource'' = ''eventsource''" "to_lower ''eventSource'' = ''eventsource''" "to_lower ''EventName'' = ''eventname''"
  "to_lower ''eventName'' = ''eventname''" "to_lower ''S3'' = ''s3''" "to_lower ''s3'' = ''s3''" "to_lower ''Bucket'' = ''bucket''"
  "to_lower ''bucket'' = ''bucket''" "to_lower ''Name'' = ''name''" "to_lower ''name'' = ''name''" "to_lower ''Object'' = ''object''"
  "to_lower ''object'' = ''object''" "to_lower ''Key'' = ''key''" "to_lower ''key'' = ''key''" "to_lower ''Records'' = ''records''"
  "to_lower ''Service'' = ''service''" "to_lower ''Event'' = ''event''" "to_lower ''source'' = ''source''"
  "to_lower ''detail-type'' = ''detail-type''" "to_lower ''Detail'' = ''detail''" "to_lower ''Type'' = ''type''"
  "to_lower ''TopicArn'' = ''topicarn''"
  by code_simp+

lemma native_record_of:
  "s3_record_of (native_record ev b k) = Some \<lparr>s3_source = ''aws:s3'', s3_name = ev, s3_bucket = b, s3_key = escape_key k\<rparr>"
  by (simp add: s3_record_of_def native_record_def j_str_def j_sub_def j_in_def j_field_def j_occurrences_def folded_names)

lemma escape_key_empty: "escape_key k = '''' \<longleftrightarrow> k = ''''"
  by (cases k) (auto simp: escape_key_def)

text \<open>A native S3 notification is recognised whatever bytes the key has: blanks, plus signs, percent signs and non-ASCII
  bytes in a key come back from their URL encoding, so a record matches exactly when it changes the configured object.\<close>

theorem native_s3_matched:
  assumes "parse body = Some (JObject [(''Records'', JArray [native_record ev b k])])" and "length body \<le> max_body"
    and "sc_source cfg = SourceS3" and "ev \<noteq> ''''" and "b \<noteq> ''''" and "k \<noteq> ''''"
  shows "sns_match parse cfg body = Inr (s3_record_mutation ev \<and> b = sc_bucket cfg \<and> k = sc_key cfg)"
proof -
  let ?v = "JObject [(''Records'', JArray [native_record ev b k])]"
  have ev: "s3_event_of ?v = Some \<lparr>se_service = '''', se_event = '''', se_source = '''', se_detail_type = '''', se_bucket = '''',
      se_key = '''', se_records = Some [\<lparr>s3_source = ''aws:s3'', s3_name = ev, s3_bucket = b, s3_key = escape_key k\<rparr>]\<rparr>"
    by (simp add: s3_event_of_def j_str_def j_sub_def j_in_def j_field_def j_occurrences_def folded_names native_record_of)
  have "match_s3 cfg ?v = Inr (s3_record_mutation ev \<and> b = sc_bucket cfg \<and> k = sc_key cfg)"
    using assms(4-6) by (simp add: match_s3_def ev decoded_def unescape_key escape_key_empty)
  then show ?thesis
    using assms(1-3) by (simp add: sns_match_def decoded_def j_str_def j_occurrences_def folded_names)
qed

theorem native_s3_matched_witness:
  "sns_match (\<lambda>_. Some (JObject [(''Records'', JArray [native_record ''ObjectCreated:Put'' ''conf'' ''a b/c+d.yaml''])])) sns_example ''{}'' =
    Inr True"
  using native_s3_matched [of "\<lambda>_. Some (JObject [(''Records'', JArray [native_record ''ObjectCreated:Put'' ''conf'' ''a b/c+d.yaml''])])"
      "''{}''" "''ObjectCreated:Put''" "''conf''" "''a b/c+d.yaml''" sns_example]
  by (simp add: sns_example_def max_body_def s3_record_mutation_def has_prefix_def)

text \<open>A poll of the S3 queue deletes messages only after every matching message of the batch became an event, and then
  exactly those; the events of a batch that stopped early stay in the queue. Only the first event after a subscription that
  could not resume reports a gap, and of the polls that fail in a row one warns.\<close>

theorem poll_delivers:
  assumes "poll f resp alive n s = (evs, acks, warned, s')"
  shows "(acks \<noteq> [] \<longrightarrow> (\<exists>ms. resp = Some ms \<and> acks = filter (\<lambda>m. f m \<noteq> None) ms \<and> length evs = length acks)) \<and>
    map rl_gap evs = (case evs of [] \<Rightarrow> [] | e # es \<Rightarrow> pl_gap s # replicate (length es) False) \<and>
    (pl_gap s' \<longleftrightarrow> pl_gap s \<and> evs = []) \<and> (warned \<longrightarrow> \<not> pl_failing s \<and> pl_failing s' \<and> resp = None)"
proof (cases resp)
  case None
  then show ?thesis using assms by (auto simp: poll_def)
next
  case (Some ms)
  obtain es as g where d: "deliver f (pl_gap s) n ms = (es, as, g)" by (cases "deliver f (pl_gap s) n ms")
  have eq: "evs = es" "acks = (case as of None \<Rightarrow> [] | Some xs \<Rightarrow> xs)" "\<not> warned" "pl_gap s' = g"
    using assms Some d by (auto simp: poll_def)
  show ?thesis using deliver_acks [OF d] Some by (cases as) (simp_all add: eq)
qed

text \<open>Two matching messages around a foreign one: both are delivered and deleted; with room for one event none is deleted.\<close>

definition event_example :: "string \<Rightarrow> reload_event option" where
  "event_example m = (if m = ''x'' then None else Some \<lparr>rl_source = ''s3'', rl_reason = m, rl_revision = '''', rl_gap = False\<rparr>)"

theorem poll_delivers_witness:
  "(case poll event_example (Some [''a'', ''x'', ''b'']) True 5 (poll_start ''v1'') of
      (evs, acks, warned, s') \<Rightarrow> map rl_gap evs = [True, False] \<and> acks = [''a'', ''b''] \<and> \<not> warned) \<and>
   (case poll event_example (Some [''a'', ''x'', ''b'']) True 1 (poll_start ''v1'') of
      (evs, acks, warned, s') \<Rightarrow> map rl_gap evs = [True] \<and> acks = [])"
  using poll_delivers [of event_example "Some [''a'', ''x'', ''b'']" True 5 "poll_start ''v1''"]
    poll_delivers [of event_example "Some [''a'', ''x'', ''b'']" True 1 "poll_start ''v1''"]
  by (simp add: poll_def poll_start_def event_example_def numeral_nat)

end
