(* ===== verification/Polling.thy ===== *)
theory Polling
  imports Envs Scan
begin

text \<open>
  What a polling provider promises the reload loop, as the locale \<open>change_signal\<close>, and \<open>providers/http\<close>, which polls an
  URL with conditional requests. The network is an argument: a server answers a request's headers. SHA-256 and the
  decoders are arguments too.
\<close>

section \<open>No change is lost\<close>

text \<open>What happens to a provider: a poll that read the value \<open>v\<close>, a signal for \<open>v\<close> that found no room in the channel, and
  the two halves of a load, of which the second comes only after a successful read.\<close>

datatype 'v change = Poll 'v | NoRoom 'v | BeginLoad | EndLoad 'v

fun observe ::
  "('v \<Rightarrow> 's \<Rightarrow> bool \<times> 's) \<Rightarrow> ('v \<Rightarrow> 's \<Rightarrow> 's) \<Rightarrow> ('s \<Rightarrow> 's) \<Rightarrow> ('v \<Rightarrow> 's \<Rightarrow> 's) \<Rightarrow> 'v change \<Rightarrow> 's \<Rightarrow> bool \<times> 's" where
  "observe poll drop_signal begin_load end_load (Poll v) s = poll v s"
| "observe poll drop_signal begin_load end_load (NoRoom v) s = (False, drop_signal v s)"
| "observe poll drop_signal begin_load end_load BeginLoad s = (False, begin_load s)"
| "observe poll drop_signal begin_load end_load (EndLoad v) s = (False, end_load v s)"

text \<open>A run keeps what happened, newest first, with whether it signalled.\<close>

fun chronicle :: "('c \<Rightarrow> 's \<Rightarrow> bool \<times> 's) \<Rightarrow> ('c \<times> bool) list \<Rightarrow> 's \<Rightarrow> 'c list \<Rightarrow> ('c \<times> bool) list \<times> 's" where
  "chronicle f seen s [] = (seen, s)"
| "chronicle f seen s (c # cs) = (case f c s of (b, s') \<Rightarrow> chronicle f ((c, b) # seen) s' cs)"

text \<open>\<open>v\<close> was signalled, and neither did a load begin since nor was the signal dropped.\<close>

definition outstanding :: "'v \<Rightarrow> ('v change \<times> bool) list \<Rightarrow> bool" where
  "outstanding v seen \<longleftrightarrow> (Poll v, True) \<in> set (takeWhile (\<lambda>e. fst e \<notin> {BeginLoad, NoRoom v}) seen)"

text \<open>The law of a provider: a poll stays quiet about a value only if that value is the accepted one or was announced, and
  polls accept nothing. \<open>ready\<close> says which values the poll can compare in a state.\<close>

locale change_signal =
  fixes live :: "'s \<Rightarrow> bool"
    and ready :: "'v \<Rightarrow> 's \<Rightarrow> bool"
    and accepted :: "'v \<Rightarrow> 's \<Rightarrow> bool"
    and announced :: "'v \<Rightarrow> 's \<Rightarrow> bool"
    and poll :: "'v \<Rightarrow> 's \<Rightarrow> bool \<times> 's"
    and drop_signal :: "'v \<Rightarrow> 's \<Rightarrow> 's"
    and begin_load :: "'s \<Rightarrow> 's"
    and end_load :: "'v \<Rightarrow> 's \<Rightarrow> 's"
  assumes quiet: "live s \<Longrightarrow> ready v s \<Longrightarrow> poll v s = (False, s') \<Longrightarrow> accepted v s \<or> announced v s"
    and live_keeps: "live s \<Longrightarrow> live (snd (poll v s)) \<and> live (drop_signal v s) \<and> live (begin_load s) \<and> live (end_load v s)"
    and poll_announces: "announced w (snd (poll v s)) \<Longrightarrow> announced w s \<or> w = v \<and> fst (poll v s)"
    and drop_announces: "announced w (drop_signal v s) \<Longrightarrow> announced w s \<and> w \<noteq> v"
    and begin_announces: "\<not> announced w (begin_load s)"
    and end_announces: "announced w (end_load v s) \<Longrightarrow> announced w s"
begin

lemma outstanding_step:
  assumes "announced w s \<Longrightarrow> outstanding w seen" and "observe poll drop_signal begin_load end_load c s = (b, s')"
    and "announced w s'"
  shows "outstanding w ((c, b) # seen)"
proof (cases c)
  case (Poll v)
  then show ?thesis using assms poll_announces [of w v s] by (auto simp: outstanding_def)
next
  case (NoRoom v)
  then show ?thesis using assms drop_announces [of w v s] by (auto simp: outstanding_def)
next
  case BeginLoad
  then show ?thesis using assms begin_announces [of w s] by auto
next
  case (EndLoad v)
  then show ?thesis using assms end_announces [of w v s] by (auto simp: outstanding_def)
qed

lemma live_step:
  assumes "live s" and "observe poll drop_signal begin_load end_load c s = (b, s')"
  shows "live s'"
proof (cases c)
  case (Poll v)
  then show ?thesis using assms live_keeps [of s v] by simp
qed (use assms live_keeps in auto)

lemma chronicle_outstanding:
  assumes "chronicle (observe poll drop_signal begin_load end_load) seen s cs = (seen', s')"
    and "live s" and "\<And>w. announced w s \<Longrightarrow> outstanding w seen"
  shows "live s' \<and> (announced w s' \<longrightarrow> outstanding w seen')"
  using assms
proof (induction cs arbitrary: seen s)
  case (Cons c cs)
  obtain b t where c: "observe poll drop_signal begin_load end_load c s = (b, t)" by fastforce
  then show ?case
    using Cons.IH [of "(c, b) # seen" t] Cons.prems live_step [OF Cons.prems(2) c] outstanding_step [OF Cons.prems(3) c] by simp
qed simp

text \<open>After any run, a poll that does not signal has read the accepted value, or one whose signal is outstanding.\<close>

lemma no_change_lost:
  assumes "chronicle (observe poll drop_signal begin_load end_load) [] s cs = (seen, s')"
    and "live s" and "\<And>w. \<not> announced w s" and "ready v s'" and "\<not> fst (poll v s')"
  shows "accepted v s' \<or> outstanding v seen"
proof -
  have "live s'" "announced v s' \<Longrightarrow> outstanding v seen" using chronicle_outstanding [OF assms(1,2)] assms(3) by blast+
  then show ?thesis using quiet [of s' v "snd (poll v s')"] assms(4,5) by (cases "poll v s'") auto
qed

end

section \<open>The HTTP provider\<close>

type_synonym decoder = "string \<Rightarrow> codec_error + gmap"

record http_provider =
  hp_name :: string
  hp_url :: string
  hp_priority :: int
  hp_codec :: "decoder option"
  hp_interval :: int
  hp_headers :: "(string \<times> string) list"
  hp_max_body :: int

definition http_new :: "string \<Rightarrow> string \<Rightarrow> decoder option \<Rightarrow> (http_provider \<Rightarrow> http_provider) list \<Rightarrow> string + http_provider" where
  "http_new name url codec opts =
     (if name = '''' then Inl ''provider name is required''
      else if url = '''' then Inl ''url is required''
      else Inr (foldl (\<lambda>p opt. opt p)
        \<lparr>hp_name = name, hp_url = url, hp_priority = 30, hp_codec = codec, hp_interval = 30 * 10 ^ 9, hp_headers = [],
         hp_max_body = default_max_body\<rparr> opts))"

definition http_with_header :: "string \<Rightarrow> string \<Rightarrow> http_provider \<Rightarrow> http_provider" where
  "http_with_header k v p = p\<lparr>hp_headers := kv_set k v (hp_headers p)\<rparr>"

record http_state =
  hs_etag :: string
  hs_hash :: string
  hs_loaded :: bool
  hs_body :: gmap

definition http_start :: http_state where
  "http_start = \<lparr>hs_etag = '''', hs_hash = replicate 32 (CHR 0x00), hs_loaded = False, hs_body = []\<rparr>"

record http_reply =
  hr_status :: int
  hr_etag :: string
  hr_type :: string
  hr_body :: file_data

text \<open>A server sees the headers of a request, whose names do not tell case apart; it may not answer.\<close>

type_synonym http_server = "(string \<times> string) list \<Rightarrow> http_reply option"

datatype http_error = RequestFailed | BodyUnread file_error | BadStatus int | NoDocument | UnknownType string | Undecodable codec_error

datatype http_fetched = NotModified string | Fetched string string string

definition http_request :: "http_provider \<Rightarrow> http_state \<Rightarrow> (string \<times> string) list" where
  "http_request p s =
     (let hs = foldl (\<lambda>hs (k, v). kv_set (to_lower k) v hs) [] (hp_headers p) in
      if hs_etag s \<noteq> '''' then kv_set ''if-none-match'' (hs_etag s) hs else hs)"

definition http_fetch :: "http_provider \<Rightarrow> http_server \<Rightarrow> http_state \<Rightarrow> http_error + http_fetched" where
  "http_fetch p server s =
     (case server (http_request p s) of
        None \<Rightarrow> Inl RequestFailed
      | Some r \<Rightarrow>
          if hr_status r = 304 then Inr (NotModified (hr_etag r))
          else if 200 \<le> hr_status r \<and> hr_status r < 300 then
            (case read_all_max (hr_body r) (hp_max_body p) of
               Inl e \<Rightarrow> Inl (BodyUnread e)
             | Inr b \<Rightarrow> Inr (Fetched b (hr_etag r) (hr_type r)))
          else Inl (BadStatus (hr_status r)))"

definition http_decoder :: "decoder registry \<Rightarrow> http_provider \<Rightarrow> string \<Rightarrow> http_error + decoder" where
  "http_decoder reg p ct =
     (case hp_codec p of
        Some d \<Rightarrow> Inr d
      | None \<Rightarrow> (case by_content_type reg ct of None \<Rightarrow> Inl (UnknownType ct) | Some d \<Rightarrow> Inr d))"

definition http_decode :: "decoder registry \<Rightarrow> http_provider \<Rightarrow> string \<Rightarrow> string \<Rightarrow> http_error + gmap" where
  "http_decode reg p ct body =
     rbind (http_decoder reg p ct) (\<lambda>d. case d body of Inl e \<Rightarrow> Inl (Undecodable e) | Inr m \<Rightarrow> Inr m)"

text \<open>\<open>Load\<close> after its fetch: the map and revision returned, and the state.\<close>

definition http_accept ::
  "(string \<Rightarrow> string) \<Rightarrow> decoder registry \<Rightarrow> http_provider \<Rightarrow> http_error + http_fetched \<Rightarrow> http_state \<Rightarrow>
   (http_error + gmap \<times> string) \<times> http_state" where
  "http_accept sha reg p r s =
     (case r of
        Inl e \<Rightarrow> (Inl e, s)
      | Inr (NotModified etag) \<Rightarrow> if hs_loaded s then (Inr (hs_body s, hs_etag s), s) else (Inl NoDocument, s)
      | Inr (Fetched body etag ct) \<Rightarrow>
          if hs_loaded s \<and> sha body = hs_hash s then (Inr (hs_body s, etag), s\<lparr>hs_etag := etag\<rparr>)
          else (case http_decode reg p ct body of
                  Inl e \<Rightarrow> (Inl e, s)
                | Inr m \<Rightarrow> (Inr (m, etag), \<lparr>hs_etag = etag, hs_hash = sha body, hs_loaded = True, hs_body = m\<rparr>)))"

definition http_load ::
  "(string \<Rightarrow> string) \<Rightarrow> decoder registry \<Rightarrow> http_provider \<Rightarrow> http_server \<Rightarrow> http_state \<Rightarrow>
   (http_error + gmap \<times> string) \<times> http_state" where
  "http_load sha reg p server s = http_accept sha reg p (http_fetch p server s) s"

text \<open>\<open>poll\<close> after its fetch.\<close>

definition http_changed :: "(string \<Rightarrow> string) \<Rightarrow> http_error + http_fetched \<Rightarrow> http_state \<Rightarrow> (bool \<times> string) option" where
  "http_changed sha r s =
     (case r of
        Inl e \<Rightarrow> None
      | Inr (NotModified etag) \<Rightarrow> Some (False, '''')
      | Inr (Fetched body etag ct) \<Rightarrow>
          if hs_loaded s \<and> sha body = hs_hash s \<and> etag = hs_etag s then Some (False, '''') else Some (True, etag))"

definition http_poll :: "(string \<Rightarrow> string) \<Rightarrow> http_provider \<Rightarrow> http_server \<Rightarrow> http_state \<Rightarrow> (bool \<times> string) option" where
  "http_poll sha p server s = http_changed sha (http_fetch p server s) s"

section \<open>Origin servers\<close>

text \<open>A server that serves one document and answers conditional requests as RFC 9110 says.\<close>

record http_doc =
  hd_body :: string
  hd_etag :: string
  hd_type :: string

definition serve :: "http_doc \<Rightarrow> http_server" where
  "serve d hs =
     Some (if hd_etag d \<noteq> '''' \<and> kv_get hs ''if-none-match'' = Some (hd_etag d)
           then \<lparr>hr_status = 304, hr_etag = hd_etag d, hr_type = '''', hr_body = \<lparr>fd_bytes = [], fd_broken = False\<rparr>\<rparr>
           else \<lparr>hr_status = 200, hr_etag = hd_etag d, hr_type = hd_type d, hr_body = \<lparr>fd_bytes = hd_body d, fd_broken = False\<rparr>\<rparr>)"

text \<open>Entity tags are strong, as RFC 9110 demands: documents that share one have the same body. The type may change.\<close>

definition steady :: "http_doc list \<Rightarrow> bool" where
  "steady docs \<longleftrightarrow>
     list_all (\<lambda>d. list_all (\<lambda>e. hd_etag d = hd_etag e \<and> hd_etag d \<noteq> '''' \<longrightarrow> hd_body d = hd_body e) docs) docs"

definition http_fits :: "http_provider \<Rightarrow> http_doc \<Rightarrow> bool" where
  "http_fits p d \<longleftrightarrow> int (length (hd_body d)) \<le> (if hp_max_body p \<le> 0 then default_max_body else hp_max_body p)"

definition unconditional :: "http_provider \<Rightarrow> bool" where
  "unconditional p \<longleftrightarrow> list_all (\<lambda>(k, v). to_lower k \<noteq> ''if-none-match'') (hp_headers p)"

text \<open>What a provider meets: documents it can read, served under strong tags, with no two bodies of one hash.\<close>

definition well_served :: "(string \<Rightarrow> string) \<Rightarrow> http_provider \<Rightarrow> http_doc list \<Rightarrow> bool" where
  "well_served sha p docs \<longleftrightarrow>
     steady docs \<and> list_all (http_fits p) docs \<and> unconditional p \<and> inj_on sha (set (map hd_body docs))"

abbreviation doc_decode :: "decoder registry \<Rightarrow> http_provider \<Rightarrow> http_doc \<Rightarrow> http_error + gmap" where
  "doc_decode reg p d \<equiv> http_decode reg p (hd_type d) (hd_body d)"

lemma request_condition:
  assumes "unconditional p"
  shows "kv_get (http_request p s) ''if-none-match'' = (if hs_etag s \<noteq> '''' then Some (hs_etag s) else None)"
proof -
  have "list_all (\<lambda>(k, v). to_lower k \<noteq> ''if-none-match'') kvs \<Longrightarrow>
      kv_get (foldl (\<lambda>hs (k, v). kv_set (to_lower k) v hs) hs kvs) ''if-none-match'' = kv_get hs ''if-none-match''" for hs kvs
    by (induction kvs arbitrary: hs) (auto simp: update_conv')
  from this [of "hp_headers p" "[]"] show ?thesis
    using assms by (simp add: http_request_def Let_def unconditional_def update_conv')
qed

lemma read_fitting:
  assumes "http_fits p d"
  shows "read_all_max \<lparr>fd_bytes = hd_body d, fd_broken = False\<rparr> (hp_max_body p) = Inr (hd_body d)"
  using assms by (auto simp: http_fits_def read_all_max_def read_limited_def Let_def)

lemma fetch_served:
  assumes "unconditional p" and "http_fits p d"
  shows "http_fetch p (serve d) s =
    Inr (if hd_etag d \<noteq> '''' \<and> hs_etag s = hd_etag d then NotModified (hd_etag d) else Fetched (hd_body d) (hd_etag d) (hd_type d))"
  using assms by (auto simp: http_fetch_def serve_def request_condition read_fitting)

text \<open>After loading one document after the other: the last one that decodes, with the type its body was decoded as. A body
  that is the accepted one keeps the type under which it was accepted.\<close>

definition read_type :: "(http_doc \<times> string) option \<Rightarrow> http_doc \<Rightarrow> string" where
  "read_type acc d = (case acc of Some (e, ct) \<Rightarrow> if hd_body e = hd_body d then ct else hd_type d | None \<Rightarrow> hd_type d)"

definition accept_doc :: "decoder registry \<Rightarrow> http_provider \<Rightarrow> (http_doc \<times> string) option \<Rightarrow> http_doc \<Rightarrow> (http_doc \<times> string) option" where
  "accept_doc reg p acc d = (if is_ok (http_decode reg p (read_type acc d) (hd_body d)) then Some (d, read_type acc d) else acc)"

definition accepted_as :: "decoder registry \<Rightarrow> http_provider \<Rightarrow> http_doc list \<Rightarrow> (http_doc \<times> string) option" where
  "accepted_as reg p ds = foldl (accept_doc reg p) None ds"

definition http_loads :: "(string \<Rightarrow> string) \<Rightarrow> decoder registry \<Rightarrow> http_provider \<Rightarrow> http_doc list \<Rightarrow> http_state" where
  "http_loads sha reg p ds = foldl (\<lambda>s d. snd (http_load sha reg p (serve d) s)) http_start ds"

definition state_of :: "(string \<Rightarrow> string) \<Rightarrow> http_doc \<Rightarrow> gmap \<Rightarrow> http_state" where
  "state_of sha e m = \<lparr>hs_etag = hd_etag e, hs_hash = sha (hd_body e), hs_loaded = True, hs_body = m\<rparr>"

lemma state_of_simps [simp]:
  "hs_etag (state_of sha e m) = hd_etag e" "hs_hash (state_of sha e m) = sha (hd_body e)" "hs_loaded (state_of sha e m)"
  "hs_body (state_of sha e m) = m" "hd_body e = hd_body d \<Longrightarrow> (state_of sha e m)\<lparr>hs_etag := hd_etag d\<rparr> = state_of sha d m"
  by (simp_all add: state_of_def)

lemma accepted_snoc: "accepted_as reg p (ds @ [d]) = accept_doc reg p (accepted_as reg p ds) d"
  by (simp add: accepted_as_def)

lemma accepted_asD: "accepted_as reg p ds = Some (e, ct) \<Longrightarrow> e \<in> set ds \<and> is_ok (http_decode reg p ct (hd_body e))"
  by (induction ds arbitrary: e ct rule: rev_induct) (auto simp: accepted_snoc accept_doc_def accepted_as_def [of _ _ "[]"] split: if_splits)

lemma steadyD:
  assumes "steady docs" and "d \<in> set docs" and "e \<in> set docs" and "hd_etag d = hd_etag e" and "hd_etag d \<noteq> ''''"
  shows "hd_body d = hd_body e"
  using assms unfolding steady_def list_all_iff by blast

lemma load_served:
  assumes "well_served sha p docs" and "d \<in> set docs" and "e \<in> set docs" and "http_decode reg p ct (hd_body e) = Inr m"
  shows "http_load sha reg p (serve d) (state_of sha e m) =
    (case http_decode reg p (read_type (Some (e, ct)) d) (hd_body d) of
       Inl err \<Rightarrow> (Inl err, state_of sha e m)
     | Inr m' \<Rightarrow> (Inr (m', hd_etag d), state_of sha d m'))"
proof -
  have w: "steady docs" "http_fits p d" "unconditional p" "inj_on sha (set (map hd_body docs))"
    using assms(1,2) by (auto simp: well_served_def list_all_iff)
  show ?thesis
  proof (cases "hd_etag d \<noteq> '''' \<and> hd_etag e = hd_etag d")
    case True
    then have same: "hd_body e = hd_body d" using steadyD [OF w(1) assms(2,3)] by auto
    then have "state_of sha e m = state_of sha d m" using True by (simp add: state_of_def)
    then show ?thesis
      using True same assms(4) by (simp add: http_load_def fetch_served [OF w(3,2)] http_accept_def read_type_def)
  next
    case False
    have hash: "sha (hd_body d) = sha (hd_body e) \<longleftrightarrow> hd_body d = hd_body e"
      using w(4) assms(2,3) by (auto dest: inj_onD)
    have fetched: "http_fetch p (serve d) (state_of sha e m) = Inr (Fetched (hd_body d) (hd_etag d) (hd_type d))"
      using False by (auto simp: fetch_served [OF w(3,2)])
    show ?thesis
    proof (cases "hd_body d = hd_body e")
      case True
      then show ?thesis using assms(4) by (simp add: http_load_def fetched http_accept_def read_type_def)
    next
      case False
      then show ?thesis
        using hash by (simp add: http_load_def fetched http_accept_def read_type_def split: sum.splits)
    qed
  qed
qed

lemma load_first:
  assumes "well_served sha p docs" and "d \<in> set docs"
  shows "http_load sha reg p (serve d) http_start =
    (case doc_decode reg p d of Inl err \<Rightarrow> (Inl err, http_start) | Inr m' \<Rightarrow> (Inr (m', hd_etag d), state_of sha d m'))"
proof -
  have w: "http_fits p d" "unconditional p" using assms by (auto simp: well_served_def list_all_iff)
  have "http_fetch p (serve d) http_start = Inr (Fetched (hd_body d) (hd_etag d) (hd_type d))"
    by (auto simp: fetch_served [OF w(2,1)] http_start_def)
  then show ?thesis by (simp add: http_load_def http_accept_def http_start_def state_of_def split: sum.splits)
qed

lemma loads_state:
  assumes "well_served sha p docs" and "set ds \<subseteq> set docs"
  shows "http_loads sha reg p ds =
    (case accepted_as reg p ds of None \<Rightarrow> http_start | Some (e, ct) \<Rightarrow> state_of sha e (projr (http_decode reg p ct (hd_body e))))"
  using assms(2)
proof (induction ds rule: rev_induct)
  case (snoc d ds)
  have d: "d \<in> set docs" using snoc.prems by simp
  have step: "http_loads sha reg p (ds @ [d]) = snd (http_load sha reg p (serve d) (http_loads sha reg p ds))"
    by (simp add: http_loads_def)
  have IH: "http_loads sha reg p ds =
      (case accepted_as reg p ds of None \<Rightarrow> http_start | Some (e, ct) \<Rightarrow> state_of sha e (projr (http_decode reg p ct (hd_body e))))"
    using snoc by simp
  show ?case
  proof (cases "accepted_as reg p ds")
    case None
    then show ?thesis using load_first [OF assms(1) d, of reg] IH step
      by (cases "doc_decode reg p d") (simp_all add: accepted_snoc accept_doc_def read_type_def)
  next
    case (Some ec)
    then obtain e ct where ec: "accepted_as reg p ds = Some (e, ct)" by (cases ec) simp
    then obtain m where m: "e \<in> set docs" "http_decode reg p ct (hd_body e) = Inr m"
      using snoc.prems accepted_asD [OF ec] by (auto simp: is_ok_def)
    then show ?thesis
      using load_served [OF assms(1) d m(1,2)] IH step ec
      by (cases "http_decode reg p (read_type (Some (e, ct)) d) (hd_body d)") (simp_all add: accepted_snoc accept_doc_def)
  qed
qed (simp add: http_loads_def accepted_as_def)

section \<open>The provider keeps the contract\<close>

text \<open>The states the provider reaches on the documents of a server; other documents are not loaded.\<close>

definition http_live :: "(string \<Rightarrow> string) \<Rightarrow> decoder registry \<Rightarrow> http_provider \<Rightarrow> http_doc list \<Rightarrow> http_state \<Rightarrow> bool" where
  "http_live sha reg p docs s \<longleftrightarrow> well_served sha p docs \<and> (\<exists>ds. set ds \<subseteq> set docs \<and> s = http_loads sha reg p ds)"

definition http_accepted :: "(string \<Rightarrow> string) \<Rightarrow> http_doc \<Rightarrow> http_state \<Rightarrow> bool" where
  "http_accepted sha d s \<longleftrightarrow> hs_loaded s \<and> hs_hash s = sha (hd_body d) \<and> hs_etag s = hd_etag d"

definition http_signal :: "(string \<Rightarrow> string) \<Rightarrow> http_provider \<Rightarrow> http_doc \<Rightarrow> http_state \<Rightarrow> bool \<times> http_state" where
  "http_signal sha p d s = ((case http_poll sha p (serve d) s of Some (True, rv) \<Rightarrow> True | _ \<Rightarrow> False), s)"

definition http_reload ::
  "(string \<Rightarrow> string) \<Rightarrow> decoder registry \<Rightarrow> http_provider \<Rightarrow> http_doc list \<Rightarrow> http_doc \<Rightarrow> http_state \<Rightarrow> http_state" where
  "http_reload sha reg p docs d s = (if d \<in> set docs then snd (http_load sha reg p (serve d) s) else s)"

lemma poll_served:
  assumes "well_served sha p docs" and "set ds \<subseteq> set docs" and "d \<in> set docs"
  shows "http_poll sha p (serve d) (http_loads sha reg p ds) =
    Some (if http_accepted sha d (http_loads sha reg p ds) then (False, '''') else (True, hd_etag d))"
proof -
  have w: "steady docs" "http_fits p d" "unconditional p" using assms by (auto simp: well_served_def list_all_iff)
  let ?s = "http_loads sha reg p ds"
  have s: "?s = (case accepted_as reg p ds of None \<Rightarrow> http_start
      | Some (e, ct) \<Rightarrow> state_of sha e (projr (http_decode reg p ct (hd_body e))))"
    by (rule loads_state [OF assms(1,2)])
  show ?thesis
  proof (cases "hd_etag d \<noteq> '''' \<and> hs_etag ?s = hd_etag d")
    case True
    then obtain e ct where e: "accepted_as reg p ds = Some (e, ct)" using s by (auto simp: http_start_def split: option.splits)
    then have "e \<in> set docs" using assms(2) accepted_asD [OF e] by blast
    then have "hd_body d = hd_body e" using steadyD [OF w(1) assms(3)] True s e by auto
    then have "http_accepted sha d ?s" using s e True by (simp add: http_accepted_def)
    then show ?thesis using True by (simp add: http_poll_def http_changed_def fetch_served [OF w(3,2)])
  next
    case False
    then show ?thesis by (auto simp: http_poll_def http_changed_def fetch_served [OF w(3,2)] http_accepted_def)
  qed
qed

interpretation http: change_signal "http_live sha reg p docs" "\<lambda>d s. d \<in> set docs" "http_accepted sha" "\<lambda>d s. False"
  "http_signal sha p" "\<lambda>d s. s" "\<lambda>s. s" "http_reload sha reg p docs" for sha reg p docs
proof unfold_locales
  fix s s' v
  assume live: "http_live sha reg p docs s" and v: "v \<in> set docs" and q: "http_signal sha p v s = (False, s')"
  obtain ds where ds: "well_served sha p docs" "set ds \<subseteq> set docs" "s = http_loads sha reg p ds"
    using live by (auto simp: http_live_def)
  show "http_accepted sha v s \<or> False"
    using q poll_served [OF ds(1,2) v, of reg] ds(3) by (auto simp: http_signal_def split: if_splits)
next
  fix s v
  assume live: "http_live sha reg p docs s"
  then obtain ds where ds: "well_served sha p docs" "set ds \<subseteq> set docs" "s = http_loads sha reg p ds"
    by (auto simp: http_live_def)
  have "v \<in> set docs \<Longrightarrow> snd (http_load sha reg p (serve v) s) = http_loads sha reg p (ds @ [v])"
    using ds(3) by (simp add: http_loads_def)
  then have "http_live sha reg p docs (http_reload sha reg p docs v s)"
    using live ds unfolding http_live_def http_reload_def
    by (metis Un_subset_iff empty_set insert_subset list.simps(15) set_append empty_subsetI)
  then show "http_live sha reg p docs (snd (http_signal sha p v s)) \<and> http_live sha reg p docs s \<and>
      http_live sha reg p docs s \<and> http_live sha reg p docs (http_reload sha reg p docs v s)"
    using live by (simp add: http_signal_def)
qed auto

section \<open>Properties\<close>

text \<open>C17. The cache of the HTTP provider against reading the document each time, for a server whose entity tags are strong
  and bodies that do not collide under the hash: after any loads of the documents the server published, failed ones
  included, a load returns what the body of the current document decodes to, with its entity tag, although an unchanged
  body is neither sent nor decoded again. With a codec that is exactly a fresh read. Without one, a body that is the
  accepted one keeps the \<open>Content-Type\<close> it was accepted under, so a changed type of an unchanged body is not noticed; in
  every other case it is a fresh read too. A poll reports a change exactly when body or tag differ from the last document
  that loaded.\<close>

theorem http_transparent:
  assumes "well_served sha p (d # ds)"
  shows "fst (http_load sha reg p (serve d) (http_loads sha reg p ds)) =
      rbind (http_decode reg p (read_type (accepted_as reg p ds) d) (hd_body d)) (\<lambda>m. Inr (m, hd_etag d)) \<and>
    (hp_codec p \<noteq> None \<or> read_type (accepted_as reg p ds) d = hd_type d \<longrightarrow>
      fst (http_load sha reg p (serve d) (http_loads sha reg p ds)) = rbind (doc_decode reg p d) (\<lambda>m. Inr (m, hd_etag d))) \<and>
    http_poll sha p (serve d) (http_loads sha reg p ds) =
      Some (case accepted_as reg p ds of
              None \<Rightarrow> (True, hd_etag d)
            | Some (e, _) \<Rightarrow> if hd_body e = hd_body d \<and> hd_etag e = hd_etag d then (False, '''') else (True, hd_etag d))"
proof -
  let ?s = "http_loads sha reg p ds"
  have sub: "set ds \<subseteq> set (d # ds)" by auto
  have poll: "http_poll sha p (serve d) ?s = Some (if http_accepted sha d ?s then (False, '''') else (True, hd_etag d))"
    using poll_served [OF assms sub] by simp
  have codec: "http_decode reg p ct (hd_body d) = doc_decode reg p d" if "hp_codec p \<noteq> None \<or> ct = hd_type d" for ct
    using that by (auto simp: http_decode_def http_decoder_def)
  have both: "fst (http_load sha reg p (serve d) ?s) =
      rbind (http_decode reg p (read_type (accepted_as reg p ds) d) (hd_body d)) (\<lambda>m. Inr (m, hd_etag d)) \<and>
    http_poll sha p (serve d) ?s =
      Some (case accepted_as reg p ds of
              None \<Rightarrow> (True, hd_etag d)
            | Some (e, _) \<Rightarrow> if hd_body e = hd_body d \<and> hd_etag e = hd_etag d then (False, '''') else (True, hd_etag d))"
  proof (cases "accepted_as reg p ds")
    case None
    have s: "?s = http_start" using loads_state [OF assms sub, of reg] None by simp
    show ?thesis
      using None load_first [OF assms, of d reg] poll
      by (cases "doc_decode reg p d") (simp_all add: s http_accepted_def http_start_def read_type_def)
  next
    case (Some ec)
    then obtain e ct where ec: "accepted_as reg p ds = Some (e, ct)" by (cases ec) simp
    have e: "e \<in> set ds" "is_ok (http_decode reg p ct (hd_body e))" using accepted_asD [OF ec] by auto
    then obtain m where m: "http_decode reg p ct (hd_body e) = Inr m" by (auto simp: is_ok_def)
    have s: "?s = state_of sha e m" using loads_state [OF assms sub, of reg] ec m by simp
    have "inj_on sha (set (map hd_body (d # ds)))" using assms by (simp add: well_served_def)
    then have hash: "sha (hd_body e) = sha (hd_body d) \<longleftrightarrow> hd_body e = hd_body d" using e(1) by (intro iffI) (erule inj_onD, auto)
    show ?thesis
      using load_served [OF assms, of d e reg ct m] poll ec m e(1) hash
      by (cases "http_decode reg p (read_type (Some (e, ct)) d) (hd_body d)") (simp_all add: s http_accepted_def)
  qed
  show ?thesis
  proof (intro conjI impI)
    show "fst (http_load sha reg p (serve d) ?s) = rbind (doc_decode reg p d) (\<lambda>m. Inr (m, hd_etag d))"
      if "hp_codec p \<noteq> None \<or> read_type (accepted_as reg p ds) d = hd_type d"
      unfolding conjunct1 [OF both] codec [OF that] ..
  qed (rule conjunct1 [OF both], rule conjunct2 [OF both])
qed

text \<open>Three documents: one that loads, one that does not decode, and the first one again under a new tag.\<close>

definition http_example :: http_provider where
  "http_example =
     \<lparr>hp_name = ''remote'', hp_url = ''http://h/c'', hp_priority = 30,
      hp_codec = Some (\<lambda>b. if b = ''bad'' then Inl Malformed else Inr [(''k'', GStr b)]), hp_interval = 30 * 10 ^ 9,
      hp_headers = [(''Authorization'', ''x'')], hp_max_body = 0\<rparr>"

definition http_docs :: "http_doc list" where
  "http_docs =
     [\<lparr>hd_body = ''a'', hd_etag = ''1'', hd_type = ''t''\<rparr>, \<lparr>hd_body = ''bad'', hd_etag = ''2'', hd_type = ''t''\<rparr>,
      \<lparr>hd_body = ''a'', hd_etag = ''3'', hd_type = ''t''\<rparr>]"

lemma http_docs_served: "well_served (\<lambda>b. b) http_example http_docs"
  by (simp add: well_served_def steady_def http_docs_def http_fits_def http_example_def default_max_body_def
      unconditional_def to_lower_def ascii_defs inj_on_def)

theorem http_transparent_witness:
  "fst (http_load (\<lambda>b. b) (\<lparr>re_codecs = [], re_exts = [], re_generation = 0\<rparr>) http_example (serve \<lparr>hd_body = ''a'', hd_etag = ''1'', hd_type = ''t''\<rparr>)
      (http_loads (\<lambda>b. b) (\<lparr>re_codecs = [], re_exts = [], re_generation = 0\<rparr>) http_example
        [\<lparr>hd_body = ''bad'', hd_etag = ''2'', hd_type = ''t''\<rparr>, \<lparr>hd_body = ''a'', hd_etag = ''3'', hd_type = ''t''\<rparr>])) =
    Inr ([(''k'', GStr ''a'')], ''1'') \<and>
   http_poll (\<lambda>b. b) http_example (serve \<lparr>hd_body = ''a'', hd_etag = ''1'', hd_type = ''t''\<rparr>)
      (http_loads (\<lambda>b. b) (\<lparr>re_codecs = [], re_exts = [], re_generation = 0\<rparr>) http_example
        [\<lparr>hd_body = ''bad'', hd_etag = ''2'', hd_type = ''t''\<rparr>, \<lparr>hd_body = ''a'', hd_etag = ''3'', hd_type = ''t''\<rparr>]) =
    Some (True, ''1'')"
  using http_transparent [OF http_docs_served [unfolded http_docs_def], of "\<lparr>re_codecs = [], re_exts = [], re_generation = 0\<rparr>"]
  by (simp add: http_decode_def http_decoder_def http_example_def accepted_as_def accept_doc_def read_type_def)

end
