(* ===== verification/Consul.thy ===== *)
theory Consul
  imports Polling "HOL-Library.Word"
begin

text \<open>
  \<open>providers/consul\<close>: the key-value tree of a Consul server, read through its HTTP API, and the loop of blocking queries
  that watches it. The server, its JSON parser, the check of an URL and the text of a duration are arguments.
\<close>

section \<open>Text\<close>

text \<open>\<open>base64.StdEncoding.DecodeString\<close>, which skips line breaks.\<close>

definition b64_digit :: "char \<Rightarrow> nat option" where
  "b64_digit c =
     (let n = of_char c :: nat in
      if is_upper c then Some (n - 65)
      else if is_lower c then Some (n - 71)
      else if is_digit c then Some (n + 4)
      else if c = CHR ''+'' then Some 62
      else if c = CHR ''/'' then Some 63
      else None)"

fun b64_quads :: "string \<Rightarrow> string option" where
  "b64_quads [] = Some []"
| "b64_quads (a # b # c # d # r) =
     (case (b64_digit a, b64_digit b) of
        (Some w, Some x) \<Rightarrow>
          if c = CHR ''='' then (if d = CHR ''='' \<and> r = [] then Some [char_of (4 * w + x div 16)] else None)
          else (case b64_digit c of
                  None \<Rightarrow> None
                | Some y \<Rightarrow>
                    if d = CHR ''='' then
                      (if r = [] then Some [char_of (4 * w + x div 16), char_of (16 * (x mod 16) + y div 4)] else None)
                    else (case b64_digit d of
                            None \<Rightarrow> None
                          | Some z \<Rightarrow>
                              map_option (\<lambda>t. char_of (4 * w + x div 16) # char_of (16 * (x mod 16) + y div 4) #
                                              char_of (64 * (y mod 4) + z) # t) (b64_quads r)))
      | _ \<Rightarrow> None)"
| "b64_quads _ = None"

definition b64_decode :: "string \<Rightarrow> string option" where
  "b64_decode s = b64_quads (filter (\<lambda>c. c \<noteq> CHR 0x0D \<and> c \<noteq> CHR 0x0A) s)"

text \<open>\<open>url.QueryEscape\<close>.\<close>

definition upper_hex :: "nat \<Rightarrow> char" where
  "upper_hex n = (if n < 10 then char_of (48 + n) else char_of (55 + n))"

definition query_escape :: "string \<Rightarrow> string" where
  "query_escape s =
     concat (map (\<lambda>c. if is_lower c \<or> is_upper c \<or> is_digit c \<or> c \<in> set ''-_.~'' then [c]
                      else if c = CHR '' '' then ''+''
                      else [CHR ''%'', upper_hex (of_char c div 16), upper_hex (of_char c mod 16)]) s)"

definition trim_right_of :: "char \<Rightarrow> string \<Rightarrow> string" where
  "trim_right_of x s = rev (dropWhile (\<lambda>c. c = x) (rev s))"

definition trim_of :: "char \<Rightarrow> string \<Rightarrow> string" where
  "trim_of x s = trim_right_of x (dropWhile (\<lambda>c. c = x) s)"

section \<open>The provider\<close>

datatype consul_mode = ModeKV | ModeBlob | ModeOther int

record consul_provider =
  cp_name :: string
  cp_addr :: string
  cp_prefix :: string
  cp_priority :: int
  cp_mode :: consul_mode
  cp_codec :: "decoder option"
  cp_token :: string
  cp_dc :: string
  cp_wait :: int
  cp_max_body :: int

definition consul_new ::
  "(string \<Rightarrow> bool) \<Rightarrow> string \<Rightarrow> string \<Rightarrow> (consul_provider \<Rightarrow> consul_provider) list \<Rightarrow> string + consul_provider" where
  "consul_new url_ok addr pre opts =
     (if addr = '''' then Inl ''addr is empty''
      else if \<not> url_ok addr then Inl ''invalid addr''
      else let prefix = trim_of (CHR ''/'') pre;
               p = foldl (\<lambda>p opt. opt p)
                 \<lparr>cp_name = '''', cp_addr = trim_right_of (CHR ''/'') addr, cp_prefix = prefix, cp_priority = 30, cp_mode = ModeKV,
                  cp_codec = None, cp_token = '''', cp_dc = '''', cp_wait = 300 * 10 ^ 9, cp_max_body = default_max_body\<rparr> opts;
               q = (if cp_name p = ''''
                    then p\<lparr>cp_name := ''consul://'' @ trim_prefix (cp_addr p) ''http://'' @ ''/'' @ prefix\<rparr> else p)
           in if cp_mode q = ModeBlob \<and> cp_codec q = None then Inl ''ModeBlob requires WithCodec'' else Inr q)"

datatype consul_error =
    ConsulUnreachable | ConsulStatus int string | ConsulBody file_error | ConsulJson | ConsulBase64 string | ConsulCodec codec_error

record consul_reply =
  cr_status :: int
  cr_index :: string   \<comment> \<open>the header \<open>X-Consul-Index\<close>\<close>
  cr_body :: file_data

text \<open>A pair of \<open>/v1/kv\<close>: its key and its value in base 64.\<close>

type_synonym kv_pair = "string \<times> string"

definition parse_index :: "string \<Rightarrow> 64 word" where
  "parse_index s =
     (if list_all is_digit s then foldl (\<lambda>v c. v * 10 + word_of_int (digit_val c)) 0 s else 0)"

text \<open>A key belongs to the provider on slash boundaries.\<close>

definition consul_contains :: "consul_provider \<Rightarrow> string \<Rightarrow> bool" where
  "consul_contains p key \<longleftrightarrow> cp_prefix p = '''' \<or> key = cp_prefix p \<or> has_prefix key (cp_prefix p @ ''/'')"

fun consul_blob :: "consul_provider \<Rightarrow> kv_pair list \<Rightarrow> consul_error + gmap" where
  "consul_blob p [] = Inr []"
| "consul_blob p ((key, val) # kvs) =
     (if \<not> consul_contains p key \<or> has_suffix key ''/'' \<or> val = '''' then consul_blob p kvs
      else (case b64_decode val of
              None \<Rightarrow> Inl (ConsulBase64 key)
            | Some raw \<Rightarrow>
                (case (case cp_codec p of None \<Rightarrow> Inl Malformed | Some d \<Rightarrow> d raw) of
                   Inl e \<Rightarrow> Inl (ConsulCodec e) | Inr m \<Rightarrow> Inr m)))"

text \<open>The path a key is written to, \<open>None\<close> for keys that are skipped.\<close>

definition consul_path :: "consul_provider \<Rightarrow> string \<Rightarrow> string list option" where
  "consul_path p key =
     (let rest = trim_prefix (trim_prefix key (cp_prefix p)) ''/'' in
      if \<not> consul_contains p key \<or> rest = '''' \<or> has_suffix rest ''/'' then None
      else Some (split_char (CHR ''/'') rest))"

fun consul_tree :: "consul_provider \<Rightarrow> kv_pair list \<Rightarrow> gmap \<Rightarrow> consul_error + gmap" where
  "consul_tree p [] m = Inr m"
| "consul_tree p ((key, val) # kvs) m =
     (case consul_path p key of
        None \<Rightarrow> consul_tree p kvs m
      | Some ps \<Rightarrow>
          (case b64_decode val of
             None \<Rightarrow> Inl (ConsulBase64 key)
           | Some s \<Rightarrow> consul_tree p kvs (set_from m ps (GStr s))))"

definition consul_decode :: "consul_provider \<Rightarrow> kv_pair list \<Rightarrow> consul_error + gmap" where
  "consul_decode p kvs = (if cp_mode p = ModeBlob then consul_blob p kvs else consul_tree p kvs [])"

text \<open>The request of \<open>fetch\<close>, with the text \<open>wait\<close> of the wait window, and its result.\<close>

definition consul_url :: "consul_provider \<Rightarrow> string \<Rightarrow> 64 word \<Rightarrow> string" where
  "consul_url p wait index =
     cp_addr p @ ''/v1/kv/'' @ cp_prefix p @ (if cp_prefix p \<noteq> '''' \<and> cp_mode p = ModeKV then ''/'' else '''') @
     ''?recurse=true'' @
     (if 0 < index then ''&index='' @ nat_digits (unat index) @ ''&wait='' @ wait else '''') @
     (if cp_dc p \<noteq> '''' then ''&dc='' @ query_escape (cp_dc p) else '''')"

definition consul_headers :: "consul_provider \<Rightarrow> (string \<times> string) list" where
  "consul_headers p = (if cp_token p \<noteq> '''' then [(''X-Consul-Token'', cp_token p)] else [])"

definition consul_fetch ::
  "(string \<Rightarrow> kv_pair list option) \<Rightarrow> consul_provider \<Rightarrow> consul_reply option \<Rightarrow> consul_error + kv_pair list \<times> 64 word" where
  "consul_fetch parse p reply =
     (case reply of
        None \<Rightarrow> Inl ConsulUnreachable
      | Some r \<Rightarrow>
          if cr_status r = 404 then Inr ([], parse_index (cr_index r))
          else if cr_status r \<noteq> 200 then
            Inl (ConsulStatus (cr_status r) (trim_space (take 1024 (fd_bytes (cr_body r)))))
          else (case read_all_max (cr_body r) (cp_max_body p) of
                  Inl e \<Rightarrow> Inl (ConsulBody e)
                | Inr b \<Rightarrow> (case parse b of None \<Rightarrow> Inl ConsulJson | Some kvs \<Rightarrow> Inr (kvs, parse_index (cr_index r)))))"

section \<open>Loading and watching\<close>

text \<open>\<open>co_index\<close> is the index the last load read; the other two are the loop's own.\<close>

record consul_state =
  co_index :: "64 word"
  co_cursor :: "64 word"
  co_loaded :: "64 word"

definition consul_load ::
  "consul_provider \<Rightarrow> consul_error + kv_pair list \<times> 64 word \<Rightarrow> consul_state \<Rightarrow> (consul_error + gmap) \<times> consul_state" where
  "consul_load p r s =
     (case r of
        Inl e \<Rightarrow> (Inl e, s)
      | Inr (kvs, idx) \<Rightarrow>
          (case consul_decode p kvs of Inl e \<Rightarrow> (Inl e, s) | Inr m \<Rightarrow> (Inr m, s\<lparr>co_index := idx\<rparr>)))"

definition consul_start :: consul_state where
  "consul_start = \<lparr>co_index = 0, co_cursor = 0, co_loaded = 0\<rparr>"

text \<open>The head of an iteration, and the rest of one whose query returned the index \<open>new\<close>: the reason of the event it
  offers, if any.\<close>

definition consul_sync :: "consul_state \<Rightarrow> consul_state" where
  "consul_sync s =
     (if co_index s \<noteq> co_loaded s then s\<lparr>co_cursor := max (co_cursor s) (co_index s), co_loaded := co_index s\<rparr> else s)"

definition consul_round :: "64 word \<Rightarrow> consul_state \<Rightarrow> string option \<times> consul_state" where
  "consul_round new s =
     (if new = 0 then (None, s\<lparr>co_cursor := 1\<rparr>)
      else if 0 < co_cursor s \<and> new < co_cursor s then (None, s\<lparr>co_cursor := 1\<rparr>)
      else if new = co_cursor s \<and> new = co_index s then (None, s)
      else (Some (if new = co_cursor s then ''consul-index-retry'' else ''consul-index''), s\<lparr>co_cursor := new\<rparr>))"


text \<open>The loop reads the accepted index once before its query and once after it. Loads that finish while the query blocks
  move it in between; \<open>loads\<close> are the indices they accept, oldest first.\<close>

definition accept_loads :: "64 word list \<Rightarrow> consul_state \<Rightarrow> consul_state" where
  "accept_loads loads s = foldl (\<lambda>s v. s\<lparr>co_index := v\<rparr>) s loads"

text \<open>An iteration of \<open>watchLoop\<close>: a failed query sleeps for the next delay.\<close>

definition consul_iterate ::
  "consul_error + 64 word \<Rightarrow> 64 word list \<Rightarrow> consul_state \<times> backoff \<Rightarrow> (string option \<times> int option) \<times> consul_state \<times> backoff" where
  "consul_iterate r loads st =
     (let s = accept_loads loads (consul_sync (fst st)) in
      case r of
        Inl e \<Rightarrow> (case backoff_next (snd st) of (d, b) \<Rightarrow> ((None, Some d), s, b))
      | Inr new \<Rightarrow> (case consul_round new s of (ev, s') \<Rightarrow> ((ev, None), s', backoff_reset (snd st))))"

definition consul_poll :: "64 word \<Rightarrow> 64 word list \<Rightarrow> consul_state \<Rightarrow> bool \<times> consul_state" where
  "consul_poll new loads s = (case consul_round new (accept_loads loads (consul_sync s)) of (ev, s') \<Rightarrow> (ev \<noteq> None, s'))"

lemma accept_loads_simps [simp]:
  "accept_loads [] s = s" "co_index (accept_loads loads s) = last (co_index s # loads)"
  "co_cursor (accept_loads loads s) = co_cursor s" "co_loaded (accept_loads loads s) = co_loaded s"
  by (simp_all add: accept_loads_def) (induction loads arbitrary: s; simp)+

definition consul_ready :: "64 word \<Rightarrow> consul_state \<Rightarrow> bool" where
  "consul_ready new s \<longleftrightarrow> new \<noteq> 0 \<and> co_cursor (consul_sync s) \<le> new"

lemma sync_index [simp]: "co_index (consul_sync s) = co_index s"
  by (simp add: consul_sync_def)

lemma round_index [simp]: "co_index (snd (consul_round new s)) = co_index s"
  by (simp add: consul_round_def)

interpretation consul: change_signal "\<lambda>s. True" consul_ready "\<lambda>v s. co_index s = v" "\<lambda>v s. False"
  "\<lambda>v. consul_poll v []" "\<lambda>v s. s" "\<lambda>s. s" "\<lambda>v s. s\<lparr>co_index := v\<rparr>"
proof unfold_locales
  fix s s' v
  assume "consul_ready v s" "consul_poll v [] s = (False, s')"
  then show "co_index s = v \<or> False"
    by (auto simp: consul_ready_def consul_poll_def consul_round_def not_less[symmetric] split: if_splits)
qed auto

section \<open>Encoding\<close>

definition b64_char :: "nat \<Rightarrow> char" where
  "b64_char n =
     (if n < 26 then char_of (65 + n) else if n < 52 then char_of (71 + n) else if n < 62 then char_of (n - 4)
      else if n = 62 then CHR ''+'' else CHR ''/'')"

fun b64_encode :: "string \<Rightarrow> string" where
  "b64_encode [] = []"
| "b64_encode [a] = [b64_char (of_char a div 4), b64_char (16 * (of_char a mod 4)), CHR ''='', CHR ''='']"
| "b64_encode [a, b] =
     [b64_char (of_char a div 4), b64_char (16 * (of_char a mod 4) + of_char b div 16), b64_char (4 * (of_char b mod 16)), CHR ''='']"
| "b64_encode (a # b # c # r) =
     [b64_char (of_char a div 4), b64_char (16 * (of_char a mod 4) + of_char b div 16),
      b64_char (4 * (of_char b mod 16) + of_char c div 64), b64_char (of_char c mod 64)] @ b64_encode r"

lemma b64_digit_char [simp]: "n < 64 \<Longrightarrow> b64_digit (b64_char n) = Some n"
  by (auto simp: b64_digit_def b64_char_def ascii_defs Let_def)

lemma b64_char_plain [simp]: "n < 64 \<Longrightarrow> b64_char n \<noteq> CHR ''='' \<and> b64_char n \<noteq> CHR 0x0D \<and> b64_char n \<noteq> CHR 0x0A"
proof -
  assume n: "n < 64"
  have "b64_digit c = None" if "c \<in> {CHR ''='', CHR 0x0D, CHR 0x0A}" for c
    using that by (auto simp: b64_digit_def ascii_defs Let_def)
  then show ?thesis using b64_digit_char [OF n] by fastforce
qed

lemma byte_parts:
  fixes a b c :: char
  shows "(of_char a :: nat) div 4 < 64" "16 * ((of_char a :: nat) mod 4) + of_char b div 16 < 64"
    "4 * ((of_char b :: nat) mod 16) + of_char c div 64 < 64" "16 * ((of_char a :: nat) mod 4) < 64" "4 * ((of_char b :: nat) mod 16) < 64"
    "(of_char c :: nat) mod 64 < 64"
proof -
  have "(of_char x :: nat) < 16 * 16" "(of_char x :: nat) < 64 * 4" for x :: char by simp_all
  then have d: "(of_char x :: nat) div 16 < 16" "(of_char x :: nat) div 64 < 4" "(of_char x :: nat) div 4 < 64" for x :: char
    by (simp_all only: less_mult_imp_div_less mult.commute)
  have "(of_char a :: nat) mod 4 < 4" "(of_char b :: nat) mod 16 < 16" by simp_all
  then show "(of_char a :: nat) div 4 < 64" "16 * ((of_char a :: nat) mod 4) + of_char b div 16 < 64"
    "4 * ((of_char b :: nat) mod 16) + of_char c div 64 < 64" "16 * ((of_char a :: nat) mod 4) < 64" "4 * ((of_char b :: nat) mod 16) < 64"
    "(of_char c :: nat) mod 64 < 64"
    using d(1) [of b] d(2) [of c] d(3) [of a] by linarith+
qed

lemma byte_joins:
  fixes b :: char
  shows "(of_char b :: nat) div 16 div 16 = 0" "(of_char b :: nat) div 16 mod 16 = of_char b div 16"
    "(of_char b :: nat) div 64 div 4 = 0" "(of_char b :: nat) div 64 mod 4 = of_char b div 64"
proof -
  have "(of_char b :: nat) < 16 * 16" "(of_char b :: nat) < 64 * 4" by simp_all
  then have "(of_char b :: nat) div 16 < 16" "(of_char b :: nat) div 64 < 4"
    by (simp_all only: less_mult_imp_div_less mult.commute)
  then show "(of_char b :: nat) div 16 div 16 = 0" "(of_char b :: nat) div 16 mod 16 = of_char b div 16"
    "(of_char b :: nat) div 64 div 4 = 0" "(of_char b :: nat) div 64 mod 4 = of_char b div 64" by simp_all
qed

lemma b64_quads_encode: "b64_quads (b64_encode s) = Some s"
  by (induction s rule: b64_encode.induct) (simp_all add: byte_parts byte_joins)

lemma b64_encode_lines: "list_all (\<lambda>c. c \<noteq> CHR 0x0D \<and> c \<noteq> CHR 0x0A) (b64_encode s)"
  by (induction s rule: b64_encode.induct) (simp_all add: byte_parts)

lemma b64_decode_encode: "b64_decode (b64_encode s) = Some s"
proof -
  have "filter (\<lambda>c. c \<noteq> CHR 0x0D \<and> c \<noteq> CHR 0x0A) (b64_encode s) = b64_encode s"
    using b64_encode_lines [of s] by (simp add: list_all_iff)
  then show ?thesis by (simp add: b64_decode_def b64_quads_encode)
qed

section \<open>Keys and paths\<close>

text \<open>The key of a path below the provider's prefix.\<close>

definition consul_key :: "consul_provider \<Rightarrow> string list \<Rightarrow> string" where
  "consul_key p path = (if cp_prefix p = '''' then '''' else cp_prefix p @ ''/'') @ join_with ''/'' path"

definition key_segment :: "string \<Rightarrow> bool" where
  "key_segment w \<longleftrightarrow> w \<noteq> '''' \<and> CHR ''/'' \<notin> set w"

lemma join_segments:
  assumes "path \<noteq> []" and "list_all key_segment path"
  shows "join_with ''/'' path \<noteq> '''' \<and> hd (join_with ''/'' path) \<noteq> CHR ''/'' \<and> last (join_with ''/'' path) \<noteq> CHR ''/''"
  using assms
proof (induction "''/''" path rule: join_with.induct)
  case (2 w)
  then show ?case by (auto simp: key_segment_def) (metis hd_in_set, metis last_in_set)
next
  case (3 w v ws)
  then show ?case by (auto simp: key_segment_def) (metis hd_in_set)
qed simp

lemma has_suffix_snoc: "has_suffix (s @ [c]) [x] \<longleftrightarrow> c = x"
  by (simp add: has_suffix_def)

lemma consul_path_key:
  assumes "path \<noteq> []" and "list_all key_segment path"
  shows "consul_path p (consul_key p path) = Some path"
proof -
  let ?j = "join_with ''/'' path"
  have j: "?j \<noteq> ''''" "hd ?j \<noteq> CHR ''/''" "last ?j \<noteq> CHR ''/''" using join_segments [OF assms] by blast+
  then have slash: "\<not> has_prefix ?j ''/''" "\<not> has_suffix ?j ''/''"
    by (auto simp: has_prefix_iff) (metis append_butlast_last_id has_suffix_snoc)
  have rest: "trim_prefix (trim_prefix (consul_key p path) (cp_prefix p)) ''/'' = ?j"
    using slash by (auto simp: consul_key_def trim_prefix_def has_prefix_iff)
  have "consul_contains p (consul_key p path)" by (simp add: consul_contains_def consul_key_def has_prefix_iff)
  moreover have "split_char (CHR ''/'') ?j = path"
    by (rule split_join_char) (use assms in \<open>auto simp: list_all_iff key_segment_def\<close>)
  ultimately show ?thesis using rest j slash by (simp add: consul_path_def Let_def)
qed

definition consul_items :: "consul_provider \<Rightarrow> kv_pair list \<Rightarrow> (string list \<times> gval) list" where
  "consul_items p kvs =
     List.map_filter (\<lambda>(k, val). case consul_path p k of
        None \<Rightarrow> None | Some ps \<Rightarrow> map_option (\<lambda>s. (ps, GStr s)) (b64_decode val)) kvs"

lemma consul_path_neq: "consul_path p k \<noteq> Some []"
  by (simp add: consul_path_def Let_def)

lemma consul_tree_items: "consul_tree p kvs m0 = Inr m \<Longrightarrow> m = set_all m0 (consul_items p kvs)"
proof (induction kvs arbitrary: m0)
  case (Cons kv kvs)
  obtain k val where kv: "kv = (k, val)" by (cases kv)
  show ?case
  proof (cases "consul_path p k")
    case None
    then show ?thesis using Cons kv by (simp add: consul_items_def List.map_filter_simps)
  next
    case (Some ps)
    then have "ps \<noteq> []" using consul_path_neq [of p k] by auto
    then show ?thesis
      using Cons kv Some by (cases "b64_decode val") (auto simp: consul_items_def List.map_filter_simps)
  qed
qed (simp add: consul_items_def List.map_filter_simps)

lemma consul_items_append: "consul_items p (xs @ ys) = consul_items p xs @ consul_items p ys"
  by (induction xs) (auto simp: consul_items_def List.map_filter_simps split: option.splits)

lemma consul_scope: "consul_tree p kvs m = consul_tree p (filter (\<lambda>kv. consul_contains p (fst kv)) kvs) m"
proof (induction kvs arbitrary: m)
  case (Cons kv kvs)
  obtain k val where kv: "kv = (k, val)" by (cases kv)
  have "\<not> consul_contains p k \<Longrightarrow> consul_path p k = None" by (simp add: consul_path_def Let_def)
  then show ?case using Cons.IH kv by (cases "consul_contains p k") (auto split: option.splits)
qed simp

section \<open>Properties\<close>

text \<open>C20. A value stored in Consul arrives at the path its key spells below the prefix: whatever bytes the value has, they
  come back from base 64, unless a later pair writes to a path above or below. Keys that merely begin like the prefix, such
  as those of a sibling directory, never contribute.\<close>

theorem consul_value:
  assumes "cp_mode p \<noteq> ModeBlob" and "consul_decode p (before @ (consul_key p path, b64_encode v) # after) = Inr m"
    and "path \<noteq> []" and "list_all key_segment path"
    and "list_all (\<lambda>(qs, _). apart qs path) (consul_items p after)"
  shows "get_from (GMap m) path = Some (GStr v) \<and>
    consul_decode p (filter (\<lambda>kv. consul_contains p (fst kv)) (before @ (consul_key p path, b64_encode v) # after)) = Inr m"
proof -
  let ?kvs = "before @ (consul_key p path, b64_encode v) # after"
  have tree: "consul_tree p ?kvs [] = Inr m" using assms(1,2) by (simp add: consul_decode_def)
  have "consul_items p ?kvs = consul_items p before @ (path, GStr v) # consul_items p after"
    using consul_items_append [of p before "(consul_key p path, b64_encode v) # after"]
    by (simp add: consul_items_def List.map_filter_simps consul_path_key [OF assms(3,4)] b64_decode_encode)
  then have "m = set_all [] (consul_items p before @ (path, GStr v) # consul_items p after)" using consul_tree_items [OF tree] by simp
  moreover have "\<forall>pv \<in> set (consul_items p after). apart (fst pv) path" using assms(5) by (auto simp: list_all_iff)
  ultimately have "get_from (GMap m) path = Some (GStr v)" using assms(3) by (simp add: set_all_last)
  then show ?thesis using tree consul_scope [of p ?kvs "[]"] assms(1) by (simp add: consul_decode_def)
qed

definition consul_example :: consul_provider where
  "consul_example =
     \<lparr>cp_name = ''c'', cp_addr = ''http://h'', cp_prefix = ''app'', cp_priority = 30, cp_mode = ModeKV, cp_codec = None,
      cp_token = '''', cp_dc = '''', cp_wait = 300 * 10 ^ 9, cp_max_body = 0\<rparr>"

theorem consul_value_witness:
  "(case consul_decode consul_example [(''app/db/'', ''''), (''app/db/host'', b64_encode ''h=1''), (''apples/x'', ''!''), (''app/name'', b64_encode '''')] of
      Inl e \<Rightarrow> False | Inr m \<Rightarrow> get_from (GMap m) [''db'', ''host''] = Some (GStr ''h=1''))"
proof -
  have dec: "consul_decode consul_example ([(''app/db/'', '''')] @ (consul_key consul_example [''db'', ''host''], b64_encode ''h=1'') #
      [(''apples/x'', ''!''), (''app/name'', b64_encode '''')]) = Inr [(''db'', GMap [(''host'', GStr ''h=1'')]), (''name'', GStr '''')]"
    by code_simp
  have key: "consul_key consul_example [''db'', ''host''] = ''app/db/host''" by code_simp
  have mode: "cp_mode consul_example \<noteq> ModeBlob" by (simp add: consul_example_def)
  have segs: "list_all key_segment [''db'', ''host'']" by (simp add: key_segment_def)
  have items: "list_all (\<lambda>(qs, _). apart qs [''db'', ''host'']) (consul_items consul_example [(''apples/x'', ''!''), (''app/name'', b64_encode '''')])"
    by code_simp
  then show ?thesis
    using consul_value [OF mode dec _ segs items, THEN conjunct1] dec by (simp add: key)
qed

lemma poll_after_reset:
  assumes "new \<noteq> 0" "new \<noteq> co_index s" "co_index s = co_loaded s" "co_cursor s \<le> new"
  shows "fst (consul_poll new [] s)"
  using assms by (auto simp: consul_poll_def consul_sync_def consul_round_def split: prod.splits if_splits)

lemma poll_twice:
  assumes "new \<noteq> 0" "new \<noteq> co_index s"
  shows "fst (consul_poll new [] s) \<or> fst (consul_poll new [] (snd (consul_poll new [] s)))"
proof (cases "co_cursor (consul_sync s) \<le> new")
  case True
  then show ?thesis using assms by (auto simp: consul_poll_def consul_round_def split: prod.splits if_splits)
next
  case False
  then have s': "snd (consul_poll new [] s) = (consul_sync s)\<lparr>co_cursor := 1\<rparr>"
    using assms by (auto simp: consul_poll_def consul_round_def word_gt_0 split: prod.splits if_splits)
  have "(1 :: 64 word) \<le> new" using assms(1) by (metis not_le word_less_1)
  then have "fst (consul_poll new [] (snd (consul_poll new [] s)))"
    unfolding s' by (intro poll_after_reset) (use assms in \<open>auto simp: consul_sync_def\<close>)
  then show ?thesis ..
qed

text \<open>C19. The watch loop keeps asking until a load has accepted: once a query has succeeded every later one blocks; a query
  that finds an index no load has accepted, not even while it blocked, signals it, or the next query does, also after the
  index went backwards because the server restarted; when a load accepted another index meanwhile, one of the next two does;
  and the signal is repeated until the index is accepted.\<close>

theorem consul_watch_settles:
  assumes "consul_poll new loads s = (signalled, s')"
  shows "0 < co_cursor s' \<and> co_index s' = last (co_index s # loads) \<and>
    (\<not> signalled \<longrightarrow> new = 0 \<or> new < co_cursor (consul_sync s) \<or> new = co_index s') \<and>
    (new \<noteq> 0 \<and> new \<noteq> co_index s' \<and> loads = [] \<longrightarrow> fst (consul_poll new [] s')) \<and>
    (new \<noteq> 0 \<and> new \<noteq> co_index s' \<longrightarrow>
       fst (consul_poll new [] s') \<or> fst (consul_poll new [] (snd (consul_poll new [] s'))))"
proof -
  let ?t = "accept_loads loads (consul_sync s)"
  obtain ev where ev: "consul_round new ?t = (ev, s')" "signalled \<longleftrightarrow> ev \<noteq> None"
    using assms by (auto simp: consul_poll_def split: prod.splits)
  have cursor: "0 < co_cursor s'" and kept: "co_index s' = last (co_index s # loads)" "co_loaded s' = co_loaded (consul_sync s)"
    using ev(1) by (auto simp: consul_round_def word_gt_0 split: if_splits)
  have quiet: "\<not> signalled \<longrightarrow> new = 0 \<or> new < co_cursor (consul_sync s) \<or> new = co_index s'"
    using ev kept(1) by (auto simp: consul_round_def split: if_splits)
  have "fst (consul_poll new [] s')" if new: "new \<noteq> 0" "new \<noteq> co_index s'" and none: "loads = []"
  proof (rule poll_after_reset [OF new])
    show "co_index s' = co_loaded s'" using kept none by (simp add: consul_sync_def)
    have "co_cursor s' = new \<or> co_cursor s' = 1" using ev(1) new kept(1) by (auto simp: consul_round_def split: if_splits)
    moreover have "(1 :: 64 word) \<le> new" using new(1) by (metis not_le word_less_1)
    ultimately show "co_cursor s' \<le> new" by auto
  qed
  then show ?thesis using cursor kept(1) quiet poll_twice [of new s'] by blast
qed

text \<open>A server restarts: the index falls from 90 to 7 and is signalled by the second query.\<close>

theorem consul_watch_settles_witness:
  "(let s = \<lparr>co_index = 90, co_cursor = 90, co_loaded = 90\<rparr> in
    \<not> fst (consul_poll 7 [] s) \<and> fst (consul_poll 7 [] (snd (consul_poll 7 [] s))))"
proof -
  let ?s = "\<lparr>co_index = 90, co_cursor = 90, co_loaded = 90\<rparr>"
  have p: "consul_poll 7 [] ?s = (False, ?s\<lparr>co_cursor := 1\<rparr>)"
    by (simp add: consul_poll_def consul_sync_def consul_round_def)
  then show ?thesis using consul_watch_settles [OF p] by (simp add: Let_def)
qed

end
