(* ===== verification/Vault.thy ===== *)
theory Vault
  imports Polling "HOL-Library.Sublist"
begin

text \<open>
  \<open>providers/vault\<close>: the KV v2 secrets of a Vault server, the loop that polls their version, and the renewal of the
  token. The server, its JSON parser and the login are arguments.
\<close>

section \<open>Expanding keys\<close>

text \<open>\<open>strings.Split(s, sep)\<close> and \<open>strings.Count\<close> for a separator that is not empty.\<close>

fun cut_sep :: "string \<Rightarrow> string \<Rightarrow> (string \<times> string) option" where
  "cut_sep sep [] = None"
| "cut_sep sep (c # s) =
     (if has_prefix (c # s) sep then Some ([], drop (length sep) (c # s))
      else map_option (\<lambda>(a, b). (c # a, b)) (cut_sep sep s))"

lemma cut_sep_Some: "cut_sep sep s = Some (a, b) \<Longrightarrow> s = a @ sep @ b"
  by (induction s arbitrary: a b) (auto simp: has_prefix_iff split: if_splits)

function split_sep :: "string \<Rightarrow> string \<Rightarrow> string list" where
  "split_sep sep s =
     (if sep = '''' then [s]
      else case cut_sep sep s of None \<Rightarrow> [s] | Some (a, b) \<Rightarrow> a # split_sep sep b)"
  by auto
termination
  by (relation "measure (length \<circ> snd)") (auto dest!: cut_sep_Some)

declare split_sep.simps [simp del]

definition count_sep :: "string \<Rightarrow> string \<Rightarrow> nat" where
  "count_sep sep s = length (split_sep sep s) - 1"

text \<open>\<open>expand\<close>. A step into a map is that of \<open>confmap.Set\<close>; decoded JSON holds no typed nil map.\<close>

definition expand_order :: "string \<Rightarrow> string list \<Rightarrow> string list" where
  "expand_order sep ks = map snd (sort (map (\<lambda>k. (count_sep sep k, k)) ks))"

definition vault_expand :: "string \<Rightarrow> gmap \<Rightarrow> gmap" where
  "vault_expand sep m =
     (if sep = '''' \<or> m = [] then m
      else foldl (\<lambda>out k. set_from out (split_sep sep k) (the (kv_get m k))) [] (expand_order sep (keys m)))"

section \<open>The provider\<close>

record vault_provider =
  vp_name :: string
  vp_addr :: string
  vp_mount :: string
  vp_path :: string
  vp_priority :: int
  vp_separator :: string
  vp_interval :: int
  vp_max_body :: int
  vp_auth :: bool          \<comment> \<open>whether there is an \<open>Auth\<close>\<close>
  vp_renew_before :: int

text \<open>What changes: the versions \<open>Load\<close> read and \<open>Watch\<close> announced, the token and its lease in seconds.\<close>

record vault_state =
  va_version :: int
  va_notified :: int
  va_token :: string
  va_ttl :: int

definition vault_trim :: "string \<Rightarrow> string" where
  "vault_trim s = rev (dropWhile (\<lambda>c. c = CHR ''/'') (rev (dropWhile (\<lambda>c. c = CHR ''/'') s)))"

definition second_ns :: int where "second_ns = 10 ^ 9"

definition vault_new ::
  "string \<Rightarrow> string \<Rightarrow> string \<Rightarrow> (vault_provider \<Rightarrow> vault_provider) list \<Rightarrow> string + vault_provider \<times> vault_state" where
  "vault_new addr path token opts =
     (if addr = '''' then Inl ''addr is empty''
      else if path = '''' then Inl ''path is empty''
      else let p = foldl (\<lambda>p opt. opt p)
             \<lparr>vp_name = '''', vp_addr = rev (dropWhile (\<lambda>c. c = CHR ''/'') (rev addr)), vp_mount = ''secret'', vp_path = vault_trim path,
              vp_priority = 30, vp_separator = ''.'', vp_interval = 30 * second_ns, vp_max_body = default_max_body, vp_auth = False,
              vp_renew_before = 30 * second_ns\<rparr> opts
           in if token = '''' \<and> \<not> vp_auth p then Inl ''token is empty''
              else Inr (p\<lparr>vp_name := (if vp_name p = '''' then ''vault://'' @ vp_mount p @ ''/'' @ vp_path p else vp_name p)\<rparr>,
                        \<lparr>va_version = 0, va_notified = 0, va_token = token, va_ttl = 0\<rparr>))"

datatype vault_error =
    VaultUnreachable | VaultStatus int string | VaultBody file_error | VaultJson | VaultLogin

text \<open>A login returns a token and its lease in nanoseconds.\<close>

type_synonym vault_login = "(string \<times> int) option"

definition token_auth :: "string \<Rightarrow> vault_login" where
  "token_auth token = Some (token, 0)"

record vault_reply =
  vr_status :: int
  vr_body :: file_data

text \<open>The login of \<open>AppRoleAuth\<close>, whose parser yields the client token and the lease in seconds.\<close>

definition approle_login :: "(string \<Rightarrow> (string \<times> int) option) \<Rightarrow> vault_reply option \<Rightarrow> vault_login" where
  "approle_login parse reply =
     (case reply of
        None \<Rightarrow> None
      | Some r \<Rightarrow>
          if vr_status r \<noteq> 200 then None
          else (case parse (take (64 * 1024) (fd_bytes (vr_body r))) of
                  None \<Rightarrow> None
                | Some (token, lease) \<Rightarrow> if token = '''' then None else Some (token, wrap64 (lease * second_ns))))"

text \<open>Division of Go integers rounds towards zero.\<close>

definition whole_seconds :: "int \<Rightarrow> int" where
  "whole_seconds d = (if d < 0 then - ((- d) div second_ns) else d div second_ns)"

definition set_token :: "string \<Rightarrow> int \<Rightarrow> vault_state \<Rightarrow> vault_state" where
  "set_token token ttl s = s\<lparr>va_token := token, va_ttl := whole_seconds ttl\<rparr>"

text \<open>\<open>ensureToken\<close>: \<open>None\<close> when the login fails.\<close>

definition ensure_token :: "vault_provider \<Rightarrow> vault_login \<Rightarrow> vault_state \<Rightarrow> vault_state option" where
  "ensure_token p login s =
     (if \<not> vp_auth p \<or> va_token s \<noteq> '''' then Some s
      else (case login of None \<Rightarrow> None | Some (token, ttl) \<Rightarrow> Some (set_token token ttl s)))"

definition vault_url :: "vault_provider \<Rightarrow> string \<Rightarrow> string" where
  "vault_url p what = vp_addr p @ ''/v1/'' @ vp_mount p @ ''/'' @ what @ ''/'' @ vp_path p"

text \<open>\<open>readData\<close> and \<open>readMetadataVersion\<close> on the answer to their requests.\<close>

definition read_data ::
  "(string \<Rightarrow> (gmap \<times> int) option) \<Rightarrow> vault_provider \<Rightarrow> vault_reply option \<Rightarrow> vault_error + gmap \<times> int" where
  "read_data parse p reply =
     (case reply of
        None \<Rightarrow> Inl VaultUnreachable
      | Some r \<Rightarrow>
          if vr_status r \<noteq> 200 then Inl (VaultStatus (vr_status r) (trim_space (take 1024 (fd_bytes (vr_body r)))))
          else (case read_all_max (vr_body r) (vp_max_body p) of
                  Inl e \<Rightarrow> Inl (VaultBody e)
                | Inr b \<Rightarrow> (case parse b of None \<Rightarrow> Inl VaultJson | Some d \<Rightarrow> Inr d)))"

definition read_metadata_version ::
  "(string \<Rightarrow> int option) \<Rightarrow> vault_provider \<Rightarrow> vault_reply option \<Rightarrow> vault_error + int" where
  "read_metadata_version parse p reply =
     (case reply of
        None \<Rightarrow> Inl VaultUnreachable
      | Some r \<Rightarrow>
          if vr_status r \<noteq> 200 then Inl (VaultStatus (vr_status r) '''')
          else (case read_all_max (vr_body r) (vp_max_body p) of
                  Inl e \<Rightarrow> Inl (VaultBody e)
                | Inr b \<Rightarrow> (case parse b of None \<Rightarrow> Inl VaultJson | Some v \<Rightarrow> Inr v)))"

section \<open>Loading and watching\<close>

text \<open>The two critical sections of \<open>loadMap\<close>, and those of a tick of \<open>watchLoop\<close>: whether it sends an event for the version
  it read, and what it does when the channel is full.\<close>

definition vault_begin :: "vault_state \<Rightarrow> vault_state" where
  "vault_begin s = s\<lparr>va_notified := 0\<rparr>"

definition vault_end :: "int \<Rightarrow> vault_state \<Rightarrow> vault_state" where
  "vault_end v s = s\<lparr>va_version := v\<rparr>"

definition vault_load ::
  "vault_provider \<Rightarrow> vault_login \<Rightarrow> vault_error + gmap \<times> int \<Rightarrow> vault_state \<Rightarrow> (vault_error + gmap) \<times> vault_state" where
  "vault_load p login answer s =
     (case ensure_token p login (vault_begin s) of
        None \<Rightarrow> (Inl VaultLogin, vault_begin s)
      | Some t \<Rightarrow>
          (case answer of
             Inl e \<Rightarrow> (Inl e, t)
           | Inr (data, v) \<Rightarrow> (Inr (vault_expand (vp_separator p) data), vault_end v t)))"

definition vault_check :: "int \<Rightarrow> vault_state \<Rightarrow> bool \<times> vault_state" where
  "vault_check v s =
     (if v = 0 \<or> v = va_version s \<or> v = va_notified s then (False, s) else (True, s\<lparr>va_notified := v\<rparr>))"

definition vault_unsent :: "int \<Rightarrow> vault_state \<Rightarrow> vault_state" where
  "vault_unsent v s = (if va_notified s = v then s\<lparr>va_notified := 0\<rparr> else s)"

definition vault_tick :: "vault_error + int \<Rightarrow> bool \<Rightarrow> vault_state \<Rightarrow> bool \<times> vault_state" where
  "vault_tick answer room s =
     (case answer of
        Inl e \<Rightarrow> (False, s)
      | Inr v \<Rightarrow> (case vault_check v s of
          (False, s') \<Rightarrow> (False, s')
        | (True, s') \<Rightarrow> if room then (True, s') else (False, vault_unsent v s')))"

text \<open>What \<open>Watch\<close> starts: nothing, or the poller, the renewer or both.\<close>

definition vault_watch :: "vault_provider \<Rightarrow> (bool \<times> bool) option" where
  "vault_watch p =
     (let renews = vp_auth p \<and> 0 < vp_renew_before p in
      if vp_interval p = 0 \<and> \<not> renews then None else Some (0 < vp_interval p, renews))"

section \<open>Renewing the token\<close>




interpretation vault: change_signal "\<lambda>s. True" "\<lambda>v s. v \<noteq> 0" "\<lambda>v s. va_version s = v" "\<lambda>v s. v \<noteq> 0 \<and> va_notified s = v"
  vault_check vault_unsent vault_begin vault_end
  by unfold_locales (auto simp: vault_check_def vault_unsent_def vault_begin_def vault_end_def split: if_splits)

section \<open>Lemmas\<close>

lemma split_sep_unfold: "sep \<noteq> '''' \<Longrightarrow> split_sep sep s = (case cut_sep sep s of None \<Rightarrow> [s] | Some (a, b) \<Rightarrow> a # split_sep sep b)"
  by (subst split_sep.simps) simp

lemma split_sep_neq: "split_sep sep s \<noteq> []"
  by (subst split_sep.simps) (auto split: option.splits)

lemma join_split_sep: "sep \<noteq> '''' \<Longrightarrow> join_with sep (split_sep sep s) = s"
proof (induction sep s rule: split_sep.induct)
  case (1 sep s)
  show ?case
  proof (cases "cut_sep sep s")
    case None
    then show ?thesis using 1 by (simp add: split_sep_unfold)
  next
    case (Some ab)
    obtain a b where ab: "ab = (a, b)" by (cases ab)
    then have s: "s = a @ sep @ b" using Some cut_sep_Some by simp
    have IH: "join_with sep (split_sep sep b) = b" using 1 Some ab by simp
    obtain w ws where b: "split_sep sep b = w # ws" using split_sep_neq [of sep b] by (cases "split_sep sep b") auto
    have "split_sep sep s = a # w # ws" using 1(2) Some ab b by (simp add: split_sep_unfold [of sep s])
    then show ?thesis using s IH b by simp
  qed
qed

lemma split_sep_inj: "sep \<noteq> '''' \<Longrightarrow> split_sep sep s = split_sep sep t \<Longrightarrow> s = t"
  by (metis join_split_sep)

lemma set_expand_order: "set (expand_order sep ks) = set ks"
  by (force simp: expand_order_def)

lemma distinct_expand_order:
  assumes "distinct ks"
  shows "distinct (expand_order sep ks)"
proof -
  have snd: "inj_on snd ((\<lambda>k. (count_sep sep k, k)) ` set ks)" by (auto simp: inj_on_def)
  have "distinct (map (\<lambda>k. (count_sep sep k, k)) ks)" using assms by (simp add: distinct_map inj_on_def)
  then show ?thesis using snd by (simp add: expand_order_def distinct_map)
qed

lemma sort_same: "mset xs = mset ys \<Longrightarrow> sort xs = sort ys"
  by (rule properties_for_sort) simp_all

lemma expand_order_cong:
  assumes "distinct ks" and "distinct ks'" and "set ks = set ks'"
  shows "expand_order sep ks = expand_order sep ks'"
proof -
  have "mset ks = mset ks'" using assms set_eq_iff_mset_eq_distinct [of ks ks'] by blast
  then have "mset (map (\<lambda>k. (count_sep sep k, k)) ks) = mset (map (\<lambda>k. (count_sep sep k, k)) ks')" by (simp only: mset_map)
  then show ?thesis unfolding expand_order_def by (rule arg_cong [OF sort_same])
qed

text \<open>Keys with more segments come later.\<close>

lemma expand_order_split:
  assumes "expand_order sep ks = before @ k # after" and "k' \<in> set after"
  shows "count_sep sep k \<le> count_sep sep k'"
proof -
  let ?f = "\<lambda>k. (count_sep sep k, k)"
  have sorted: "sorted (map ?f (expand_order sep ks))"
  proof -
    have "map (?f \<circ> snd) (sort (map ?f ks)) = sort (map ?f ks)" by (rule map_idI) auto
    then show ?thesis by (simp add: expand_order_def)
  qed
  have "?f k \<le> ?f k'" using sorted assms by (auto simp: sorted_append)
  then show ?thesis by auto
qed

lemma vault_expand_set_all:
  "sep \<noteq> '''' \<Longrightarrow> vault_expand sep m = set_all [] (map (\<lambda>k. (split_sep sep k, the (kv_get m k))) (expand_order sep (keys m)))"
proof -
  assume sep: "sep \<noteq> ''''"
  have "foldl (\<lambda>out k. set_from out (split_sep sep k) (g k)) acc ks = set_all acc (map (\<lambda>k. (split_sep sep k, g k)) ks)" for acc ks g
    by (induction ks arbitrary: acc) (simp_all add: split_sep_neq)
  then show ?thesis using sep by (auto simp: vault_expand_def expand_order_def)
qed

section \<open>Properties\<close>

text \<open>The version of the newest load that ended.\<close>

fun last_read :: "(int change \<times> bool) list \<Rightarrow> int" where
  "last_read [] = 0"
| "last_read ((EndLoad v, b) # seen) = v"
| "last_read (e # seen) = last_read seen"

lemma last_read_run:
  assumes "chronicle (observe vault_check vault_unsent vault_begin vault_end) seen s cs = (seen', s')" and "va_version s = last_read seen"
  shows "va_version s' = last_read seen'"
  using assms
proof (induction cs arbitrary: seen s)
  case (Cons c cs)
  obtain b t where c: "observe vault_check vault_unsent vault_begin vault_end c s = (b, t)" by fastforce
  have "va_version t = last_read ((c, b) # seen)"
    using c Cons.prems(2) by (cases c) (auto simp: vault_check_def vault_unsent_def vault_begin_def vault_end_def split: if_splits)
  then show ?case using Cons c by simp
qed simp

definition vault_fresh :: "string \<Rightarrow> vault_state" where
  "vault_fresh token = \<lparr>va_version = 0, va_notified = 0, va_token = token, va_ttl = 0\<rparr>"

text \<open>C18. No version of a secret is lost: after any interleaving of polls, dropped signals and loads, failed ones included,
  a poll stays quiet about a version only if that version is the one the last successful load read, or an event for it
  was sent and not dropped, and no load began since.\<close>

theorem vault_no_change_lost:
  assumes "chronicle (observe vault_check vault_unsent vault_begin vault_end) [] (vault_fresh token) cs = (seen, s)"
    and "v \<noteq> 0" and "\<not> fst (vault_check v s)"
  shows "last_read seen = v \<or> outstanding v seen"
proof -
  have "va_version s = v \<or> outstanding v seen"
    by (rule vault.no_change_lost [OF assms(1)]) (use assms in \<open>simp_all add: vault_fresh_def\<close>)
  moreover have "va_version s = last_read seen"
    by (rule last_read_run [OF assms(1)]) (simp add: vault_fresh_def)
  ultimately show ?thesis by simp
qed

text \<open>Version 2 is announced, a load for it fails, and it is announced again.\<close>

theorem vault_no_change_lost_witness:
  "(case chronicle (observe vault_check vault_unsent vault_begin vault_end) [] (vault_fresh ''t'')
      [BeginLoad, EndLoad 1, Poll 2, BeginLoad, Poll 2] of
      (seen, s) \<Rightarrow> \<not> fst (vault_check 2 s) \<and> last_read seen = 1 \<and> outstanding 2 seen)"
proof -
  let ?f = "observe vault_check vault_unsent vault_begin vault_end"
  let ?s = "\<lparr>va_version = 1, va_notified = 2, va_token = ''t'', va_ttl = 0\<rparr>"
  let ?seen = "[(Poll 2, True), (BeginLoad, False), (Poll 2, True), (EndLoad 1, False), (BeginLoad, False)] :: (int change \<times> bool) list"
  have run: "chronicle ?f [] (vault_fresh ''t'') [BeginLoad, EndLoad 1, Poll 2, BeginLoad, Poll 2] = (?seen, ?s)"
    by (simp add: vault_fresh_def vault_check_def vault_begin_def vault_end_def)
  have quiet: "\<not> fst (vault_check 2 ?s)" by (simp add: vault_check_def)
  show ?thesis unfolding run using vault_no_change_lost [OF run _ quiet] quiet by simp
qed

text \<open>Expanding a secret gives every key its value at the path the separator spells, unless a longer key goes through it,
  and does not depend on the order in which the map is visited.\<close>

theorem vault_expand_exact:
  assumes "distinct (keys m)" and "(k, v) \<in> set m" and "sep \<noteq> ''''"
    and "list_all (\<lambda>(k', _). \<not> strict_prefix (split_sep sep k) (split_sep sep k')) m"
  shows "get_from (GMap (vault_expand sep m)) (split_sep sep k) = Some v \<and>
    (distinct (keys m') \<and> map_of m' = map_of m \<longrightarrow> vault_expand sep m' = vault_expand sep m)"
proof
  have k: "k \<in> set (expand_order sep (keys m))" using assms(2) by (force simp: set_expand_order)
  then obtain before "after" where ks: "expand_order sep (keys m) = before @ k # after" by (auto dest: split_list)
  let ?p = "\<lambda>k. (split_sep sep k, the (kv_get m k))"
  have later: "apart (split_sep sep k') (split_sep sep k)" if "k' \<in> set after" for k'
  proof -
    have "k' \<noteq> k" using distinct_expand_order [OF assms(1), of sep] ks that by auto
    then have neq: "split_sep sep k' \<noteq> split_sep sep k" using split_sep_inj assms(3) by blast
    have "k' \<in> set (keys m)" using ks that set_expand_order [of sep "keys m"] by auto
    then have "\<not> strict_prefix (split_sep sep k) (split_sep sep k')" using assms(4) by (auto simp: list_all_iff)
    then have no: "\<not> prefix (split_sep sep k) (split_sep sep k')" using neq by (auto simp: strict_prefix_def)
    have "count_sep sep k \<le> count_sep sep k'" by (rule expand_order_split [OF ks that])
    then have "length (split_sep sep k) \<le> length (split_sep sep k')" using split_sep_neq [of sep k'] split_sep_neq [of sep k]
      by (cases "split_sep sep k"; cases "split_sep sep k'") (simp_all add: count_sep_def)
    then have "\<not> prefix (split_sep sep k') (split_sep sep k)" using neq by (auto simp: prefix_def)
    then show ?thesis using no by (simp add: apart_def)
  qed
  have "the (kv_get m k) = v" using assms(1,2) by simp
  then show "get_from (GMap (vault_expand sep m)) (split_sep sep k) = Some v"
    using later set_all_last [of "split_sep sep k" "map ?p after" "[]" "map ?p before" v]
    by (simp add: vault_expand_set_all [OF assms(3)] ks split_sep_neq)
next
  show "distinct (keys m') \<and> map_of m' = map_of m \<longrightarrow> vault_expand sep m' = vault_expand sep m"
  proof
    assume m': "distinct (keys m') \<and> map_of m' = map_of m"
    then have "set (keys m') = set (keys m)" by (metis dom_map_of_conv_image_fst list.set_map)
    then have "expand_order sep (keys m') = expand_order sep (keys m)" using expand_order_cong m' assms(1) by metis
    then show "vault_expand sep m' = vault_expand sep m" using m' by (simp add: vault_expand_set_all [OF assms(3)])
  qed
qed

text \<open>The key \<open>a.b\<close> goes through \<open>a\<close>, whose value it replaces; both others stay.\<close>

theorem vault_expand_exact_witness:
  "get_from (GMap (vault_expand ''.'' [(''a.b'', GStr ''1''), (''a'', GStr ''0''), (''c'', GStr ''2'')])) (split_sep ''.'' ''a.b'') = Some (GStr ''1'') \<and>
   vault_expand ''.'' [(''c'', GStr ''2''), (''a'', GStr ''0''), (''a.b'', GStr ''1'')] =
     vault_expand ''.'' [(''a.b'', GStr ''1''), (''a'', GStr ''0''), (''c'', GStr ''2'')]"
proof -
  let ?m = "[(''a.b'', GStr ''1''), (''a'', GStr ''0''), (''c'', GStr ''2'')]"
  let ?m' = "[(''c'', GStr ''2''), (''a'', GStr ''0''), (''a.b'', GStr ''1'')]"
  have longest: "list_all (\<lambda>(k', _). \<not> strict_prefix (split_sep ''.'' ''a.b'') (split_sep ''.'' k')) ?m" by code_simp
  have same: "map_of ?m' = map_of ?m" by (auto simp: fun_eq_iff)
  show ?thesis using vault_expand_exact [of ?m "''a.b''" "GStr ''1''" "''.''" ?m'] longest same by simp
qed





end
