(* ===== verification/Generate.thy ===== *)
theory Generate
  imports Patch
begin

text \<open>
  \<open>cmd/fastconfgen\<close>: Go struct types from a sample configuration. Types are a datatype that \<open>show_type\<close> prints. A byte
  that is not ASCII counts as a letter without case. The YAML parser and \<open>go/format\<close> are arguments; a parsed sample
  holds no typed nil map.
\<close>

section \<open>Names\<close>

definition candidate :: "string \<Rightarrow> nat \<Rightarrow> string" where
  "candidate base n = (if 1 < n then base @ nat_digits n else base)"

lemma candidate_inj: "0 < m \<Longrightarrow> 0 < n \<Longrightarrow> candidate base m = candidate base n \<longleftrightarrow> m = n"
  by (auto simp: candidate_def nat_digits_neq_Nil dest: nat_digits_inj)

lemma finite_taken: "finite {m. n \<le> m \<and> candidate base m \<in> set ks}"
proof -
  have "inj_on (candidate base) ({m. n \<le> m \<and> candidate base m \<in> set ks} - {0})"
    by (auto simp: inj_on_def candidate_inj)
  moreover have "candidate base ` ({m. n \<le> m \<and> candidate base m \<in> set ks} - {0}) \<subseteq> set ks" by auto
  ultimately show ?thesis by (metis finite_set finite_subset finite_imageD finite_Diff_insert finite_Diff2 finite.emptyI finite.insertI)
qed

text \<open>The loop of \<open>uniqueName\<close> over the names taken.\<close>

function next_free :: "string \<Rightarrow> string list \<Rightarrow> nat \<Rightarrow> nat" where
  "next_free base ks n = (if candidate base n \<in> set ks then next_free base ks (Suc n) else n)"
  by auto
termination
proof (relation "measure (\<lambda>(base, ks, n). card {m. n \<le> m \<and> candidate base m \<in> set ks})")
  fix base :: string and ks n
  assume "candidate base n \<in> set ks"
  then have "n \<in> {m. n \<le> m \<and> candidate base m \<in> set ks}" by simp
  moreover have "n \<notin> {m. Suc n \<le> m \<and> candidate base m \<in> set ks}" by simp
  ultimately have "{m. Suc n \<le> m \<and> candidate base m \<in> set ks} \<subset> {m. n \<le> m \<and> candidate base m \<in> set ks}"
    by (intro psubsetI subsetI) (simp, metis)
  then show "((base, ks, Suc n), base, ks, n) \<in> measure (\<lambda>(base, ks, n). card {m. n \<le> m \<and> candidate base m \<in> set ks})"
    by (simp add: psubset_card_mono finite_taken)
qed simp

declare next_free.simps [simp del]

type_synonym used_names = "(string \<times> nat) list"

definition used_count :: "used_names \<Rightarrow> string \<Rightarrow> nat" where
  "used_count used k = (case kv_get used k of None \<Rightarrow> 0 | Some n \<Rightarrow> n)"

definition unique_name :: "string \<Rightarrow> used_names \<Rightarrow> string \<times> used_names" where
  "unique_name base used =
     (let n = next_free base (keys used) (used_count used base + 1);
          name = candidate base n;
          used' = kv_set base n used
      in (name, kv_set name (max (used_count used' name) 1) used'))"

definition is_letter :: "char \<Rightarrow> bool" where
  "is_letter c \<longleftrightarrow> is_lower c \<or> is_upper c \<or> 128 \<le> (of_char c :: nat)"

fun split_ident :: "string \<Rightarrow> string \<Rightarrow> string list" where
  "split_ident cur [] = (if cur = '''' then [] else [cur])"
| "split_ident cur (c # s) =
     (if is_letter c \<or> is_digit c then split_ident (cur @ [c]) s
      else (if cur = '''' then [] else [cur]) @ split_ident '''' s)"

definition upper_char :: "char \<Rightarrow> char" where
  "upper_char c = (if is_lower c then char_of (of_char c - 32 :: nat) else c)"

fun capitalize :: "string \<Rightarrow> string" where
  "capitalize '''' = ''''"
| "capitalize (c # s) = upper_char c # s"

definition initialisms :: "(string \<times> string) list" where
  "initialisms =
     [(''id'', ''ID''), (''url'', ''URL''), (''uri'', ''URI''), (''http'', ''HTTP''), (''https'', ''HTTPS''),
      (''api'', ''API''), (''ip'', ''IP''), (''tcp'', ''TCP''), (''udp'', ''UDP''), (''tls'', ''TLS''),
      (''sql'', ''SQL''), (''json'', ''JSON''), (''yaml'', ''YAML''), (''uuid'', ''UUID''), (''db'', ''DB'')]"

definition export_name :: "string \<Rightarrow> string" where
  "export_name k =
     (let out = concat (map (\<lambda>p. case kv_get initialisms (to_lower p) of Some up \<Rightarrow> up | None \<Rightarrow> capitalize p) (split_ident '''' k))
      in if out = '''' then ''Field'' else if is_upper (hd out) then out else ''F'' @ out)"

definition unique_export_name :: "string \<Rightarrow> used_names \<Rightarrow> string \<times> used_names" where
  "unique_export_name k used = unique_name (export_name k) used"

definition tag_punctuation :: string where
  "tag_punctuation = ''!#$%&()*+-./:;<=>?@[]^_{|}~ ''"

definition valid_tag_key :: "string \<Rightarrow> bool" where
  "valid_tag_key key \<longleftrightarrow>
     key \<noteq> '''' \<and> key \<noteq> ''-'' \<and> list_all (\<lambda>c. is_letter c \<or> is_digit c \<or> c \<in> set tag_punctuation) key"

section \<open>Types of samples\<close>

datatype gen_type = TAny | TString | TBool | TInt64 | TFloat64 | TSlice gen_type | TNamed string

fun show_type :: "gen_type \<Rightarrow> string" where
  "show_type TAny = ''any''"
| "show_type TString = ''string''"
| "show_type TBool = ''bool''"
| "show_type TInt64 = ''int64''"
| "show_type TFloat64 = ''float64''"
| "show_type (TSlice t) = ''[]'' @ show_type t"
| "show_type (TNamed n) = n"

fun scalar_type :: "gval \<Rightarrow> gen_type" where
  "scalar_type (GLeaf (LStr s)) = TString"
| "scalar_type (GLeaf (LBool b)) = TBool"
| "scalar_type (GLeaf (LInt k n)) = TInt64"
| "scalar_type (GLeaf (LFloat32 x)) = TFloat64"
| "scalar_type (GLeaf (LFloat64 x)) = TFloat64"
| "scalar_type v = TAny"

text \<open>The type \<open>""\<close> of a slice that showed no scalar yet is \<open>None\<close>.\<close>

fun merge_scalar_type :: "gen_type option \<Rightarrow> gen_type \<Rightarrow> gen_type" where
  "merge_scalar_type None b = b"
| "merge_scalar_type (Some a) b =
     (if a = b then a
      else if a = TInt64 \<and> b = TFloat64 \<or> a = TFloat64 \<and> b = TInt64 then TFloat64
      else TAny)"

text \<open>The pointer \<open>anySample\<close>: a value of some other type.\<close>

definition any_sample :: gval where "any_sample = GLeaf (LOther ''anySample'')"

fun sample_of_type :: "gen_type \<Rightarrow> gval" where
  "sample_of_type TString = GStr ''''"
| "sample_of_type TBool = GBool False"
| "sample_of_type TInt64 = GInt KInt64 0"
| "sample_of_type TFloat64 = GLeaf (LFloat64 (FFin 0))"
| "sample_of_type t = any_sample"

definition merge_others :: "gval \<Rightarrow> gval \<Rightarrow> gval" where
  "merge_others a b =
     (if as_map a \<noteq> None \<or> as_map b \<noteq> None then any_sample
      else case (as_slice a, as_slice b) of
        (Some xs, Some ys) \<Rightarrow> if xs @ ys = [] then GNilSlice else GSlice (xs @ ys)
      | (None, None) \<Rightarrow> sample_of_type (merge_scalar_type (Some (scalar_type a)) (scalar_type b))
      | _ \<Rightarrow> any_sample)"

fun merge_sample_value :: "gval \<Rightarrow> gval \<Rightarrow> gval"
  and merge_sample_map :: "gmap \<Rightarrow> gmap \<Rightarrow> gmap" where
  "merge_sample_value a b =
     (if a = any_sample \<or> b = any_sample then any_sample
      else if a = GNil then b
      else if b = GNil then a
      else case b of
        GMap bm \<Rightarrow> (case a of GMap am \<Rightarrow> GMap (merge_sample_map am bm) | _ \<Rightarrow> any_sample)
      | _ \<Rightarrow> merge_others a b)"
| "merge_sample_map dst [] = dst"
| "merge_sample_map dst ((k, v) # src) =
     merge_sample_map (case kv_get dst k of Some old \<Rightarrow> kv_set k (merge_sample_value old v) dst | None \<Rightarrow> kv_set k v dst) src"

section \<open>Emitting structs\<close>

record gen_field =
  gf_name :: string
  gf_type :: gen_type
  gf_key :: string

type_synonym gen_decl = "string \<times> gen_field list"
type_synonym nested_struct = "string \<times> gmap"

text \<open>The loop of \<open>sliceElemType\<close>: \<open>None\<close> when it returns \<open>any\<close> early, else the scalar type and the object.\<close>

fun scan_items :: "gen_type option \<Rightarrow> gmap option \<Rightarrow> gval list \<Rightarrow> (gen_type option \<times> gmap option) option" where
  "scan_items sc ob [] = Some (sc, ob)"
| "scan_items sc ob (v # vs) =
     (if v = GNil then scan_items sc ob vs
      else case v of
        GMap m \<Rightarrow>
          if sc \<noteq> None then None
          else scan_items sc (Some (merge_sample_map (case ob of None \<Rightarrow> [] | Some oo \<Rightarrow> oo) m)) vs
      | _ \<Rightarrow>
          if scalar_type v = TAny \<or> ob \<noteq> None then None
          else let sc' = merge_scalar_type sc (scalar_type v) in if sc' = TAny then None else scan_items (Some sc') ob vs)"

definition slice_elem_type :: "string \<Rightarrow> gval list \<Rightarrow> used_names \<Rightarrow> gen_type \<times> nested_struct list \<times> used_names" where
  "slice_elem_type hint vs ut =
     (case scan_items None None vs of
        Some (sc, Some oo) \<Rightarrow> (case unique_name (hint @ ''Item'') ut of (n, ut') \<Rightarrow> (TNamed n, [(n, oo)], ut'))
      | Some (Some t, None) \<Rightarrow> (t, [], ut)
      | _ \<Rightarrow> (TAny, [], ut))"

definition field_type :: "string \<Rightarrow> gval \<Rightarrow> used_names \<Rightarrow> gen_type \<times> nested_struct list \<times> used_names" where
  "field_type hint v ut =
     (case v of
        GMap m \<Rightarrow> (case unique_name hint ut of (n, ut') \<Rightarrow> (TNamed n, [(n, m)], ut'))
      | _ \<Rightarrow>
          (case as_slice v of
             Some vs \<Rightarrow> (case slice_elem_type hint vs ut of (t, ns, ut') \<Rightarrow> (TSlice t, ns, ut'))
           | None \<Rightarrow> (scalar_type v, [], ut)))"

datatype gen_error = BadKey string | NoFuel

text \<open>The loop over the sorted keys of a map.\<close>

fun emit_fields ::
  "string \<Rightarrow> (string \<times> gval) list \<Rightarrow> used_names \<Rightarrow> used_names \<Rightarrow> gen_error + gen_field list \<times> nested_struct list \<times> used_names" where
  "emit_fields name [] uf ut = Inr ([], [], ut)"
| "emit_fields name ((k, v) # kvs) uf ut =
     (if \<not> valid_tag_key k then Inl (BadKey k)
      else case unique_export_name k uf of
        (fname, uf') \<Rightarrow>
          (case field_type (name @ fname) v ut of
             (t, ns, ut') \<Rightarrow>
               rbind (emit_fields name kvs uf' ut') (\<lambda>(fs, ns', ut'').
                 Inr (\<lparr>gf_name = fname, gf_type = t, gf_key = k\<rparr> # fs, ns @ ns', ut''))))"

definition sorted_entries :: "gmap \<Rightarrow> (string \<times> gval) list" where
  "sorted_entries m = map (\<lambda>k. (k, the (kv_get m k))) (sort (keys m))"

text \<open>\<open>emitStruct\<close> nests as deep as the sample; the fuel is its depth.\<close>

fun emit_struct :: "nat \<Rightarrow> string \<Rightarrow> gmap \<Rightarrow> used_names \<Rightarrow> gen_error + gen_decl list \<times> used_names"
  and emit_nests :: "nat \<Rightarrow> nested_struct list \<Rightarrow> used_names \<Rightarrow> gen_error + gen_decl list \<times> used_names" where
  "emit_struct 0 name m ut = Inl NoFuel"
| "emit_struct (Suc n) name m ut =
     rbind (emit_fields name (sorted_entries m) [] ut) (\<lambda>(fs, ns, ut').
       rbind (emit_nests n ns ut') (\<lambda>(ds, ut''). Inr ((name, fs) # ds, ut'')))"
| "emit_nests n [] ut = Inr ([], ut)"
| "emit_nests n ((name, m) # ns) ut =
     rbind (emit_struct n name m ut) (\<lambda>(ds, ut').
       rbind (emit_nests n ns ut') (\<lambda>(es, ut''). Inr (ds @ es, ut'')))"

fun sample_depth :: "gval \<Rightarrow> nat" where
  "sample_depth (GMap kvs) = Suc (fold max (map (\<lambda>kv. sample_depth (snd kv)) kvs) 0)"
| "sample_depth (GSlice vs) = Suc (fold max (map sample_depth vs) 0)"
| "sample_depth v = 0"

definition emit :: "string \<Rightarrow> gmap \<Rightarrow> gen_error + gen_decl list" where
  "emit name m = rbind (emit_struct (sample_depth (GMap m)) name m [(name, 1)]) (\<lambda>(ds, ut). Inr ds)"

definition show_field :: "gen_field \<Rightarrow> string" where
  "show_field f =
     CHR 0x09 # gf_name f @ '' '' @ show_type (gf_type f) @ '' `yaml:'' @ [CHR 0x22] @ gf_key f @ [CHR 0x22] @
     '' json:'' @ [CHR 0x22] @ gf_key f @ [CHR 0x22] @ ''`'' @ [CHR 0x0A]"

definition show_decl :: "gen_decl \<Rightarrow> string" where
  "show_decl d = ''type '' @ fst d @ '' struct {'' @ [CHR 0x0A] @ concat (map show_field (snd d)) @ ''}'' @ [CHR 0x0A, CHR 0x0A]"

definition render_source :: "(string \<Rightarrow> string option) \<Rightarrow> string \<Rightarrow> string \<Rightarrow> gmap \<Rightarrow> (string + gen_error) + string" where
  "render_source fmt pkg name m =
     (case emit name m of
        Inl e \<Rightarrow> Inl (Inr e)
      | Inr ds \<Rightarrow>
          (case fmt (''// Code generated by fastconfgen. DO NOT EDIT.'' @ [CHR 0x0A, CHR 0x0A] @ ''package '' @ pkg @ [CHR 0x0A, CHR 0x0A] @
                     concat (map show_decl ds)) of
             None \<Rightarrow> Inl (Inl ''format generated source'')
           | Some out \<Rightarrow> Inr out))"

section \<open>Names are unique\<close>

lemma next_free_spec: "candidate base (next_free base ks n) \<notin> set ks \<and> n \<le> next_free base ks n \<and>
    (\<forall>m. n \<le> m \<and> m < next_free base ks n \<longrightarrow> candidate base m \<in> set ks)"
proof (induction base ks n rule: next_free.induct)
  case (1 base ks n)
  show ?case
  proof (cases "candidate base n \<in> set ks")
    case True
    then have "next_free base ks n = next_free base ks (Suc n)" by (simp add: next_free.simps [of base ks n])
    then show ?thesis using 1 True by (metis Suc_leD le_antisym not_less_eq_eq)
  next
    case False
    then have "next_free base ks n = n" by (simp add: next_free.simps [of base ks n])
    then show ?thesis using False by auto
  qed
qed

lemma unique_name_fresh:
  assumes "unique_name base used = (name, used')"
  shows "name \<notin> set (keys used) \<and> set (keys used') = insert name (set (keys used))"
proof -
  let ?n = "next_free base (keys used) (used_count used base + 1)"
  have fresh: "candidate base ?n \<notin> set (keys used)" using next_free_spec [of base "keys used"] by blast
  have name: "name = candidate base ?n" using assms by (simp add: unique_name_def Let_def)
  have "base \<in> insert name (set (keys used))"
  proof (cases "base \<in> set (keys used)")
    case False
    then have "used_count used base = 0" by (auto simp: used_count_def split: option.splits dest: map_of_SomeD) (force dest: map_of_SomeD)
    then have "?n = 1" using False by (simp add: next_free.simps [of base "keys used" "Suc 0"] candidate_def)
    then show ?thesis using name by (simp add: candidate_def)
  qed simp
  moreover obtain x y where "used' = kv_set name x (kv_set base y used)" using assms name by (auto simp: unique_name_def Let_def)
  then have "set (keys used') = insert name (insert base (set (keys used)))" by (simp only: set_keys_kv_set)
  ultimately show ?thesis using fresh name by auto
qed

text \<open>\<open>names\<close> were free in \<open>ut\<close> and are what \<open>ut'\<close> adds to it.\<close>

definition new_names :: "used_names \<Rightarrow> string list \<Rightarrow> used_names \<Rightarrow> bool" where
  "new_names ut names ut' \<longleftrightarrow>
     distinct names \<and> set names \<inter> set (keys ut) = {} \<and> set (keys ut') = set (keys ut) \<union> set names"

lemma new_names_Nil [simp]: "new_names ut [] ut' \<longleftrightarrow> set (keys ut') = set (keys ut)"
  by (auto simp: new_names_def)

lemma new_names_one: "unique_name base ut = (n, ut') \<Longrightarrow> new_names ut [n] ut'"
  using unique_name_fresh [of base ut n ut'] by (simp add: new_names_def)

lemma new_names_append: "new_names ut xs ut1 \<Longrightarrow> new_names ut1 ys ut2 \<Longrightarrow> new_names ut (xs @ ys) ut2"
  unfolding new_names_def distinct_append set_append by blast

lemma new_names_perm: "mset xs = mset ys \<Longrightarrow> new_names ut xs ut' \<Longrightarrow> new_names ut ys ut'"
  by (metis new_names_def mset_eq_imp_distinct_iff mset_eq_setD)

lemma field_type_names:
  assumes "field_type hint v ut = (t, ns, ut')"
  shows "new_names ut (map fst ns) ut'"
proof -
  have slice: "new_names ut (map fst ns) ut'" if "slice_elem_type h vs ut = (t, ns, ut')" for h vs t
    using that new_names_one [of "h @ ''Item''" ut] by (auto simp: slice_elem_type_def split: option.splits prod.splits)
  show ?thesis
    using assms new_names_one [of hint ut] slice [of hint]
    by (cases v) (auto simp: field_type_def split: prod.splits option.splits)
qed

lemma emit_fields_step:
  "emit_fields name ((k, v) # kvs) uf ut = Inr (fs, ns, ut') \<longleftrightarrow>
   valid_tag_key k \<and> (\<exists>fname uf' t ns1 ut1 fs2 ns2. unique_export_name k uf = (fname, uf') \<and>
     field_type (name @ fname) v ut = (t, ns1, ut1) \<and> emit_fields name kvs uf' ut1 = Inr (fs2, ns2, ut') \<and>
     fs = \<lparr>gf_name = fname, gf_type = t, gf_key = k\<rparr> # fs2 \<and> ns = ns1 @ ns2)"
  by (auto simp: rbind_Inr_iff split: prod.splits)

declare emit_fields.simps(2) [simp del]

lemma emit_fields_names:
  "emit_fields name kvs uf ut = Inr (fs, ns, ut') \<Longrightarrow>
   new_names ut (map fst ns) ut' \<and> map gf_key fs = map fst kvs \<and> (\<exists>uf'. new_names uf (map gf_name fs) uf')"
proof (induction kvs arbitrary: uf ut fs ns)
  case Nil
  then show ?case by auto
next
  case (Cons kv kvs)
  obtain k v where kv: "kv = (k, v)" by (cases kv)
  obtain fname uf' t ns1 ut1 fs2 ns2 where s: "unique_export_name k uf = (fname, uf')" "field_type (name @ fname) v ut = (t, ns1, ut1)"
    "emit_fields name kvs uf' ut1 = Inr (fs2, ns2, ut')" "fs = \<lparr>gf_name = fname, gf_type = t, gf_key = k\<rparr> # fs2" "ns = ns1 @ ns2"
    using Cons.prems unfolding kv emit_fields_step by blast
  have IH: "new_names ut1 (map fst ns2) ut'" "map gf_key fs2 = map fst kvs" "\<exists>u. new_names uf' (map gf_name fs2) u"
    using Cons.IH [OF s(3)] by auto
  have "new_names uf [fname] uf'" using s(1) new_names_one by (simp add: unique_export_name_def)
  then have "\<exists>u. new_names uf (map gf_name fs) u" using IH(3) new_names_append [of uf "[fname]"] s(4) by fastforce
  moreover have "new_names ut (map fst ns) ut'" using new_names_append [OF field_type_names [OF s(2)] IH(1)] s(5) by simp
  ultimately show ?case using IH(2) s(4) kv by simp
qed

text \<open>The structs a call emits: its own first, under the name it was given, then new ones.\<close>

lemma emit_struct_step:
  "emit_struct (Suc n) name m ut = Inr (ds, ut') \<longleftrightarrow>
   (\<exists>fs ns ut1 es. emit_fields name (sorted_entries m) [] ut = Inr (fs, ns, ut1) \<and> emit_nests n ns ut1 = Inr (es, ut') \<and>
      ds = (name, fs) # es)"
  by (auto simp: rbind_Inr_iff)

lemma emit_nests_step:
  "emit_nests n ((name, m) # ns) ut = Inr (ds, ut') \<longleftrightarrow>
   (\<exists>es1 ut1 es2. emit_struct n name m ut = Inr (es1, ut1) \<and> emit_nests n ns ut1 = Inr (es2, ut') \<and> ds = es1 @ es2)"
  by (auto simp: rbind_Inr_iff)

declare emit_struct.simps(2) [simp del] emit_nests.simps(2) [simp del]

lemma emit_names:
  "emit_struct n name m ut = Inr (ds, ut') \<Longrightarrow> \<exists>rest. map fst ds = name # rest \<and> new_names ut rest ut'"
  "emit_nests n ns ut = Inr (ds, ut') \<Longrightarrow> \<exists>rest. new_names ut rest ut' \<and> mset (map fst ds) = mset (map fst ns) + mset rest"
proof (induction n name m ut and n ns ut arbitrary: ds ut' and ds ut' rule: emit_struct_emit_nests.induct)
  case (2 n name m ut)
  obtain fs ns ut1 es where f: "emit_fields name (sorted_entries m) [] ut = Inr (fs, ns, ut1)" "emit_nests n ns ut1 = Inr (es, ut')"
    "ds = (name, fs) # es"
    using "2.prems" unfolding emit_struct_step by blast
  obtain rest where r: "new_names ut1 rest ut'" "mset (map fst es) = mset (map fst ns) + mset rest"
    using "2.IH" f(1,2) by blast
  have "new_names ut (map fst ns @ rest) ut'" using new_names_append r(1) emit_fields_names [OF f(1)] by blast
  then have "new_names ut (map fst es) ut'" using r(2) by (metis mset_append new_names_perm)
  then show ?case using f(3) by simp
next
  case (4 n name m ns ut)
  obtain es1 ut1 es2 where s: "emit_struct n name m ut = Inr (es1, ut1)" "emit_nests n ns ut1 = Inr (es2, ut')" "ds = es1 @ es2"
    using "4.prems" unfolding emit_nests_step by blast
  obtain r1 where r1: "map fst es1 = name # r1" "new_names ut r1 ut1" using "4.IH"(1) [OF s(1)] by auto
  obtain r2 where r2: "new_names ut1 r2 ut'" "mset (map fst es2) = mset (map fst ns) + mset r2" using "4.IH"(2) [OF s(1) refl s(2)] by blast
  have "new_names ut (r1 @ r2) ut'" using new_names_append r1(2) r2(1) by blast
  moreover have "mset (map fst ds) = mset (map fst ((name, m) # ns)) + mset (r1 @ r2)"
    unfolding s(3) map_append mset_append r1(1) r2(2) by simp
  ultimately show ?case by blast
qed auto

section \<open>What a sample covers\<close>

text \<open>\<open>covers v w\<close>: the sample \<open>w\<close> shows everything \<open>v\<close> has.\<close>

definition is_scalar :: "gval \<Rightarrow> bool" where
  "is_scalar v \<longleftrightarrow> v \<noteq> GNil \<and> (\<exists>l. v = GLeaf l)"

definition type_le :: "gen_type \<Rightarrow> gen_type \<Rightarrow> bool" where
  "type_le s t \<longleftrightarrow> s = t \<or> t = TAny \<or> s = TInt64 \<and> t = TFloat64"

inductive covers :: "gval \<Rightarrow> gval \<Rightarrow> bool" where
  Nil: "covers GNil w"
| Any: "covers v any_sample"
| Scalar: "is_scalar v \<Longrightarrow> is_scalar w \<Longrightarrow> type_le (scalar_type v) (scalar_type w) \<Longrightarrow> covers v w"
| Map: "as_map v = Some kvs \<Longrightarrow> as_map w = Some m \<Longrightarrow>
    (\<And>k x. (k, x) \<in> set kvs \<Longrightarrow> \<exists>y. kv_get m k = Some y \<and> covers x y) \<Longrightarrow> covers v w"
| List: "as_slice v = Some xs \<Longrightarrow> as_slice w = Some ys \<Longrightarrow> set xs \<subseteq> set ys \<Longrightarrow> covers v w"

inductive_cases covers_mapE: "covers v (GMap m)"
inductive_cases covers_leafE: "covers v (GLeaf l)"
inductive_cases covers_sliceE: "covers v (GSlice ys)"
inductive_cases covers_nil_sliceE: "covers v GNilSlice"
inductive_cases covers_nil_mapE: "covers v GNilMap"

lemma any_sample_simps [simp]: "any_sample \<noteq> GNil" "GNil \<noteq> any_sample" "GMap m \<noteq> any_sample" "GSlice ys \<noteq> any_sample"
  "as_map any_sample = None" "as_slice any_sample = None" "is_scalar any_sample" "scalar_type any_sample = TAny" "sample_depth any_sample = 0"
  "any_sample \<noteq> GMap m" "any_sample \<noteq> GSlice ys" "any_sample \<noteq> GNilSlice" "GNilSlice \<noteq> any_sample"
  by (simp_all add: any_sample_def is_scalar_def)

lemma type_le_trans: "type_le s t \<Longrightarrow> type_le t u \<Longrightarrow> type_le s u"
  by (auto simp: type_le_def)

lemma type_le_merge: "type_le s (merge_scalar_type (Some s) t)" "type_le t (merge_scalar_type (Some s) t)"
  by (auto simp: type_le_def)

definition basic :: "gen_type \<Rightarrow> bool" where
  "basic t \<longleftrightarrow> t \<in> set [TAny, TString, TBool, TInt64, TFloat64]"

lemma basic_scalar [simp]: "basic (scalar_type v)"
  by (cases v rule: scalar_type.cases) (simp_all add: basic_def)

lemma basic_merge: "basic s \<Longrightarrow> basic t \<Longrightarrow> basic (merge_scalar_type (Some s) t)"
  by (auto simp: basic_def)

lemma sample_of_basic: "basic t \<Longrightarrow> is_scalar (sample_of_type t) \<and> scalar_type (sample_of_type t) = t"
  by (auto simp: basic_def is_scalar_def any_sample_def)

lemma covers_GNil [simp]: "covers v GNil \<longleftrightarrow> v = GNil"
  by (auto intro: covers.intros elim!: covers_leafE simp: is_scalar_def any_sample_def)

lemma covers_map: "covers v (GMap m) \<longleftrightarrow>
    v = GNil \<or> (\<exists>kvs. as_map v = Some kvs \<and> (\<forall>k x. (k, x) \<in> set kvs \<longrightarrow> (\<exists>y. kv_get m k = Some y \<and> covers x y)))"
  by (fastforce intro: covers.intros elim!: covers_mapE simp: is_scalar_def any_sample_def)

lemma covers_slice:
  assumes "as_slice w = Some ys"
  shows "covers v w \<longleftrightarrow> v = GNil \<or> (\<exists>xs. as_slice v = Some xs \<and> set xs \<subseteq> set ys)"
  using assms by (cases w) (auto intro: covers.intros elim!: covers_sliceE covers_nil_sliceE simp: is_scalar_def any_sample_def)

lemma covers_scalar: "covers v (GLeaf l) \<Longrightarrow> l \<noteq> LNil \<Longrightarrow> v = GNil \<or> GLeaf l = any_sample \<or> is_scalar v \<and> type_le (scalar_type v) (scalar_type (GLeaf l))"
  by (auto elim!: covers_leafE)

lemma covers_refl: "wf_val v \<Longrightarrow> covers v v"
proof (induction v)
  case (GLeaf l)
  then show ?case by (cases "GLeaf l = GNil") (auto intro: covers.intros simp: is_scalar_def type_le_def)
next
  case (GMap kvs)
  have "distinct (keys kvs)" using GMap.prems by (simp add: wf_map_distinct)
  then have "kv_get kvs k = Some x \<and> covers x x" if "(k, x) \<in> set kvs" for k x
    using that GMap.IH [of "(k, x)" x] GMap.prems by (auto simp: wf_map_def)
  then show ?case by (auto simp: covers_map)
qed (auto intro: covers.List covers.Map)

lemma gval_kinds: "a \<noteq> GNil \<Longrightarrow> as_map a = None \<Longrightarrow> as_slice a \<noteq> None \<or> is_scalar a"
  by (cases a) (simp_all add: is_scalar_def)

lemma scalar_not_slice: "is_scalar a \<Longrightarrow> as_slice a = None"
  by (auto simp: is_scalar_def)

declare merge_sample_value.simps [simp del]

lemma merge_others_covers:
  assumes "covers v a \<or> covers v b" and "a \<noteq> any_sample" "b \<noteq> any_sample" "a \<noteq> GNil" "b \<noteq> GNil"
  shows "covers v (merge_others a b)"
proof (cases "as_map a \<noteq> None \<or> as_map b \<noteq> None")
  case False
  then have kinds: "as_slice a \<noteq> None \<or> is_scalar a" "as_slice b \<noteq> None \<or> is_scalar b"
    using gval_kinds assms(4,5) by blast+
  consider xs ys where "as_slice a = Some xs" "as_slice b = Some ys" | "as_slice a = None" "as_slice b = None"
    | "(as_slice a = None) \<noteq> (as_slice b = None)" by fastforce
  then show ?thesis
  proof cases
    case (1 xs ys)
    then have "merge_others a b = (if xs @ ys = [] then GNilSlice else GSlice (xs @ ys))" using False by (simp add: merge_others_def)
    moreover have "as_slice (if xs @ ys = [] then GNilSlice else GSlice (xs @ ys)) = Some (xs @ ys)" by simp
    ultimately show ?thesis using assms(1) 1 by (auto simp: covers_slice)
  next
    case 2
    then have sc: "is_scalar a" "is_scalar b" using kinds by auto
    let ?t = "merge_scalar_type (Some (scalar_type a)) (scalar_type b)"
    have w: "merge_others a b = sample_of_type ?t" using False 2 by (simp add: merge_others_def)
    have t: "is_scalar (sample_of_type ?t)" "scalar_type (sample_of_type ?t) = ?t" using sample_of_basic basic_merge by simp_all
    have below: "v = GNil \<or> is_scalar v \<and> type_le (scalar_type v) (scalar_type u)" if u: "covers v u" "is_scalar u" "u \<noteq> any_sample" for u
    proof -
      obtain l where "u = GLeaf l" "l \<noteq> LNil" using u(2) by (auto simp: is_scalar_def)
      then show ?thesis using covers_scalar [of v l] u by auto
    qed
    have "v = GNil \<or> is_scalar v \<and> type_le (scalar_type v) ?t"
      using assms(1) below [OF _ sc(1) assms(2)] below [OF _ sc(2) assms(3)] type_le_merge(1) [of "scalar_type a" "scalar_type b"]
        type_le_merge(2) [of "scalar_type b" "scalar_type a"] type_le_trans by blast
    then show ?thesis using t by (auto simp: w intro: covers.intros)
  next
    case 3
    then show ?thesis using False by (auto simp: merge_others_def intro: covers.Any split: option.splits)
  qed
qed (auto simp: merge_others_def intro: covers.Any)

lemma merge_covers:
  "covers v a \<or> covers v b \<Longrightarrow> covers v (merge_sample_value a b)"
  "(\<exists>y. kv_get dst k = Some y \<and> covers x y) \<or> (\<exists>y. (k, y) \<in> set src \<and> covers x y) \<Longrightarrow>
     \<exists>y. kv_get (merge_sample_map dst src) k = Some y \<and> covers x y"
proof (induction a b and dst src arbitrary: v and k x rule: merge_sample_value_merge_sample_map.induct)
  case (1 a b)
  show ?case
  proof (cases "a = any_sample \<or> b = any_sample \<or> a = GNil \<or> b = GNil")
    case True
    then show ?thesis using 1 by (auto simp: merge_sample_value.simps intro: covers.intros)
  next
    case False
    show ?thesis
    proof (cases "\<exists>bm. b = GMap bm")
      case True
      then obtain bm where b: "b = GMap bm" by blast
      show ?thesis
      proof (cases "\<exists>am. a = GMap am")
        case True
        then obtain am where a: "a = GMap am" by blast
        have IH: "(\<exists>y. kv_get am k = Some y \<and> covers x y) \<or> (\<exists>y. (k, y) \<in> set bm \<and> covers x y) \<Longrightarrow>
            \<exists>y. kv_get (merge_sample_map am bm) k = Some y \<and> covers x y" for k x
          using "1.IH" False b a by auto
        have merged: "merge_sample_value a b = GMap (merge_sample_map am bm)" using False a b by (simp add: merge_sample_value.simps)
        have "v = GNil \<or> (\<exists>kvs. as_map v = Some kvs \<and> (\<forall>k x. (k, x) \<in> set kvs \<longrightarrow> (\<exists>y. kv_get (merge_sample_map am bm) k = Some y \<and> covers x y)))"
          using "1.prems" IH unfolding a b covers_map by (blast dest: map_of_SomeD)
        then show ?thesis unfolding merged covers_map .
      next
        case not_map: False
        then have "merge_sample_value a b = any_sample" using False b by (cases a) (auto simp: merge_sample_value.simps)
        then show ?thesis by (simp add: covers.Any)
      qed
    next
      case not_map: False
      then have "merge_sample_value a b = merge_others a b" using False by (cases b) (auto simp: merge_sample_value.simps)
      then show ?thesis using merge_others_covers [of v a b] "1.prems" False by simp
    qed
  qed
next
  case (3 dst k' v' src)
  let ?dst = "case kv_get dst k' of Some old \<Rightarrow> kv_set k' (merge_sample_value old v') dst | None \<Rightarrow> kv_set k' v' dst"
  have now: "\<exists>y. kv_get ?dst k = Some y \<and> covers x y" if "(\<exists>y. kv_get dst k = Some y \<and> covers x y) \<or> k = k' \<and> covers x v'"
  proof (cases "kv_get dst k'")
    case None
    then show ?thesis using that by (auto simp: update_conv')
  next
    case (Some old)
    then have "covers x old \<or> covers x v' \<Longrightarrow> covers x (merge_sample_value old v')" using "3.IH"(1) by blast
    then show ?thesis using that Some by (auto simp: update_conv')
  qed
  have "(\<exists>y. kv_get ?dst k = Some y \<and> covers x y) \<or> (\<exists>y. (k, y) \<in> set src \<and> covers x y)"
    using "3.prems" now by auto
  then show ?case using "3.IH"(2) by simp
qed auto

lemma covers_merge_map:
  "covers u (GMap dst) \<Longrightarrow> covers u (GMap (merge_sample_map dst src))"
  "wf_map src \<Longrightarrow> covers (GMap src) (GMap (merge_sample_map dst src))"
proof -
  show "covers u (GMap (merge_sample_map dst src))" if "covers u (GMap dst)"
    using that merge_covers(2) [of dst _ _ src] unfolding covers_map by blast
  show "covers (GMap src) (GMap (merge_sample_map dst src))" if "wf_map src"
    using covers_refl [of "GMap src"] that merge_covers(2) [of dst _ _ src] unfolding covers_map
    by (metis as_map.simps(1) covers_refl snd_conv wf_map_def)
qed

section \<open>Values that fit a type\<close>

text \<open>What \<open>encoding/json\<close> decodes into a type without an unknown key: \<open>null\<close> goes anywhere, an integer into
  \<open>float64\<close> too, and a key needs the field that carries it in its tag.\<close>

fun leaf_fits :: "gen_type \<Rightarrow> leaf \<Rightarrow> bool" where
  "leaf_fits TString (LStr s) = True"
| "leaf_fits TBool (LBool b) = True"
| "leaf_fits TInt64 (LInt k n) = (min_int64 \<le> n \<and> n \<le> max_int64)"
| "leaf_fits TFloat64 (LInt k n) = True"
| "leaf_fits TFloat64 (LFloat32 x) = True"
| "leaf_fits TFloat64 (LFloat64 x) = True"
| "leaf_fits t l = False"

definition field_for :: "gen_field list \<Rightarrow> string \<Rightarrow> gen_type option" where
  "field_for fs k = map_option gf_type (find (\<lambda>f. gf_key f = k) fs)"

function fits :: "gen_decl list \<Rightarrow> gen_type \<Rightarrow> gval \<Rightarrow> bool" where
  "fits D t (GLeaf l) = (t = TAny \<or> l = LNil \<or> leaf_fits t l)"
| "fits D t GNilMap = (t = TAny \<or> (case t of TNamed n \<Rightarrow> True | _ \<Rightarrow> False))"
| "fits D t GNilSlice = (t = TAny \<or> (case t of TSlice u \<Rightarrow> True | _ \<Rightarrow> False))"
| "fits D t (GSlice vs) = (t = TAny \<or> (case t of TSlice u \<Rightarrow> list_all (fits D u) vs | _ \<Rightarrow> False))"
| "fits D t (GMap kvs) =
     (t = TAny \<or>
      (case t of
         TNamed n \<Rightarrow>
           (case map_of D n of
              None \<Rightarrow> False
            | Some fs \<Rightarrow> list_all (\<lambda>kv. case field_for fs (fst kv) of None \<Rightarrow> False | Some u \<Rightarrow> fits D u (snd kv)) kvs)
       | _ \<Rightarrow> False))"
  by pat_completeness auto
termination
  by (relation "measure (\<lambda>(D, t, v). size v)") (auto dest!: size_in_map size_in_slice)

fun ints_ok :: "gval \<Rightarrow> bool" where
  "ints_ok (GLeaf l) = (case l of LInt k n \<Rightarrow> min_int64 \<le> n \<and> n \<le> max_int64 | _ \<Rightarrow> True)"
| "ints_ok (GMap kvs) = list_all (\<lambda>kv. ints_ok (snd kv)) kvs"
| "ints_ok (GSlice vs) = list_all ints_ok vs"
| "ints_ok v = True"

lemma leaf_fits_own: "ints_ok (GLeaf l) \<Longrightarrow> scalar_type (GLeaf l) \<noteq> TAny \<Longrightarrow> leaf_fits (scalar_type (GLeaf l)) l"
  by (cases l) (auto split: if_splits)

lemma leaf_fits_mono: "leaf_fits s l \<Longrightarrow> type_le s t \<Longrightarrow> t = TAny \<or> leaf_fits t l"
  by (cases l) (auto simp: type_le_def elim: leaf_fits.elims)

lemma fits_scalar:
  assumes "is_scalar v" and "ints_ok v" and "type_le (scalar_type v) t"
  shows "fits D t v"
proof (cases "t = TAny")
  case False
  obtain l where v: "v = GLeaf l" using assms(1) by (auto simp: is_scalar_def)
  have "scalar_type v \<noteq> TAny" using assms(3) False by (auto simp: type_le_def)
  then have "leaf_fits (scalar_type v) l" using leaf_fits_own assms(2) v by blast
  then have "leaf_fits t l" using leaf_fits_mono [OF _ assms(3)] False by blast
  then show ?thesis by (simp add: v)
qed (use assms(1) in \<open>auto simp: is_scalar_def\<close>)

section \<open>Generated types accept the sample\<close>

lemma wf_merge_sample:
  "wf_val a \<Longrightarrow> wf_val b \<Longrightarrow> wf_val (merge_sample_value a b)"
  "wf_map dst \<Longrightarrow> wf_map src \<Longrightarrow> wf_map (merge_sample_map dst src)"
proof (induction a b and dst src rule: merge_sample_value_merge_sample_map.induct)
  case (1 a b)
  have any: "wf_val any_sample" by (simp add: any_sample_def)
  have "wf_val (sample_of_type t)" for t by (cases t) (simp_all add: any)
  then have "wf_val (merge_others a b)"
    using 1 any by (cases a; cases b) (auto simp: merge_others_def split: option.splits)
  then show ?case
    using 1 any by (cases a; cases b) (auto simp: merge_sample_value.simps)
next
  case (3 dst k v src)
  then show ?case by (cases "kv_get dst k") (auto simp: wf_map_Cons intro!: wf_map_set dest: wf_map_get)
qed auto

definition fits_sample :: "gen_decl list \<Rightarrow> gen_type \<Rightarrow> gval \<Rightarrow> bool" where
  "fits_sample D t w \<longleftrightarrow> (\<forall>v. covers v w \<and> ints_ok v \<longrightarrow> fits D t v)"

lemma fits_GNil [simp]: "fits D t GNil"
  by simp

definition items_seen :: "gen_type option \<Rightarrow> gmap option \<Rightarrow> gval \<Rightarrow> bool" where
  "items_seen sc ob v \<longleftrightarrow>
     v = GNil \<or> (\<exists>oo. ob = Some oo \<and> covers v (GMap oo)) \<or> (\<exists>s. sc = Some s \<and> is_scalar v \<and> type_le (scalar_type v) s)"

lemma scan_items_other:
  "v \<noteq> GNil \<Longrightarrow> \<forall>m. v \<noteq> GMap m \<Longrightarrow> scan_items sc ob (v # vs) =
    (if scalar_type v = TAny \<or> ob \<noteq> None then None
     else let sc' = merge_scalar_type sc (scalar_type v) in if sc' = TAny then None else scan_items (Some sc') ob vs)"
  by (cases v) simp_all

lemma scan_items_seen:
  "scan_items sc ob vs = Some (sc', ob') \<Longrightarrow> list_all wf_val vs \<Longrightarrow> (case ob of None \<Rightarrow> True | Some oo \<Rightarrow> wf_map oo) \<Longrightarrow>
   (case ob' of None \<Rightarrow> True | Some oo \<Rightarrow> wf_map oo) \<and>
   (\<forall>v. items_seen sc ob v \<longrightarrow> items_seen sc' ob' v) \<and> (\<forall>v \<in> set vs. items_seen sc' ob' v)"
proof (induction vs arbitrary: sc ob)
  case (Cons v vs)
  consider "v = GNil" | m where "v = GMap m" | "v \<noteq> GNil" "\<forall>m. v \<noteq> GMap m" by blast
  then show ?case
  proof cases
    case 1
    then show ?thesis using Cons by (simp add: items_seen_def)
  next
    case (2 m)
    let ?o = "case ob of None \<Rightarrow> [] | Some oo \<Rightarrow> oo"
    let ?o' = "merge_sample_map ?o m"
    have m: "wf_map m" using Cons.prems(2) 2 by simp
    have o: "wf_map ?o" using Cons.prems(3) by (cases ob) auto
    have sc: "sc = None" and rest: "scan_items sc (Some ?o') vs = Some (sc', ob')"
      using Cons.prems(1) 2 by (simp_all split: if_splits)
    have IH: "(case ob' of None \<Rightarrow> True | Some oo \<Rightarrow> wf_map oo) \<and> (\<forall>u. items_seen sc (Some ?o') u \<longrightarrow> items_seen sc' ob' u) \<and>
        (\<forall>u \<in> set vs. items_seen sc' ob' u)"
      using Cons.IH [OF rest] Cons.prems(2) wf_merge_sample(2) [OF o m] by simp
    have here: "items_seen sc (Some ?o') v" using covers_merge_map(2) [OF m] 2 by (simp add: items_seen_def)
    have "items_seen sc (Some ?o') u" if "items_seen sc ob u" for u
      using that covers_merge_map(1) by (auto simp: items_seen_def)
    then show ?thesis using IH here by simp
  next
    case 3
    let ?s = "merge_scalar_type sc (scalar_type v)"
    have ob: "ob = None" and ok: "scalar_type v \<noteq> TAny" "?s \<noteq> TAny" and rest: "scan_items (Some ?s) ob vs = Some (sc', ob')"
      using Cons.prems(1) unfolding scan_items_other [OF 3] by (simp_all add: Let_def split: if_splits)
    have IH: "(case ob' of None \<Rightarrow> True | Some oo \<Rightarrow> wf_map oo) \<and> (\<forall>u. items_seen (Some ?s) ob u \<longrightarrow> items_seen sc' ob' u) \<and>
        (\<forall>u \<in> set vs. items_seen sc' ob' u)"
      using Cons.IH [OF rest] Cons.prems(2,3) by simp
    have "is_scalar v" using 3 ok(1) by (cases v) (auto simp: is_scalar_def)
    moreover have "type_le (scalar_type v) ?s" by (cases sc) (simp_all add: type_le_def)
    ultimately have here: "items_seen (Some ?s) ob v" by (simp add: items_seen_def)
    have "items_seen (Some ?s) ob u" if u: "items_seen sc ob u" for u
    proof (cases sc)
      case None
      then show ?thesis using u ob by (simp add: items_seen_def)
    next
      case (Some s)
      then have "type_le s ?s" using type_le_merge(1) by simp
      then show ?thesis using u ob Some type_le_trans [of "scalar_type u" s ?s] unfolding items_seen_def by blast
    qed
    then show ?thesis using IH here by simp
  qed
qed simp

text \<open>The structs of nested maps accept what these cover.\<close>

definition nests_fit :: "gen_decl list \<Rightarrow> nested_struct list \<Rightarrow> bool" where
  "nests_fit D ns \<longleftrightarrow> (\<forall>(n, m) \<in> set ns. fits_sample D (TNamed n) (GMap m))"

definition wf_nests :: "nested_struct list \<Rightarrow> bool" where
  "wf_nests ns \<longleftrightarrow> (\<forall>(n, m) \<in> set ns. wf_map m)"

lemma slice_elem_fits:
  assumes "slice_elem_type hint vs ut = (t, ns, ut')" and "list_all wf_val vs" and "v \<in> set vs" and "ints_ok v"
  shows "(nests_fit D ns \<longrightarrow> fits D t v)"
proof (cases "scan_items None None vs")
  case None
  then show ?thesis using assms(1) by (cases v) (auto simp: slice_elem_type_def)
next
  case (Some p)
  obtain sc ob where p: "p = (sc, ob)" by (cases p)
  have seen: "items_seen sc ob v" using scan_items_seen [of None None vs sc ob] Some p assms(2,3) by simp
  show ?thesis
  proof (cases ob)
    case None
    then show ?thesis
      using seen assms(1,4) Some p by (cases sc) (auto simp: items_seen_def slice_elem_type_def fits_scalar)
  next
    case ob: (Some oo)
    obtain n u where u: "unique_name (hint @ ''Item'') ut = (n, u)" by fastforce
    have r: "t = TNamed n" "ns = [(n, oo)]" using assms(1) Some p ob u by (cases sc; simp add: slice_elem_type_def)+
    have "sc = None"
    proof -
      have "scan_items s b xs = Some (sc, ob) \<Longrightarrow> s = None \<or> b = None \<Longrightarrow> sc = None \<or> ob = None" for s b xs
        by (induction s b xs rule: scan_items.induct) (auto simp: Let_def split: if_splits gval.splits)
      from this [of None None vs] show ?thesis using Some p ob by auto
    qed
    then show ?thesis using seen ob r assms(4) by (auto simp: items_seen_def nests_fit_def fits_sample_def)
  qed
qed

lemma slice_elem_wf:
  assumes "slice_elem_type hint vs ut = (t, ns, ut')" and "list_all wf_val vs"
  shows "wf_nests ns"
  using assms scan_items_seen [of None None vs] by (auto simp: slice_elem_type_def wf_nests_def split: option.splits prod.splits)

lemma field_type_fits:
  assumes "field_type hint w ut = (t, ns, ut')" and "wf_val w"
  shows "wf_nests ns \<and> (nests_fit D ns \<longrightarrow> fits_sample D t w)"
proof (cases "as_slice w")
  case (Some vs)
  have wf: "list_all wf_val vs" using assms(2) Some by (cases w) (auto simp: list_all_iff)
  obtain u where u: "slice_elem_type hint vs ut = (u, ns, ut')" "t = TSlice u"
    using assms(1) Some by (cases w) (auto simp: field_type_def split: prod.splits)
  have "fits D t v" if "nests_fit D ns" "covers v w" "ints_ok v" for v
  proof (cases v)
    case (GSlice xs)
    then have "set xs \<subseteq> set vs" using that(2) by (simp add: covers_slice [OF Some])
    then have "list_all (fits D u) xs"
      using slice_elem_fits [OF u(1) wf] that(1,3) GSlice by (auto simp: list_all_iff)
    then show ?thesis using u(2) GSlice by simp
  qed (use that(2) u(2) covers_slice [OF Some] in auto)
  then show ?thesis using slice_elem_wf [OF u(1) wf] by (simp add: fits_sample_def)
next
  case None
  show ?thesis
  proof (cases "\<exists>m. w = GMap m")
    case True
    then obtain m where w: "w = GMap m" by blast
    obtain n u where "unique_name hint ut = (n, u)" by fastforce
    then show ?thesis using assms w by (auto simp: field_type_def wf_nests_def nests_fit_def)
  next
    case False
    then have r: "t = scalar_type w" "ns = []" using assms(1) None by (cases w; auto simp: field_type_def)+
    have "fits D t v" if "covers v w" "ints_ok v" for v
    proof (cases "scalar_type w = TAny")
      case True
      then show ?thesis using r(1) by (cases v) auto
    next
      case typed: False
      then obtain l where w: "w = GLeaf l" "l \<noteq> LNil" "w \<noteq> any_sample" by (cases w rule: scalar_type.cases) (auto simp: any_sample_def)
      then show ?thesis using covers_scalar [of v l] that fits_scalar r(1) by auto
    qed
    then show ?thesis using r(2) by (simp add: wf_nests_def fits_sample_def)
  qed
qed

lemma set_sorted_entries: "(k, v) \<in> set (sorted_entries m) \<longleftrightarrow> kv_get m k = Some v"
proof -
  have "(k, v) \<in> set (sorted_entries m) \<longleftrightarrow> k \<in> set (keys m) \<and> v = the (kv_get m k)" by (auto simp: sorted_entries_def)
  also have "\<dots> \<longleftrightarrow> kv_get m k = Some v" by (metis map_of_eq_None_iff option.sel option.exhaust list.set_map option.distinct(1))
  finally show ?thesis .
qed

lemma keys_sorted_entries: "map fst (sorted_entries m) = sort (keys m)"
  by (simp add: sorted_entries_def o_def)

lemma emit_fields_fit:
  "emit_fields name kvs uf ut = Inr (fs, ns, ut') \<Longrightarrow> list_all (\<lambda>kv. wf_val (snd kv)) kvs \<Longrightarrow> distinct (map fst kvs) \<Longrightarrow>
   wf_nests ns \<and> (nests_fit D ns \<longrightarrow> (\<forall>k w. (k, w) \<in> set kvs \<longrightarrow> (\<exists>t. field_for fs k = Some t \<and> fits_sample D t w)))"
proof (induction kvs arbitrary: uf ut fs ns)
  case Nil
  then show ?case by (simp add: wf_nests_def)
next
  case (Cons kv kvs)
  obtain k v where kv: "kv = (k, v)" by (cases kv)
  obtain fname uf' t ns1 ut1 fs2 ns2 where s: "field_type (name @ fname) v ut = (t, ns1, ut1)"
    "emit_fields name kvs uf' ut1 = Inr (fs2, ns2, ut')" "fs = \<lparr>gf_name = fname, gf_type = t, gf_key = k\<rparr> # fs2" "ns = ns1 @ ns2"
    using Cons.prems(1) unfolding kv emit_fields_step by blast
  have IH: "wf_nests ns2 \<and> (nests_fit D ns2 \<longrightarrow> (\<forall>k w. (k, w) \<in> set kvs \<longrightarrow> (\<exists>t. field_for fs2 k = Some t \<and> fits_sample D t w)))"
    using Cons.IH [OF s(2)] Cons.prems(2,3) by simp
  have own: "wf_nests ns1 \<and> (nests_fit D ns1 \<longrightarrow> fits_sample D t v)" using field_type_fits [OF s(1)] Cons.prems(2) kv by simp
  have split: "nests_fit D ns \<longleftrightarrow> nests_fit D ns1 \<and> nests_fit D ns2" "wf_nests ns \<longleftrightarrow> wf_nests ns1 \<and> wf_nests ns2"
    using s(4) by (auto simp: nests_fit_def wf_nests_def)
  have "field_for fs k' = Some t' \<longleftrightarrow> (if k' = k then t' = t else field_for fs2 k' = Some t')" for k' t'
    using s(3) by (auto simp: field_for_def)
  moreover have "k' \<noteq> k" if "(k', w) \<in> set kvs" for k' w using that Cons.prems(3) kv by force
  ultimately show ?case using IH own kv unfolding split by auto
qed

lemma emit_fit:
  "emit_struct n name m ut = Inr (ds, ut') \<Longrightarrow> wf_map m \<Longrightarrow> (\<And>d. d \<in> set ds \<Longrightarrow> map_of D (fst d) = Some (snd d)) \<Longrightarrow>
     fits_sample D (TNamed name) (GMap m)"
  "emit_nests n ns ut = Inr (ds, ut') \<Longrightarrow> wf_nests ns \<Longrightarrow> (\<And>d. d \<in> set ds \<Longrightarrow> map_of D (fst d) = Some (snd d)) \<Longrightarrow> nests_fit D ns"
proof (induction n name m ut and n ns ut arbitrary: ds ut' and ds ut' rule: emit_struct_emit_nests.induct)
  case (2 n name m ut)
  obtain fs ns ut1 es where f: "emit_fields name (sorted_entries m) [] ut = Inr (fs, ns, ut1)" "emit_nests n ns ut1 = Inr (es, ut')"
    "ds = (name, fs) # es"
    using "2.prems"(1) unfolding emit_struct_step by blast
  have entries: "list_all (\<lambda>kv. wf_val (snd kv)) (sorted_entries m)" "distinct (map fst (sorted_entries m))"
    using "2.prems"(2) by (auto simp: list_all_iff set_sorted_entries keys_sorted_entries wf_map_get wf_map_distinct)
  note fields = emit_fields_fit [OF f(1) entries, of D]
  have "nests_fit D ns" using "2.IH" [OF f(1) refl refl f(2)] fields "2.prems"(3) f(3) by simp
  then have all: "kv_get m k = Some w \<Longrightarrow> \<exists>t. field_for fs k = Some t \<and> fits_sample D t w" for k w
    using fields set_sorted_entries by blast
  have own: "map_of D name = Some fs" using "2.prems"(3) [of "(name, fs)"] f(3) by simp
  show ?case unfolding fits_sample_def
  proof (intro allI impI)
    fix v assume v: "covers v (GMap m) \<and> ints_ok v"
    then consider "v = GNil" | "v = GNilMap" | kvs where "v = GMap kvs"
      "\<And>k x. (k, x) \<in> set kvs \<Longrightarrow> \<exists>y. kv_get m k = Some y \<and> covers x y"
      unfolding covers_map by (cases v) auto
    then show "fits D (TNamed name) v"
    proof cases
      case (3 kvs)
      have "case field_for fs k of None \<Rightarrow> False | Some u \<Rightarrow> fits D u x" if kx: "(k, x) \<in> set kvs" for k x
      proof -
        obtain y where y: "kv_get m k = Some y" "covers x y" using 3(2) [OF kx] by blast
        have "ints_ok x" using v 3(1) kx by (auto simp: list_all_iff)
        then show ?thesis using all [OF y(1)] y(2) by (auto simp: fits_sample_def)
      qed
      then show ?thesis using own 3(1) by (auto simp: list_all_iff)
    qed simp_all
  qed
next
  case (4 n name m ns ut)
  obtain es1 ut1 es2 where s: "emit_struct n name m ut = Inr (es1, ut1)" "emit_nests n ns ut1 = Inr (es2, ut')" "ds = es1 @ es2"
    using "4.prems"(1) unfolding emit_nests_step by blast
  have "fits_sample D (TNamed name) (GMap m)" using "4.IH"(1) [OF s(1)] "4.prems"(2,3) s(3) by (auto simp: wf_nests_def)
  moreover have "nests_fit D ns" using "4.IH"(2) [OF s(1) refl s(2)] "4.prems"(2,3) s(3) by (auto simp: wf_nests_def)
  ultimately show ?case by (auto simp: nests_fit_def)
qed (auto simp: nests_fit_def)

section \<open>The generator ends\<close>

fun keys_ok :: "gval \<Rightarrow> bool" where
  "keys_ok (GMap kvs) = list_all (\<lambda>kv. valid_tag_key (fst kv) \<and> keys_ok (snd kv)) kvs"
| "keys_ok (GSlice vs) = list_all keys_ok vs"
| "keys_ok v = True"

definition good :: "nat \<Rightarrow> gval \<Rightarrow> bool" where
  "good d v \<longleftrightarrow> keys_ok v \<and> sample_depth v \<le> d"

lemma fold_max_iff: "fold max xs a \<le> (d :: nat) \<longleftrightarrow> a \<le> d \<and> (\<forall>x \<in> set xs. x \<le> d)"
  by (induction xs arbitrary: a) auto

lemma good_simps [simp]:
  "good d (GLeaf l)" "good d GNilMap" "good d GNilSlice" "good d any_sample" "\<not> good 0 (GMap m)" "good 0 (GSlice vs) \<longleftrightarrow> False"
  "good (Suc d) (GMap m) \<longleftrightarrow> (\<forall>kv \<in> set m. valid_tag_key (fst kv) \<and> good d (snd kv))"
  "good (Suc d) (GSlice vs) \<longleftrightarrow> (\<forall>v \<in> set vs. good d v)"
  by (auto simp: good_def fold_max_iff list_all_iff any_sample_def)

lemma good_Suc: "good d v \<Longrightarrow> good (Suc d) v"
  by (simp add: good_def)

lemma good_slice: "good d v \<Longrightarrow> as_slice v = Some xs \<Longrightarrow> xs \<noteq> [] \<Longrightarrow> \<exists>e. d = Suc e \<and> (\<forall>x \<in> set xs. good e x)"
  by (cases v; cases d) simp_all

lemma good_sample_of [simp]: "good d (sample_of_type t)"
  by (cases t) simp_all

lemma good_others:
  assumes "good d a" and "good d b"
  shows "good d (merge_others a b)"
proof (cases "as_map a \<noteq> None \<or> as_map b \<noteq> None \<or> as_slice a = None \<or> as_slice b = None")
  case True
  then show ?thesis by (cases "as_slice a"; cases "as_slice b") (simp_all add: merge_others_def)
next
  case False
  then obtain xs ys where s: "as_slice a = Some xs" "as_slice b = Some ys" by auto
  have "merge_others a b = (if xs @ ys = [] then GNilSlice else GSlice (xs @ ys))" using False s by (simp add: merge_others_def)
  moreover have "good d (GSlice (xs @ ys))" if "xs @ ys \<noteq> []"
    using that good_slice [OF assms(1) s(1)] good_slice [OF assms(2) s(2)] by (cases xs; cases ys) auto
  ultimately show ?thesis by simp
qed

lemma good_merge:
  "good d a \<Longrightarrow> good d b \<Longrightarrow> good d (merge_sample_value a b)"
  "good (Suc e) (GMap dst) \<Longrightarrow> good (Suc e) (GMap src) \<Longrightarrow> good (Suc e) (GMap (merge_sample_map dst src))"
proof (induction a b and dst src arbitrary: d and e rule: merge_sample_value_merge_sample_map.induct)
  case (1 a b)
  have others: "good d (merge_others a b)" using good_others 1(2,3) .
  show ?case
  proof (cases "\<exists>am bm. a = GMap am \<and> b = GMap bm")
    case True
    then obtain am bm where ab: "a = GMap am" "b = GMap bm" by blast
    then obtain e where d: "d = Suc e" using 1(2) by (cases d) simp_all
    have "merge_sample_value a b = GMap (merge_sample_map am bm)" using ab by (simp add: merge_sample_value.simps)
    moreover have "good (Suc e) (GMap (merge_sample_map am bm))"
      by (rule 1(1)) (use 1(2,3) ab d in \<open>simp_all only: any_sample_simps gval.distinct simp_thms not_False_eq_True\<close>)
    ultimately show ?thesis by (simp only: d)
  next
    case False
    then have "merge_sample_value a b \<in> {any_sample, a, b, merge_others a b}"
      by (cases a; cases b) (auto simp: merge_sample_value.simps)
    then show ?thesis using others 1(2,3) by auto
  qed
next
  case (3 dst k v src)
  have v: "valid_tag_key k" "good e v" "good (Suc e) (GMap src)" using "3.prems"(2) by auto
  have put: "good (Suc e) (GMap (kv_set k w dst))" if "good e w" for w
  proof -
    have "valid_tag_key (fst kv) \<and> good e (snd kv)" if "kv \<in> set (kv_set k w dst)" for kv
      using that \<open>good e w\<close> v(1) "3.prems"(1) set_kv_set_subset [of k w dst] by auto
    then show ?thesis by simp
  qed
  have "good (Suc e) (GMap (case kv_get dst k of Some old \<Rightarrow> kv_set k (merge_sample_value old v) dst | None \<Rightarrow> kv_set k v dst))"
  proof (cases "kv_get dst k")
    case None
    then show ?thesis using put [OF v(2)] by (simp only: option.case)
  next
    case (Some old)
    then have "(k, old) \<in> set dst" by (rule map_of_SomeD)
    then have "good e old" using "3.prems"(1) by auto
    then have "good e (merge_sample_value old v)" using "3.IH"(1) [OF Some] v(2) by blast
    then show ?thesis using put Some by (simp only: option.case)
  qed
  then show ?case unfolding merge_sample_map.simps by (rule "3.IH"(2)) (rule v(3))
qed auto

definition nests_good :: "nat \<Rightarrow> nested_struct list \<Rightarrow> bool" where
  "nests_good d ns \<longleftrightarrow> (\<forall>n \<in> set ns. good d (GMap (snd n)))"

lemma scan_items_good:
  "scan_items sc ob vs = Some (sc', ob') \<Longrightarrow> \<forall>v \<in> set vs. good d v \<Longrightarrow> (\<forall>oo. ob = Some oo \<longrightarrow> good d (GMap oo)) \<Longrightarrow>
   ob' = Some oo' \<Longrightarrow> good d (GMap oo')"
proof (induction vs arbitrary: sc ob)
  case (Cons v vs)
  consider "v = GNil" | m where "v = GMap m" | "v \<noteq> GNil" "\<forall>m. v \<noteq> GMap m" by blast
  then show ?case
  proof cases
    case 1
    then show ?thesis using Cons by simp
  next
    case (2 m)
    let ?o = "case ob of None \<Rightarrow> [] | Some oo \<Rightarrow> oo"
    have rest: "scan_items sc (Some (merge_sample_map ?o m)) vs = Some (sc', ob')" using Cons.prems(1) 2 by (simp split: if_splits)
    obtain e where d: "d = Suc e" using Cons.prems(2) 2 by (cases d) auto
    have "good (Suc e) (GMap ?o)" "good (Suc e) (GMap m)" using Cons.prems(2,3) 2 d by (cases ob; simp)+
    then have "good d (GMap (merge_sample_map ?o m))" unfolding d by (rule good_merge(2))
    then show ?thesis using Cons.IH [OF rest] Cons.prems(2,4) by simp
  next
    case 3
    have ob: "ob = None" and rest: "scan_items (Some (merge_scalar_type sc (scalar_type v))) ob vs = Some (sc', ob')"
      using Cons.prems(1) unfolding scan_items_other [OF 3] by (simp_all add: Let_def split: if_splits)
    then show ?thesis using Cons.IH [OF rest] Cons.prems(2,4) by simp
  qed
qed simp

lemma field_type_good:
  assumes "good d v" and "field_type hint v ut = (t, ns, ut')"
  shows "nests_good d ns"
proof (cases "as_slice v")
  case (Some vs)
  obtain u where u: "slice_elem_type hint vs ut = (u, ns, ut')"
    using assms(2) Some by (cases v) (auto simp: field_type_def split: prod.splits)
  have vs: "\<forall>x \<in> set vs. good d x"
    using good_slice [OF assms(1) Some] good_Suc by (cases vs) auto
  show ?thesis
  proof (cases "\<exists>sc oo. scan_items None None vs = Some (sc, Some oo)")
    case True
    then obtain sc oo where s: "scan_items None None vs = Some (sc, Some oo)" by blast
    have "good d (GMap oo)" using scan_items_good [OF s vs] by simp
    then show ?thesis using u s by (cases sc) (auto simp: slice_elem_type_def nests_good_def split: prod.splits)
  next
    case False
    then have "ns = []" using u by (auto simp: slice_elem_type_def split: option.splits)
    then show ?thesis by (simp add: nests_good_def)
  qed
next
  case None
  then show ?thesis using assms by (cases v) (auto simp: field_type_def nests_good_def split: prod.splits)
qed

lemma emit_fields_ok:
  "\<forall>kv \<in> set kvs. valid_tag_key (fst kv) \<and> good d (snd kv) \<Longrightarrow>
   \<exists>fs ns ut'. emit_fields name kvs uf ut = Inr (fs, ns, ut') \<and> nests_good d ns"
proof (induction kvs arbitrary: uf ut)
  case (Cons kv kvs)
  obtain k v where kv: "kv = (k, v)" by (cases kv)
  obtain fname uf' where u: "unique_export_name k uf = (fname, uf')" by fastforce
  obtain t ns1 ut1 where f: "field_type (name @ fname) v ut = (t, ns1, ut1)" by (cases "field_type (name @ fname) v ut") auto
  obtain fs ns ut' where r: "emit_fields name kvs uf' ut1 = Inr (fs, ns, ut')" "nests_good d ns"
    using Cons.IH [of uf' ut1] Cons.prems by auto
  have "nests_good d (ns1 @ ns)" using field_type_good [OF _ f, of d] Cons.prems kv r(2) by (auto simp: nests_good_def)
  then show ?case using u f r(1) Cons.prems unfolding kv emit_fields_step by auto
qed (simp add: nests_good_def)

lemma emit_ok:
  "good n (GMap m) \<Longrightarrow> is_ok (emit_struct n name m ut)"
  "nests_good n ns \<Longrightarrow> is_ok (emit_nests n ns ut)"
proof (induction n name m ut and n ns ut rule: emit_struct_emit_nests.induct)
  case (2 n name m ut)
  have "\<forall>kv \<in> set (sorted_entries m). valid_tag_key (fst kv) \<and> good n (snd kv)"
    using "2.prems" by (auto simp: set_sorted_entries dest!: map_of_SomeD)
  then obtain fs ns ut' where f: "emit_fields name (sorted_entries m) [] ut = Inr (fs, ns, ut')" "nests_good n ns"
    using emit_fields_ok [of "sorted_entries m" n name "[]" ut] by blast
  then have "is_ok (emit_nests n ns ut')" using "2.IH" by auto
  then show ?case using f(1) unfolding is_ok_def by (metis emit_struct_step surj_pair)
next
  case (4 n name m ns ut)
  have g: "good n (GMap m)" "nests_good n ns" using "4.prems" by (auto simp: nests_good_def)
  obtain es1 ut1 where s: "emit_struct n name m ut = Inr (es1, ut1)" using "4.IH"(1) [OF g(1)] by (auto simp: is_ok_def)
  then have "is_ok (emit_nests n ns ut1)" using "4.IH"(2) g(2) by auto
  then show ?case using s unfolding is_ok_def by (metis emit_nests_step surj_pair)
qed (simp_all add: is_ok_def)

lemma emit_distinct:
  "emit_struct n name m ut = Inr (ds, ut') \<Longrightarrow> wf_map m \<Longrightarrow>
     list_all (\<lambda>d. distinct (map gf_name (snd d)) \<and> distinct (map gf_key (snd d))) ds"
  "emit_nests n ns ut = Inr (ds, ut') \<Longrightarrow> wf_nests ns \<Longrightarrow>
     list_all (\<lambda>d. distinct (map gf_name (snd d)) \<and> distinct (map gf_key (snd d))) ds"
proof (induction n name m ut and n ns ut arbitrary: ds ut' and ds ut' rule: emit_struct_emit_nests.induct)
  case (2 n name m ut)
  obtain fs ns ut1 es where f: "emit_fields name (sorted_entries m) [] ut = Inr (fs, ns, ut1)" "emit_nests n ns ut1 = Inr (es, ut')"
    "ds = (name, fs) # es"
    using "2.prems"(1) unfolding emit_struct_step by blast
  have entries: "list_all (\<lambda>kv. wf_val (snd kv)) (sorted_entries m)" "distinct (map fst (sorted_entries m))"
    using "2.prems"(2) by (auto simp: list_all_iff set_sorted_entries keys_sorted_entries wf_map_get wf_map_distinct)
  have "wf_nests ns" using emit_fields_fit [OF f(1) entries] by simp
  then have "list_all (\<lambda>d. distinct (map gf_name (snd d)) \<and> distinct (map gf_key (snd d))) es" by (rule "2.IH" [OF f(1) refl refl f(2)])
  moreover have "distinct (map gf_name fs) \<and> distinct (map gf_key fs)"
    using emit_fields_names [OF f(1)] entries(2) by (auto simp: new_names_def)
  ultimately show ?case using f(3) by simp
next
  case (4 n name m ns ut)
  obtain es1 ut1 es2 where s: "emit_struct n name m ut = Inr (es1, ut1)" "emit_nests n ns ut1 = Inr (es2, ut')" "ds = es1 @ es2"
    using "4.prems"(1) unfolding emit_nests_step by blast
  have "wf_map m" "wf_nests ns" using "4.prems"(2) by (simp_all add: wf_nests_def)
  then show ?case using "4.IH"(1) [OF s(1)] "4.IH"(2) [OF s(1) refl s(2)] s(3) by simp
qed simp_all

section \<open>Properties\<close>

text \<open>C34. The generated types accept the sample they were generated from: for a sample whose keys a struct tag can carry and
  whose integers fit 64 bits, the generator ends with structs of different names, whose fields have different names and
  keys, and the sample decodes into the first of them without an unknown key, whatever shapes the items of its lists mix.\<close>

theorem generated_accepts_sample:
  assumes "wf_map m" and "keys_ok (GMap m)" and "ints_ok (GMap m)"
  shows "\<exists>ds. emit name m = Inr ds \<and> distinct (map fst ds) \<and>
    list_all (\<lambda>d. distinct (map gf_name (snd d)) \<and> distinct (map gf_key (snd d))) ds \<and> fits ds (TNamed name) (GMap m)"
proof -
  have "good (sample_depth (GMap m)) (GMap m)" using assms(2) by (simp add: good_def)
  then obtain ds ut where e: "emit_struct (sample_depth (GMap m)) name m [(name, 1)] = Inr (ds, ut)"
    using emit_ok(1) by (metis is_ok_def surj_pair)
  obtain rest where r: "map fst ds = name # rest" "new_names [(name, 1)] rest ut" using emit_names(1) [OF e] by auto
  have distinct: "distinct (map fst ds)" using r by (simp add: new_names_def)
  have "map_of ds (fst d) = Some (snd d)" if "d \<in> set ds" for d using distinct that by simp
  then have "fits_sample ds (TNamed name) (GMap m)" using emit_fit(1) [OF e assms(1)] by blast
  then have "fits ds (TNamed name) (GMap m)" using covers_refl [of "GMap m"] assms(1,3) wf_val_GMap unfolding fits_sample_def by blast
  moreover have "emit name m = Inr ds" by (simp only: emit_def e rbind_simps case_prod_conv)
  ultimately show ?thesis using distinct emit_distinct(1) [OF e assms(1)] by blast
qed

definition sample_example :: gmap where
  "sample_example =
     [(''db'', GMap [(''host'', GStr ''h''), (''ports'', GSlice [GInt KInt 1, GNil, GLeaf (LFloat64 (FFin 2))])]),
      (''a-b'', GSlice [GMap [(''x'', GNil), (''y'', GBool True)], GMap [(''x'', GMap [(''z'', GStr '''')])]]),
      (''a.b'', GSlice [GInt KInt 1, GStr ''s''])]"

text \<open>A list of maps of different shapes, keys that become the same Go name, and a mixed list. An integer beyond 64 bits
  signed, which YAML decodes to a \<open>uint64\<close>, does not fit the \<open>int64\<close> field generated for it.\<close>

theorem generated_accepts_sample_witness:
  "(case emit ''Config'' sample_example of Inl e \<Rightarrow> False | Inr ds \<Rightarrow> fits ds (TNamed ''Config'') (GMap sample_example)) \<and>
   (case emit ''Config'' [(''n'', GInt KUint64 (2 ^ 63))] of
      Inl e \<Rightarrow> False | Inr ds \<Rightarrow> \<not> fits ds (TNamed ''Config'') (GMap [(''n'', GInt KUint64 (2 ^ 63))]))"
proof -
  have ok: "wf_map sample_example" "keys_ok (GMap sample_example)" "ints_ok (GMap sample_example)" by code_simp+
  obtain ds where ds: "emit ''Config'' sample_example = Inr ds" "fits ds (TNamed ''Config'') (GMap sample_example)"
    using generated_accepts_sample [OF ok, of "''Config''"] by blast
  have "case emit ''Config'' [(''n'', GInt KUint64 (2 ^ 63))] of
      Inl e \<Rightarrow> False | Inr ds \<Rightarrow> \<not> fits ds (TNamed ''Config'') (GMap [(''n'', GInt KUint64 (2 ^ 63))])" by code_simp
  then show ?thesis using ds by simp
qed

end
