(* ===== verification/Settings.thy ===== *)
theory Settings
  imports Consul
begin

text \<open>
  \<open>providers/azappconfig\<close> and \<open>providers/parameterstore\<close>: flat settings of a cloud service, listed page by page, become
  one tree. The pages a service answers with are an argument, as are SHA-256 and the quoting of \<open>%q\<close>.
\<close>

section \<open>Pages and trees\<close>

datatype settings_error =
    ListCanceled | ListFailed | BadItem | OutsideSelection | SpecialType | SettingsTooLarge | DuplicateKey | RepeatedToken
  | BadSegment | ConflictingKey | ConflictingBranch

text \<open>What one call for a page returns: the items and the token of the next page, an error, or the end of the context.\<close>

datatype 'a page = Page "'a list" string | PageFailed | PageCanceled

text \<open>\<open>insert\<close>: \<open>bad\<close> names the segments it refuses. A failed insertion discards the tree.\<close>

fun insert_key :: "(string \<Rightarrow> bool) \<Rightarrow> gmap \<Rightarrow> string list \<Rightarrow> string \<Rightarrow> settings_error + gmap" where
  "insert_key bad m [] v = Inr m"
| "insert_key bad m [k] v =
     (if bad k then Inl BadSegment else if kv_get m k \<noteq> None then Inl ConflictingKey else Inr (kv_set k (GStr v) m))"
| "insert_key bad m (k # l # ks) v =
     (if bad k then Inl BadSegment
      else case (case kv_get m k of None \<Rightarrow> GMap [] | Some x \<Rightarrow> x) of
        GMap sub \<Rightarrow> rbind (insert_key bad sub (l # ks) v) (\<lambda>sub'. Inr (kv_set k (GMap sub') m))
      | _ \<Rightarrow> Inl ConflictingBranch)"

fun insert_all :: "(string \<Rightarrow> bool) \<Rightarrow> gmap \<Rightarrow> (string list \<times> string) list \<Rightarrow> settings_error + gmap" where
  "insert_all bad m [] = Inr m"
| "insert_all bad m ((p, v) # items) = rbind (insert_key bad m p v) (\<lambda>m'. insert_all bad m' items)"

text \<open>The loop over the items of one page, up to the first one refused.\<close>

fun collect :: "('a \<Rightarrow> 'c \<Rightarrow> 'e + 'c) \<Rightarrow> 'a list \<Rightarrow> 'c \<Rightarrow> 'e + 'c" where
  "collect add [] c = Inr c"
| "collect add (s # ss) c = rbind (add s c) (collect add ss)"

section \<open>Azure App Configuration\<close>

record az_setting =
  az_key :: "string option"
  az_value :: "string option"
  az_label :: "string option"
  az_type :: "string option"
  az_etag :: "string option"

record az_provider =
  ap_name :: string
  ap_prefix :: string
  ap_label :: string
  ap_priority :: int
  ap_max :: int

definition new_azappconfig ::
  "az_provider \<Rightarrow> bool \<Rightarrow> (az_provider \<Rightarrow> az_provider) list \<Rightarrow> string + az_provider" where
  "new_azappconfig cfg client opts =
     (if \<not> client then Inl ''client is required''
      else if CHR 0x00 \<in> set (ap_prefix cfg @ ap_label cfg) then Inl ''NUL is not a valid selector''
      else Inr (foldl (\<lambda>p opt. opt p)
        (cfg\<lparr>ap_name := (if ap_name cfg = '''' then ''azappconfig:'' @ ap_prefix cfg @ ''?label='' @ query_escape (ap_label cfg) else ap_name cfg),
             ap_priority := (if ap_priority cfg = 0 then 30 else ap_priority cfg), ap_max := default_max_body\<rparr>) opts))"

definition az_with_max :: "int \<Rightarrow> az_provider \<Rightarrow> az_provider" where
  "az_with_max n p = p\<lparr>ap_max := (if n \<le> 0 then default_max_body else n)\<rparr>"

text \<open>\<open>escape\<close> replaces one character at a time, so its three rules do not interfere.\<close>

definition az_escape :: "string \<Rightarrow> string" where
  "az_escape s = concat (map (\<lambda>c. if c = CHR 0x5C \<or> c = CHR ''*'' \<or> c = CHR '','' then [CHR 0x5C, c] else [c]) s)"

text \<open>The filters for keys and labels; NUL selects what has no label.\<close>

definition az_selector :: "az_provider \<Rightarrow> string \<times> string" where
  "az_selector p = (az_escape (ap_prefix p) @ ''*'', (if az_escape (ap_label p) = '''' then [CHR 0x00] else az_escape (ap_label p)))"

definition opt_str :: "string option \<Rightarrow> string" where
  "opt_str s = (case s of None \<Rightarrow> '''' | Some x \<Rightarrow> x)"

text \<open>The settings collected by key, with their values and tags, and the bytes counted.\<close>

type_synonym az_collected = "(string \<times> string \<times> string) list \<times> int"

definition az_add :: "az_provider \<Rightarrow> az_setting \<Rightarrow> az_collected \<Rightarrow> settings_error + az_collected" where
  "az_add p s c =
     (case (az_key s, az_value s) of
        (Some k, Some v) \<Rightarrow>
          let n = snd c + int (length k + length v + length (opt_str (az_label s))) in
          if \<not> has_prefix k (ap_prefix p) \<or> opt_str (az_label s) \<noteq> ap_label p then Inl OutsideSelection
          else if has_prefix (to_lower (opt_str (az_type s))) ''application/vnd.microsoft.appconfig.'' then Inl SpecialType
          else if ap_max p < n then Inl SettingsTooLarge
          else if kv_get (fst c) k \<noteq> None then Inl DuplicateKey
          else Inr (kv_set k (v, opt_str (az_etag s)) (fst c), n)
      | _ \<Rightarrow> Inl BadItem)"

fun az_pages :: "az_provider \<Rightarrow> az_setting page list \<Rightarrow> az_collected \<Rightarrow> settings_error + az_collected" where
  "az_pages p [] c = Inr c"
| "az_pages p (PageCanceled # ps) c = Inl ListCanceled"
| "az_pages p (PageFailed # ps) c = Inl ListFailed"
| "az_pages p (Page ss t # ps) c = rbind (collect (az_add p) ss c) (az_pages p ps)"

definition az_load ::
  "(string \<Rightarrow> string) \<Rightarrow> (string \<Rightarrow> string) \<Rightarrow> az_provider \<Rightarrow> bool \<Rightarrow> az_setting page list \<Rightarrow> settings_error + gmap \<times> string" where
  "az_load sha q p alive pages =
     (if \<not> alive then Inl ListCanceled
      else rbind (az_pages p pages ([], 0)) (\<lambda>(settings, total).
        let ks = sort (keys settings); got = (\<lambda>k. the (kv_get settings k)) in
        rbind (insert_all (\<lambda>s. s = '''') [] (map (\<lambda>k. (split_char (CHR '':'') (trim_prefix k (ap_prefix p)), fst (got k))) ks)) (\<lambda>m.
          Inr (m, sha (concat (map (\<lambda>k. q k @ '':'' @ q (ap_label p) @ '':'' @ q (snd (got k)) @ '':'' @ q (fst (got k)) @ '';'') ks))))))"

section \<open>Parameter Store\<close>

record ssm_item =
  si_name :: "string option"
  si_value :: "string option"
  si_version :: int

record ssm_provider =
  sp_path :: string
  sp_decrypt :: bool
  sp_priority :: int
  sp_max :: int

definition dot_segment :: "string \<Rightarrow> bool" where
  "dot_segment s \<longleftrightarrow> s = '''' \<or> s = ''.'' \<or> s = ''..''"

definition new_parameterstore ::
  "string \<Rightarrow> bool \<Rightarrow> int \<Rightarrow> bool \<Rightarrow> (ssm_provider \<Rightarrow> ssm_provider) list \<Rightarrow> string + ssm_provider" where
  "new_parameterstore path decrypt prio client opts =
     (let rt = trim_right_of (CHR ''/'') path in
      if \<not> client then Inl ''client is required''
      else if rt = '''' \<or> \<not> has_prefix rt ''/'' then Inl ''non-root absolute path is required''
      else if list_ex dot_segment (split_char (CHR ''/'') (tl rt)) then Inl ''invalid path''
      else Inr (foldl (\<lambda>p opt. opt p)
        \<lparr>sp_path = rt, sp_decrypt = decrypt, sp_priority = (if prio = 0 then 30 else prio), sp_max = default_max_body\<rparr> opts))"

type_synonym ssm_collected = "(string \<times> string \<times> int) list \<times> int"

definition ssm_add :: "ssm_provider \<Rightarrow> ssm_item \<Rightarrow> ssm_collected \<Rightarrow> settings_error + ssm_collected" where
  "ssm_add p s c =
     (case (si_name s, si_value s) of
        (Some k, Some v) \<Rightarrow>
          let name = trim_prefix k (sp_path p @ ''/''); n = snd c + int (length k) + int (length v) in
          if \<not> has_prefix k (sp_path p @ ''/'') then Inl BadItem
          else if kv_get (fst c) name \<noteq> None then Inl DuplicateKey
          else if sp_max p < n then Inl SettingsTooLarge
          else Inr (kv_set name (v, si_version s) (fst c), n)
      | _ \<Rightarrow> Inl BadItem)"

text \<open>The loop over the answers of the service, with the tokens seen; it ends at a page without a token. Answers that run
  out before stand for a context that ended.\<close>

fun ssm_pages :: "ssm_provider \<Rightarrow> string list \<Rightarrow> ssm_item page list \<Rightarrow> ssm_collected \<Rightarrow> settings_error + ssm_collected" where
  "ssm_pages p tokens [] c = Inl ListCanceled"
| "ssm_pages p tokens (PageCanceled # ps) c = Inl ListCanceled"
| "ssm_pages p tokens (PageFailed # ps) c = Inl ListFailed"
| "ssm_pages p tokens (Page ss t # ps) c =
     rbind (collect (ssm_add p) ss c) (\<lambda>c'.
       if t = '''' then Inr c'
       else if t \<in> set tokens then Inl RepeatedToken
       else ssm_pages p (t # tokens) ps c')"

definition ssm_load ::
  "(string \<Rightarrow> string) \<Rightarrow> (string \<Rightarrow> string) \<Rightarrow> ssm_provider \<Rightarrow> ssm_item page list \<Rightarrow> settings_error + gmap \<times> string" where
  "ssm_load sha q p pages =
     rbind (ssm_pages p [] pages ([], 0)) (\<lambda>(values, total).
       let ks = sort (keys values); got = (\<lambda>k. the (kv_get values k)) in
       rbind (insert_all dot_segment [] (map (\<lambda>k. (split_char (CHR ''/'') k, fst (got k))) ks)) (\<lambda>m.
         Inr (m, sha (concat (map (\<lambda>k. q k @ '':'' @ q (fst (got k)) @ '':'' @ itoa (snd (got k)) @ '';'') ks)))))"

section \<open>The tree of the settings\<close>

text \<open>What \<open>insert\<close> keeps of the tree it grows: maps and strings only, and a string below every map.\<close>

definition grown :: "gmap \<Rightarrow> bool" where
  "grown m \<longleftrightarrow> (\<forall>ps x. ps \<noteq> [] \<longrightarrow> get_from (GMap m) ps = Some x \<longrightarrow>
     ((\<exists>s. x = GStr s) \<or> (\<exists>sub. x = GMap sub)) \<and> (\<exists>qs v. get_from (GMap m) (ps @ qs) = Some (GStr v)))"

definition no_clash :: "gmap \<Rightarrow> string list \<Rightarrow> bool" where
  "no_clash m ps \<longleftrightarrow> (\<forall>qs v. get_from (GMap m) qs = Some (GStr v) \<longrightarrow> apart ps qs)"

lemma get_from_map_Cons: "get_from (GMap m) (k # ps) = (case kv_get m k of None \<Rightarrow> None | Some x \<Rightarrow> get_from x ps)"
  by simp

lemma get_from_leaf: "get_from (GStr v) ps = (if ps = [] then Some (GStr v) else None)"
  by (cases ps) auto

lemma grown_sub:
  assumes "grown m" "kv_get m k = Some (GMap sub)"
  shows "grown sub"
  unfolding grown_def
proof (intro allI impI)
  fix ps x assume "ps \<noteq> []" "get_from (GMap sub) ps = Some x"
  then show "((\<exists>s. x = GStr s) \<or> (\<exists>sub. x = GMap sub)) \<and> (\<exists>qs v. get_from (GMap sub) (ps @ qs) = Some (GStr v))"
    using assms(1) [unfolded grown_def, rule_format, of "k # ps" x] assms(2) by simp
qed

lemma no_clash_sub:
  assumes "kv_get m k = Some (GMap sub)"
  shows "no_clash m (k # ps) \<longleftrightarrow> no_clash sub ps"
proof
  assume m: "no_clash m (k # ps)"
  show "no_clash sub ps"
    unfolding no_clash_def
  proof (intro allI impI)
    fix qs v assume "get_from (GMap sub) qs = Some (GStr v)"
    then have "apart (k # ps) (k # qs)" using m [unfolded no_clash_def, rule_format, of "k # qs" v] assms by simp
    then show "apart ps qs" by (simp add: apart_Cons)
  qed
next
  assume sub: "no_clash sub ps"
  show "no_clash m (k # ps)"
    unfolding no_clash_def
  proof (intro allI impI)
    fix qs v assume got: "get_from (GMap m) qs = Some (GStr v)"
    then obtain l rs where qs: "qs = l # rs" by (cases qs) auto
    show "apart (k # ps) qs"
    proof (cases "l = k")
      case True
      then have "apart ps rs" using sub [unfolded no_clash_def] got assms qs by simp
      then show ?thesis by (simp add: qs apart_Cons)
    qed (auto simp: qs apart_Cons)
  qed
qed

lemma no_clash_absent:
  assumes "kv_get m k = None"
  shows "no_clash m (k # ps)"
  unfolding no_clash_def
proof (intro allI impI)
  fix qs v assume "get_from (GMap m) qs = Some (GStr v)"
  then show "apart (k # ps) qs" using assms by (cases qs) (auto simp: apart_Cons split: option.splits if_splits)
qed

text \<open>A key that is a string, and the last key of a path that is there at all, clash.\<close>

lemma clash_leaf: "kv_get m k = Some (GStr v) \<Longrightarrow> \<not> no_clash m (k # ps)"
  unfolding no_clash_def by (auto intro!: exI [of _ "[k]"] exI [of _ v] simp: apart_def)

lemma clash_last:
  assumes "grown m" "kv_get m k = Some x"
  shows "\<not> no_clash m [k]"
proof -
  obtain qs v where "get_from (GMap m) (k # qs) = Some (GStr v)"
    using assms(1) [unfolded grown_def, rule_format, of "[k]" x] assms(2) by auto
  moreover have "\<not> apart [k] (k # qs)" by (simp add: apart_def)
  ultimately show ?thesis unfolding no_clash_def by blast
qed

lemma grown_value: "grown m \<Longrightarrow> kv_get m k = Some x \<Longrightarrow> (\<exists>s. x = GStr s) \<or> (\<exists>sub. x = GMap sub)"
  unfolding grown_def by (drule spec [of _ "[k]"], drule spec [of _ x]) simp

lemma insert_key_iff:
  "ps \<noteq> [] \<Longrightarrow> grown m \<Longrightarrow>
   insert_key bad m ps v = Inr m' \<longleftrightarrow> \<not> list_ex bad ps \<and> no_clash m ps \<and> m' = set_from m ps (GStr v)"
proof (induction ps arbitrary: m m')
  case (Cons k ps)
  show ?case
  proof (cases ps)
    case Nil
    then show ?thesis using clash_last [OF Cons.prems(2), of k] no_clash_absent [of m k "[]"] by (cases "kv_get m k") auto
  next
    case (Cons l ls)
    note IH = Cons.IH [unfolded Cons]
    show ?thesis
    proof (cases "kv_get m k")
      case None
      have "grown []" by (auto simp: grown_def neq_Nil_conv)
      moreover have "no_clash [] (l # ls)" by (simp add: no_clash_absent)
      ultimately show ?thesis
        using None no_clash_absent [OF None, of "l # ls"] IH [of "[]"]
        by (auto simp: Cons rbind_Inr_iff step_into_def)
    next
      case (Some x)
      then consider s where "x = GStr s" | sub where "x = GMap sub" using grown_value [OF Cons.prems(2)] by blast
      then show ?thesis
      proof cases
        case 1
        then show ?thesis using Some clash_leaf [of m k s ps] by (simp add: Cons)
      next
        case 2
        then have at: "kv_get m k = Some (GMap sub)" using Some by simp
        show ?thesis
          using at no_clash_sub [OF at, of ps] IH [OF _ grown_sub [OF Cons.prems(2) at]]
          by (auto simp: Cons rbind_Inr_iff step_into_def)
      qed
    qed
  qed
qed simp

lemma get_from_append: "get_from x (ps @ qs) = (case get_from x ps of None \<Rightarrow> None | Some y \<Rightarrow> get_from y qs)"
  by (induction ps arbitrary: x) (auto split: option.splits)

lemma get_from_below: "ps \<noteq> [] \<Longrightarrow> qs \<noteq> [] \<Longrightarrow> get_from (GMap (set_from m ps (GStr v))) (ps @ qs) = None"
  by (simp add: get_from_append get_from_set_from get_from_leaf)

lemma get_from_above:
  "ps \<noteq> [] \<Longrightarrow> \<exists>sub. get_from (GMap (set_from m (ps @ q # qs) v)) ps = Some (GMap sub)"
proof (induction ps arbitrary: m)
  case (Cons p ps)
  then show ?case by (cases ps) auto
qed simp

text \<open>Where a path stands to the one written.\<close>

lemma path_cases:
  obtains "apart ps qs" | "qs = ps" | r rs where "ps = qs @ r # rs" | r rs where "qs = ps @ r # rs"
  by (metis apart_def append_Nil2 neq_Nil_conv prefix_def)

lemma written_leaf:
  assumes "ps \<noteq> []" "no_clash m ps"
  shows "get_from (GMap (set_from m ps (GStr v))) qs = Some (GStr w) \<longleftrightarrow>
         get_from (GMap m) qs = Some (GStr w) \<or> qs = ps \<and> w = v"
proof (cases rule: path_cases [of ps qs])
  case 1
  then show ?thesis using assms by (auto simp: get_from_set_from_apart apart_def)
next
  case 2
  then show ?thesis using assms by (auto simp: get_from_set_from no_clash_def apart_def)
next
  case (3 r rs)
  then have "get_from (GMap m) qs \<noteq> Some (GStr w)" using assms(2) by (auto simp: no_clash_def apart_def)
  moreover have "get_from (GMap (set_from m ps (GStr v))) qs \<noteq> Some (GStr w)"
  proof (cases "qs = []")
    case False
    then show ?thesis using get_from_above [OF False, of m r rs "GStr v"] 3 by auto
  qed simp
  ultimately show ?thesis using 3 by simp
next
  case (4 r rs)
  then have "get_from (GMap m) qs \<noteq> Some (GStr w)" using assms(2) by (auto simp: no_clash_def apart_def)
  then show ?thesis using 4 get_from_below [OF assms(1), of "r # rs" m v] by simp
qed

lemma grown_written:
  assumes "ps \<noteq> []" "no_clash m ps" "grown m"
  shows "grown (set_from m ps (GStr v))"
  unfolding grown_def
proof (intro allI impI)
  let ?n = "GMap (set_from m ps (GStr v))"
  fix rs x assume rs: "rs \<noteq> []" and got: "get_from ?n rs = Some x"
  have leaf: "get_from (GMap m) qs = Some (GStr w) \<Longrightarrow> get_from ?n qs = Some (GStr w)" for qs w
    using written_leaf [OF assms(1,2)] by blast
  have new: "get_from ?n ps = Some (GStr v)" by (rule get_from_set_from [OF assms(1)])
  show "((\<exists>s. x = GStr s) \<or> (\<exists>sub. x = GMap sub)) \<and> (\<exists>qs w. get_from ?n (rs @ qs) = Some (GStr w))"
  proof (cases rule: path_cases [of ps rs])
    case 1
    then have "get_from (GMap m) rs = Some x" using got by (simp add: get_from_set_from_apart)
    then show ?thesis using assms(3) [unfolded grown_def, rule_format, OF rs, of x] leaf by blast
  next
    case 2
    then have "x = GStr v" "get_from ?n (rs @ []) = Some (GStr v)" using new got by auto
    then show ?thesis by blast
  next
    case (3 q qs)
    then obtain sub where "x = GMap sub" using get_from_above [OF rs, of m q qs "GStr v"] got by auto
    moreover have "get_from ?n (rs @ q # qs) = Some (GStr v)" using new 3 by simp
    ultimately show ?thesis by blast
  next
    case (4 q qs)
    then show ?thesis using got get_from_below [OF assms(1), of "q # qs" m v] by simp
  qed
qed

text \<open>The whole loop: what makes it succeed, and the tree it leaves.\<close>

lemma insert_all_iff:
  assumes "grown m" "\<forall>pv \<in> set items. fst pv \<noteq> []"
  shows "insert_all bad m items = Inr m' \<longleftrightarrow>
    (\<forall>pv \<in> set items. \<not> list_ex bad (fst pv) \<and> no_clash m (fst pv)) \<and>
    sorted_wrt (\<lambda>a b. apart (fst a) (fst b)) items \<and> m' = set_all m (map (\<lambda>(p, v). (p, GStr v)) items)"
  using assms
proof (induction items arbitrary: m)
  case (Cons pv items)
  obtain p v where pv: "pv = (p, v)" by (cases pv)
  have p: "p \<noteq> []" using Cons.prems(2) by (simp add: pv)
  have rest: "\<forall>pv \<in> set items. fst pv \<noteq> []" using Cons.prems(2) by simp
  have clash: "no_clash (set_from m p (GStr v)) q \<longleftrightarrow> no_clash m q \<and> apart q p" if "no_clash m p" for q
    unfolding no_clash_def [of "set_from m p (GStr v)"] written_leaf [OF p that] by (auto simp: no_clash_def)
  show ?case
  proof (cases "\<not> list_ex bad p \<and> no_clash m p")
    case True
    then have ok: "insert_key bad m p v = Inr (set_from m p (GStr v))" using insert_key_iff [OF p Cons.prems(1)] by blast
    note IH = Cons.IH [OF grown_written [OF p conjunct2 [OF True] Cons.prems(1)] rest, of v]
    show ?thesis using True p clash apart_sym by (auto simp: pv ok IH)
  next
    case False
    then have "insert_key bad m p v \<noteq> Inr m1" for m1 using insert_key_iff [OF p Cons.prems(1)] by blast
    then show ?thesis using False by (auto simp: pv rbind_Inr_iff)
  qed
qed (auto simp: set_all_def)

lemma grown_Nil: "grown []" "no_clash [] ps \<longleftrightarrow> True"
  by (auto simp: grown_def no_clash_def neq_Nil_conv elim!: get_from.elims split: if_splits)

lemma apart_sorted: "sorted_wrt (\<lambda>a b. apart (fst a) (fst b)) items \<Longrightarrow> x \<in> set items \<Longrightarrow> y \<in> set items \<Longrightarrow> x \<noteq> y \<Longrightarrow> apart (fst x) (fst y)"
  by (induction items) (auto simp: apart_sym)

lemma set_all_leaf:
  assumes "grown m" "\<forall>pv \<in> set items. fst pv \<noteq> []" "insert_all bad m items = Inr m'"
  shows "get_from (GMap m') qs = Some (GStr w) \<longleftrightarrow> get_from (GMap m) qs = Some (GStr w) \<or> (qs, w) \<in> set items"
  using assms
proof (induction items arbitrary: m)
  case (Cons pv items)
  obtain p v where pv: "pv = (p, v)" by (cases pv)
  have p: "p \<noteq> []" using Cons.prems(2) by (simp add: pv)
  obtain m1 where m1: "insert_key bad m p v = Inr m1" and rest: "insert_all bad m1 items = Inr m'"
    using Cons.prems(3) by (auto simp: pv rbind_Inr_iff)
  have free: "no_clash m p" and eq: "m1 = set_from m p (GStr v)" using m1 insert_key_iff [OF p Cons.prems(1)] by blast+
  have "get_from (GMap m') qs = Some (GStr w) \<longleftrightarrow> get_from (GMap m1) qs = Some (GStr w) \<or> (qs, w) \<in> set items"
    using Cons.prems(2) by (intro Cons.IH rest) (auto simp: eq grown_written [OF p free Cons.prems(1)])
  then show ?case using written_leaf [OF p free] by (auto simp: eq pv)
qed simp

section \<open>The loop over the items\<close>

text \<open>The contract of one step: an item is kept under its key unless it is refused, its key is taken or the limit is passed.\<close>

locale collector =
  fixes add :: "'a \<Rightarrow> (string \<times> 'v) list \<times> int \<Rightarrow> settings_error + (string \<times> 'v) list \<times> int"
    and key :: "'a \<Rightarrow> string" and val :: "'a \<Rightarrow> 'v" and cost :: "'a \<Rightarrow> int" and ok :: "'a \<Rightarrow> bool" and limit :: int
  assumes cost_pos: "0 \<le> cost s"
    and add_iff: "add s c = Inr c' \<longleftrightarrow> ok s \<and> kv_get (fst c) (key s) = None \<and> snd c + cost s \<le> limit \<and>
      c' = (kv_set (key s) (val s) (fst c), snd c + cost s)"
begin

definition total :: "'a list \<Rightarrow> int" where
  "total ss = sum_list (map cost ss)"

lemma total_simps [simp]: "total [] = 0" "total (s # ss) = cost s + total ss"
  by (simp_all add: total_def)

lemma total_pos: "0 \<le> total ss"
  by (induction ss) (auto simp: cost_pos add_nonneg_nonneg)

definition kept :: "'a list \<Rightarrow> (string \<times> 'v) list \<Rightarrow> (string \<times> 'v) list" where
  "kept ss m = foldl (\<lambda>m s. kv_set (key s) (val s) m) m ss"

lemma kept_simps [simp]: "kept [] m = m" "kept (s # ss) m = kept ss (kv_set (key s) (val s) m)"
  by (simp_all add: kept_def)

lemma collect_iff:
  "collect add ss (m, n) = Inr c \<longleftrightarrow> list_all ok ss \<and> distinct (map key ss) \<and> (\<forall>s \<in> set ss. kv_get m (key s) = None) \<and>
     (ss = [] \<or> n + total ss \<le> limit) \<and> c = (kept ss m, n + total ss)"
proof (induction ss arbitrary: m n)
  case (Cons s ss)
  have fit: "n + cost s \<le> limit \<and> (ss = [] \<or> n + cost s + total ss \<le> limit) \<longleftrightarrow> n + (cost s + total ss) \<le> limit"
    using total_pos [of ss] by auto
  have step: "collect add (s # ss) (m, n) = Inr c \<longleftrightarrow>
    ok s \<and> kv_get m (key s) = None \<and> n + cost s \<le> limit \<and> collect add ss (kv_set (key s) (val s) m, n + cost s) = Inr c"
    by (auto simp: rbind_Inr_iff add_iff)
  have fresh: "(\<forall>x \<in> set ss. kv_get (kv_set (key s) (val s) m) (key x) = None) \<longleftrightarrow>
      key s \<notin> key ` set ss \<and> (\<forall>x \<in> set ss. kv_get m (key x) = None)"
    by (auto split: if_splits) (metis imageI)
  show ?case unfolding step Cons.IH fresh using fit by (auto simp: add.assoc)
qed auto

lemma keys_kept: "set (keys (kept ss m)) = key ` set ss \<union> set (keys m)"
proof (induction ss arbitrary: m)
  case (Cons s ss)
  show ?case unfolding kept_simps Cons.IH set_keys_kv_set by simp
qed simp

lemma distinct_kept: "distinct (keys m) \<Longrightarrow> distinct (keys (kept ss m))"
  by (induction ss arbitrary: m) auto

lemma kept_other: "k \<notin> key ` set ss \<Longrightarrow> kv_get (kept ss m) k = kv_get m k"
  by (induction ss arbitrary: m) auto

lemma kept_get: "distinct (map key ss) \<Longrightarrow> s \<in> set ss \<Longrightarrow> kv_get (kept ss m) (key s) = Some (val s)"
  by (induction ss arbitrary: m) (auto simp: kept_other)

lemma collect_content:
  assumes "collect add ss ([], 0) = Inr c"
  shows "kv_get (fst c) k = Some v \<longleftrightarrow> (\<exists>s \<in> set ss. key s = k \<and> val s = v)"
proof -
  have c: "fst c = kept ss []" and d: "distinct (map key ss)" using assms by (auto simp: collect_iff)
  show ?thesis
  proof (cases "k \<in> key ` set ss")
    case True
    then show ?thesis using kept_get [OF d, of _ "[]"] d by (auto simp: c distinct_map inj_on_def)
  qed (auto simp: c kept_other)
qed

text \<open>The order of the items does not matter.\<close>

lemma collect_order:
  assumes "collect add ss ([], 0) = Inr c" "mset ss' = mset ss"
  obtains m' where "collect add ss' ([], 0) = Inr (m', snd c)" "kv_get m' = kv_get (fst c)" "sort (keys m') = sort (keys (fst c))"
proof -
  have c: "c = (kept ss [], total ss)" using assms(1) by (simp add: collect_iff)
  have eqs: "set ss' = set ss" "total ss' = total ss" "distinct (map key ss') = distinct (map key ss)"
    using assms(2) by (metis set_mset_mset, metis total_def mset_map sum_mset_sum_list, metis mset_eq_imp_distinct_iff mset_map)
  have same: "collect add ss' ([], 0) = Inr (kept ss' [], snd c)"
    using assms(1) eqs unfolding collect_iff by (auto simp: list_all_iff)
  have get: "kv_get (kept ss' []) = kv_get (fst c)"
  proof
    fix k
    have "kv_get (kept ss' []) k = Some v \<longleftrightarrow> kv_get (fst c) k = Some v" for v
      using collect_content [OF same, of k v] collect_content [OF assms(1), of k v] eqs(1) by simp
    then show "kv_get (kept ss' []) k = kv_get (fst c) k" by (metis not_None_eq)
  qed
  have "set (keys (kept ss' [])) = set (keys (fst c))" by (simp only: c fst_conv keys_kept eqs(1))
  then have "sort (keys (kept ss' [])) = sort (keys (fst c))"
    by (metis c distinct_kept distinct.simps(1) fst_conv list.map(1) set_eq_iff_mset_eq_distinct sorted_list_of_multiset_mset)
  then show thesis using that same get by blast
qed

end

lemma collect_append: "collect add (xs @ ys) c = rbind (collect add xs c) (collect add ys)"
  by (induction xs arbitrary: c) (auto simp: rbind_def split: sum.splits)

section \<open>Both providers are such loops\<close>

definition az_ok :: "az_provider \<Rightarrow> az_setting \<Rightarrow> bool" where
  "az_ok p s \<longleftrightarrow> az_key s \<noteq> None \<and> az_value s \<noteq> None \<and> has_prefix (opt_str (az_key s)) (ap_prefix p) \<and>
     opt_str (az_label s) = ap_label p \<and> \<not> has_prefix (to_lower (opt_str (az_type s))) ''application/vnd.microsoft.appconfig.''"

definition az_cost :: "az_setting \<Rightarrow> int" where
  "az_cost s = int (length (opt_str (az_key s)) + length (opt_str (az_value s)) + length (opt_str (az_label s)))"

interpretation az: collector "az_add p" "\<lambda>s. opt_str (az_key s)" "\<lambda>s. (opt_str (az_value s), opt_str (az_etag s))"
  az_cost "az_ok p" "ap_max p" for p
  by unfold_locales (auto simp: az_add_def az_ok_def az_cost_def opt_str_def Let_def simp del: not_None_eq split: option.splits)

definition ssm_ok :: "ssm_provider \<Rightarrow> ssm_item \<Rightarrow> bool" where
  "ssm_ok p s \<longleftrightarrow> si_name s \<noteq> None \<and> si_value s \<noteq> None \<and> has_prefix (opt_str (si_name s)) (sp_path p @ ''/'')"

definition ssm_cost :: "ssm_item \<Rightarrow> int" where
  "ssm_cost s = int (length (opt_str (si_name s))) + int (length (opt_str (si_value s)))"

interpretation ssm: collector "ssm_add p" "\<lambda>s. trim_prefix (opt_str (si_name s)) (sp_path p @ ''/'')"
  "\<lambda>s. (opt_str (si_value s), si_version s)" ssm_cost "ssm_ok p" "sp_max p" for p
  by unfold_locales (auto simp: ssm_add_def ssm_ok_def ssm_cost_def opt_str_def Let_def simp del: not_None_eq split: option.splits)

text \<open>The items of the pages when the loop over them runs to its end.\<close>

fun listed :: "'a page list \<Rightarrow> 'a list option" where
  "listed [] = Some []"
| "listed (Page ss t # ps) = map_option (\<lambda>rest. ss @ rest) (listed ps)"
| "listed (_ # ps) = None"

lemma listed_set: "listed pages = Some ss \<Longrightarrow> s \<in> set ss \<longleftrightarrow> (\<exists>xs t. Page xs t \<in> set pages \<and> s \<in> set xs)"
proof (induction pages arbitrary: ss)
  case (Cons pg pages)
  then show ?case
  proof (cases pg)
    case (Page xs t)
    then obtain rest where "listed pages = Some rest" "ss = xs @ rest" using Cons.prems by auto
    with Cons.IH [OF this(1)] Page show ?thesis by (metis Un_iff list.set_intros page.inject set_ConsD set_append insert_iff list.simps(15))
  qed auto
qed simp

fun served :: "string list \<Rightarrow> 'a page list \<Rightarrow> 'a list option" where
  "served tokens (Page ss t # ps) =
     (if t = '''' then Some ss else if t \<in> set tokens then None
      else map_option (\<lambda>rest. ss @ rest) (served (t # tokens) ps))"
| "served tokens _ = None"

lemma az_pages_iff: "az_pages p pages c = Inr c' \<longleftrightarrow> (\<exists>ss. listed pages = Some ss \<and> collect (az_add p) ss c = Inr c')"
  by (induction p pages c arbitrary: c' rule: az_pages.induct) (auto simp: collect_append rbind_Inr_iff)

lemma ssm_pages_iff:
  "ssm_pages p tokens pages c = Inr c' \<longleftrightarrow> (\<exists>ss. served tokens pages = Some ss \<and> collect (ssm_add p) ss c = Inr c')"
  by (induction p tokens pages c arbitrary: c' rule: ssm_pages.induct) (auto simp: collect_append rbind_Inr_iff)

text \<open>The second half of both loads: the tree and the revision of what was collected.\<close>

definition tree_of :: "(string \<Rightarrow> bool) \<Rightarrow> (string \<Rightarrow> string list) \<Rightarrow> (string \<times> string \<times> 'v) list \<Rightarrow> settings_error + gmap" where
  "tree_of bad split kvs = insert_all bad [] (map (\<lambda>k. (split k, fst (the (kv_get kvs k)))) (sort (keys kvs)))"

lemma tree_of_exact:
  assumes "tree_of bad split kvs = Inr m" "\<And>k. split k \<noteq> []"
  shows "get_from (GMap m) path = Some (GStr v) \<longleftrightarrow> (\<exists>k x. kv_get kvs k = Some (v, x) \<and> path = split k)"
proof -
  have "\<forall>pv \<in> set (map (\<lambda>k. (split k, fst (the (kv_get kvs k)))) (sort (keys kvs))). fst pv \<noteq> []" using assms(2) by simp
  from set_all_leaf [OF grown_Nil(1) this assms(1) [unfolded tree_of_def], of path v]
  have "get_from (GMap m) path = Some (GStr v) \<longleftrightarrow>
      (\<exists>k. k \<in> set (keys kvs) \<and> path = split k \<and> v = fst (the (kv_get kvs k)))"
    by (cases path) auto
  also have "\<dots> \<longleftrightarrow> (\<exists>k. \<exists>y. kv_get kvs k = Some y \<and> path = split k \<and> v = fst y)"
    using kv_get_None_iff [of kvs] by (metis option.distinct(1) option.exhaust_sel option.sel)
  finally show ?thesis by auto
qed

text \<open>A load succeeds exactly when its loop does and the tree can be built.\<close>

lemma az_load_iff:
  "az_load sha q p alive pages = Inr (m, w) \<longleftrightarrow> alive \<and> (\<exists>ss c. listed pages = Some ss \<and> collect (az_add p) ss ([], 0) = Inr c \<and>
     tree_of (\<lambda>s. s = '''') (\<lambda>k. split_char (CHR '':'') (trim_prefix k (ap_prefix p))) (fst c) = Inr m \<and>
     w = sha (concat (map (\<lambda>k. q k @ '':'' @ q (ap_label p) @ '':'' @ q (snd (the (kv_get (fst c) k))) @ '':'' @
       q (fst (the (kv_get (fst c) k))) @ '';'') (sort (keys (fst c))))))"
  unfolding az_load_def tree_of_def Let_def by (auto simp: rbind_Inr_iff az_pages_iff split: prod.splits)

lemma ssm_load_iff:
  "ssm_load sha q p pages = Inr (m, w) \<longleftrightarrow> (\<exists>ss c. served [] pages = Some ss \<and> collect (ssm_add p) ss ([], 0) = Inr c \<and>
     tree_of dot_segment (split_char (CHR ''/'')) (fst c) = Inr m \<and>
     w = sha (concat (map (\<lambda>k. q k @ '':'' @ q (fst (the (kv_get (fst c) k))) @ '':'' @
       itoa (snd (the (kv_get (fst c) k))) @ '';'') (sort (keys (fst c))))))"
  unfolding ssm_load_def tree_of_def Let_def by (auto simp: rbind_Inr_iff ssm_pages_iff split: prod.splits)

lemma az_ok_fields:
  assumes "az_ok p s"
  shows "opt_str (az_value s) = v \<and> path = split_char (CHR '':'') (trim_prefix (opt_str (az_key s)) (ap_prefix p)) \<longleftrightarrow>
    (\<exists>k. az_key s = Some (ap_prefix p @ k) \<and> az_value s = Some v \<and> path = split_char (CHR '':'') k)"
proof -
  obtain k x where "az_key s = Some (ap_prefix p @ k)" "az_value s = Some x"
    using assms by (auto simp: az_ok_def opt_str_def has_prefix_iff)
  then show ?thesis by (auto simp: opt_str_def)
qed

text \<open>C36. \<open>Load\<close> of the Azure App Configuration provider: when it succeeds, the strings in its tree are exactly the values of
  the settings on all its pages, each at the path its key spells after the prefix. Nothing is dropped and nothing is replaced:
  a repeated key, a key that is a leaf and a branch, an empty segment and a setting outside the selection all make it fail.\<close>

theorem az_tree_exact:
  assumes "az_load sha q p alive pages = Inr (m, w)"
  shows "get_from (GMap m) path = Some (GStr v) \<longleftrightarrow>
    (\<exists>ss t s k. Page ss t \<in> set pages \<and> s \<in> set ss \<and> az_key s = Some (ap_prefix p @ k) \<and> az_value s = Some v \<and>
       path = split_char (CHR '':'') k)"
proof -
  obtain ss c where ss: "listed pages = Some ss" and c: "collect (az_add p) ss ([], 0) = Inr c"
    and tree: "tree_of (\<lambda>s. s = '''') (\<lambda>k. split_char (CHR '':'') (trim_prefix k (ap_prefix p))) (fst c) = Inr m"
    using assms by (auto simp: az_load_iff)
  have ok: "s \<in> set ss \<Longrightarrow> az_ok p s" for s using c by (auto simp: az.collect_iff list_all_iff)
  have "get_from (GMap m) path = Some (GStr v) \<longleftrightarrow>
      (\<exists>s \<in> set ss. opt_str (az_value s) = v \<and> path = split_char (CHR '':'') (trim_prefix (opt_str (az_key s)) (ap_prefix p)))"
    using tree_of_exact [OF tree, of path v] az.collect_content [OF c] by auto
  also have "\<dots> \<longleftrightarrow> (\<exists>s k. s \<in> set ss \<and> az_key s = Some (ap_prefix p @ k) \<and> az_value s = Some v \<and> path = split_char (CHR '':'') k)"
    using az_ok_fields [OF ok] by blast
  finally show ?thesis using listed_set [OF ss] by blast
qed

definition sample_az :: az_provider where
  "sample_az = \<lparr>ap_name = ''az'', ap_prefix = ''app/'', ap_label = '''', ap_priority = 30, ap_max = 100\<rparr>"

definition plain_setting :: "string \<Rightarrow> string \<Rightarrow> az_setting" where
  "plain_setting k v = \<lparr>az_key = Some k, az_value = Some v, az_label = None, az_type = None, az_etag = None\<rparr>"

definition sample_pages :: "az_setting page list" where
  "sample_pages = [Page [plain_setting ''app/db:host'' ''h''] ''t'', Page [plain_setting ''app/db:port'' ''1''] '''']"

lemma sample_az_load:
  "az_load id id sample_az True sample_pages = Inr ([(''db'', GMap [(''host'', GStr ''h''), (''port'', GStr ''1'')])],
     ''app/db:host:::h;app/db:port:::1;'')"
  by code_simp

theorem az_tree_exact_witness:
  "\<exists>ss t s k. Page ss t \<in> set sample_pages \<and> s \<in> set ss \<and> az_key s = Some (ap_prefix sample_az @ k) \<and> az_value s = Some ''1'' \<and>
     [''db'', ''port''] = split_char (CHR '':'') k"
  using az_tree_exact [OF sample_az_load, of "[''db'', ''port'']" "''1''"] by simp

text \<open>\<open>Load\<close> of the Parameter Store provider: its tree holds exactly the parameters served up to the page that has no
  next token, each at the path of its name below the configured one.\<close>

lemma ssm_ok_fields:
  assumes "ssm_ok p s"
  shows "opt_str (si_value s) = v \<and> path = split_char (CHR ''/'') (trim_prefix (opt_str (si_name s)) (sp_path p @ ''/'')) \<longleftrightarrow>
    (\<exists>k. si_name s = Some (sp_path p @ ''/'' @ k) \<and> si_value s = Some v \<and> path = split_char (CHR ''/'') k)"
proof -
  obtain k x where *: "si_name s = Some ((sp_path p @ ''/'') @ k)" "si_value s = Some x"
    using assms by (auto simp: ssm_ok_def opt_str_def has_prefix_iff)
  have "trim_prefix (opt_str (si_name s)) (sp_path p @ ''/'') = k"
    unfolding * opt_str_def option.case by (rule trim_prefix_append)
  then show ?thesis using * by (auto simp: opt_str_def)
qed

lemma ssm_tree_exact:
  assumes "ssm_load sha q p pages = Inr (m, w)"
  obtains ss where "served [] pages = Some ss"
    "\<And>path v. get_from (GMap m) path = Some (GStr v) \<longleftrightarrow>
      (\<exists>s k. s \<in> set ss \<and> si_name s = Some (sp_path p @ ''/'' @ k) \<and> si_value s = Some v \<and> path = split_char (CHR ''/'') k)"
proof -
  obtain ss c where ss: "served [] pages = Some ss" and c: "collect (ssm_add p) ss ([], 0) = Inr c"
    and tree: "tree_of dot_segment (split_char (CHR ''/'')) (fst c) = Inr m"
    using assms by (auto simp: ssm_load_iff)
  have ok: "s \<in> set ss \<Longrightarrow> ssm_ok p s" for s using c by (auto simp: ssm.collect_iff list_all_iff)
  have "get_from (GMap m) path = Some (GStr v) \<longleftrightarrow> (\<exists>s \<in> set ss. opt_str (si_value s) = v \<and>
      path = split_char (CHR ''/'') (trim_prefix (opt_str (si_name s)) (sp_path p @ ''/'')))" for path v
    using tree_of_exact [OF tree, of path v] ssm.collect_content [OF c] by auto
  also have "\<dots> path v \<longleftrightarrow> (\<exists>s k. s \<in> set ss \<and> si_name s = Some (sp_path p @ ''/'' @ k) \<and> si_value s = Some v \<and>
      path = split_char (CHR ''/'') k)" for path v
    using ssm_ok_fields [OF ok] by blast
  finally show thesis using that ss by blast
qed

lemma tree_of_order:
  assumes "kv_get a = kv_get b" "sort (keys a) = sort (keys b)"
  shows "tree_of bad split a = tree_of bad split b"
  by (simp add: tree_of_def assms)

lemma az_order:
  assumes "az_load sha q p alive pages = Inr r" "listed pages = Some ss" "listed pages' = Some ss'" "mset ss' = mset ss"
  shows "az_load sha q p alive pages' = Inr r"
proof -
  obtain m w where r: "r = (m, w)" by (cases r)
  obtain c where c: "collect (az_add p) ss ([], 0) = Inr c" "alive"
      "tree_of (\<lambda>s. s = '''') (\<lambda>k. split_char (CHR '':'') (trim_prefix k (ap_prefix p))) (fst c) = Inr m"
      "w = sha (concat (map (\<lambda>k. q k @ '':'' @ q (ap_label p) @ '':'' @ q (snd (the (kv_get (fst c) k))) @ '':'' @
       q (fst (the (kv_get (fst c) k))) @ '';'') (sort (keys (fst c)))))"
    using assms(1,2) by (auto simp: r az_load_iff)
  obtain kvs where kvs: "collect (az_add p) ss' ([], 0) = Inr (kvs, snd c)" "kv_get kvs = kv_get (fst c)"
      "sort (keys kvs) = sort (keys (fst c))"
    using az.collect_order [OF c(1) assms(4)] by blast
  then show ?thesis unfolding r az_load_iff
    using c(2,3,4) assms(3) by (intro conjI exI [of _ ss'] exI [of _ "(kvs, snd c)"]) (simp_all add: tree_of_order [OF kvs(2,3)])
qed

lemma ssm_order:
  assumes "ssm_load sha q p pages = Inr r" "served [] pages = Some ss" "served [] pages' = Some ss'" "mset ss' = mset ss"
  shows "ssm_load sha q p pages' = Inr r"
proof -
  obtain m w where r: "r = (m, w)" by (cases r)
  obtain c where c: "collect (ssm_add p) ss ([], 0) = Inr c"
      "tree_of dot_segment (split_char (CHR ''/'')) (fst c) = Inr m"
      "w = sha (concat (map (\<lambda>k. q k @ '':'' @ q (fst (the (kv_get (fst c) k))) @ '':'' @
       itoa (snd (the (kv_get (fst c) k))) @ '';'') (sort (keys (fst c)))))"
    using assms(1,2) by (auto simp: r ssm_load_iff)
  obtain kvs where kvs: "collect (ssm_add p) ss' ([], 0) = Inr (kvs, snd c)" "kv_get kvs = kv_get (fst c)"
      "sort (keys kvs) = sort (keys (fst c))"
    using ssm.collect_order [OF c(1) assms(4)] by blast
  then show ?thesis unfolding r ssm_load_iff
    using c(2,3) assms(3) by (intro exI [of _ ss'] exI [of _ "(kvs, snd c)"]) (simp add: tree_of_order [OF kvs(2,3)])
qed

text \<open>C38. The order and the pages in which a service lists its settings do not matter: both providers answer the same tree
  with the same revision for any listing of the same settings, and fail on one exactly when they fail on the other.\<close>

theorem listing_order_free:
  assumes "listed az1 = Some a1" "listed az2 = Some a2" "mset a1 = mset a2"
    and "served [] ps1 = Some s1" "served [] ps2 = Some s2" "mset s1 = mset s2"
  shows "(az_load sha q p alive az1 = Inr r \<longleftrightarrow> az_load sha q p alive az2 = Inr r) \<and>
    (ssm_load sha q sp ps1 = Inr r \<longleftrightarrow> ssm_load sha q sp ps2 = Inr r)"
  using az_order [OF _ assms(1,2) assms(3) [symmetric]] az_order [OF _ assms(2,1,3)]
    ssm_order [OF _ assms(4,5) assms(6) [symmetric]] ssm_order [OF _ assms(5,4,6)] by blast

definition sample_ssm :: ssm_provider where
  "sample_ssm = \<lparr>sp_path = ''/app'', sp_decrypt = False, sp_priority = 30, sp_max = 100\<rparr>"

definition ssm_pages1 :: "ssm_item page list" where
  "ssm_pages1 = [Page [\<lparr>si_name = Some ''/app/a'', si_value = Some ''1'', si_version = 3\<rparr>] ''t'',
     Page [\<lparr>si_name = Some ''/app/b/c'', si_value = Some ''2'', si_version = 1\<rparr>] '''']"

definition ssm_pages2 :: "ssm_item page list" where
  "ssm_pages2 = [Page [\<lparr>si_name = Some ''/app/b/c'', si_value = Some ''2'', si_version = 1\<rparr>,
     \<lparr>si_name = Some ''/app/a'', si_value = Some ''1'', si_version = 3\<rparr>] '''']"

theorem listing_order_free_witness:
  "ssm_load id id sample_ssm ssm_pages2 = Inr ([(''a'', GStr ''1''), (''b'', GMap [(''c'', GStr ''2'')])], ''a:1:3;b/c:2:1;'')"
proof -
  have one: "ssm_load id id sample_ssm ssm_pages1 = Inr ([(''a'', GStr ''1''), (''b'', GMap [(''c'', GStr ''2'')])], ''a:1:3;b/c:2:1;'')"
    by code_simp
  have "(az_load id id sample_az True sample_pages = Inr r \<longleftrightarrow> az_load id id sample_az True sample_pages = Inr r) \<and>
    (ssm_load id id sample_ssm ssm_pages1 = Inr r \<longleftrightarrow> ssm_load id id sample_ssm ssm_pages2 = Inr r)" for r
    by (rule listing_order_free [of _ "the (listed sample_pages)" _ "the (listed sample_pages)"
          _ "the (served [] ssm_pages1)" _ "the (served [] ssm_pages2)"])
      (simp_all add: sample_pages_def ssm_pages1_def ssm_pages2_def)
  then show ?thesis using one by blast
qed

end
