(* ===== verification/Construct.thy ===== *)
theory Construct
  imports Manager Watch Profiles
begin

text \<open>
  \<open>options.go\<close>, \<open>options_resolve.go\<close>, the options of \<open>observe.go\<close>, and the construction and the end of a manager in
  \<open>manager.go\<close> and \<open>load_file.go\<close>. An option is a function on the record of options; \<open>option_call\<close> names the calls
  that make one. User code (functions, loggers, resolvers) is opaque: a type variable, a nil value being \<open>None\<close>.
\<close>

section \<open>The record of options\<close>

datatype option_error =
    BadFormat dump_format | NilLogger | TooManyAxes | NegativeHistory | NilTransform nat | NilObserver nat | NilTracer

text \<open>A provider is registered with what its \<open>Describe\<close> answered: its priority and the paths to watch.\<close>

type_synonym provider_info = "int \<times> string list"

record ('p, 'f, 't) options =
  o_dir :: string
  o_fs :: bool                                 \<comment> \<open>a virtual file system is set\<close>
  o_skip :: bool
  o_profile_names :: "string list"
  o_profile_match :: string
  o_profile_env :: string
  o_profile_default :: string
  o_strict :: bool
  o_logger :: "'f option"                      \<comment> \<open>\<open>None\<close> is the silent default\<close>
  o_providers :: "('p \<times> provider_info) list"
  o_file_watch :: bool
  o_windows :: coalesce_opts
  o_watch_paths :: "string list"
  o_axes :: "axis_spec list"
  o_types :: "'t list"
  o_validators :: "('t \<times> 'f) list"
  o_transforms :: "'f list"
  o_provenance :: level
  o_history :: int
  o_redactor :: "'f option"
  o_secret_paths :: "string list"
  o_yaml :: bool
  o_unknown :: unknown_mode
  o_tracer :: "'f option"                      \<comment> \<open>\<open>None\<close> is \<open>NoopTracer\<close>\<close>
  o_policies :: "('t \<times> 'f) list"
  o_errs :: "option_error list"
  o_resolver :: "'f option"
  o_generators :: "'f list"
  o_hooks :: "'f list"
  o_hooks_off :: bool
  o_merge_keys :: "(string \<times> string) list"
  o_observers :: "'f list"
  o_timeout :: int
  o_tenant :: string

definition default_dir :: string where "default_dir = ''conf.d''"
definition default_observer_timeout :: int where "default_observer_timeout = 2000 * 1000000"

definition default_options :: "('p, 'f, 't) options" where
  "default_options =
     \<lparr>o_dir = default_dir, o_fs = False, o_skip = False, o_profile_names = [], o_profile_match = '''', o_profile_env = '''',
      o_profile_default = '''', o_strict = False, o_logger = None, o_providers = [], o_file_watch = False,
      o_windows = apply_profile 0, o_watch_paths = [], o_axes = [], o_types = [], o_validators = [], o_transforms = [],
      o_provenance = Off, o_history = 0, o_redactor = None, o_secret_paths = [], o_yaml = False, o_unknown = UnknownWarn,
      o_tracer = None, o_policies = [], o_errs = [], o_resolver = None, o_generators = [], o_hooks = [], o_hooks_off = False,
      o_merge_keys = [], o_observers = [], o_timeout = 0, o_tenant = ''''\<rparr>"

definition add_err :: "option_error \<Rightarrow> ('p, 'f, 't) options \<Rightarrow> ('p, 'f, 't) options" where
  "add_err e oo = oo\<lparr>o_errs := o_errs oo @ [e]\<rparr>"

section \<open>The options\<close>

definition with_decode_format :: "dump_format \<Rightarrow> ('p, 'f, 't) options \<Rightarrow> ('p, 'f, 't) options" where
  "with_decode_format f oo =
     (case f of DumpJSON \<Rightarrow> oo\<lparr>o_yaml := False\<rparr> | DumpYAML \<Rightarrow> oo\<lparr>o_yaml := True\<rparr> | _ \<Rightarrow> add_err (BadFormat f) oo)"

definition with_unknown_fields :: "unknown_mode \<Rightarrow> ('p, 'f, 't) options \<Rightarrow> ('p, 'f, 't) options" where
  "with_unknown_fields mode oo = oo\<lparr>o_unknown := mode\<rparr>"

definition with_dir :: "string \<Rightarrow> ('p, 'f, 't) options \<Rightarrow> ('p, 'f, 't) options" where
  "with_dir dir oo = oo\<lparr>o_dir := dir\<rparr>"

definition with_fs :: "bool \<Rightarrow> ('p, 'f, 't) options \<Rightarrow> ('p, 'f, 't) options" where
  "with_fs present oo = oo\<lparr>o_fs := present\<rparr>"

definition with_strict_merge :: "bool \<Rightarrow> ('p, 'f, 't) options \<Rightarrow> ('p, 'f, 't) options" where
  "with_strict_merge b oo = oo\<lparr>o_strict := b\<rparr>"

definition with_logger :: "'f option \<Rightarrow> ('p, 'f, 't) options \<Rightarrow> ('p, 'f, 't) options" where
  "with_logger l oo = (if l = None then add_err NilLogger oo else oo\<lparr>o_logger := l\<rparr>)"

record watch_config =
  wt_paths :: "string list"
  wt_quiet :: int
  wt_max_lag :: int
  wt_swap_hint :: int
  wt_profile :: int

definition override_windows :: "watch_config \<Rightarrow> coalesce_opts \<Rightarrow> coalesce_opts" where
  "override_windows w c =
     \<lparr>cq_quiet = (if 0 < wt_quiet w then wt_quiet w else cq_quiet c),
      cq_max_lag = (if 0 < wt_max_lag w then wt_max_lag w else cq_max_lag c),
      cq_swap_hint = (if 0 < wt_swap_hint w then wt_swap_hint w else cq_swap_hint c)\<rparr>"

definition with_watch :: "watch_config \<Rightarrow> ('p, 'f, 't) options \<Rightarrow> ('p, 'f, 't) options" where
  "with_watch w oo = oo\<lparr>o_file_watch := True, o_watch_paths := o_watch_paths oo @ wt_paths w,
     o_windows := override_windows w (apply_profile (wt_profile w))\<rparr>"

definition max_axes :: int where "max_axes = (band_file_end - band_axis) div overlay_stride"

definition with_axes :: "axis_spec list \<Rightarrow> ('p, 'f, 't) options \<Rightarrow> ('p, 'f, 't) options" where
  "with_axes axes oo =
     (if max_axes < int (length (o_axes oo) + length axes) then add_err TooManyAxes oo else oo\<lparr>o_axes := o_axes oo @ axes\<rparr>)"

definition with_tenant :: "string \<Rightarrow> ('p, 'f, 't) options \<Rightarrow> ('p, 'f, 't) options" where
  "with_tenant tid oo = oo\<lparr>o_tenant := tid\<rparr>"

definition with_redactor :: "'f option \<Rightarrow> ('p, 'f, 't) options \<Rightarrow> ('p, 'f, 't) options" where
  "with_redactor r oo = oo\<lparr>o_redactor := r\<rparr>"

definition with_secret_paths :: "string list \<Rightarrow> ('p, 'f, 't) options \<Rightarrow> ('p, 'f, 't) options" where
  "with_secret_paths pats oo = oo\<lparr>o_secret_paths := o_secret_paths oo @ pats\<rparr>"

definition with_provenance :: "level \<Rightarrow> ('p, 'f, 't) options \<Rightarrow> ('p, 'f, 't) options" where
  "with_provenance l oo = oo\<lparr>o_provenance := l\<rparr>"

definition with_history :: "int \<Rightarrow> ('p, 'f, 't) options \<Rightarrow> ('p, 'f, 't) options" where
  "with_history n oo = (if n < 0 then add_err NegativeHistory oo else oo\<lparr>o_history := n\<rparr>)"

text \<open>\<open>contracts.Describe\<close>: a provider without the method has priority 0 and watches nothing.\<close>

definition describe_provider :: "('p \<Rightarrow> provider_info option) \<Rightarrow> 'p \<Rightarrow> provider_info" where
  "describe_provider d p = (case d p of None \<Rightarrow> (0, []) | Some i \<Rightarrow> i)"

definition add_provider :: "('p \<Rightarrow> provider_info option) \<Rightarrow> 'p \<Rightarrow> ('p, 'f, 't) options \<Rightarrow> ('p, 'f, 't) options" where
  "add_provider d p oo = oo\<lparr>o_providers := o_providers oo @ [(p, describe_provider d p)]\<rparr>"

fun with_provider :: "('p \<Rightarrow> provider_info option) \<Rightarrow> 'p option list \<Rightarrow> ('p, 'f, 't) options \<Rightarrow> ('p, 'f, 't) options" where
  "with_provider d [] oo = oo"
| "with_provider d (None # ps) oo = with_provider d ps oo"
| "with_provider d (Some p # ps) oo = with_provider d ps (add_provider d p oo)"

fun with_generator :: "'f option list \<Rightarrow> ('p, 'f, 't) options \<Rightarrow> ('p, 'f, 't) options" where
  "with_generator [] oo = oo"
| "with_generator (None # gs) oo = with_generator gs oo"
| "with_generator (Some g # gs) oo = with_generator gs (oo\<lparr>o_generators := o_generators oo @ [g]\<rparr>)"

fun with_typed_hook :: "'f option list \<Rightarrow> ('p, 'f, 't) options \<Rightarrow> ('p, 'f, 't) options" where
  "with_typed_hook [] oo = oo"
| "with_typed_hook (None # hs) oo = with_typed_hook hs oo"
| "with_typed_hook (Some h # hs) oo = with_typed_hook hs (oo\<lparr>o_hooks := o_hooks oo @ [h]\<rparr>)"

definition without_default_typed_hooks :: "('p, 'f, 't) options \<Rightarrow> ('p, 'f, 't) options" where
  "without_default_typed_hooks oo = oo\<lparr>o_hooks_off := True\<rparr>"

definition with_merge_keys :: "(string \<times> string) list \<Rightarrow> ('p, 'f, 't) options \<Rightarrow> ('p, 'f, 't) options" where
  "with_merge_keys ks oo = oo\<lparr>o_merge_keys := fold (\<lambda>(k, v). kv_set k v) ks (o_merge_keys oo)\<rparr>"

text \<open>The functions from number \<open>i\<close> on.\<close>

fun with_transform :: "nat \<Rightarrow> 'f option list \<Rightarrow> ('p, 'f, 't) options \<Rightarrow> ('p, 'f, 't) options" where
  "with_transform i [] oo = oo"
| "with_transform i (None # fs) oo = with_transform (Suc i) fs (add_err (NilTransform i) oo)"
| "with_transform i (Some f # fs) oo = with_transform (Suc i) fs (oo\<lparr>o_transforms := o_transforms oo @ [f]\<rparr>)"

fun with_validate :: "'t \<Rightarrow> 'f option list \<Rightarrow> ('p, 'f, 't) options \<Rightarrow> ('p, 'f, 't) options" where
  "with_validate t [] oo = oo"
| "with_validate t (None # vs) oo = with_validate t vs oo"
| "with_validate t (Some v # vs) oo =
     with_validate t vs (oo\<lparr>o_types := o_types oo @ [t], o_validators := o_validators oo @ [(t, v)]\<rparr>)"

record profile_config =
  pc_names :: "string list"
  pc_env :: string
  pc_default :: string
  pc_match :: string

definition with_profile :: "profile_config \<Rightarrow> ('p, 'f, 't) options \<Rightarrow> ('p, 'f, 't) options" where
  "with_profile p oo = oo\<lparr>o_profile_names := trim_profiles [] (pc_names p), o_profile_env := pc_env p,
     o_profile_default := pc_default p, o_profile_match := pc_match p\<rparr>"

fun with_policy :: "'t \<Rightarrow> 'f option list \<Rightarrow> ('p, 'f, 't) options \<Rightarrow> ('p, 'f, 't) options" where
  "with_policy t [] oo = oo"
| "with_policy t (None # ps) oo = with_policy t ps oo"
| "with_policy t (Some p # ps) oo =
     with_policy t ps (oo\<lparr>o_types := o_types oo @ [t], o_policies := o_policies oo @ [(t, p)]\<rparr>)"

definition with_secret_resolver :: "'f option \<Rightarrow> ('p, 'f, 't) options \<Rightarrow> ('p, 'f, 't) options" where
  "with_secret_resolver r oo = oo\<lparr>o_resolver := r\<rparr>"

fun with_observer :: "nat \<Rightarrow> 'f option list \<Rightarrow> ('p, 'f, 't) options \<Rightarrow> ('p, 'f, 't) options" where
  "with_observer i [] oo = oo"
| "with_observer i (None # obs) oo = with_observer (Suc i) obs (add_err (NilObserver i) oo)"
| "with_observer i (Some ob # obs) oo = with_observer (Suc i) obs (oo\<lparr>o_observers := o_observers oo @ [ob]\<rparr>)"

definition with_observer_timeout :: "int \<Rightarrow> ('p, 'f, 't) options \<Rightarrow> ('p, 'f, 't) options" where
  "with_observer_timeout n oo = oo\<lparr>o_timeout := n\<rparr>"

definition with_tracer :: "'f option \<Rightarrow> ('p, 'f, 't) options \<Rightarrow> ('p, 'f, 't) options" where
  "with_tracer t oo = (if t = None then add_err NilTracer oo else oo\<lparr>o_tracer := t\<rparr>)"

definition skip_discovery :: "('p, 'f, 't) options \<Rightarrow> ('p, 'f, 't) options" where
  "skip_discovery oo = oo\<lparr>o_skip := True\<rparr>"

text \<open>The calls that make an option, and what the option does.\<close>

datatype ('p, 'f, 't) option_call =
    WithDecodeFormat dump_format | WithUnknownFields unknown_mode | WithDir string | WithFS bool | WithStrictMerge bool
  | WithLogger "'f option" | WithWatch watch_config | WithAxes "axis_spec list" | WithTenant string | WithRedactor "'f option"
  | WithSecretPaths "string list" | WithProvenance level | WithHistory int | WithProvider "'p option list"
  | WithGenerator "'f option list" | WithTypedHook "'f option list" | WithoutDefaultTypedHooks
  | WithMergeKeys "(string \<times> string) list" | WithTransform "'f option list" | WithValidate 't "'f option list"
  | WithProfile profile_config | WithPolicy 't "'f option list" | WithSecretResolver "'f option"
  | WithObserver "'f option list" | WithObserverTimeout int | WithTracer "'f option" | SkipDiscovery

fun apply_option ::
  "('p \<Rightarrow> provider_info option) \<Rightarrow> ('p, 'f, 't) option_call \<Rightarrow> ('p, 'f, 't) options \<Rightarrow> ('p, 'f, 't) options" where
  "apply_option d (WithDecodeFormat f) = with_decode_format f"
| "apply_option d (WithUnknownFields u) = with_unknown_fields u"
| "apply_option d (WithDir s) = with_dir s"
| "apply_option d (WithFS b) = with_fs b"
| "apply_option d (WithStrictMerge b) = with_strict_merge b"
| "apply_option d (WithLogger l) = with_logger l"
| "apply_option d (WithWatch w) = with_watch w"
| "apply_option d (WithAxes ax) = with_axes ax"
| "apply_option d (WithTenant s) = with_tenant s"
| "apply_option d (WithRedactor r) = with_redactor r"
| "apply_option d (WithSecretPaths ps) = with_secret_paths ps"
| "apply_option d (WithProvenance l) = with_provenance l"
| "apply_option d (WithHistory n) = with_history n"
| "apply_option d (WithProvider ps) = with_provider d ps"
| "apply_option d (WithGenerator gs) = with_generator gs"
| "apply_option d (WithTypedHook hs) = with_typed_hook hs"
| "apply_option d WithoutDefaultTypedHooks = without_default_typed_hooks"
| "apply_option d (WithMergeKeys ks) = with_merge_keys ks"
| "apply_option d (WithTransform fs) = with_transform 0 fs"
| "apply_option d (WithValidate t vs) = with_validate t vs"
| "apply_option d (WithProfile p) = with_profile p"
| "apply_option d (WithPolicy t ps) = with_policy t ps"
| "apply_option d (WithSecretResolver r) = with_secret_resolver r"
| "apply_option d (WithObserver obs) = with_observer 0 obs"
| "apply_option d (WithObserverTimeout n) = with_observer_timeout n"
| "apply_option d (WithTracer t) = with_tracer t"
| "apply_option d SkipDiscovery = skip_discovery"

section \<open>Resolution\<close>

fun apply_options ::
  "('p \<Rightarrow> provider_info option) \<Rightarrow> ('p, 'f, 't) option_call option list \<Rightarrow> ('p, 'f, 't) options \<Rightarrow> ('p, 'f, 't) options" where
  "apply_options d [] oo = oo"
| "apply_options d (None # cs) oo = apply_options d cs oo"
| "apply_options d (Some c # cs) oo = apply_options d cs (apply_option d c oo)"

datatype construct_error =
    OptionErrors "option_error list" | BadMatch profile_error | WrongTarget | InitialFailed string | WatchFailed
  | OpenFailed | UnknownExtension | ReadFailed

definition resolve_options ::
  "('p \<Rightarrow> provider_info option) \<Rightarrow> ('p, 'f, 't) option_call option list \<Rightarrow> construct_error + ('p, 'f, 't) options" where
  "resolve_options d cs =
     (let o1 = apply_options d cs default_options;
          o2 = (if o_timeout o1 = 0 then o1\<lparr>o_timeout := default_observer_timeout\<rparr> else o1) in
      if o_errs o2 \<noteq> [] then Inl (OptionErrors (o_errs o2))
      else if o_profile_match o2 = '''' then Inr o2
      else case compile_profile (o_profile_match o2) of Inl e \<Rightarrow> Inl (BadMatch e) | Inr _ \<Rightarrow> Inr o2)"

definition check_typed_options :: "'t \<Rightarrow> ('p, 'f, 't) options \<Rightarrow> construct_error option" where
  "check_typed_options want oo = (if list_ex (\<lambda>got. got \<noteq> want) (o_types oo) then Some WrongTarget else None)"

text \<open>The closure \<open>WithValidate\<close> registers: a target of another type is \<open>ErrInvalid\<close>.\<close>

datatype 'e verdict = NotOfType | Verdict 'e

definition run_validator :: "('f \<Rightarrow> 'x \<Rightarrow> 'e) \<Rightarrow> 't \<times> 'f \<Rightarrow> 't \<times> 'x \<Rightarrow> 'e verdict" where
  "run_validator call v target = (if fst target = fst v then Verdict (call (snd v) (snd target)) else NotOfType)"

definition typed_hooks :: "'f list \<Rightarrow> ('p, 'f, 't) options \<Rightarrow> 'f list" where
  "typed_hooks defaults oo = (if o_hooks_off oo then [] else defaults) @ o_hooks oo"

section \<open>What resolution guarantees\<close>

lemma dropWhile_rev_idem: "dropWhile P (rev (dropWhile P (rev (dropWhile P xs)))) = rev (dropWhile P (rev (dropWhile P xs)))"
proof (cases "dropWhile P xs")
  case (Cons y ys)
  then have "\<not> P y" by (metis dropWhile_eq_Cons_conv)
  then have "rev (dropWhile P (rev (y # ys))) = y # rev (dropWhile P (rev ys))" by (simp add: dropWhile_append1 dropWhile_append3 dropWhile_append)
  then show ?thesis using Cons \<open>\<not> P y\<close> by simp
qed (simp only: rev.simps dropWhile.simps)

lemma trim_space_idem [simp]: "trim_space (trim_space s) = trim_space s"
  by (simp add: trim_space_def dropWhile_rev_idem dropWhile_idem)

lemma trimmed_profiles: "n \<in> set (trim_profiles [] vals) \<Longrightarrow> n \<noteq> '''' \<and> trim_space n = n"
  by (auto simp: trim_profiles_def)

definition options_ok :: "('p, 'f, 't) options \<Rightarrow> bool" where
  "options_ok oo \<longleftrightarrow> int (length (o_axes oo)) \<le> max_axes \<and> 0 \<le> o_history oo \<and>
     (\<forall>n \<in> set (o_profile_names oo). n \<noteq> '''' \<and> trim_space n = n) \<and>
     0 < cq_quiet (o_windows oo) \<and> 0 < cq_max_lag (o_windows oo) \<and> 0 < cq_swap_hint (o_windows oo) \<and>
     distinct (keys (o_merge_keys oo)) \<and>
     set (o_types oo) = fst ` set (o_validators oo) \<union> fst ` set (o_policies oo)"

lemmas setter_defs = with_decode_format_def with_unknown_fields_def with_dir_def with_fs_def with_strict_merge_def with_logger_def
  with_watch_def with_axes_def with_tenant_def with_redactor_def with_secret_paths_def with_provenance_def with_history_def
  add_provider_def without_default_typed_hooks_def with_merge_keys_def with_profile_def with_secret_resolver_def
  with_observer_timeout_def with_tracer_def skip_discovery_def add_err_def

text \<open>What the options that take several entries do.\<close>

definition present :: "'a option list \<Rightarrow> 'a list" where
  "present xs = map the (filter (\<lambda>x. x \<noteq> None) xs)"

lemma present_simps [simp]: "present [] = []" "present (None # xs) = present xs" "present (Some x # xs) = x # present xs"
  by (simp_all add: present_def)

fun nil_at :: "(nat \<Rightarrow> 'e) \<Rightarrow> nat \<Rightarrow> 'a option list \<Rightarrow> 'e list" where
  "nil_at e i [] = []"
| "nil_at e i (x # xs) = (if x = None then [e i] else []) @ nil_at e (Suc i) xs"

lemma with_provider_eq:
  "with_provider d ps oo = oo\<lparr>o_providers := o_providers oo @ map (\<lambda>p. (p, describe_provider d p)) (present ps)\<rparr>"
  by (induction d ps oo rule: with_provider.induct) (auto simp: add_provider_def)

lemma with_generator_eq: "with_generator gs oo = oo\<lparr>o_generators := o_generators oo @ present gs\<rparr>"
  by (induction gs oo rule: with_generator.induct) auto

lemma with_typed_hook_eq: "with_typed_hook hs oo = oo\<lparr>o_hooks := o_hooks oo @ present hs\<rparr>"
  by (induction hs oo rule: with_typed_hook.induct) auto

lemma with_transform_eq:
  "with_transform i fs oo = oo\<lparr>o_errs := o_errs oo @ nil_at NilTransform i fs, o_transforms := o_transforms oo @ present fs\<rparr>"
  by (induction i fs oo rule: with_transform.induct) (auto simp: add_err_def)

lemma with_observer_eq:
  "with_observer i fs oo = oo\<lparr>o_errs := o_errs oo @ nil_at NilObserver i fs, o_observers := o_observers oo @ present fs\<rparr>"
  by (induction i fs oo rule: with_observer.induct) (auto simp: add_err_def)

lemma with_validate_eq:
  "with_validate t vs oo = oo\<lparr>o_types := o_types oo @ map (\<lambda>_. t) (present vs), o_validators := o_validators oo @ map (Pair t) (present vs)\<rparr>"
  by (induction t vs oo rule: with_validate.induct) auto

lemma with_policy_eq:
  "with_policy t ps oo = oo\<lparr>o_types := o_types oo @ map (\<lambda>_. t) (present ps), o_policies := o_policies oo @ map (Pair t) (present ps)\<rparr>"
  by (induction t ps oo rule: with_policy.induct) auto

lemmas entry_eqs = with_provider_eq with_generator_eq with_typed_hook_eq with_transform_eq with_observer_eq with_validate_eq with_policy_eq

lemma windows_pos: "0 < cq_quiet (apply_profile n) \<and> 0 < cq_max_lag (apply_profile n) \<and> 0 < cq_swap_hint (apply_profile n)"
  by (simp add: apply_profile_def default_quiet_def default_max_lag_def default_swap_hint_def milliseconds_def)

lemma distinct_copied: "distinct (keys m) \<Longrightarrow> distinct (keys (fold (\<lambda>(k, v). kv_set k v) ks m))"
  by (induction ks arbitrary: m) auto

lemma options_ok_default: "options_ok default_options"
  by (simp add: options_ok_def default_options_def windows_pos max_axes_def band_defs)

lemma options_ok_apply: "options_ok oo \<Longrightarrow> options_ok (apply_option d c oo)"
proof (induction c)
  case (WithDecodeFormat f)
  then show ?case by (cases f) (auto simp: setter_defs options_ok_def)
next
  case (WithMergeKeys ks)
  then show ?case by (simp add: setter_defs options_ok_def distinct_copied)
next
  case (WithWatch w)
  then show ?case using windows_pos [of "wt_profile w"] by (auto simp: setter_defs options_ok_def override_windows_def)
next
  case (WithProfile p)
  then show ?case using trimmed_profiles [of _ "pc_names p"] by (auto simp: setter_defs options_ok_def)
qed (auto simp: setter_defs options_ok_def entry_eqs image_Un image_image)

lemma options_ok_all: "options_ok oo \<Longrightarrow> options_ok (apply_options d cs oo)"
  by (induction d cs oo rule: apply_options.induct) (auto simp: options_ok_apply)

section \<open>Errors\<close>

text \<open>The errors one option adds, given the number of axes before it.\<close>

fun faults_of :: "nat \<Rightarrow> ('p, 'f, 't) option_call \<Rightarrow> option_error list" where
  "faults_of n (WithDecodeFormat f) = (if f = DumpJSON \<or> f = DumpYAML then [] else [BadFormat f])"
| "faults_of n (WithLogger l) = (if l = None then [NilLogger] else [])"
| "faults_of n (WithTracer t) = (if t = None then [NilTracer] else [])"
| "faults_of n (WithAxes ax) = (if max_axes < int (n + length ax) then [TooManyAxes] else [])"
| "faults_of n (WithHistory h) = (if h < 0 then [NegativeHistory] else [])"
| "faults_of n (WithTransform fs) = nil_at NilTransform 0 fs"
| "faults_of n (WithObserver obs) = nil_at NilObserver 0 obs"
| "faults_of n _ = []"

fun axes_given :: "nat \<Rightarrow> ('p, 'f, 't) option_call \<Rightarrow> nat" where
  "axes_given n (WithAxes ax) = (if max_axes < int (n + length ax) then n else n + length ax)"
| "axes_given n _ = n"

fun all_faults :: "nat \<Rightarrow> ('p, 'f, 't) option_call list \<Rightarrow> option_error list" where
  "all_faults n [] = []"
| "all_faults n (c # cs) = faults_of n c @ all_faults (axes_given n c) cs"

lemma apply_errs: "o_errs (apply_option d c oo) = o_errs oo @ faults_of (length (o_axes oo)) c"
proof (cases c)
  case (WithDecodeFormat f)
  then show ?thesis by (cases f) (auto simp: setter_defs)
qed (auto simp: setter_defs entry_eqs)

lemma apply_axes: "length (o_axes (apply_option d c oo)) = axes_given (length (o_axes oo)) c"
proof (cases c)
  case (WithDecodeFormat f)
  then show ?thesis by (cases f) (auto simp: setter_defs)
qed (auto simp: setter_defs entry_eqs)

lemma apply_options_present: "apply_options d cs oo = fold (apply_option d) (present cs) oo"
  by (induction d cs oo rule: apply_options.induct) auto

lemma all_errs: "o_errs (fold (apply_option d) cs oo) = o_errs oo @ all_faults (length (o_axes oo)) cs"
  by (induction cs arbitrary: oo) (simp_all add: apply_errs apply_axes)

section \<open>The value of each setting\<close>

text \<open>A single-valued setting has the value of the last option that sets it; the others append.\<close>

definition last_set :: "('c \<Rightarrow> 'v option) \<Rightarrow> 'v \<Rightarrow> 'c list \<Rightarrow> 'v" where
  "last_set f v cs = fold (\<lambda>c v. case f c of None \<Rightarrow> v | Some w \<Rightarrow> w) cs v"

lemma last_set_simps [simp]: "last_set f v [] = v" "last_set f v (c # cs) = last_set f (case f c of None \<Rightarrow> v | Some w \<Rightarrow> w) cs"
  by (simp_all add: last_set_def)

lemma last_set_fold:
  assumes "\<And>c oo. get (app c oo) = (case f c of None \<Rightarrow> get oo | Some w \<Rightarrow> w)"
  shows "get (fold app cs oo) = last_set f (get oo) cs"
  by (induction cs arbitrary: oo) (simp_all add: assms)

lemma append_fold:
  assumes "\<And>c oo. get (app c oo) = get oo @ f c"
  shows "get (fold app cs oo) = get oo @ concat (map f cs)"
  by (induction cs arbitrary: oo) (simp_all add: assms)

definition set_dir :: "('p, 'f, 't) option_call \<Rightarrow> string option" where
  "set_dir c = (case c of WithDir s \<Rightarrow> Some s | _ \<Rightarrow> None)"
definition set_match :: "('p, 'f, 't) option_call \<Rightarrow> string option" where
  "set_match c = (case c of WithProfile p \<Rightarrow> Some (pc_match p) | _ \<Rightarrow> None)"
definition set_history :: "('p, 'f, 't) option_call \<Rightarrow> int option" where
  "set_history c = (case c of WithHistory n \<Rightarrow> if n < 0 then None else Some n | _ \<Rightarrow> None)"
definition set_windows :: "('p, 'f, 't) option_call \<Rightarrow> coalesce_opts option" where
  "set_windows c = (case c of WithWatch w \<Rightarrow> Some (override_windows w (apply_profile (wt_profile w))) | _ \<Rightarrow> None)"
definition set_yaml :: "('p, 'f, 't) option_call \<Rightarrow> bool option" where
  "set_yaml c = (case c of WithDecodeFormat DumpJSON \<Rightarrow> Some False | WithDecodeFormat DumpYAML \<Rightarrow> Some True | _ \<Rightarrow> None)"
definition given_providers :: "('p \<Rightarrow> provider_info option) \<Rightarrow> ('p, 'f, 't) option_call \<Rightarrow> ('p \<times> provider_info) list" where
  "given_providers d c = (case c of WithProvider ps \<Rightarrow> map (\<lambda>p. (p, describe_provider d p)) (present ps) | _ \<Rightarrow> [])"
definition given_transforms :: "('p, 'f, 't) option_call \<Rightarrow> 'f list" where
  "given_transforms c = (case c of WithTransform fs \<Rightarrow> present fs | _ \<Rightarrow> [])"
definition given_paths :: "('p, 'f, 't) option_call \<Rightarrow> string list" where
  "given_paths c = (case c of WithSecretPaths ps \<Rightarrow> ps | _ \<Rightarrow> [])"

lemmas setting_defs = set_dir_def set_match_def set_history_def set_windows_def set_yaml_def given_providers_def
  given_transforms_def given_paths_def

lemma apply_settings:
  "o_dir (apply_option d c oo) = (case set_dir c of None \<Rightarrow> o_dir oo | Some w \<Rightarrow> w)"
  "o_profile_match (apply_option d c oo) = (case set_match c of None \<Rightarrow> o_profile_match oo | Some w \<Rightarrow> w)"
  "o_history (apply_option d c oo) = (case set_history c of None \<Rightarrow> o_history oo | Some w \<Rightarrow> w)"
  "o_windows (apply_option d c oo) = (case set_windows c of None \<Rightarrow> o_windows oo | Some w \<Rightarrow> w)"
  "o_yaml (apply_option d c oo) = (case set_yaml c of None \<Rightarrow> o_yaml oo | Some w \<Rightarrow> w)"
  "o_providers (apply_option d c oo) = o_providers oo @ given_providers d c"
  "o_transforms (apply_option d c oo) = o_transforms oo @ given_transforms c"
  "o_secret_paths (apply_option d c oo) = o_secret_paths oo @ given_paths c"
  by (cases c; auto simp: setter_defs setting_defs entry_eqs split: dump_format.splits)+

lemma resolve_iff:
  "resolve_options d cs = Inr oo \<longleftrightarrow>
     (let o1 = fold (apply_option d) (present cs) default_options in
      oo = (if o_timeout o1 = 0 then o1\<lparr>o_timeout := default_observer_timeout\<rparr> else o1) \<and> o_errs o1 = [] \<and>
      (o_profile_match o1 = '''' \<or> (\<exists>c. compile_profile (o_profile_match o1) = Inr c)))"
  by (auto simp: resolve_options_def Let_def apply_options_present split: sum.splits)

lemma resolved_fields:
  assumes "resolve_options d cs = Inr oo"
  obtains o1 n where "o1 = fold (apply_option d) (present cs) default_options" "o_errs o1 = []" "oo = o1\<lparr>o_timeout := n\<rparr>" "n \<noteq> 0"
proof -
  define o1 where "o1 = fold (apply_option d) (present cs) default_options"
  have "o_errs o1 = []" "oo = (if o_timeout o1 = 0 then o1\<lparr>o_timeout := default_observer_timeout\<rparr> else o1)"
    using assms by (auto simp: resolve_iff Let_def o1_def)
  then show thesis
    using that [OF o1_def, of "if o_timeout o1 = 0 then default_observer_timeout else o_timeout o1"]
    by (simp add: default_observer_timeout_def split: if_splits)
qed

lemma default_fields:
  "o_dir default_options = ''conf.d''" "o_profile_match default_options = ''''" "o_history default_options = 0"
  "o_windows default_options = apply_profile 0" "o_yaml default_options = False" "o_providers default_options = []"
  "o_transforms default_options = []" "o_secret_paths default_options = []"
  by (simp_all add: default_options_def default_dir_def)

text \<open>Whatever options are given, in whatever order: once they resolve, the overlay axes fit their band of priorities, the
  history has a capacity, profile names are trimmed and not empty, every window of the file watcher is positive, each merge
  path has one key, observers have a deadline or none by choice, and the profile expression compiles.\<close>

theorem resolved_options_ok:
  assumes "resolve_options d cs = Inr oo"
  shows "int (length (o_axes oo)) \<le> (band_file_end - band_axis) div overlay_stride \<and> 0 \<le> o_history oo \<and>
    (\<forall>n \<in> set (o_profile_names oo). n \<noteq> '''' \<and> trim_space n = n) \<and>
    0 < cq_quiet (o_windows oo) \<and> 0 < cq_max_lag (o_windows oo) \<and> 0 < cq_swap_hint (o_windows oo) \<and>
    distinct (keys (o_merge_keys oo)) \<and> o_timeout oo \<noteq> 0 \<and>
    (o_profile_match oo = '''' \<or> (\<exists>c. compile_profile (o_profile_match oo) = Inr c))"
proof -
  obtain o1 n where o1: "o1 = fold (apply_option d) (present cs) default_options" and oo: "oo = o1\<lparr>o_timeout := n\<rparr>" and n: "n \<noteq> 0"
    using resolved_fields [OF assms] by metis
  have "options_ok o1" using options_ok_all [OF options_ok_default, of d cs] by (simp add: o1 apply_options_present)
  then have "options_ok oo" by (simp add: options_ok_def oo)
  moreover have "o_profile_match oo = '''' \<or> (\<exists>c. compile_profile (o_profile_match oo) = Inr c)"
    using assms by (auto simp: resolve_iff Let_def)
  moreover have "o_timeout oo \<noteq> 0" using n by (simp add: oo)
  ultimately show ?thesis unfolding options_ok_def max_axes_def by (elim conjE) (intro conjI; assumption)
qed

theorem resolved_options_ok_witness:
  "\<exists>oo :: (nat, nat, nat) options. resolve_options (\<lambda>_. None) [Some (WithHistory 3), None, Some (WithMergeKeys [(''a'', ''id'')])] = Inr oo \<and>
     0 \<le> o_history oo \<and> distinct (keys (o_merge_keys oo))"
proof -
  have "\<exists>oo :: (nat, nat, nat) options. resolve_options (\<lambda>_. None) [Some (WithHistory 3), None, Some (WithMergeKeys [(''a'', ''id'')])] = Inr oo"
    by (simp add: resolve_iff Let_def setter_defs default_options_def)
  then show ?thesis using resolved_options_ok by blast
qed

text \<open>Resolving options reports every faulty one, in order, and only those; without one the resolution fails only for a profile
  expression that does not compile. The last expression given is the one that counts.\<close>

theorem resolve_fails_exactly:
  "(resolve_options d cs = Inl (OptionErrors es) \<longleftrightarrow> es = all_faults 0 (present cs) \<and> es \<noteq> []) \<and>
   ((\<exists>oo. resolve_options d cs = Inr oo) \<longleftrightarrow> all_faults 0 (present cs) = [] \<and>
     (let expr = last_set set_match '''' (present cs) in expr = '''' \<or> (\<exists>c. compile_profile expr = Inr c)))"
proof -
  let ?o1 = "fold (apply_option d) (present cs) default_options"
  have "o_errs ?o1 = all_faults 0 (present cs)" by (simp add: all_errs default_options_def)
  moreover have "o_profile_match ?o1 = last_set set_match '''' (present cs)"
    by (simp add: last_set_fold [of o_profile_match "apply_option d", OF apply_settings(2)] default_fields)
  ultimately show ?thesis
    by (auto simp: resolve_options_def Let_def apply_options_present split: sum.splits)
qed

text \<open>Later options override earlier ones and lists accumulate in the order of the calls; nil options and nil entries
  count as absent.\<close>

theorem later_options_win:
  assumes "resolve_options d cs = Inr oo"
  shows "o_dir oo = last_set set_dir ''conf.d'' (present cs) \<and> o_history oo = last_set set_history 0 (present cs) \<and>
    o_windows oo = last_set set_windows (apply_profile 0) (present cs) \<and> o_yaml oo = last_set set_yaml False (present cs) \<and>
    o_providers oo = concat (map (given_providers d) (present cs)) \<and>
    o_transforms oo = concat (map given_transforms (present cs)) \<and> o_secret_paths oo = concat (map given_paths (present cs))"
proof -
  obtain o1 n where o1: "o1 = fold (apply_option d) (present cs) default_options" and oo: "oo = o1\<lparr>o_timeout := n\<rparr>"
    using resolved_fields [OF assms] by metis
  have "o_dir o1 = last_set set_dir ''conf.d'' (present cs) \<and> o_history o1 = last_set set_history 0 (present cs) \<and>
      o_windows o1 = last_set set_windows (apply_profile 0) (present cs) \<and> o_yaml o1 = last_set set_yaml False (present cs)"
    by (simp add: o1 default_fields last_set_fold [of o_dir "apply_option d", OF apply_settings(1)]
      last_set_fold [of o_history "apply_option d", OF apply_settings(3)]
      last_set_fold [of o_windows "apply_option d", OF apply_settings(4)]
      last_set_fold [of o_yaml "apply_option d", OF apply_settings(5)])
  moreover have "o_providers o1 = concat (map (given_providers d) (present cs)) \<and>
      o_transforms o1 = concat (map given_transforms (present cs)) \<and> o_secret_paths o1 = concat (map given_paths (present cs))"
    by (simp add: o1 default_fields append_fold [of o_providers "apply_option d", OF apply_settings(6)]
      append_fold [of o_transforms "apply_option d", OF apply_settings(7)]
      append_fold [of o_secret_paths "apply_option d", OF apply_settings(8)])
  ultimately show ?thesis by (simp add: oo)
qed

theorem later_options_win_witness:
  "\<exists>oo :: (nat, nat, nat) options. resolve_options (\<lambda>p. Some (int p, [])) [Some (WithDir ''a''), Some (WithProvider [Some 2, None, Some 1]), Some (WithDir ''b'')] = Inr oo \<and>
     o_dir oo = ''b'' \<and> o_providers oo = [(2, 2, []), (1, 1, [])]"
proof -
  have "\<exists>oo :: (nat, nat, nat) options. resolve_options (\<lambda>p. Some (int p, [])) [Some (WithDir ''a''), Some (WithProvider [Some 2, None, Some 1]), Some (WithDir ''b'')] = Inr oo"
    by (simp add: resolve_iff Let_def setter_defs entry_eqs default_options_def)
  then obtain oo :: "(nat, nat, nat) options" where
    oo: "resolve_options (\<lambda>p. Some (int p, [])) [Some (WithDir ''a''), Some (WithProvider [Some 2, None, Some 1]), Some (WithDir ''b'')] = Inr oo" by blast
  show ?thesis using later_options_win [OF oo] oo by (auto simp: setting_defs describe_provider_def)
qed

text \<open>Once the types are checked, no registered validator meets a target of another type.\<close>

lemma validators_fit:
  assumes "resolve_options d cs = Inr oo" "check_typed_options want oo = None" "v \<in> set (o_validators oo)"
  shows "run_validator call v (want, x) \<noteq> NotOfType"
proof -
  obtain o1 n where o1: "o1 = fold (apply_option d) (present cs) default_options" and oo: "oo = o1\<lparr>o_timeout := n\<rparr>"
    using resolved_fields [OF assms(1)] by metis
  have "options_ok o1" using options_ok_all [OF options_ok_default, of d cs] by (simp add: o1 apply_options_present)
  then have "fst v \<in> set (o_types oo)" using assms(3) by (auto simp: options_ok_def oo)
  then have "fst v = want" using assms(2) by (auto simp: check_typed_options_def list_ex_iff split: if_splits)
  then show ?thesis by (simp add: run_validator_def)
qed

end
