(* ===== verification/Spec2Isabelle.thy ===== *)
theory Spec2Isabelle
  imports Envs Transform Feature Watch Hooks Sources Resume Notify Consul Vault Generate Settings Construct Manager
begin

text \<open>
  A verification development of fastconf, a Go library that loads, merges, decodes and reloads layered configuration.

  \<^bold>\<open>The program.\<close> A reload gathers layers: files below \<open>conf.d\<close> (base, profile overlays, axes, patches), generators,
  providers and one-shot overrides. Each is decoded into a tree; the trees are merged in the order of class and
  priority, a layer of patch type being applied as RFC 6902 JSON Patch; every write is recorded in a provenance index.
  The merged tree runs through stages (transforms, secret references, typed hooks, decoding into the user's type,
  defaults, field constraints, validators, policies, hash). If all succeed, the single writer goroutine publishes a new
  snapshot, tells subscribers and appends it to the history ring. File events (coalesced per directory), provider events
  and callers feed the writer's queue; readers see immutable snapshots, whose secrets the views mask.

  \<^bold>\<open>Theories and sources\<close> (paths below \<open>src/\<close>).
  \<^item> \<open>Prelude\<close>: Go maps as association lists (the order of entries is the order in which one \<open>range\<close> visits them),
    strings, decimal integers, and the locale \<open>evict_oldest\<close> of bounded queues, which the history ring, the layer cache
    and the error channel interpret.
  \<^item> \<open>Value\<close>: the dynamic values (\<open>any\<close>): nil, scalars with their Go type, maps and slices, where a nil container and
    an empty one differ. \<open>Merge\<close>: \<open>confmap/deep.go\<close>. \<open>Paths\<close>: \<open>confmap/path.go\<close>, an interpretation of the locale
    \<open>path_store\<close>. \<open>Patch\<close>: \<open>confmap/patch.go\<close>. \<open>Labels\<close>: \<open>confmap/coerce.go\<close>, \<open>labels.go\<close>, \<open>providers/labels\<close>.
  \<^item> \<open>Envs\<close>: \<open>providers/env\<close>, \<open>providers/dotenv\<close>, \<open>internal/providerutil\<close>. \<open>Sources\<close>: \<open>providers/k8s\<close>, \<open>source\<close> and \<open>cliflag\<close>.
    \<open>Transform\<close>: \<open>transform/\<close>. \<open>Feature\<close>: \<open>feature/\<close>.
  \<^item> \<open>Codec\<close>: \<open>codec/\<close> registry and decoders. \<open>Profiles\<close>: \<open>internal/scan/profile_expr.go\<close>. \<open>Scan\<close>: the rest of
    \<open>internal/scan\<close> and \<open>contracts/body.go\<close>; the file system is a record of functions.
  \<^item> \<open>Provenance\<close>: \<open>internal/provenance\<close>. \<open>History\<close>: \<open>history.go\<close>, \<open>layer_cache.go\<close>. \<open>Assemble\<close>: \<open>assemble.go\<close>,
    \<open>input_fingerprint.go\<close> and the merge stage.
  \<^item> \<open>Types\<close>, \<open>FieldMeta\<close>: \<open>internal/typeinfo\<close>, over a finite table of Go types. \<open>Hooks\<close>: the typed hooks of \<open>codec/\<close>, whose plan
    follows the types and whose application rewrites the tree before it is decoded.
    \<open>Secret\<close>: \<open>internal/secret\<close>. \<open>Diff\<close>: \<open>diff.go\<close>, \<open>dump.go\<close> and the views of \<open>state.go\<close>.
  \<^item> \<open>Pipeline\<close>: \<open>stages.go\<close>, \<open>pipeline.go\<close>, \<open>policy/\<close>, with a flag that says whether the run is a plan.
    \<open>Manager\<close>: \<open>manager.go\<close>, \<open>commit.go\<close>, \<open>reload.go\<close>, \<open>reload_queue.go\<close>, \<open>plan.go\<close>, \<open>subscribe.go\<close>, as a step
    relation over the published state, the queue, the callers and the bounded channels.
  \<^item> \<open>Watch\<close>: \<open>internal/coalesce\<close>, \<open>internal/watcher\<close>, \<open>file_watch.go\<close>, with the clock and the armed timers in the
    state. \<open>Resume\<close>: \<open>provider_watch.go\<close>, a step relation beside \<open>Manager\<close>'s that keeps one
    provider subscribed.
  \<^item> \<open>Notify\<close>: the consumers of \<open>integrations/notify\<close> and \<open>providers/s3/s3events\<close>; the three consumers are
    interpretations of the locale \<open>refresh_before_ack\<close>.
  \<^item> \<open>Polling\<close>: the locale \<open>change_signal\<close>, the contract of a provider that is polled, and \<open>providers/http\<close>; \<open>Consul\<close> and
    \<open>Vault\<close>: \<open>providers/consul\<close> and \<open>providers/vault\<close>. All three interpret it.
  \<^item> \<open>Generate\<close>: \<open>cmd/fastconfgen\<close>, Go struct types from a sample.
  \<^item> \<open>Settings\<close>: \<open>providers/azappconfig\<close> and \<open>providers/parameterstore\<close>, over the pages the services answer with; the locale
    \<open>collector\<close> is the contract of one step of their loops, which both interpret.
  \<^item> \<open>Construct\<close>: \<open>options.go\<close> and \<open>options_resolve.go\<close>, every option as a function on the record of options.

  \<^bold>\<open>What is shown.\<close>
  \<^item> Merging: \<open>Deep\<close> does not depend on the order in which maps are visited, refines the overlay of Go values
    (\<open>merge_refines_overlay\<close>), under any options a later layer wins at every path where it holds a leaf, lists aligned by key keep
    their order; patches never panic, index lists exactly within their bounds and undo as RFC 6902 says; the path operations
    satisfy the laws of a store.
  \<^item> Sources: expansion, quoting, substitution and profile expressions against what they are documented to mean;
    scans read complete files and give strictly increasing priorities; caches are transparent.
  \<^item> A reload: the assembled layers are those offered, in order and stable, an override wins over patches and under any merge
    options, with the default options and without patches \<open>Explain\<close> names the layer whose value is in the document, equal
    fingerprints mean equal inputs unless SHA-256 collides on them, secrets are resolved and attributed, a plan predicts the
    reload with the same inputs.
  \<^item> The writer: invariants of every reachable state by rule induction (numbering of snapshots, callers answered once,
    bounds of the channels), failure leaves the published side alone, and the queue progresses within three writer steps.
  \<^item> Views: diffs are sound, complete and sorted; masks cover every secret that a tag, an opaque type or a pattern names, in
    \<open>Explain\<close> for the plan compiled from a type with tidy tags (two untidy types that leak are shown).
  \<^item> Types: the reflective queries against rules stated over all paths into a type, without the algorithm; constraints and
    defaults against the meaning of the tag text; the memoised and pruned hook plan rewrites a document as the plain walk
    over the type does.
  \<^item> Events: a notification is acknowledged only directly after a refresh for it that succeeded in time, a provider resumes after
    the last revision it sent, no change a poll sees is lost before a load accepts it, file events lead to a reload within
    the documented delays, and a cached HTTP load is a fresh one but for a changed type of an unchanged body.
  \<^item> Settings and options: a tree built from a listing has exactly the listed strings whatever their order and pages; options that
    resolve satisfy the bounds the rest relies on, and every faulty one is reported.

  \<^bold>\<open>Bounds and fuel.\<close> Recursion over trees ends by their size. Fuel appears where the Go recursion is not structural, and each
  time a lemma shows that more never matters: the profile parser gets a multiple of the input's length
  (\<open>profile_parse_roundtrip\<close> includes that compilation ends); the test of a path against a type uses
  \<open>2 * length path + 2\<close> (\<open>path_fuel\<close>), \<open>Reaches\<close> the number of types in the closed universe of the table plus one
  (\<open>reaches_spec\<close>); the field walk has the code's own depth limit of 256; applying and
  assigning a hook plan get the height of the document plus one (\<open>hook_plan_exact\<close>), the struct generator the depth of the
  sample (\<open>emit_ok\<close>). Machine integers keep their width: generations are
  \<open>64 word\<close>, durations of the retry delay wrap, priorities are checked against their bands.

  \<^bold>\<open>Arguments of the model.\<close> Parsers and printers of JSON, YAML, TOML and floating point, SHA-256, regular expressions, the
  file system, the clock, the environment, fsnotify and all user code (providers, hooks, validators, policies,
  subscribers) are functions the definitions take. A property that needs a law of one of them names it as a hypothesis.

  \<^bold>\<open>Not modelled.\<close> Clients of cloud services and of the network (\<open>providers/s3\<close>, \<open>gcs\<close>, \<open>azblob\<close>, \<open>appconfig\<close>,
  \<open>secretmanager\<close>): requests through vendor
  libraries. The other commands below \<open>cmd/\<close>, examples and benchmarks: input, output and glue. Logging and tracing
  (\<open>integrations/log\<close>, \<open>observability\<close>, \<open>internal/obs\<close>): no effect on the configuration. CUE and OPA policies and the
  validator bridge call third-party engines. The manifest lists each with its reason.
\<close>

end
